(* ===== verification/Kernel_Prelude.thy ===== *)
theory Kernel_Prelude
  imports Main "HOL-Library.Word"
begin

text \<open>
  The vocabulary every component shares: the machine integers of the C code, the errors that
  stop the kernel, the result type of a kernel operation and its sequencing.

  A kernel operation that may stop has the result type \<open>'a kres\<close>:
  \<^item> \<open>None\<close>: the code does not return, because one of its loops never ends;
  \<^item> \<open>Some (Inl e)\<close>: the code stops with the error \<open>e\<close>. Either an \<open>ASSERT\<close> failed, and
    \<open>error_point\<close> of \<open>kernel/assert.c\<close> has called \<open>panic\<close>, which spins for ever, or the
    code has done something the C standard leaves undefined;
  \<^item> \<open>Some (Inr x)\<close>: the code returns \<open>x\<close>.
\<close>

text \<open>
  \<open>kmem_frame\<close> collects, for the operations on memory, that they leave the fields beyond the memory
  alone, \<open>core_frame\<close>, for the drivers and the file system too, that they leave the processes and the
  open files alone.
\<close>

named_theorems kmem_frame

named_theorems core_frame

section \<open>Machine integers\<close>

type_synonym u8 = "8 word"
type_synonym u16 = "16 word"
type_synonym u32 = "32 word"
type_synonym u64 = "64 word"

section \<open>Errors and results\<close>

text \<open>
  \<open>Assert_failed f l\<close> carries the file and the line that \<open>ASSERT\<close> passes to
  \<open>error_point\<close>; the other errors name the undefined behaviour.
\<close>

datatype kerror =
    Assert_failed string nat
  | Null_dereference
  | Out_of_bounds
  | Bad_argument
  | Page_fault
  | Divide_error
  | Signed_overflow
  | Kernel_exception nat

type_synonym 'a kres = "(kerror + 'a) option"

abbreviation ret :: "'a \<Rightarrow> 'a kres" where
  "ret x \<equiv> Some (Inr x)"

abbreviation fails :: "kerror \<Rightarrow> 'a kres" where
  "fails e \<equiv> Some (Inl e)"

abbreviation diverges :: "'a kres" where
  "diverges \<equiv> None"

text \<open>Sequencing: the rest runs only when the first part returns.\<close>

definition andthen :: "'a kres \<Rightarrow> ('a \<Rightarrow> 'b kres) \<Rightarrow> 'b kres" where
  "andthen m f = (case m of None \<Rightarrow> None
                  | Some r \<Rightarrow> (case r of Inl e \<Rightarrow> Some (Inl e) | Inr x \<Rightarrow> f x))"

text \<open>A \<open>for\<close> loop over a list of values: the body runs once for each of them, in order.\<close>

primrec for_each :: "('a \<Rightarrow> 's \<Rightarrow> 's kres) \<Rightarrow> 'a list \<Rightarrow> 's \<Rightarrow> 's kres" where
  "for_each body [] s = ret s"
| "for_each body (x # xs) s = andthen (body x s) (\<lambda>s'. for_each body xs s')"

text \<open>\<open>ASSERT(exp)\<close> of \<open>kernel/assert.h\<close>, with the position it reports.\<close>

definition ASSERT :: "bool \<Rightarrow> string \<Rightarrow> nat \<Rightarrow> unit kres" where
  "ASSERT b file line = (if b then ret () else fails (Assert_failed file line))"

text \<open>A check of the model on what the C standard requires of the program.\<close>

definition demand :: "bool \<Rightarrow> kerror \<Rightarrow> unit kres" where
  "demand b e = (if b then ret () else fails e)"

text \<open>A pointer dereference: a null pointer stops the code.\<close>

definition deref :: "'a option \<Rightarrow> 'a kres" where
  "deref p = (case p of None \<Rightarrow> fails Null_dereference | Some x \<Rightarrow> ret x)"

lemma andthen_simps [simp]:
  "andthen diverges f = diverges"
  "andthen (fails e) f = fails e"
  "andthen (ret x) f = f x"
  by (simp_all add: andthen_def)

lemma andthen_eq_ret [iff]:
  "andthen m f = ret y \<longleftrightarrow> (\<exists>x. m = ret x \<and> f x = ret y)"
  by (auto simp: andthen_def split: option.splits sum.splits)

lemma andthen_assoc: "andthen (andthen m f) g = andthen m (\<lambda>x. andthen (f x) g)"
  by (auto simp: andthen_def split: option.splits sum.splits)

lemma ASSERT_eq_ret [iff]: "ASSERT b f l = ret u \<longleftrightarrow> b"
  by (simp add: ASSERT_def)

lemma ASSERT_True [simp]: "b \<Longrightarrow> ASSERT b f l = ret ()"
  by (simp add: ASSERT_def)

lemma ASSERT_False [simp]: "\<not> b \<Longrightarrow> ASSERT b f l = fails (Assert_failed f l)"
  by (simp add: ASSERT_def)

lemma demand_eq_ret [iff]: "demand b e = ret u \<longleftrightarrow> b"
  by (simp add: demand_def)

lemma demand_True [simp]: "b \<Longrightarrow> demand b e = ret ()"
  by (simp add: demand_def)

lemma demand_False [simp]: "\<not> b \<Longrightarrow> demand b e = fails e"
  by (simp add: demand_def)

lemma deref_simps [simp]:
  "deref None = fails Null_dereference"
  "deref (Some x) = ret x"
  by (simp_all add: deref_def)

lemma deref_eq_ret [iff]: "deref p = ret x \<longleftrightarrow> p = Some x"
  by (cases p) auto

text \<open>Sequencing is monotone, so loops over \<^typ>\<open>'a kres\<close> are partial functions.\<close>

lemma andthen_bind: "andthen m k = Option.bind m (case_sum (\<lambda>e. Some (Inl e)) k)"
  by (cases m) (auto simp: andthen_def)

lemma andthen_mono [partial_function_mono]:
  assumes "mono_option B" and "\<And>y. mono_option (\<lambda>f. C y f)"
  shows "mono_option (\<lambda>f. andthen (B f) (\<lambda>y. C y f))"
proof -
  have "mono_option (\<lambda>f. case_sum (\<lambda>e. Some (Inl e)) (\<lambda>y. C y f) r)" for r
    using assms(2) by (cases r) (auto intro: partial_function_mono)
  then show ?thesis
    unfolding andthen_bind by (rule bind_mono [OF assms(1)])
qed

section \<open>Lists\<close>

lemma distinct_split_unique:
  "xs @ x # ys = us @ x # vs \<Longrightarrow> distinct (xs @ x # ys) \<Longrightarrow> xs = us \<and> ys = vs"
proof (induction xs arbitrary: us)
  case Nil
  then show ?case by (cases us) auto
next
  case (Cons a xs)
  then show ?case by (cases us) auto
qed

lemma takeWhile_dropWhile_first:
  "x \<in> set xs \<Longrightarrow> P x \<Longrightarrow> \<exists>y. P y \<and> xs = takeWhile (\<lambda>z. \<not> P z) xs @ y # tl (dropWhile (\<lambda>z. \<not> P z) xs)"
proof (induction xs)
  case Nil
  then show ?case by simp
next
  case (Cons a xs)
  then show ?case by (cases "P a") auto
qed

lemma sum_list_update_nat:
  fixes f :: "'a \<Rightarrow> nat"
  assumes "i < length xs"
  shows "sum_list (map f (xs[i := y])) + f (xs ! i) = sum_list (map f xs) + f y"
  using assms
proof (induction xs arbitrary: i)
  case Nil
  then show ?case by simp
next
  case (Cons x xs)
  then show ?case by (cases i) (auto simp: algebra_simps)
qed

section \<open>Words\<close>

lemma unat_lt2p: "unat (x :: 'w::len word) < 2 ^ LENGTH('w)"
  by (rule unsigned_less)

lemma unat_diff_add: "unat ((a + of_nat k) - a :: 'w::len word) = k mod 2 ^ LENGTH('w)"
  by (simp add: unat_of_nat)

lemma unat_plus_le:
  fixes a b :: "'w::len word"
  assumes "unat a + unat b < 2 ^ LENGTH('w)"
  shows "unat (a + b) = unat a + unat b"
  using assms by (simp add: unat_word_ariths)

lemma unat_of_nat_less: "k < 2 ^ LENGTH('w) \<Longrightarrow> unat (of_nat k :: 'w::len word) = k"
  by (simp add: unat_of_nat)

lemma of_nat_eq_small:
  assumes "i < 2 ^ LENGTH('w)" "j < 2 ^ LENGTH('w)"
  shows "(of_nat i :: 'w::len word) = of_nat j \<longleftrightarrow> i = j"
  using assms by (metis unat_of_nat_less)

end
