(* ===== verification/Byte_Memory.thy ===== *)
theory Byte_Memory
  imports Kernel_Prelude
begin

text \<open>
  The memory the C code reads and writes through pointers: one byte per 64-bit address, with
  the little-endian loads and stores of x86-64. An object of \<open>n\<close> bytes at \<open>a\<close> occupies
  \<open>span a n\<close>; a store changes its own span only, which is what the proofs about page tables,
  the free list and the screen rest on. Address arithmetic wraps at \<open>2 ^ 64\<close>, as in the code.
\<close>

type_synonym memory = "u64 \<Rightarrow> u8"

section \<open>Little-endian numbers\<close>

primrec le_bytes :: "nat \<Rightarrow> nat \<Rightarrow> u8 list" where
  "le_bytes 0 v = []"
| "le_bytes (Suc n) v = of_nat v # le_bytes n (v div 256)"

primrec le_nat :: "u8 list \<Rightarrow> nat" where
  "le_nat [] = 0"
| "le_nat (b # bs) = unat b + 256 * le_nat bs"

lemma length_le_bytes [simp]: "length (le_bytes n v) = n"
  by (induction n arbitrary: v) auto

lemma le_nat_le_bytes [simp]: "le_nat (le_bytes n v) = v mod 256 ^ n"
proof (induction n arbitrary: v)
  case 0
  then show ?case by simp
next
  case (Suc n)
  have "le_nat (le_bytes (Suc n) v) = v mod 256 + 256 * ((v div 256) mod 256 ^ n)"
    using Suc.IH by (simp add: unat_of_nat)
  then show ?case by (simp add: mod_mult2_eq mult.commute)
qed

lemma le_nat_less: "le_nat bs < 256 ^ length bs"
proof (induction bs)
  case Nil
  then show ?case by simp
next
  case (Cons b bs)
  have "unat b < 256" using unat_lt2p [of b] by simp
  then show ?case using Cons.IH by simp
qed

lemma le_bytes_le_nat [simp]: "le_bytes (length bs) (le_nat bs) = bs"
proof (induction bs)
  case Nil
  then show ?case by simp
next
  case (Cons b bs)
  have "unat b < 256" using unat_lt2p [of b] by simp
  moreover have "(of_nat (unat b + 256 * le_nat bs) :: u8) = b"
    by (rule word_unat_eq_iff [THEN iffD2]) (simp only: unat_of_nat, use calculation in simp)
  ultimately show ?case using Cons.IH by simp
qed

section \<open>Spans of addresses\<close>

definition span :: "u64 \<Rightarrow> nat \<Rightarrow> u64 set" where
  "span a n = {x. unat (x - a) < n}"

lemma span_0 [simp]: "span a 0 = {}"
  by (simp add: span_def)

lemma mem_span: "x \<in> span a n \<longleftrightarrow> unat (x - a) < n"
  by (simp add: span_def)

lemma add_in_span [simp]: "i < n \<Longrightarrow> n \<le> 2 ^ 64 \<Longrightarrow> a + of_nat i \<in> span a n"
  by (simp add: span_def unat_of_nat)

lemma in_spanE:
  assumes "x \<in> span a n"
  obtains i where "i < n" and "x = a + of_nat i"
proof
  show "unat (x - a) < n" using assms by (simp add: span_def)
  show "x = a + of_nat (unat (x - a))" by simp
qed

lemma span_subset:
  assumes "i + k \<le> n" "n \<le> 2 ^ 64"
  shows "span (a + of_nat i) k \<subseteq> span a n"
proof
  fix x
  assume "x \<in> span (a + of_nat i) k"
  then obtain j where j: "j < k" "x = a + of_nat i + of_nat j" by (rule in_spanE)
  then have "x = a + of_nat (i + j)" by (simp add: add.assoc)
  then show "x \<in> span a n" using j assms by (metis add_in_span add_less_cancel_left order_less_le_trans)
qed

lemma span_disjoint_subset:
  assumes "span a n \<inter> span b l = {}" "i + k \<le> n" "n \<le> 2 ^ 64" "j + q \<le> l" "l \<le> 2 ^ 64"
  shows "span (a + of_nat i) k \<inter> span (b + of_nat j) q = {}"
  using assms span_subset [of i k n a] span_subset [of j q l b] by blast

lemma span_offsets_disjoint:
  assumes "i + k \<le> j \<or> j + q \<le> i" "i + k \<le> 2 ^ 64" "j + q \<le> 2 ^ 64"
  shows "span (a + of_nat i) k \<inter> span (a + of_nat j) q = {}"
proof -
  have False if "r < k" "t < q" "a + of_nat i + of_nat r = a + of_nat j + of_nat t" for r t
  proof -
    from that(3) have "(of_nat (i + r) :: u64) = of_nat (j + t)" by (simp add: add.assoc)
    then have "unat (of_nat (i + r) :: u64) = unat (of_nat (j + t) :: u64)" by (rule arg_cong)
    moreover have "i + r < 2 ^ LENGTH(64)" "j + t < 2 ^ LENGTH(64)" using that assms by simp_all
    ultimately have "i + r = j + t" by (simp only: unat_of_nat_less)
    then show False using that assms by linarith
  qed
  then show ?thesis by (auto elim!: in_spanE)
qed

subsection \<open>Aligned blocks\<close>

definition aligned :: "nat \<Rightarrow> u64 \<Rightarrow> bool" where
  "aligned k a \<longleftrightarrow> unat a mod 2 ^ k = 0"

lemma in_aligned_span:
  assumes "aligned k a" "k \<le> 64"
  shows "x \<in> span a (2 ^ k) \<longleftrightarrow> unat x div 2 ^ k = unat a div 2 ^ k"
proof
  assume "x \<in> span a (2 ^ k)"
  then obtain i where i: "i < 2 ^ k" "x = a + of_nat i" by (rule in_spanE)
  obtain q where q: "unat a = 2 ^ k * q" using assms(1) by (auto simp: aligned_def)
  have lt: "unat a < 2 ^ k * 2 ^ (64 - k)"
    using unat_lt2p [of a] assms(2) by (simp flip: power_add)
  have "q + 1 \<le> 2 ^ (64 - k)" using lt q by simp
  then have "2 ^ k * (q + 1) \<le> (2::nat) ^ k * 2 ^ (64 - k)" by (rule mult_le_mono2)
  then have b: "2 ^ k * q + 2 ^ k \<le> (2::nat) ^ 64" using assms(2) by (simp flip: power_add)
  then have "i < 2 ^ 64" using i by linarith
  have "unat x = unat a + i"
    using b q i \<open>i < 2 ^ 64\<close> by (subst i(2), subst unat_plus_le) (auto simp: unat_of_nat)
  then show "unat x div 2 ^ k = unat a div 2 ^ k" using q i by simp
next
  assume e: "unat x div 2 ^ k = unat a div 2 ^ k"
  have a: "unat a = 2 ^ k * (unat a div 2 ^ k)"
    using assms(1) by (auto simp: aligned_def)
  have x: "unat x = 2 ^ k * (unat x div 2 ^ k) + unat x mod 2 ^ k" by simp
  have x': "unat x = unat a + unat x mod 2 ^ k" using x e a by metis
  then have "unat a \<le> unat x" by (metis le_add1)
  then have "unat (x - a) = unat x - unat a" by (simp add: unat_sub word_le_nat_alt)
  also have "\<dots> = unat x mod 2 ^ k" using x' by (metis add_diff_cancel_left')
  also have "\<dots> < 2 ^ k" by simp
  finally show "x \<in> span a (2 ^ k)" by (simp add: span_def)
qed

lemma aligned_spans_disjoint:
  assumes "aligned k a" "aligned k b" "a \<noteq> b" "k \<le> 64"
  shows "span a (2 ^ k) \<inter> span b (2 ^ k) = {}"
proof (rule ccontr)
  assume "span a (2 ^ k) \<inter> span b (2 ^ k) \<noteq> {}"
  then obtain x where "x \<in> span a (2 ^ k)" "x \<in> span b (2 ^ k)" by blast
  then have "unat a div 2 ^ k = unat b div 2 ^ k"
    using assms by (simp add: in_aligned_span)
  then have "unat a = unat b"
    using assms(1,2) by (metis aligned_def mult_div_mod_eq add.right_neutral)
  then show False using assms(3) by (simp add: word_unat_eq_iff)
qed

section \<open>Reading and writing\<close>

definition read_bytes :: "memory \<Rightarrow> u64 \<Rightarrow> nat \<Rightarrow> u8 list" where
  "read_bytes m a n = map (\<lambda>i. m (a + of_nat i)) [0..<n]"

primrec write_bytes :: "memory \<Rightarrow> u64 \<Rightarrow> u8 list \<Rightarrow> memory" where
  "write_bytes m a [] = m"
| "write_bytes m a (b # bs) = write_bytes (m(a := b)) (a + 1) bs"

lemma length_read_bytes [simp]: "length (read_bytes m a n) = n"
  by (simp add: read_bytes_def)

lemma nth_read_bytes [simp]: "i < n \<Longrightarrow> read_bytes m a n ! i = m (a + of_nat i)"
  by (simp add: read_bytes_def)

lemma unat_diff_Suc:
  assumes "x \<noteq> (a :: u64)"
  shows "unat (x - a) = Suc (unat (x - (a + 1)))"
proof -
  have "x - (a + 1) = x - a - 1" by simp
  moreover have "x - a \<noteq> 0" using assms by simp
  ultimately show ?thesis by (metis Suc_pred' unat_gt_0 unat_minus_one)
qed

lemma write_bytes_apply:
  "length bs \<le> 2 ^ 64 \<Longrightarrow>
   write_bytes m a bs x = (if x \<in> span a (length bs) then bs ! unat (x - a) else m x)"
proof (induction bs arbitrary: m a)
  case Nil
  then show ?case by simp
next
  case (Cons b bs)
  note step = unat_diff_Suc [of x a]
  have last: "\<not> unat (a - (a + 1)) < length bs"
  proof -
    have "a - (a + 1) = - 1" by simp
    moreover have "unat (- 1 :: u64) = 2 ^ 64 - 1"
      by (simp add: unsigned_minus_1_eq_mask mask_eq_exp_minus_1)
    ultimately show ?thesis using Cons.prems by simp
  qed
  show ?case
  proof (cases "x = a")
    case True
    with Cons last show ?thesis by (simp add: span_def)
  next
    case False
    with Cons step show ?thesis by (simp add: span_def)
  qed
qed

lemma read_write_same [simp]:
  "length bs \<le> 2 ^ 64 \<Longrightarrow> read_bytes (write_bytes m a bs) a (length bs) = bs"
  by (rule nth_equalityI) (auto simp: write_bytes_apply unat_of_nat)

lemma read_bytes_cong:
  assumes "\<And>x. x \<in> span a n \<Longrightarrow> m x = m' x" "n \<le> 2 ^ 64"
  shows "read_bytes m a n = read_bytes m' a n"
  using assms by (intro nth_equalityI) auto

lemma read_write_other:
  assumes "span a n \<inter> span b (length bs) = {}" "n \<le> 2 ^ 64" "length bs \<le> 2 ^ 64"
  shows "read_bytes (write_bytes m b bs) a n = read_bytes m a n"
  using assms by (intro read_bytes_cong) (auto simp: write_bytes_apply)

definition load16 :: "memory \<Rightarrow> u64 \<Rightarrow> u16" where
  "load16 m a = of_nat (le_nat (read_bytes m a 2))"

definition load32 :: "memory \<Rightarrow> u64 \<Rightarrow> u32" where
  "load32 m a = of_nat (le_nat (read_bytes m a 4))"

definition load64 :: "memory \<Rightarrow> u64 \<Rightarrow> u64" where
  "load64 m a = of_nat (le_nat (read_bytes m a 8))"

definition store16 :: "memory \<Rightarrow> u64 \<Rightarrow> u16 \<Rightarrow> memory" where
  "store16 m a v = write_bytes m a (le_bytes 2 (unat v))"

definition store32 :: "memory \<Rightarrow> u64 \<Rightarrow> u32 \<Rightarrow> memory" where
  "store32 m a v = write_bytes m a (le_bytes 4 (unat v))"

definition store64 :: "memory \<Rightarrow> u64 \<Rightarrow> u64 \<Rightarrow> memory" where
  "store64 m a v = write_bytes m a (le_bytes 8 (unat v))"

lemma load_store_same [simp]:
  "load16 (store16 m a v) a = v"
  "load32 (store32 m a w) a = w"
  "load64 (store64 m a x) a = x"
proof -
  have rd: "read_bytes (write_bytes m a (le_bytes n k)) a n = le_bytes n k" if "n \<le> 8" for n k
    using read_write_same [of "le_bytes n k" m a] that by simp
  show "load16 (store16 m a v) a = v"
    using unat_lt2p [of v] by (simp add: load16_def store16_def rd)
  show "load32 (store32 m a w) a = w"
    using unat_lt2p [of w] by (simp add: load32_def store32_def rd)
  show "load64 (store64 m a x) a = x"
    using unat_lt2p [of x] by (simp add: load64_def store64_def rd)
qed

lemma store64_apply:
  "store64 m a v x = (if x \<in> span a 8 then le_bytes 8 (unat v) ! unat (x - a) else m x)"
  by (simp add: store64_def write_bytes_apply)

lemma store64_other: "x \<notin> span a 8 \<Longrightarrow> store64 m a v x = m x"
  by (simp add: store64_apply)

lemma load64_cong: "(\<And>x. x \<in> span a 8 \<Longrightarrow> m x = m' x) \<Longrightarrow> load64 m a = load64 m' a"
  unfolding load64_def using read_bytes_cong [of a 8 m m'] by simp

lemma load32_cong: "(\<And>x. x \<in> span a 4 \<Longrightarrow> m x = m' x) \<Longrightarrow> load32 m a = load32 m' a"
  unfolding load32_def using read_bytes_cong [of a 4 m m'] by simp

lemma load64_store64_other:
  "span a 8 \<inter> span b 8 = {} \<Longrightarrow> load64 (store64 m b v) a = load64 m a"
  by (rule load64_cong, rule store64_other) blast

lemma load64_store64_aligned:
  assumes "aligned 3 a" "aligned 3 b"
  shows "load64 (store64 m b v) a = (if a = b then v else load64 m a)"
proof (cases "a = b")
  case False
  then have "span a 8 \<inter> span b 8 = {}"
    using aligned_spans_disjoint [of 3 a b] assms by simp
  with False show ?thesis by (simp add: load64_store64_other)
qed simp

lemma load64_zero: "(\<And>x. x \<in> span a 8 \<Longrightarrow> m x = 0) \<Longrightarrow> load64 m a = 0"
proof -
  assume "\<And>x. x \<in> span a 8 \<Longrightarrow> m x = 0"
  then have "load64 m a = load64 (\<lambda>_. 0) a" by (rule load64_cong) simp
  also have "\<dots> = 0" by (simp add: load64_def read_bytes_def upt_rec)
  finally show ?thesis .
qed

section \<open>Bulk writes\<close>

text \<open>What a fill and a copy of a block leave behind, as functions of the address.\<close>

definition fill :: "memory \<Rightarrow> u64 \<Rightarrow> u8 \<Rightarrow> nat \<Rightarrow> memory" where
  "fill m a c n = (\<lambda>x. if unat (x - a) < n then c else m x)"

definition blit :: "memory \<Rightarrow> u64 \<Rightarrow> u64 \<Rightarrow> nat \<Rightarrow> memory" where
  "blit m d s n = (\<lambda>x. if unat (x - d) < n then m (s + (x - d)) else m x)"

lemma fill_apply: "fill m a c n x = (if x \<in> span a n then c else m x)"
  by (simp add: fill_def span_def)

lemma blit_apply: "blit m d s n x = (if x \<in> span d n then m (s + (x - d)) else m x)"
  by (simp add: blit_def span_def)

lemma fill_0 [simp]: "fill m a c 0 = m"
  by (simp add: fill_def)

lemma blit_0 [simp]: "blit m d s 0 = m"
  by (simp add: blit_def)

lemma fill_Suc:
  assumes "n < 2 ^ 64"
  shows "fill (m(a := c)) (a + 1) c n = fill m a c (Suc n)"
proof
  fix x
  show "fill (m(a := c)) (a + 1) c n x = fill m a c (Suc n) x"
    using unat_diff_Suc [of x a] by (cases "x = a") (auto simp: fill_def)
qed

lemma load64_fill_zero: "span a 8 \<subseteq> span b n \<Longrightarrow> load64 (fill m b 0 n) a = 0"
  by (rule load64_zero) (auto simp: fill_apply)

lemma load64_fill_other: "span a 8 \<inter> span b n = {} \<Longrightarrow> load64 (fill m b c n) a = load64 m a"
  by (rule load64_cong) (auto simp: fill_apply)

lemma load64_blit_other: "span a 8 \<inter> span d n = {} \<Longrightarrow> load64 (blit m d s n) a = load64 m a"
  by (rule load64_cong) (auto simp: blit_apply)

end
