(* ===== verification/C_String.thy ===== *)
theory C_String
  imports Byte_Memory
begin

unbundle bit_operations_syntax

text \<open>
  The C library of the kernel and of the user programs: \<open>libc/ctype.c\<close>, \<open>libc/string.c\<close> and
  \<open>libc/strings.c\<close>, translated loop by loop over the byte memory. \<open>int\<close> is a 32-bit word,
  \<open>size_t\<close> a 64-bit word, \<open>char\<close> a signed byte. Loops that a missing terminator would keep
  running for ever are partial functions: their result \<open>None\<close> is "does not return". The
  library's counters wrap as the unoptimised build of \<open>libc/Makefile\<close> makes them wrap.
\<close>

section \<open>libc/ctype.c\<close>

definition isupper :: "u32 \<Rightarrow> bool" where
  "isupper c \<longleftrightarrow> sint c \<ge> 65 \<and> sint c \<le> 90"

definition islower :: "u32 \<Rightarrow> bool" where
  "islower c \<longleftrightarrow> sint c \<ge> 97 \<and> sint c \<le> 122"

definition isdigit :: "u32 \<Rightarrow> bool" where
  "isdigit c \<longleftrightarrow> sint c \<ge> 48 \<and> sint c \<le> 57"

definition tolower :: "u32 \<Rightarrow> u32" where
  "tolower c = (if isupper c then c OR 0x20 else c)"

definition toupper :: "u32 \<Rightarrow> u32" where
  "toupper c = (if islower c then c AND NOT 0x20 else c)"

section \<open>libc/string.c\<close>

text \<open>
  \<open>memset\<close> compares an \<open>int\<close> counter with a \<open>size_t\<close>, so the counter is sign-extended. At \<open>-1\<close>
  it is the largest \<open>size_t\<close> and the test fails: the loop ends for every size.
\<close>

function memset_loop :: "memory \<Rightarrow> u64 \<Rightarrow> u8 \<Rightarrow> u64 \<Rightarrow> u32 \<Rightarrow> memory" where
  "memset_loop m p c sz i =
     (if scast i < sz then memset_loop (m(p + scast i := c)) p c sz (i + 1) else m)"
  by pat_completeness auto
termination
proof (relation "measure (\<lambda>(m, p, c, sz, i). 2 ^ 32 - unat i)")
  fix m :: memory and p :: u64 and c :: u8 and sz :: u64 and i :: u32
  assume "(scast i :: u64) < sz"
  moreover have "(scast (- 1 :: u32) :: u64) = - 1" by simp
  ultimately have "i \<noteq> - 1" using word_n1_ge [of sz] by (metis leD)
  then have "i + 1 \<noteq> 0" by (metis add_eq_0_iff2)
  then have "unat (i + 1) = Suc (unat i)" by (metis Suc_eq_plus1 unatSuc add.commute)
  moreover have "unat (i + 1) < 2 ^ 32" using unat_lt2p [of "i + 1"] by simp
  ultimately show "((m(p + scast i := c), p, c, sz, i + 1), m, p, c, sz, i)
      \<in> measure (\<lambda>(m, p, c, sz, i). 2 ^ 32 - unat i)" by simp
qed simp

declare memset_loop.simps [simp del]

definition memset :: "memory \<Rightarrow> u64 \<Rightarrow> u32 \<Rightarrow> u64 \<Rightarrow> memory" where
  "memset m p c sz = memset_loop m p (ucast c) sz 0"

primrec memcmp_loop :: "memory \<Rightarrow> u64 \<Rightarrow> u64 \<Rightarrow> nat \<Rightarrow> u8" where
  "memcmp_loop m su1 su2 0 = 0"
| "memcmp_loop m su1 su2 (Suc c) =
     (let res = m su1 - m su2
      in if res \<noteq> 0 then res else memcmp_loop m (su1 + 1) (su2 + 1) c)"

text \<open>\<open>res\<close> is a \<open>signed char\<close>: the difference is cut to eight bits, then widened to \<open>int\<close>.\<close>

definition memcmp :: "memory \<Rightarrow> u64 \<Rightarrow> u64 \<Rightarrow> u64 \<Rightarrow> u32" where
  "memcmp m p1 p2 c = scast (memcmp_loop m p1 p2 (unat c))"

primrec memcpy_loop :: "memory \<Rightarrow> u64 \<Rightarrow> u64 \<Rightarrow> nat \<Rightarrow> memory" where
  "memcpy_loop m dest src 0 = m"
| "memcpy_loop m dest src (Suc n) = memcpy_loop (m(dest := m src)) (dest + 1) (src + 1) n"

definition memcpy :: "memory \<Rightarrow> u64 \<Rightarrow> u64 \<Rightarrow> u64 \<Rightarrow> memory" where
  "memcpy m d s n = memcpy_loop m d s (unat n)"

primrec memmove_down :: "memory \<Rightarrow> u64 \<Rightarrow> u64 \<Rightarrow> nat \<Rightarrow> memory" where
  "memmove_down m dest src 0 = m"
| "memmove_down m dest src (Suc n) =
     memmove_down (m(dest - 1 := m (src - 1))) (dest - 1) (src - 1) n"

definition memmove :: "memory \<Rightarrow> u64 \<Rightarrow> u64 \<Rightarrow> u64 \<Rightarrow> memory" where
  "memmove m dest src n =
     (if dest < src then memcpy_loop m dest src (unat n)
      else memmove_down m (dest + n) (src + n) (unat n))"

partial_function (option) strlen_loop :: "memory \<Rightarrow> u64 \<Rightarrow> u64 \<Rightarrow> u64 option" where
  "strlen_loop m s i = (if m s \<noteq> 0 then strlen_loop m (s + 1) (i + 1) else Some i)"

definition strlen :: "memory \<Rightarrow> u64 \<Rightarrow> u64 option" where
  "strlen m s = strlen_loop m s 0"

primrec strnlen_loop :: "memory \<Rightarrow> u64 \<Rightarrow> nat \<Rightarrow> u64" where
  "strnlen_loop m sc 0 = sc"
| "strnlen_loop m sc (Suc count) = (if m sc \<noteq> 0 then strnlen_loop m (sc + 1) count else sc)"

definition strnlen :: "memory \<Rightarrow> u64 \<Rightarrow> u64 \<Rightarrow> u64" where
  "strnlen m s count = strnlen_loop m s (unat count) - s"

text \<open>The inner option of \<open>strchr\<close> is its result: \<open>None\<close> is the \<open>NULL\<close> pointer.\<close>

partial_function (option) strchr :: "memory \<Rightarrow> u64 \<Rightarrow> u32 \<Rightarrow> u64 option option" where
  "strchr m s c =
     (if m s \<noteq> ucast c then (if m s = 0 then Some None else strchr m (s + 1) c)
      else Some (Some s))"

partial_function (option) strcpy :: "memory \<Rightarrow> u64 \<Rightarrow> u64 \<Rightarrow> memory option" where
  "strcpy m d s =
     (let m' = m(d := m s) in if m' d \<noteq> 0 then strcpy m' (d + 1) (s + 1) else Some m')"

primrec strncmp_loop :: "memory \<Rightarrow> u64 \<Rightarrow> u64 \<Rightarrow> nat \<Rightarrow> u32" where
  "strncmp_loop m s1 s2 0 = 0"
| "strncmp_loop m s1 s2 (Suc c) =
     (let result = scast (m s1) - scast (m s2)
      in if result \<noteq> 0 \<or> m s1 = 0 then result
         else strncmp_loop m (s1 + 1) (s2 + 1) c)"

definition strncmp :: "memory \<Rightarrow> u64 \<Rightarrow> u64 \<Rightarrow> u32 \<Rightarrow> u32" where
  "strncmp m s1 s2 c = strncmp_loop m s1 s2 (unat c)"

text \<open>The copying loop of \<open>strncpy\<close> returns the memory and the final \<open>count\<close>.\<close>

primrec strncpy_loop :: "memory \<Rightarrow> u64 \<Rightarrow> u64 \<Rightarrow> nat \<Rightarrow> nat \<Rightarrow> memory \<times> nat" where
  "strncpy_loop m d s count 0 = (m, count)"
| "strncpy_loop m d s count (Suc left) =
     (let m' = m(d + of_nat count := m (s + of_nat count))
      in if m' (s + of_nat count) = 0 then (m', count)
         else strncpy_loop m' d s (Suc count) left)"

definition strncpy :: "memory \<Rightarrow> u64 \<Rightarrow> u64 \<Rightarrow> u64 \<Rightarrow> memory \<times> u64" where
  "strncpy m d s n =
     (if d = 0 \<or> s = 0 then (m, 0)
      else
        let n' = (if n > 255 then 255 else n);
            (m', count) = strncpy_loop m d s 0 (unat n')
        in if count \<ge> 255 then (m', 0) else (m', d))"

section \<open>libc/strings.c\<close>

partial_function (option) strcasecmp :: "memory \<Rightarrow> u64 \<Rightarrow> u64 \<Rightarrow> u32 option" where
  "strcasecmp m s1 s2 =
     (let result = tolower (scast (m s1)) - tolower (scast (m s2))
      in if result \<noteq> 0 \<or> m s1 = 0 then Some result
         else strcasecmp m (s1 + 1) (s2 + 1))"

primrec strncasecmp_loop :: "memory \<Rightarrow> u64 \<Rightarrow> u64 \<Rightarrow> nat \<Rightarrow> u32" where
  "strncasecmp_loop m s1 s2 0 = 0"
| "strncasecmp_loop m s1 s2 (Suc c) =
     (let result = toupper (scast (m s1)) - toupper (scast (m s2))
      in if result \<noteq> 0 \<or> m s1 = 0 then result
         else strncasecmp_loop m (s1 + 1) (s2 + 1) c)"

definition strncasecmp :: "memory \<Rightarrow> u64 \<Rightarrow> u64 \<Rightarrow> u64 \<Rightarrow> u32" where
  "strncasecmp m s1 s2 c = strncasecmp_loop m s1 s2 (unat c)"


section \<open>Fills and copies\<close>

lemma scast_of_nat_small:
  assumes "k < 2 ^ 31"
  shows "(scast (of_nat k :: u32) :: u64) = of_nat k"
proof -
  have "sint (of_nat k :: u32) = int k"
    using assms by (simp add: signed_of_nat signed_take_bit_int_eq_self)
  then show ?thesis by (metis of_int_of_nat_eq scast_eq)
qed

lemma memset_loop_eq:
  assumes "k \<le> unat sz" "unat sz \<le> 2 ^ 31"
  shows "memset_loop m p c sz (of_nat k) = fill m (p + of_nat k) c (unat sz - k)"
  using assms
proof (induction "unat sz - k" arbitrary: k m)
  case 0
  then have k: "k = unat sz" by simp
  have "\<not> (scast (of_nat k :: u32) :: u64) < sz"
  proof (cases "k < 2 ^ 31")
    case True
    then have "(scast (of_nat k :: u32) :: u64) = of_nat k" by (rule scast_of_nat_small)
    also have "\<dots> = sz" using k by simp
    finally show ?thesis by (metis less_irrefl)
  next
    case False
    then have "k = 2 ^ 31" using "0.prems" k by simp
    then show ?thesis using k by (simp add: word_less_nat_alt)
  qed
  then have "memset_loop m p c sz (of_nat k) = m" by (subst memset_loop.simps) (simp only: if_False)
  then show ?case using k by simp
next
  case (Suc d)
  then have lt: "k < unat sz" and k: "k < 2 ^ 31" by simp_all
  have "memset_loop m p c sz (of_nat k)
      = memset_loop (m(p + of_nat k := c)) p c sz (of_nat k + 1)"
    using lt k scast_of_nat_small [OF k]
    by (subst memset_loop.simps) (simp add: word_less_nat_alt unat_of_nat)
  also have "(of_nat k + 1 :: u32) = of_nat (Suc k)" by (simp add: add.commute)
  also have "memset_loop (m(p + of_nat k := c)) p c sz (of_nat (Suc k))
      = fill (m(p + of_nat k := c)) (p + of_nat (Suc k)) c (unat sz - Suc k)"
    using Suc lt by (intro Suc.hyps(1)) simp_all
  also have "p + of_nat (Suc k) = p + of_nat k + 1" by simp
  also have "fill (m(p + of_nat k := c)) (p + of_nat k + 1) c (unat sz - Suc k)
      = fill m (p + of_nat k) c (Suc (unat sz - Suc k))"
    using Suc.prems(2) by (intro fill_Suc) simp
  also have "Suc (unat sz - Suc k) = unat sz - k" using lt by simp
  finally show ?case .
qed

lemma memset_eq_fill:
  "unat sz \<le> 2 ^ 31 \<Longrightarrow> memset m p c sz = fill m p (ucast c) (unat sz)"
  using memset_loop_eq [of 0 sz m p "ucast c"] by (simp add: memset_def)

text \<open>A forward copy reads no byte it has already overwritten.\<close>

lemma memcpy_loop_eq_blit:
  assumes "n \<le> 2 ^ 64" and "\<And>i j. i < j \<Longrightarrow> j < n \<Longrightarrow> d + of_nat i \<noteq> s + of_nat j"
  shows "memcpy_loop m d s n = blit m d s n"
  using assms
proof (induction n arbitrary: m d s)
  case 0
  then show ?case by simp
next
  case (Suc n)
  have "d + 1 + of_nat i \<noteq> s + 1 + of_nat j" if "i < j" "j < n" for i j
    using Suc.prems(2) [of "Suc i" "Suc j"] that by (simp add: algebra_simps)
  then have IH: "memcpy_loop (m(d := m s)) (d + 1) (s + 1) n = blit (m(d := m s)) (d + 1) (s + 1) n"
    using Suc by simp
  have "blit (m(d := m s)) (d + 1) (s + 1) n x = blit m d s (Suc n) x" for x
  proof (cases "x = d")
    case True
    moreover have "unat (d - (d + 1)) = 2 ^ 64 - 1"
      by (simp add: unsigned_minus_1_eq_mask mask_eq_exp_minus_1)
    ultimately show ?thesis using Suc.prems(1) by (simp add: blit_def)
  next
    case False
    have step: "unat (x - d) = Suc (unat (x - (d + 1)))" using False by (rule unat_diff_Suc)
    have "s + (x - d) \<noteq> d" if "unat (x - d) < Suc n"
      using Suc.prems(2) [of 0 "unat (x - d)"] step that by auto
    then show ?thesis using step False by (auto simp: blit_def)
  qed
  then show ?case using IH by (simp add: fun_eq_iff)
qed

lemma memcpy_eq_blit:
  assumes "span d (unat n) \<inter> span s (unat n) = {}"
  shows "memcpy m d s n = blit m d s (unat n)"
proof -
  have n: "unat n < 2 ^ 64" using unat_lt2p [of n] by simp
  have "d + of_nat i \<noteq> s + of_nat j" if "i < j" "j < unat n" for i j
  proof
    assume "d + of_nat i = s + of_nat j"
    then have "d + of_nat i \<in> span d (unat n) \<inter> span s (unat n)"
      using that n add_in_span [of i "unat n" d] add_in_span [of j "unat n" s] by simp
    then show False using assms by simp
  qed
  then show ?thesis using n by (simp add: memcpy_def memcpy_loop_eq_blit)
qed

text \<open>
  \<open>memmove\<close> copies any two blocks that do not wrap around the address space, overlapping or
  not: each destination byte receives the source byte as it was before the call.
\<close>

lemma memmove_down_eq_blit:
  assumes "n \<le> 2 ^ 64" and "\<And>i j. i < j \<Longrightarrow> j < n \<Longrightarrow> d + of_nat j \<noteq> s + of_nat i"
  shows "memmove_down m (d + of_nat n) (s + of_nat n) n = blit m d s n"
  using assms
proof (induction n arbitrary: m)
  case 0
  then show ?case by simp
next
  case (Suc n)
  let ?m = "m(d + of_nat n := m (s + of_nat n))"
  have IH: "memmove_down ?m (d + of_nat n) (s + of_nat n) n = blit ?m d s n"
    using Suc by simp
  have "blit ?m d s n x = blit m d s (Suc n) x" for x
  proof (cases "unat (x - d) < n")
    case True
    have "d + of_nat n \<noteq> s + of_nat (unat (x - d))"
      using Suc.prems(2) [OF True] by simp
    then show ?thesis using True by (auto simp: blit_def)
  next
    case False
    have "x = d + of_nat n \<longleftrightarrow> unat (x - d) = n"
    proof
      assume "unat (x - d) = n"
      then have "x - d = of_nat n" by auto
      then show "x = d + of_nat n" by (metis add.commute diff_add_cancel)
    qed (use Suc.prems(1) in \<open>simp add: unat_of_nat\<close>)
    then show ?thesis using False by (auto simp: blit_def less_Suc_eq)
  qed
  then show ?case using IH by (simp add: fun_eq_iff algebra_simps)
qed

lemma add_of_nat_neq:
  fixes d s :: u64
  assumes "unat d + i < 2 ^ 64" "unat s + j < 2 ^ 64" "unat d + i \<noteq> unat s + j"
  shows "d + of_nat i \<noteq> s + of_nat j"
proof
  assume "d + of_nat i = s + of_nat j"
  then have "unat (d + of_nat i) = unat (s + of_nat j)" by simp
  moreover have "unat (d + of_nat i) = unat d + i" "unat (s + of_nat j) = unat s + j"
    using assms(1,2) by (simp_all add: unat_plus_le unat_of_nat)
  ultimately show False using assms(3) by simp
qed

lemma memmove_eq_blit:
  assumes "unat dest + unat n \<le> 2 ^ 64" "unat src + unat n \<le> 2 ^ 64"
  shows "memmove m dest src n = blit m dest src (unat n)"
proof -
  have n: "unat n \<le> 2 ^ 64" using assms by linarith
  show ?thesis
  proof (cases "dest < src")
    case True
    then have "memcpy_loop m dest src (unat n) = blit m dest src (unat n)"
      using assms n by (intro memcpy_loop_eq_blit add_of_nat_neq) (auto simp: word_less_nat_alt)
    with True show ?thesis by (simp add: memmove_def)
  next
    case False
    then have "memmove_down m (dest + of_nat (unat n)) (src + of_nat (unat n)) (unat n)
        = blit m dest src (unat n)"
      using assms n by (intro memmove_down_eq_blit add_of_nat_neq) (auto simp: word_less_nat_alt)
    with False show ?thesis by (simp add: memmove_def)
  qed
qed

section \<open>Comparisons\<close>

lemma memcmp_loop_zero_iff:
  "memcmp_loop m p q n = 0 \<longleftrightarrow> read_bytes m p n = read_bytes m q n"
proof (induction n arbitrary: p q)
  case 0
  then show ?case by (simp add: read_bytes_def)
next
  case (Suc n)
  have "read_bytes m a (Suc n) = m a # read_bytes m (a + 1) n" for a
    unfolding read_bytes_def by (simp only: upt_conv_Cons map_Suc_upt [symmetric]) (simp add: algebra_simps)
  with Suc show ?case by (simp add: Let_def)
qed

lemma scast_u8_zero_iff: "(scast (x :: u8) :: u32) = 0 \<longleftrightarrow> x = 0"
proof
  assume "(scast x :: u32) = 0"
  then have "sint (scast x :: u32) = 0" by simp
  then have "sint x = 0" by (simp add: sint_up_scast is_up)
  then show "x = 0" by (metis signed_0 signed_word_eqI)
qed simp

lemma memcmp_zero_iff:
  "memcmp m p q n = 0 \<longleftrightarrow> read_bytes m p (unat n) = read_bytes m q (unat n)"
  by (simp add: memcmp_def scast_u8_zero_iff memcmp_loop_zero_iff)

section \<open>Null-terminated strings\<close>

text \<open>\<open>cstr m p s\<close>: the bytes at \<open>p\<close> are \<open>s\<close>, which holds no zero byte, and a terminator.\<close>

primrec cstr :: "memory \<Rightarrow> u64 \<Rightarrow> u8 list \<Rightarrow> bool" where
  "cstr m p [] \<longleftrightarrow> m p = 0"
| "cstr m p (b # bs) \<longleftrightarrow> b \<noteq> 0 \<and> m p = b \<and> cstr m (p + 1) bs"

lemma strlen_loop_cstr: "cstr m p s \<Longrightarrow> strlen_loop m p i = Some (i + of_nat (length s))"
proof (induction s arbitrary: p i)
  case Nil
  then show ?case by (simp add: strlen_loop.simps)
next
  case (Cons b bs)
  then show ?case by (simp add: strlen_loop.simps [of m p] algebra_simps)
qed

lemma strlen_cstr: "cstr m p s \<Longrightarrow> strlen m p = Some (of_nat (length s))"
  by (simp add: strlen_def strlen_loop_cstr)

lemma strnlen_cstr: "cstr m p s \<Longrightarrow> strnlen m p n = of_nat (min (length s) (unat n))"
proof -
  have "cstr m q s \<Longrightarrow> strnlen_loop m q k = q + of_nat (min (length s) k)" for q k
  proof (induction s arbitrary: q k)
    case Nil
    then show ?case by (cases k) simp_all
  next
    case (Cons b bs)
    then show ?case by (cases k) (simp_all add: algebra_simps)
  qed
  then show "cstr m p s \<Longrightarrow> ?thesis" by (simp add: strnlen_def)
qed

text \<open>The position \<open>strchr\<close> returns is the first occurrence; the terminator itself can be found.\<close>

lemma strchr_cstr:
  "cstr m p s \<Longrightarrow> strchr m p c =
     Some (if ucast c = (0 :: u8) then Some (p + of_nat (length s))
           else if ucast c \<in> set s
           then Some (p + of_nat (length (takeWhile (\<lambda>b. b \<noteq> ucast c) s))) else None)"
proof (induction s arbitrary: p)
  case Nil
  then show ?case by (auto simp: strchr.simps)
next
  case (Cons b bs)
  then show ?case by (auto simp: strchr.simps [of m p] algebra_simps)
qed

lemma span_Suc: "n < 2 ^ 64 \<Longrightarrow> span a (Suc n) = insert a (span (a + 1) n)"
proof (intro set_eqI)
  fix x
  assume "n < 2 ^ 64"
  then show "x \<in> span a (Suc n) \<longleftrightarrow> x \<in> insert a (span (a + 1) n)"
    using unat_diff_Suc [of x a] by (cases "x = a") (auto simp: span_def)
qed

lemma cstr_upd:
  "d \<notin> span p (Suc (length s)) \<Longrightarrow> length s < 2 ^ 64 \<Longrightarrow> cstr (m(d := v)) p s = cstr m p s"
  by (induction s arbitrary: p) (auto simp: span_Suc)

lemma strcpy_cstr:
  assumes "cstr m s bs" "length bs < 2 ^ 64"
    and "span d (Suc (length bs)) \<inter> span s (Suc (length bs)) = {}"
  shows "strcpy m d s = Some (write_bytes m d (bs @ [0]))"
  using assms
proof (induction bs arbitrary: m d s)
  case Nil
  then show ?case by (simp add: strcpy.simps [of m d s] fun_upd_def)
next
  case (Cons b bs)
  let ?m = "m(d := b)"
  have sub: "span d (Suc (length (b # bs))) = insert d (span (d + 1) (Suc (length bs)))"
    "span s (Suc (length (b # bs))) = insert s (span (s + 1) (Suc (length bs)))"
    using Cons.prems(2) by (simp_all add: span_Suc)
  then have dis: "d \<notin> span (s + 1) (Suc (length bs))"
    "span (d + 1) (Suc (length bs)) \<inter> span (s + 1) (Suc (length bs)) = {}"
    using Cons.prems(3) by auto
  then have "cstr ?m (s + 1) bs" using Cons.prems by (simp add: cstr_upd)
  then have "strcpy ?m (d + 1) (s + 1) = Some (write_bytes ?m (d + 1) (bs @ [0]))"
    using Cons.IH dis Cons.prems by simp
  then show ?case using Cons.prems by (simp add: strcpy.simps [of m d s])
qed

lemma strncpy_loop_cstr:
  assumes "cstr m (s + of_nat k) bs" "length bs < n" "length bs < 2 ^ 64"
    and "span (d + of_nat k) (Suc (length bs)) \<inter> span (s + of_nat k) (Suc (length bs)) = {}"
  shows "strncpy_loop m d s k n = (write_bytes m (d + of_nat k) (bs @ [0]), k + length bs)"
  using assms
proof (induction bs arbitrary: m k n)
  case Nil
  then obtain l where "n = Suc l" by (cases n) auto
  then show ?case using Nil.prems by (simp add: fun_upd_def)
next
  case (Cons b bs)
  let ?d = "d + of_nat k" and ?s = "s + of_nat k"
  let ?m = "m(?d := b)"
  obtain l where l: "n = Suc l" using Cons.prems(2) by (cases n) auto
  have sub: "span ?d (Suc (length (b # bs))) = insert ?d (span (?d + 1) (Suc (length bs)))"
    "span ?s (Suc (length (b # bs))) = insert ?s (span (?s + 1) (Suc (length bs)))"
    using Cons.prems(3) by (simp_all add: span_Suc)
  then have dis: "?d \<notin> span (?s + 1) (Suc (length bs))" "?d \<noteq> ?s"
    "span (?d + 1) (Suc (length bs)) \<inter> span (?s + 1) (Suc (length bs)) = {}"
    using Cons.prems(4) by auto
  then have "cstr ?m (?s + 1) bs" using Cons.prems by (simp add: cstr_upd)
  then have "strncpy_loop ?m d s (Suc k) l = (write_bytes ?m (?d + 1) (bs @ [0]), Suc k + length bs)"
    using Cons.IH [of ?m "Suc k" l] dis Cons.prems l by (simp add: algebra_simps fun_upd_def)
  then show ?case using Cons.prems l dis by (simp add: Let_def)
qed

lemma strncpy_cstr:
  assumes "cstr m s bs" "length bs < unat n" "length bs < 255" "d \<noteq> 0" "s \<noteq> 0"
    and "span d (Suc (length bs)) \<inter> span s (Suc (length bs)) = {}"
  shows "strncpy m d s n = (write_bytes m d (bs @ [0]), d)"
proof -
  let ?n = "if n > 255 then 255 else n"
  have "length bs < unat ?n" using assms(2,3) by simp
  then have "strncpy_loop m d s 0 (unat ?n) = (write_bytes m d (bs @ [0]), length bs)"
    using strncpy_loop_cstr [of m s 0 bs "unat ?n" d] assms by simp
  then show ?thesis using assms by (simp add: strncpy_def Let_def)
qed

lemma scast_u8_eq_iff: "(scast (x :: u8) :: u32) = scast y \<longleftrightarrow> x = y"
proof
  assume "(scast x :: u32) = scast y"
  then have "sint (scast x :: u32) = sint (scast y :: u32)" by simp
  then have "sint x = sint y" by (simp add: sint_up_scast is_up)
  then show "x = y" by (rule signed_word_eqI)
qed simp

lemma strncmp_cstr:
  "cstr m p a \<Longrightarrow> cstr m q b \<Longrightarrow>
   strncmp m p q n = 0 \<longleftrightarrow> take (unat n) a = take (unat n) b"
proof -
  have "cstr m p a \<Longrightarrow> cstr m q b \<Longrightarrow> strncmp_loop m p q k = 0 \<longleftrightarrow> take k a = take k b" for k
  proof (induction k arbitrary: p q a b)
    case 0
    then show ?case by simp
  next
    case (Suc k)
    then show ?case by (cases a; cases b) (auto simp: Let_def scast_u8_eq_iff scast_u8_zero_iff)
  qed
  then show "cstr m p a \<Longrightarrow> cstr m q b \<Longrightarrow> ?thesis" by (simp add: strncmp_def)
qed

text \<open>The byte that \<open>tolower\<close> makes of a byte, and the case-insensitive comparison it gives.\<close>

definition lower_byte :: "u8 \<Rightarrow> u8" where
  "lower_byte c = (if sint c \<ge> 65 \<and> sint c \<le> 90 then c OR 0x20 else c)"

lemma tolower_scast: "tolower (scast c) = scast (lower_byte c)"
  by (simp add: tolower_def isupper_def lower_byte_def sint_up_scast is_up signed_or_eq)

lemma tolower_0 [simp]: "tolower 0 = 0"
  by (simp add: tolower_def isupper_def)

lemma lower_byte_zero_iff: "lower_byte c = 0 \<longleftrightarrow> c = 0"
  by (auto simp: lower_byte_def or_eq_0_iff)

lemma lower_byte_0 [simp]: "lower_byte 0 = 0" "0 = lower_byte c \<longleftrightarrow> c = 0"
  using lower_byte_zero_iff by (metis)+

lemma strcasecmp_cstr:
  assumes "cstr m p a" "cstr m q b"
  shows "\<exists>r. strcasecmp m p q = Some r \<and> (r = 0 \<longleftrightarrow> map lower_byte a = map lower_byte b)"
  using assms
proof (induction a arbitrary: p q b)
  case Nil
  then show ?case
    by (cases b) (auto simp: strcasecmp.simps [of m p q] tolower_scast scast_u8_eq_iff
        lower_byte_zero_iff Let_def scast_u8_zero_iff simp flip: signed_0)
next
  case (Cons x xs)
  show ?case
  proof (cases "lower_byte x = lower_byte (m q)")
    case False
    then show ?thesis using Cons.prems
      by (cases b) (auto simp: strcasecmp.simps [of m p q] tolower_scast scast_u8_eq_iff
          scast_u8_zero_iff)
  next
    case True
    then have "m q \<noteq> 0" using Cons.prems lower_byte_zero_iff by fastforce
    then obtain ys where b: "b = m q # ys" "cstr m (q + 1) ys"
      using Cons.prems by (cases b) auto
    from Cons.IH [OF _ b(2), of "p + 1"] Cons.prems True b
    show ?thesis by (auto simp: strcasecmp.simps [of m p q] tolower_scast)
  qed
qed

section \<open>Properties\<close>

lemma write_read_eq_blit: "n \<le> 2 ^ 64 \<Longrightarrow> write_bytes m d (read_bytes m s n) = blit m d s n"
  by (auto simp: write_bytes_apply blit_apply span_def)

lemma start_not_in_rest: "n < 2 ^ 64 \<Longrightarrow> d \<notin> span (d + 1) n"
proof -
  have "d - (d + 1) = - 1" by simp
  then have "unat (d - (d + 1)) = 2 ^ 64 - 1"
    by (simp add: unsigned_minus_1_eq_mask mask_eq_exp_minus_1)
  then show "n < 2 ^ 64 \<Longrightarrow> d \<notin> span (d + 1) n" by (simp add: span_def)
qed

lemma cstr_write_bytes:
  "length bs < 2 ^ 64 \<Longrightarrow> 0 \<notin> set bs \<Longrightarrow> cstr (write_bytes m d (bs @ [0])) d bs"
proof (induction bs arbitrary: m d)
  case Nil
  then show ?case by simp
next
  case (Cons b bs)
  have "d \<notin> span (d + 1) (length (bs @ [0]))" using Cons.prems by (intro start_not_in_rest) simp
  then have "write_bytes (m(d := b)) (d + 1) (bs @ [0]) d = b"
    using Cons.prems by (subst write_bytes_apply) simp_all
  then show ?case using Cons by simp
qed

lemma cstr_no_zero: "cstr m p bs \<Longrightarrow> 0 \<notin> set bs"
  by (induction bs arbitrary: p) auto

text \<open>
  Property C37. \<open>memmove\<close> copies as if through a separate buffer: the destination receives the
  bytes the source held before the call, however the two blocks overlap, and nothing else changes.
\<close>

theorem memmove_as_if_buffered:
  assumes "unat dest + unat n \<le> 2 ^ 64" "unat src + unat n \<le> 2 ^ 64"
  shows "memmove m dest src n = write_bytes m dest (read_bytes m src (unat n))"
  using memmove_eq_blit [OF assms] unat_lt2p [of n] by (simp add: write_read_eq_blit)

theorem memmove_as_if_buffered_witness:
  "memmove (\<lambda>x. ucast x) 2 0 4 = write_bytes (\<lambda>x. ucast x) 2 [0, 1, 2, 3]"
  using memmove_as_if_buffered [of 2 4 0 "\<lambda>x. ucast x"] by (simp add: read_bytes_def upt_rec)

text \<open>
  \<open>memcmp\<close> returns zero exactly when the two blocks hold the same bytes.
\<close>

theorem memcmp_decides_equality:
  "memcmp m p q n = 0 \<longleftrightarrow> read_bytes m p (unat n) = read_bytes m q (unat n)"
  by (rule memcmp_zero_iff)

text \<open>
  A string shorter than the bound and than 255 bytes is copied by \<open>strncpy\<close> with its
  terminator: the destination is returned and holds the string, and no byte outside the copy
  changes.
\<close>

theorem strncpy_copies_string:
  assumes "cstr m s bs" "length bs < unat n" "length bs < 255" "d \<noteq> 0" "s \<noteq> 0"
    and "span d (Suc (length bs)) \<inter> span s (Suc (length bs)) = {}"
  shows "snd (strncpy m d s n) = d \<and> cstr (fst (strncpy m d s n)) d bs
     \<and> (\<forall>x. x \<notin> span d (Suc (length bs)) \<longrightarrow> fst (strncpy m d s n) x = m x)"
  using strncpy_cstr [OF assms] cstr_write_bytes [of bs m d] cstr_no_zero [OF assms(1)] assms(3)
  by (simp add: write_bytes_apply)

theorem strncpy_copies_string_witness:
  "snd (strncpy (write_bytes (\<lambda>_. 1) 16 [65, 66, 0]) 32 16 10) = 32
   \<and> cstr (fst (strncpy (write_bytes (\<lambda>_. 1) 16 [65, 66, 0]) 32 16 10)) 32 [65, 66]"
proof -
  have d: "span 32 3 \<inter> span (16 :: u64) 3 = {}"
    using span_offsets_disjoint [of 32 3 16 3 0] by simp
  show ?thesis
    using strncpy_copies_string [of "write_bytes (\<lambda>_. 1) 16 [65, 66, 0]" 16 "[65, 66]" 10 32] d
    by (simp add: numeral_3_eq_3)
qed

text \<open>
  \<open>strcasecmp\<close> returns on any two strings, and returns zero exactly when they are equal
  up to the case of the letters.
\<close>

theorem strcasecmp_ignores_case:
  assumes "cstr m p a" "cstr m q b"
  shows "\<exists>r. strcasecmp m p q = Some r \<and> (r = 0 \<longleftrightarrow> map lower_byte a = map lower_byte b)"
  by (rule strcasecmp_cstr [OF assms])

theorem strcasecmp_ignores_case_witness:
  "\<exists>r. strcasecmp (write_bytes (write_bytes (\<lambda>_. 0) 16 [76, 115, 0]) 32 [108, 83, 0]) 16 32 = Some r
     \<and> r = 0"
  using strcasecmp_ignores_case
    [of "write_bytes (write_bytes (\<lambda>_. 0) 16 [76, 115, 0]) 32 [108, 83, 0]" 16 "[76, 115]" 32 "[108, 83]"]
  by (simp add: lower_byte_def)

end
