(* ===== verification/Linked_List.thy ===== *)
theory Linked_List
  imports Kernel_Prelude
begin

text \<open>
  \<open>libc/list.c\<close>: the intrusive singly linked queues of the scheduler, as pointer structures.
  A \<open>List\<close> pointer is either the head of a queue (\<open>Head q\<close>; the code casts a \<open>HeadList *\<close> to a
  \<open>List *\<close>, whose \<open>next\<close> has the same offset) or a node (\<open>Node n\<close>; the code casts a
  \<open>Process *\<close>). The field \<open>next\<close> of every list cell is \<open>lnext\<close>, the field \<open>tail\<close> of a head is
  \<open>ltail\<close>; \<open>None\<close> is the null pointer. The same theory models the removal loop that
  \<open>WaitListRemoveReadyProcess\<close> and \<open>RemoveProcessWithPID\<close> of \<open>kernel/process.c\<close> run on these
  pointers.

  The contract is the locale \<open>queue_family\<close>: one heap represents a family of disjoint queues,
  pushing appends and popping takes the first element, and the other queues stay as they are.
  The locale \<open>removable_queues\<close> adds the removal of the first match.
\<close>

section \<open>The cells\<close>

datatype ('q, 'n) lptr = Head 'q | Node 'n

record ('q, 'n) links =
  lnext :: "('q, 'n) lptr \<Rightarrow> 'n option"
  ltail :: "'q \<Rightarrow> ('q, 'n) lptr option"

section \<open>libc/list.c\<close>

definition ListIsEmpty :: "('q, 'n) links \<Rightarrow> 'q \<Rightarrow> bool" where
  "ListIsEmpty h list \<longleftrightarrow> lnext h (Head list) = None"

definition ListPushBack :: "('q, 'n) links \<Rightarrow> 'q \<Rightarrow> 'n \<Rightarrow> ('q, 'n) links kres" where
  "ListPushBack h list item =
     (let h1 = h\<lparr>lnext := (lnext h)(Node item := None)\<rparr>
      in if ListIsEmpty h1 list
         then ret (h1\<lparr>lnext := (lnext h1)(Head list := Some item),
                      ltail := (ltail h1)(list := Some (Node item))\<rparr>)
         else andthen (deref (ltail h1 list)) (\<lambda>tail.
              ret (h1\<lparr>lnext := (lnext h1)(tail := Some item),
                      ltail := (ltail h1)(list := Some (Node item))\<rparr>)))"

definition ListPopFront :: "('q, 'n) links \<Rightarrow> 'q \<Rightarrow> 'n option \<times> ('q, 'n) links" where
  "ListPopFront h list =
     (case lnext h (Head list) of
        None \<Rightarrow> (None, h)
      | Some item \<Rightarrow>
          let h1 = h\<lparr>lnext := (lnext h)(Head list := lnext h (Node item))\<rparr>;
              h2 = (if lnext h1 (Head list) = None
                    then h1\<lparr>ltail := (ltail h1)(list := None)\<rparr> else h1)
          in (Some item, h2))"

section \<open>The removal loop of kernel/process.c\<close>

text \<open>
  \<open>match\<close> is the test on the process \<open>current\<close>: \<open>wait_id == wait_id\<close> or \<open>pid == pid\<close>. The walk
  ends at the null pointer; on a cyclic list without a match it would not.
\<close>

partial_function (option) remove_loop ::
  "('n \<Rightarrow> bool) \<Rightarrow> ('q, 'n) links \<Rightarrow> 'q \<Rightarrow> ('q, 'n) lptr \<Rightarrow> 'n option
     \<Rightarrow> ('n option \<times> ('q, 'n) links) option" where
  "remove_loop match h list prev current =
     (case current of
        None \<Rightarrow> Some (None, h)
      | Some c \<Rightarrow>
          if match c then
            (let h1 = h\<lparr>lnext := (lnext h)(prev := lnext h (Node c))\<rparr>;
                 h2 = (if lnext h1 (Head list) = None
                       then h1\<lparr>ltail := (ltail h1)(list := None)\<rparr>
                       else if lnext h1 (Node c) = None
                       then h1\<lparr>ltail := (ltail h1)(list := Some prev)\<rparr>
                       else h1)
             in Some (Some c, h2))
          else remove_loop match h list (Node c) (lnext h (Node c)))"

definition remove_first ::
  "('n \<Rightarrow> bool) \<Rightarrow> ('q, 'n) links \<Rightarrow> 'q \<Rightarrow> ('n option \<times> ('q, 'n) links) option" where
  "remove_first match h list = remove_loop match h list (Head list) (lnext h (Head list))"

section \<open>Segments of a queue\<close>

primrec seg :: "(('q, 'n) lptr \<Rightarrow> 'n option) \<Rightarrow> 'n option \<Rightarrow> 'n list \<Rightarrow> 'n option \<Rightarrow> bool" where
  "seg nx p [] r \<longleftrightarrow> p = r"
| "seg nx p (x # xs) r \<longleftrightarrow> p = Some x \<and> seg nx (nx (Node x)) xs r"

definition hseg :: "(('q, 'n) lptr \<Rightarrow> 'n option) \<Rightarrow> 'q \<Rightarrow> 'n list \<Rightarrow> 'n option \<Rightarrow> bool" where
  "hseg nx q xs r = seg nx (nx (Head q)) xs r"

text \<open>The cell after which the segment ends: the last node, or the head.\<close>

definition endptr :: "'q \<Rightarrow> 'n list \<Rightarrow> ('q, 'n) lptr" where
  "endptr q xs = (if xs = [] then Head q else Node (last xs))"

lemma seg_append: "seg nx p (xs @ ys) r \<longleftrightarrow> (\<exists>s. seg nx p xs s \<and> seg nx s ys r)"
  by (induction xs arbitrary: p) auto

lemma seg_upd: "(\<And>x. x \<in> set xs \<Longrightarrow> a \<noteq> Node x) \<Longrightarrow> seg (nx(a := v)) p xs r = seg nx p xs r"
  by (induction xs arbitrary: p) auto

lemma hseg_upd:
  "a \<noteq> Head q \<Longrightarrow> (\<And>x. x \<in> set xs \<Longrightarrow> a \<noteq> Node x) \<Longrightarrow> hseg (nx(a := v)) q xs r = hseg nx q xs r"
  by (simp add: hseg_def seg_upd)

lemma hseg_Nil [simp]: "hseg nx q [] r \<longleftrightarrow> nx (Head q) = r"
  by (simp add: hseg_def)

lemma hseg_append: "hseg nx q (xs @ ys) r \<longleftrightarrow> (\<exists>s. hseg nx q xs s \<and> seg nx s ys r)"
  by (simp add: hseg_def seg_append)

lemma hseg_end: "hseg nx q xs r \<Longrightarrow> nx (endptr q xs) = r"
  by (cases xs rule: rev_cases) (auto simp: endptr_def hseg_append)

lemma hseg_redirect:
  assumes "hseg nx q xs r" "distinct xs"
  shows "hseg (nx(endptr q xs := r')) q xs r'"
proof (cases xs rule: rev_cases)
  case Nil
  then show ?thesis using assms by (simp add: endptr_def)
next
  case (snoc ys y)
  then have "hseg nx q ys (Some y)" using assms by (simp add: hseg_append)
  moreover have "y \<notin> set ys" using snoc assms by simp
  ultimately have "hseg (nx(Node y := r')) q ys (Some y)" by (subst hseg_upd) auto
  then show ?thesis using snoc by (simp add: hseg_append endptr_def)
qed

lemma hseg_redirect_other:
  assumes "hseg nx r ys s" "q \<noteq> r" "set xs \<inter> set ys = {}"
  shows "hseg (nx(endptr q xs := v)) r ys s"
proof -
  have "endptr q xs \<noteq> Head r" using assms(2) by (simp add: endptr_def)
  moreover have "endptr q xs \<noteq> Node y" if "y \<in> set ys" for y
    using assms(3) that last_in_set [of xs] by (auto simp: endptr_def disjoint_iff)
  ultimately show ?thesis using assms(1) by (subst hseg_upd) auto
qed

section \<open>The abstraction: a family of disjoint queues\<close>

definition queues :: "('q, 'n) links \<Rightarrow> ('q \<Rightarrow> 'n list) \<Rightarrow> bool" where
  "queues h f \<longleftrightarrow>
     (\<forall>q. hseg (lnext h) q (f q) None
        \<and> ltail h q = (if f q = [] then None else Some (Node (last (f q))))
        \<and> distinct (f q)
        \<and> (\<forall>r. r \<noteq> q \<longrightarrow> set (f q) \<inter> set (f r) = {}))"

lemma queuesD:
  assumes "queues h f"
  shows "hseg (lnext h) q (f q) None"
    and "ltail h q = (if f q = [] then None else Some (endptr q (f q)))"
    and "distinct (f q)" and "q \<noteq> r \<Longrightarrow> set (f q) \<inter> set (f r) = {}"
  using assms by (auto simp: queues_def endptr_def)

lemma queuesI:
  assumes "hseg (lnext h) q xs None" "distinct xs"
    and "ltail h q = (if xs = [] then None else Some (endptr q xs))"
    and "\<And>r. r \<noteq> q \<Longrightarrow> hseg (lnext h) r (f r) None \<and> set xs \<inter> set (f r) = {}"
    and "\<And>r. r \<noteq> q \<Longrightarrow> ltail h r = (if f r = [] then None else Some (endptr r (f r)))"
    and "\<And>r. r \<noteq> q \<Longrightarrow> distinct (f r)"
    and "\<And>r r'. r \<noteq> q \<Longrightarrow> r' \<noteq> q \<Longrightarrow> r \<noteq> r' \<Longrightarrow> set (f r) \<inter> set (f r') = {}"
  shows "queues h (f(q := xs))"
  unfolding queues_def
proof (intro allI conjI impI)
  fix r
  show "hseg (lnext h) r ((f(q := xs)) r) None" using assms(1,4) by simp
  show "ltail h r = (if (f(q := xs)) r = [] then None else Some (Node (last ((f(q := xs)) r))))"
    using assms(3) assms(5) [of r] by (auto simp: endptr_def)
  show "distinct ((f(q := xs)) r)" using assms(2,6) by simp
  show "set ((f(q := xs)) r) \<inter> set ((f(q := xs)) s) = {}" if "s \<noteq> r" for s
    using assms(4) [of r] assms(4) [of s] assms(7) [of r s] that by (auto split: if_splits)
qed

primrec delete_first :: "('n \<Rightarrow> bool) \<Rightarrow> 'n list \<Rightarrow> 'n list" where
  "delete_first p [] = []"
| "delete_first p (x # xs) = (if p x then xs else x # delete_first p xs)"

lemma delete_first_append:
  "(\<forall>x\<in>set xs. \<not> p x) \<Longrightarrow> delete_first p (xs @ ys) = xs @ delete_first p ys"
  by (induction xs) auto

lemma delete_first_none: "(\<forall>x\<in>set xs. \<not> p x) \<Longrightarrow> delete_first p xs = xs"
  by (induction xs) auto

lemma set_delete_first_subset: "set (delete_first p xs) \<subseteq> set xs"
  by (induction xs) auto

lemma distinct_delete_first: "distinct xs \<Longrightarrow> distinct (delete_first p xs)"
  using set_delete_first_subset [of p] by (induction xs) auto

lemma length_delete_first: "find p xs \<noteq> None \<Longrightarrow> Suc (length (delete_first p xs)) = length xs"
  by (induction xs) auto

lemma set_delete_first:
  "distinct xs \<Longrightarrow> find p xs = Some x \<Longrightarrow> set (delete_first p xs) = set xs - {x}"
  by (induction xs) (auto split: if_splits simp: find_Some_iff)

lemma find_append_none: "(\<forall>x\<in>set xs. \<not> p x) \<Longrightarrow> find p (xs @ ys) = find p ys"
  by (induction xs) auto


section \<open>Correctness of the operations\<close>

lemma hseg_None_Nil_iff: "hseg nx q xs None \<Longrightarrow> nx (Head q) = None \<longleftrightarrow> xs = []"
  by (cases xs) (auto simp: hseg_def)

lemma ListIsEmpty_iff: "queues h f \<Longrightarrow> ListIsEmpty h q \<longleftrightarrow> f q = []"
  by (simp add: ListIsEmpty_def hseg_None_Nil_iff [OF queuesD(1)])

lemma ListPushBack_eq:
  assumes "queues h f"
  shows "ListPushBack h q n =
    ret (h\<lparr>lnext := (lnext h)(Node n := None, endptr q (f q) := Some n),
           ltail := (ltail h)(q := Some (Node n))\<rparr>)"
proof -
  have "lnext h (Head q) = None \<longleftrightarrow> f q = []"
    using queuesD(1) [OF assms] by (rule hseg_None_Nil_iff)
  then show ?thesis
    using queuesD(2) [OF assms, of q]
    by (auto simp: ListPushBack_def ListIsEmpty_def endptr_def Let_def)
qed

lemma ListPushBack_ok:
  assumes "queues h f" "\<forall>r. n \<notin> set (f r)"
  shows "\<exists>h'. ListPushBack h q n = ret h' \<and> queues h' (f(q := f q @ [n]))"
proof -
  let ?nx = "(lnext h)(Node n := None)"
  let ?h = "h\<lparr>lnext := ?nx(endptr q (f q) := Some n), ltail := (ltail h)(q := Some (Node n))\<rparr>"
  have seg: "hseg ?nx r (f r) None" for r
    using queuesD(1) [OF assms(1)] assms(2) by (subst hseg_upd) auto
  have "endptr q (f q) \<noteq> Node n" using assms(2) last_in_set [of "f q"]
    unfolding endptr_def by (metis lptr.distinct(1) lptr.inject(2))
  then have "(?nx(endptr q (f q) := Some n)) (Node n) = None" by simp
  moreover have "hseg (?nx(endptr q (f q) := Some n)) q (f q) (Some n)"
    using seg queuesD(3) [OF assms(1)] by (rule hseg_redirect)
  ultimately have "hseg (lnext ?h) q (f q @ [n]) None" by (auto simp: hseg_append)
  moreover have "hseg (lnext ?h) r (f r) None" if "r \<noteq> q" for r
    using seg queuesD(4) [OF assms(1), of q r] that by (simp add: hseg_redirect_other)
  ultimately have "queues ?h (f(q := f q @ [n]))"
    using assms(2) queuesD(2,3,4) [OF assms(1)]
    by (intro queuesI) (auto simp: endptr_def)
  then show ?thesis using ListPushBack_eq [OF assms(1)] by blast
qed

lemma ListPopFront_Nil: "queues h f \<Longrightarrow> f q = [] \<Longrightarrow> ListPopFront h q = (None, h)"
  using queuesD(1) [of h f q] by (simp add: ListPopFront_def)

lemma links_ltail_same [simp]: "h\<lparr>lnext := x, ltail := ltail h\<rparr> = h\<lparr>lnext := x\<rparr>"
  by (cases h) simp

lemma queues_delete:
  assumes "queues h f" "f q = xs @ x # ys"
    and h': "h' = h\<lparr>lnext := (lnext h)(endptr q xs := lnext h (Node x)),
                 ltail := (if xs @ ys = [] then (ltail h)(q := None)
                    else if ys = [] then (ltail h)(q := Some (endptr q xs)) else ltail h)\<rparr>"
  shows "queues h' (f(q := xs @ ys))"
proof -
  have d: "distinct (xs @ x # ys)" using queuesD(3) [OF assms(1), of q] assms(2) by simp
  have s: "hseg (lnext h) q (xs @ x # ys) None" using queuesD(1) [OF assms(1), of q] assms(2) by simp
  then have xs: "hseg (lnext h) q xs (Some x)" and ys: "seg (lnext h) (lnext h (Node x)) ys None"
    by (auto simp: hseg_append)
  have "hseg (lnext h') q xs (lnext h (Node x))"
    using hseg_redirect [OF xs] d h' by simp
  moreover have "seg (lnext h') (lnext h (Node x)) ys None"
    using ys d h' by (subst h', simp, subst seg_upd) (auto simp: endptr_def dest: last_in_set split: if_splits)
  ultimately have 1: "hseg (lnext h') q (xs @ ys) None" by (auto simp: hseg_append)
  have 2: "hseg (lnext h') r (f r) None" if "r \<noteq> q" for r
  proof -
    have "set xs \<inter> set (f r) = {}" using queuesD(4) [OF assms(1), of q r] assms(2) that by auto
    then show ?thesis
      using hseg_redirect_other [OF queuesD(1) [OF assms(1)], of q r xs] that h' by simp
  qed
  have 3: "ltail h' q = (if xs @ ys = [] then None else Some (endptr q (xs @ ys)))"
    using queuesD(2) [OF assms(1), of q] assms(2) h' by (auto simp: endptr_def)
  have 4: "ltail h' r = ltail h r" if "r \<noteq> q" for r using that h' by simp
  have 5: "set (xs @ ys) \<inter> set (f r) = {}" if "r \<noteq> q" for r
    using queuesD(4) [OF assms(1), of q r] assms(2) that by auto
  show ?thesis
  proof (rule queuesI)
    show "hseg (lnext h') q (xs @ ys) None" by (rule 1)
    show "distinct (xs @ ys)" using d by simp
    show "ltail h' q = (if xs @ ys = [] then None else Some (endptr q (xs @ ys)))" by (rule 3)
  qed (use 2 4 5 queuesD(2,3,4) [OF assms(1)] in simp_all)
qed

lemma ListPopFront_Cons:
  assumes "queues h f" "f q = n # ns"
  shows "\<exists>h'. ListPopFront h q = (Some n, h') \<and> queues h' (f(q := ns))"
proof -
  have s: "lnext h (Head q) = Some n" "seg (lnext h) (lnext h (Node n)) ns None"
    using queuesD(1) [OF assms(1), of q] assms(2) by (simp_all add: hseg_def)
  then have "lnext h (Node n) = None \<longleftrightarrow> ns = []" by (cases ns) auto
  then have "ListPopFront h q = (Some n, h\<lparr>lnext := (lnext h)(endptr q [] := lnext h (Node n)),
      ltail := (if [] @ ns = [] then (ltail h)(q := None)
         else if ns = [] then (ltail h)(q := Some (endptr q [])) else ltail h)\<rparr>)"
    using s by (auto simp: ListPopFront_def endptr_def Let_def)
  then show ?thesis using queues_delete [OF assms(1), of q "[]" n ns] assms(2) by auto
qed

text \<open>The removal loop ends, returns the first match and takes exactly that node out.\<close>

lemma remove_loop_ok:
  assumes "queues h f" "f q = xs @ ys" "\<forall>x\<in>set xs. \<not> p x"
    and "hseg (lnext h) q xs c" "seg (lnext h) c ys None"
  shows "\<exists>h'. remove_loop p h q (endptr q xs) c = Some (find p ys, h')
              \<and> queues h' (f(q := xs @ delete_first p ys))"
  using assms(2-)
proof (induction ys arbitrary: xs c)
  case Nil
  then show ?case using assms(1) by (auto simp: remove_loop.simps fun_upd_idem)
next
  case (Cons y ys)
  then have c: "c = Some y" by simp
  show ?case
  proof (cases "p y")
    case True
    let ?h = "h\<lparr>lnext := (lnext h)(endptr q xs := lnext h (Node y)),
                 ltail := (if xs @ ys = [] then (ltail h)(q := None)
                    else if ys = [] then (ltail h)(q := Some (endptr q xs)) else ltail h)\<rparr>"
    have y: "lnext h (Node y) = None \<longleftrightarrow> ys = []"
      using Cons.prems(4) c by (cases ys) auto
    have "distinct (xs @ y # ys)" using queuesD(3) [OF assms(1), of q] Cons.prems(1) by simp
    then have ne: "endptr q xs \<noteq> Node y" by (auto simp: endptr_def)
    have hd: "((lnext h)(endptr q xs := lnext h (Node y))) (Head q) = None \<longleftrightarrow> xs @ ys = []"
      using Cons.prems(3) y by (cases xs) (auto simp: endptr_def hseg_def)
    have "remove_loop p h q (endptr q xs) c = Some (Some y, ?h)"
      using True c y ne hd
      by (auto simp: remove_loop.simps [of p h q "endptr q xs"] Let_def)
    moreover have "queues ?h (f(q := xs @ ys))"
      using assms(1) Cons.prems(1) refl by (rule queues_delete)
    moreover have "find p (y # ys) = Some y" "delete_first p (y # ys) = ys"
      using True by simp_all
    ultimately show ?thesis by metis
  next
    case False
    have "endptr q (xs @ [y]) = Node y" by (simp add: endptr_def)
    moreover have "hseg (lnext h) q (xs @ [y]) (lnext h (Node y))"
      using Cons.prems(3) c by (auto simp: hseg_append)
    ultimately show ?thesis
      using Cons.IH [of "xs @ [y]" "lnext h (Node y)"] Cons.prems c False
      by (simp add: remove_loop.simps [of p h q "endptr q xs"])
  qed
qed

lemma remove_first_ok:
  assumes "queues h f"
  shows "\<exists>h'. remove_first p h q = Some (find p (f q), h')
              \<and> queues h' (f(q := delete_first p (f q)))"
  using remove_loop_ok [OF assms, of q "[]" "f q" p "lnext h (Head q)"] queuesD(1) [OF assms, of q]
  by (simp add: remove_first_def endptr_def hseg_def)


section \<open>The interface\<close>

text \<open>Pushing a list of nodes, and popping a number of them, by any such operations.\<close>

primrec push_all :: "('h \<Rightarrow> 'q \<Rightarrow> 'n \<Rightarrow> 'h kres) \<Rightarrow> 'h \<Rightarrow> 'q \<Rightarrow> 'n list \<Rightarrow> 'h kres" where
  "push_all push h q [] = ret h"
| "push_all push h q (n # ns) = andthen (push h q n) (\<lambda>h'. push_all push h' q ns)"

primrec pop_times :: "('h \<Rightarrow> 'q \<Rightarrow> 'n option \<times> 'h) \<Rightarrow> 'h \<Rightarrow> 'q \<Rightarrow> nat \<Rightarrow> 'n option list \<times> 'h" where
  "pop_times pop h q 0 = ([], h)"
| "pop_times pop h q (Suc k) =
     (let (r, h1) = pop h q; (rs, h2) = pop_times pop h1 q k in (r # rs, h2))"

locale queue_family =
  fixes repr :: "'h \<Rightarrow> ('q \<Rightarrow> 'n list) \<Rightarrow> bool"
    and push :: "'h \<Rightarrow> 'q \<Rightarrow> 'n \<Rightarrow> 'h kres"
    and pop :: "'h \<Rightarrow> 'q \<Rightarrow> 'n option \<times> 'h"
    and isempty :: "'h \<Rightarrow> 'q \<Rightarrow> bool"
  assumes repr_distinct: "repr h f \<Longrightarrow> distinct (f q)"
    and repr_disjoint: "repr h f \<Longrightarrow> q \<noteq> r \<Longrightarrow> set (f q) \<inter> set (f r) = {}"
    and isempty_iff: "repr h f \<Longrightarrow> isempty h q \<longleftrightarrow> f q = []"
    and push_law: "repr h f \<Longrightarrow> \<forall>r. n \<notin> set (f r) \<Longrightarrow>
        \<exists>h'. push h q n = ret h' \<and> repr h' (f(q := f q @ [n]))"
    and pop_Nil_law: "repr h f \<Longrightarrow> f q = [] \<Longrightarrow> pop h q = (None, h)"
    and pop_Cons_law: "repr h f \<Longrightarrow> f q = n # ns \<Longrightarrow>
        \<exists>h'. pop h q = (Some n, h') \<and> repr h' (f(q := ns))"
begin

lemma push_all_law:
  "repr h f \<Longrightarrow> distinct ns \<Longrightarrow> \<forall>n\<in>set ns. \<forall>r. n \<notin> set (f r) \<Longrightarrow>
   \<exists>h'. push_all push h q ns = ret h' \<and> repr h' (f(q := f q @ ns))"
proof (induction ns arbitrary: h f)
  case Nil
  then show ?case by simp
next
  case (Cons n ns)
  from Cons.prems obtain h1 where h1: "push h q n = ret h1" "repr h1 (f(q := f q @ [n]))"
    using push_law [of h f n q] by auto
  let ?f = "f(q := f q @ [n])"
  have "\<forall>x\<in>set ns. \<forall>r. x \<notin> set (?f r)" using Cons.prems by auto
  moreover have "distinct ns" using Cons.prems(2) by simp
  ultimately have "\<exists>h2. push_all push h1 q ns = ret h2 \<and> repr h2 (?f(q := ?f q @ ns))"
    using Cons.IH [OF h1(2)] by blast
  with h1 have "\<exists>h2. push_all push h q (n # ns) = ret h2 \<and> repr h2 (f(q := f q @ n # ns))"
    by simp
  then show ?case .
qed

lemma pop_times_law:
  "repr h f \<Longrightarrow> f q = ns @ ms \<Longrightarrow>
   \<exists>h'. pop_times pop h q (length ns) = (map Some ns, h') \<and> repr h' (f(q := ms))"
proof (induction ns arbitrary: h f)
  case Nil
  then show ?case by (auto simp: fun_upd_idem)
next
  case (Cons n ns)
  from Cons.prems obtain h1 where h1: "pop h q = (Some n, h1)" "repr h1 (f(q := ns @ ms))"
    using pop_Cons_law [of h f q n "ns @ ms"] by auto
  let ?f = "f(q := ns @ ms)"
  have "\<exists>h2. pop_times pop h1 q (length ns) = (map Some ns, h2) \<and> repr h2 (?f(q := ms))"
    using Cons.IH [OF h1(2)] by (metis fun_upd_same)
  with h1 have "\<exists>h2. pop_times pop h q (length (n # ns)) = (map Some (n # ns), h2)
      \<and> repr h2 (f(q := ms))"
    by auto
  then show ?case .
qed

text \<open>First in, first out: what is pushed comes out in order and leaves the queue as it was.\<close>

lemma fifo_round_trip:
  assumes "repr h f" "f q = []" "distinct ns" "\<forall>n\<in>set ns. \<forall>r. n \<notin> set (f r)"
  shows "\<exists>h1 h2. push_all push h q ns = ret h1
           \<and> pop_times pop h1 q (length ns) = (map Some ns, h2) \<and> repr h2 f"
proof -
  from push_all_law [OF assms(1,3,4)] assms(2)
  obtain h1 where h1: "push_all push h q ns = ret h1" "repr h1 (f(q := ns))" by fastforce
  from pop_times_law [OF h1(2), of q ns "[]"] obtain h2
    where h2: "pop_times pop h1 q (length ns) = (map Some ns, h2)" "repr h2 (f(q := []))"
    by auto
  have "f(q := []) = f" using assms(2) by (simp add: fun_upd_idem)
  with h1 h2 show ?thesis by auto
qed

text \<open>One turn of a round-robin: the caller goes to the back, the front comes out.\<close>

lemma rotate_law:
  assumes "repr h f" "f q = n # ns" "\<forall>r. c \<notin> set (f r)"
  shows "\<exists>h1 h2. push h q c = ret h1 \<and> pop h1 q = (Some n, h2) \<and> repr h2 (f(q := ns @ [c]))"
proof -
  from push_law [OF assms(1,3)] assms(2)
  obtain h1 where h1: "push h q c = ret h1" "repr h1 (f(q := n # ns @ [c]))" by fastforce
  from pop_Cons_law [OF h1(2), of q n "ns @ [c]"] h1(1) show ?thesis by fastforce
qed

end

text \<open>Queues with removal: the first match leaves its queue, wherever it stands.\<close>

locale removable_queues = queue_family repr push pop isempty
  for repr :: "'h \<Rightarrow> ('q \<Rightarrow> 'n list) \<Rightarrow> bool"
    and push :: "'h \<Rightarrow> 'q \<Rightarrow> 'n \<Rightarrow> 'h kres"
    and pop :: "'h \<Rightarrow> 'q \<Rightarrow> 'n option \<times> 'h"
    and isempty :: "'h \<Rightarrow> 'q \<Rightarrow> bool" +
  fixes remove :: "('n \<Rightarrow> bool) \<Rightarrow> 'h \<Rightarrow> 'q \<Rightarrow> ('n option \<times> 'h) option"
  assumes remove_law: "repr h f \<Longrightarrow>
        \<exists>h'. remove p h q = Some (find p (f q), h') \<and> repr h' (f(q := delete_first p (f q)))"
begin

lemma remove_None_law:
  assumes "repr h f" "\<forall>x\<in>set (f q). \<not> p x"
  shows "\<exists>h'. remove p h q = Some (None, h') \<and> repr h' f"
proof -
  have "find p (f q) = None" using assms(2) by (simp add: find_None_iff)
  moreover have "f(q := delete_first p (f q)) = f"
    using assms(2) by (simp add: delete_first_none fun_upd_idem)
  ultimately show ?thesis using remove_law [OF assms(1), of p q] by simp
qed

text \<open>Moving the first match of one queue to the back of another.\<close>

lemma move_law:
  assumes "repr h f" "find p (f q) = Some n" "q \<noteq> r"
  shows "\<exists>h1 h2. remove p h q = Some (Some n, h1) \<and> push h1 r n = ret h2
           \<and> repr h2 (f(q := delete_first p (f q), r := f r @ [n]))"
proof -
  from remove_law [OF assms(1), of p q] assms(2) obtain h1
    where h1: "remove p h q = Some (Some n, h1)" "repr h1 (f(q := delete_first p (f q)))"
    by auto
  have n: "n \<in> set (f q)" using assms(2) by (auto simp: find_Some_iff)
  have "n \<notin> set ((f(q := delete_first p (f q))) s)" for s
    using repr_disjoint [OF assms(1), of s q] n set_delete_first [OF repr_distinct [OF assms(1)] assms(2)]
    by auto
  from push_law [OF h1(2), of n r] this assms(3)
  show ?thesis using h1(1) by fastforce
qed

end

text \<open>The pointer code provides the interface.\<close>

interpretation lists: removable_queues queues ListPushBack ListPopFront ListIsEmpty remove_first
  by unfold_locales
    (rule queuesD(3) queuesD(4) ListIsEmpty_iff ListPushBack_ok ListPopFront_Nil
      ListPopFront_Cons remove_first_ok; assumption)+

section \<open>Properties\<close>

definition empty_links :: "('q, 'n) links" where
  "empty_links = \<lparr>lnext = \<lambda>_. None, ltail = \<lambda>_. None\<rparr>"

lemma queues_empty: "queues empty_links (\<lambda>_. [])"
  by (simp add: queues_def empty_links_def hseg_def)

text \<open>
  A queue is first in, first out: pushing fresh nodes on an empty queue with
  \<open>ListPushBack\<close> never fails, popping as often with \<open>ListPopFront\<close> returns them in the order
  pushed, and every queue of the family is then as before.
\<close>

theorem list_fifo:
  assumes "queues h f" "f q = []" "distinct ns" "\<forall>n\<in>set ns. \<forall>r. n \<notin> set (f r)"
  shows "\<exists>h1 h2. push_all ListPushBack h q ns = ret h1
           \<and> pop_times ListPopFront h1 q (length ns) = (map Some ns, h2) \<and> queues h2 f"
  by (rule lists.fifo_round_trip [OF assms])

theorem list_fifo_witness:
  "\<exists>h1 h2. push_all ListPushBack (empty_links :: (bool, nat) links) True [4, 2, 7] = ret h1
     \<and> pop_times ListPopFront h1 True (length [4, 2, 7 :: nat]) = ([Some 4, Some 2, Some 7], h2) \<and> queues h2 (\<lambda>_. [])"
  using list_fifo [OF queues_empty, where q = True and ns = "[4, 2, 7 :: nat]"]
  by (simp del: push_all.simps pop_times.simps list.size)

text \<open>
  The removal loop of the scheduler takes the first matching node out of its queue and
  keeps the order of the others; without a match the queue stays as it is; the other queues never
  change.
\<close>

theorem remove_first_deletes:
  assumes "queues h f"
  shows "\<exists>h'. remove_first p h q = Some (find p (f q), h')
              \<and> queues h' (f(q := delete_first p (f q)))"
  by (rule lists.remove_law [OF assms])

theorem remove_first_deletes_witness:
  "\<exists>h'. remove_first even \<lparr>lnext = [Head True \<mapsto> 1, Node 1 \<mapsto> 4, Node 4 \<mapsto> (3 :: nat)],
                          ltail = [True \<mapsto> Node 3]\<rparr> True = Some (Some 4, h')
     \<and> queues h' ((\<lambda>_. [])(True := [1, 3]))"
proof -
  have "queues \<lparr>lnext = [Head True \<mapsto> 1, Node 1 \<mapsto> 4, Node 4 \<mapsto> (3 :: nat)], ltail = [True \<mapsto> Node 3]\<rparr>
          ((\<lambda>_. [])(True := [1, 4, 3]))"
    by (auto simp: queues_def hseg_def)
  from remove_first_deletes [OF this, of even True] show ?thesis by simp
qed

end
