(* ===== verification/Console.thy ===== *)
theory Console
  imports C_String
begin

text \<open>
  \<open>kernel/printk.c\<close> and \<open>kernel/assert.c\<close>: the text screen of the kernel, the formatter of
  \<open>printk\<close> and \<open>sprintk\<close>, and the panic path. The screen is the VGA text buffer in memory: 25 rows
  of 80 cells, two bytes each (character, colour), at \<open>VGA\<close>. The C structure
  \<open>screen_buffer\<close> is the address \<open>VGA\<close>, which never changes, and the fields \<open>scr_column\<close> and
  \<open>scr_row\<close>.

  Format strings and \<open>%s\<close> arguments are the byte lists before their terminators. A variable
  argument list is a list of \<^theory_text>\<open>karg\<close>; reading one that is missing or of the other
  type is the undefined behaviour \<open>Bad_argument\<close>. The 1024 bytes of \<open>buffer\<close> are checked:
  writing past them is \<open>Out_of_bounds\<close>.
\<close>

record machine =
  mem :: memory

record console = machine +
  scr_column :: int
  scr_row :: int

definition KERNEL_VIRTUAL_ADDRESS_BASE :: u64 where
  "KERNEL_VIRTUAL_ADDRESS_BASE = 0xFFFF800000000000"

definition PHY_TO_VIR :: "u64 \<Rightarrow> u64" where
  "PHY_TO_VIR p = p + KERNEL_VIRTUAL_ADDRESS_BASE"

definition VIR_TO_PHY :: "u64 \<Rightarrow> u64" where
  "VIR_TO_PHY v = v - KERNEL_VIRTUAL_ADDRESS_BASE"

definition LINE_SIZE :: int where
  "LINE_SIZE = 80 * 2"

definition VGA :: u64 where
  "VGA = PHY_TO_VIR 0xB8000"

definition PRINT_MAX_BUFFER_SIZE :: nat where
  "PRINT_MAX_BUFFER_SIZE = 1024"

definition DEFAULT_COLOR :: u8 where
  "DEFAULT_COLOR = 0xA"

definition bytes_of :: "string \<Rightarrow> u8 list" where
  "bytes_of s = map of_char s"

section \<open>Numbers\<close>

text \<open>
  The digit loops fill \<open>digits_buffer\<close> from the least significant digit; the second loop of the
  code writes it backwards. The \<open>do\<close> loop runs once even for zero.
\<close>

function hex_digits :: "u64 \<Rightarrow> u8 list" where
  "hex_digits integer =
     bytes_of ''0123456789ABCDEF'' ! unat (integer mod 16)
       # (if integer div 16 \<noteq> 0 then hex_digits (integer div 16) else [])"
  by pat_completeness auto
termination
  by (relation "measure unat") (auto simp: unat_div word_unat_eq_iff intro!: div_less_dividend)

function udec_digits :: "u64 \<Rightarrow> u8 list" where
  "udec_digits integer =
     bytes_of ''0123456789'' ! unat (integer mod 10)
       # (if integer div 10 \<noteq> 0 then udec_digits (integer div 10) else [])"
  by pat_completeness auto
termination
  by (relation "measure unat") (auto simp: unat_div word_unat_eq_iff intro!: div_less_dividend)

declare hex_digits.simps [simp del] udec_digits.simps [simp del]

definition WriteHexToBuffer :: "u64 \<Rightarrow> u8 list" where
  "WriteHexToBuffer integer = bytes_of ''0x'' @ rev (hex_digits integer)"

definition WriteUDecimalToBuffer :: "u64 \<Rightarrow> u8 list" where
  "WriteUDecimalToBuffer integer = rev (udec_digits integer)"

definition WriteDecimalToBuffer :: "u64 \<Rightarrow> u8 list" where
  "WriteDecimalToBuffer integer =
     (if sint integer < 0 then bytes_of ''-'' @ WriteUDecimalToBuffer (- integer)
      else WriteUDecimalToBuffer integer)"

definition WriteStringToBuffer :: "u8 list \<Rightarrow> u8 list" where
  "WriteStringToBuffer str = takeWhile (\<lambda>c. c \<noteq> 0) str"

section \<open>The formatter\<close>

datatype karg = KInt u64 | KStr "u8 list"

fun va_int :: "karg list \<Rightarrow> (u64 \<times> karg list) kres" where
  "va_int (KInt n # args) = ret (n, args)"
| "va_int _ = fails Bad_argument"

fun va_str :: "karg list \<Rightarrow> (u8 list \<times> karg list) kres" where
  "va_str (KStr s # args) = ret (s, args)"
| "va_str _ = fails Bad_argument"

text \<open>Appending to \<open>buffer\<close> at \<open>buffer_size\<close>.\<close>

definition put :: "u8 list \<Rightarrow> u8 list \<Rightarrow> u8 list kres" where
  "put buffer bs =
     andthen (demand (length (buffer @ bs) \<le> PRINT_MAX_BUFFER_SIZE) Out_of_bounds)
       (\<lambda>_. ret (buffer @ bs))"

text \<open>
  The directive after a \<open>%\<close>: \<open>Some\<close> is the text it produces and the arguments left, \<open>None\<close> the
  \<open>default\<close> branch.
\<close>

definition directive :: "u8 \<Rightarrow> karg list \<Rightarrow> (u8 list \<times> karg list) kres option" where
  "directive d args =
     (if d = of_char CHR ''x'' then
        Some (andthen (va_int args) (\<lambda>(n, args'). ret (WriteHexToBuffer n, args')))
      else if d = of_char CHR ''u'' then
        Some (andthen (va_int args) (\<lambda>(n, args'). ret (WriteUDecimalToBuffer n, args')))
      else if d = of_char CHR ''d'' then
        Some (andthen (va_int args) (\<lambda>(n, args'). ret (WriteDecimalToBuffer n, args')))
      else if d = of_char CHR ''s'' then
        Some (andthen (va_str args) (\<lambda>(s, args'). ret (WriteStringToBuffer s, args')))
      else None)"

text \<open>
  The main loop. In the \<open>default\<close> branch the code stores a \<open>%\<close> and steps back, so the character
  after the \<open>%\<close> is read again by the next iteration; a \<open>%\<close> before the terminator does the same.
\<close>

fun format_loop :: "u8 list \<Rightarrow> karg list \<Rightarrow> u8 list \<Rightarrow> u8 list kres" where
  "format_loop [] args buffer = ret buffer"
| "format_loop (c # cs) args buffer =
     (if c \<noteq> of_char CHR ''%'' then
        andthen (put buffer [c]) (\<lambda>buffer'. format_loop cs args buffer')
      else
        (case cs of
           [] \<Rightarrow> andthen (put buffer [c]) (\<lambda>buffer'. format_loop cs args buffer')
         | d # ds \<Rightarrow>
             (case directive d args of
                None \<Rightarrow> andthen (put buffer [c]) (\<lambda>buffer'. format_loop cs args buffer')
              | Some m \<Rightarrow>
                  andthen m (\<lambda>(bs, args').
                  andthen (put buffer bs) (\<lambda>buffer'. format_loop ds args' buffer')))))"

section \<open>The screen\<close>

definition vga_cell :: "int \<Rightarrow> int \<Rightarrow> u64" where
  "vga_cell row column = VGA + word_of_int (column * 2 + row * LINE_SIZE)"

definition vga_scroll :: "memory \<Rightarrow> memory" where
  "vga_scroll m =
     memset (memcpy m VGA (VGA + word_of_int LINE_SIZE) (word_of_int (LINE_SIZE * 24)))
       (VGA + word_of_int (LINE_SIZE * 24)) 0 (word_of_int LINE_SIZE)"

text \<open>
  One iteration of the loop of \<open>WriteVGA\<close>, on the memory and the local \<open>column\<close> and \<open>row\<close>:
  \<open>vga_put\<close> scrolls if the screen is full, \<open>vga_char\<close> is the rest.
\<close>

definition vga_char :: "u8 \<Rightarrow> memory \<times> int \<times> int \<Rightarrow> memory \<times> int \<times> int" where
  "vga_char c = (\<lambda>(m, column, row).
     if c = of_char (CHR 0x0A) then (m, 0, row + 1)
     else if c = of_char (CHR 0x08) then
       (if column = 0 \<and> row = 0 then (m, column, row)
        else
          let (column1, row1) = (if column = 0 then (80, row - 1) else (column, row));
              column2 = column1 - 1
          in (m(vga_cell row1 column2 := 0, vga_cell row1 column2 + 1 := 0), column2, row1))
     else
       let m1 = m(vga_cell row column := c, vga_cell row column + 1 := DEFAULT_COLOR);
           column1 = column + 1
       in if column1 \<ge> 80 then (m1, 0, row + 1) else (m1, column1, row))"

definition vga_put :: "u8 \<Rightarrow> memory \<times> int \<times> int \<Rightarrow> memory \<times> int \<times> int" where
  "vga_put c = (\<lambda>(m, column, row).
     if row \<ge> 25 then vga_char c (vga_scroll m, column, row - 1) else vga_char c (m, column, row))"

definition WriteVGA :: "u8 list \<Rightarrow> 'z console_scheme \<Rightarrow> 'z console_scheme" where
  "WriteVGA buffer s =
     (let (m, column, row) = fold vga_put buffer (mem s, scr_column s, scr_row s)
      in s\<lparr>mem := m, scr_column := column, scr_row := row\<rparr>)"

definition printk :: "u8 list \<Rightarrow> karg list \<Rightarrow> 'z console_scheme \<Rightarrow> (nat \<times> 'z console_scheme) kres" where
  "printk format args s =
     andthen (format_loop format args []) (\<lambda>buffer. ret (length buffer, WriteVGA buffer s))"

text \<open>\<open>sprintk\<close> stores its terminator one byte behind the end of the text, as the code has it.\<close>

definition sprintk :: "u64 \<Rightarrow> u8 list \<Rightarrow> karg list \<Rightarrow> 'z console_scheme \<Rightarrow> (nat \<times> 'z console_scheme) kres" where
  "sprintk str format args s =
     andthen (format_loop format args []) (\<lambda>buffer.
       let m = write_bytes (mem s) str buffer
       in ret (length buffer, s\<lparr>mem := m(str + of_nat (length buffer) + 1 := 0)\<rparr>))"

definition ClrSrc :: "'z console_scheme \<Rightarrow> 'z console_scheme" where
  "ClrSrc s = s\<lparr>mem := memset (mem s) VGA 0 (25 * 80 * 2), scr_column := 0, scr_row := 0\<rparr>"

section \<open>kernel/assert.c\<close>

text \<open>The screen a panic leaves behind; the code then spins for ever.\<close>

definition panic :: "u8 list \<Rightarrow> 'z console_scheme \<Rightarrow> 'z console_scheme kres" where
  "panic msg s =
     andthen (printk (bytes_of ''KERNEL PANIC: %s'' @ [of_char (CHR 0x0A)]) [KStr msg] s)
       (\<lambda>(_, s'). ret s')"

definition error_point :: "string \<Rightarrow> u64 \<Rightarrow> 'z console_scheme \<Rightarrow> 'z console_scheme kres" where
  "error_point file line s =
     andthen (format_loop (bytes_of ''Assertion failed at %s:%d'') [KStr (bytes_of file), KInt line] [])
       (\<lambda>msg. panic msg s)"


section \<open>Reading the digits back\<close>

primrec le_value :: "nat \<Rightarrow> (u8 \<Rightarrow> nat) \<Rightarrow> u8 list \<Rightarrow> nat" where
  "le_value b dig [] = 0"
| "le_value b dig (d # ds) = dig d + b * le_value b dig ds"

definition dec_digit :: "u8 \<Rightarrow> nat" where
  "dec_digit d = unat d - 48"

definition hex_digit :: "u8 \<Rightarrow> nat" where
  "hex_digit d = (if unat d < 65 then unat d - 48 else unat d - 55)"

definition dec_value :: "u8 list \<Rightarrow> nat" where
  "dec_value s = le_value 10 dec_digit (rev s)"

definition hex_value :: "u8 list \<Rightarrow> nat" where
  "hex_value s = le_value 16 hex_digit (rev s)"

lemma nth_dec_map:
  assumes "i < 10"
  shows "unat (bytes_of ''0123456789'' ! i) = 48 + i"
proof -
  have "\<forall>i<10. unat (bytes_of ''0123456789'' ! i) = 48 + i" by code_simp
  with assms show ?thesis by blast
qed

lemma hex_digit_map:
  assumes "i < 16"
  shows "hex_digit (bytes_of ''0123456789ABCDEF'' ! i) = i"
proof -
  have "\<forall>i<16. hex_digit (bytes_of ''0123456789ABCDEF'' ! i) = i" by code_simp
  with assms show ?thesis by blast
qed

lemma udec_digits_value: "le_value 10 dec_digit (udec_digits n) = unat n"
proof (induction n rule: udec_digits.induct)
  case (1 n)
  have m: "unat (n mod 10) = unat n mod 10" "unat (n div 10) = unat n div 10"
    by (simp_all add: unat_mod unat_div)
  have d: "dec_digit (bytes_of ''0123456789'' ! (unat n mod 10)) = unat n mod 10"
    by (simp add: nth_dec_map dec_digit_def)
  show ?case
  proof (cases "n div 10 = 0")
    case True
    then have "unat n div 10 = 0" using m by (metis unat_0)
    then show ?thesis using True m d by (subst udec_digits.simps) simp
  next
    case False
    then show ?thesis using 1 m d by (subst udec_digits.simps) simp
  qed
qed

lemma hex_digits_value: "le_value 16 hex_digit (hex_digits n) = unat n"
proof (induction n rule: hex_digits.induct)
  case (1 n)
  have m: "unat (n mod 16) = unat n mod 16" "unat (n div 16) = unat n div 16"
    by (simp_all add: unat_mod unat_div)
  have d: "hex_digit (bytes_of ''0123456789ABCDEF'' ! (unat n mod 16)) = unat n mod 16"
    by (simp add: hex_digit_map)
  show ?case
  proof (cases "n div 16 = 0")
    case True
    then have "unat n div 16 = 0" using m by (metis unat_0)
    then show ?thesis using True m d by (subst hex_digits.simps) simp
  next
    case False
    then show ?thesis using 1 m d by (subst hex_digits.simps) simp
  qed
qed

lemma udec_digits_decimal: "d \<in> set (udec_digits n) \<Longrightarrow> 48 \<le> unat d \<and> unat d \<le> 57"
proof (induction n rule: udec_digits.induct)
  case (1 n)
  have "unat (n mod 10) < 10" by (simp add: unat_mod)
  then have "48 \<le> unat (bytes_of ''0123456789'' ! unat (n mod 10))
      \<and> unat (bytes_of ''0123456789'' ! unat (n mod 10)) \<le> 57"
    by (simp add: nth_dec_map)
  then show ?case using 1 by (subst (asm) udec_digits.simps) (auto split: if_splits)
qed

lemma length_udec_digits: "unat n < 10 ^ Suc k \<Longrightarrow> length (udec_digits n) \<le> Suc k"
proof (induction k arbitrary: n)
  case 0
  then have "n div 10 = 0" by (simp add: word_unat_eq_iff unat_div)
  then show ?case by (subst udec_digits.simps) simp
next
  case (Suc k)
  have "unat (n div 10) < 10 ^ Suc k" using Suc.prems by (simp add: unat_div)
  then show ?case using Suc.IH [of "n div 10"] by (subst udec_digits.simps) simp
qed

lemma length_hex_digits: "unat n < 16 ^ Suc k \<Longrightarrow> length (hex_digits n) \<le> Suc k"
proof (induction k arbitrary: n)
  case 0
  then have "n div 16 = 0" by (simp add: word_unat_eq_iff unat_div)
  then show ?case by (subst hex_digits.simps) simp
next
  case (Suc k)
  have "unat (n div 16) < 16 ^ Suc k" using Suc.prems by (simp add: unat_div)
  then show ?case using Suc.IH [of "n div 16"] by (subst hex_digits.simps) simp
qed

text \<open>\<open>digits_buffer[25]\<close> holds the digits of any 64-bit number.\<close>

lemma digit_buffer_bounds: "length (udec_digits n) \<le> 20" "length (hex_digits n) \<le> 16"
  using unat_lt2p [of n] length_udec_digits [of n 19] length_hex_digits [of n 15] by simp_all

lemma udec_digits_neq_Nil [simp]: "udec_digits n \<noteq> []"
  by (subst udec_digits.simps) simp

text \<open>Reading a signed number as \<open>%d\<close> prints it.\<close>

definition sdec_value :: "u8 list \<Rightarrow> int" where
  "sdec_value s =
     (if s \<noteq> [] \<and> hd s = of_char CHR ''-'' then - int (dec_value (tl s)) else int (dec_value s))"

lemma uint_uminus_neg:
  fixes x :: u64
  assumes "sint x < 0"
  shows "uint (- x) = - sint x"
proof -
  have "- x = word_of_int (- sint x)" by simp
  moreover have "- sint x \<le> 2 ^ 63" using sint_greater_eq [of x] by simp
  ultimately show ?thesis
    using assms by (simp only: uint_word_of_int) simp
qed

lemma sint_nonneg_unat:
  assumes "0 \<le> sint (x :: u64)"
  shows "int (unat x) = sint x"
proof -
  have "uint (word_of_int (sint x) :: u64) = sint x"
    using assms sint_lt [of x] by (simp only: uint_word_of_int) simp
  then show ?thesis by simp
qed

lemma sdec_value_WriteDecimalToBuffer: "sdec_value (WriteDecimalToBuffer n) = sint n"
proof (cases "sint n < 0")
  case True
  then show ?thesis
    by (simp add: sdec_value_def WriteDecimalToBuffer_def WriteUDecimalToBuffer_def dec_value_def
        bytes_of_def udec_digits_value uint_uminus_neg)
next
  case False
  have "hd (rev (udec_digits n)) \<in> set (udec_digits n)"
    by (metis hd_in_set rev_is_Nil_conv set_rev udec_digits_neq_Nil)
  then have "hd (rev (udec_digits n)) \<noteq> of_char CHR ''-''"
    using udec_digits_decimal [of "hd (rev (udec_digits n))" n] by auto
  then show ?thesis using False sint_nonneg_unat [of n]
    by (simp add: sdec_value_def WriteDecimalToBuffer_def WriteUDecimalToBuffer_def dec_value_def
        udec_digits_value)
qed


section \<open>The screen memory\<close>

definition screen_bytes :: "u64 set" where
  "screen_bytes = span VGA 4000"

lemma vga_cell_nat:
  "0 \<le> row \<Longrightarrow> 0 \<le> column \<Longrightarrow> vga_cell row column = VGA + of_nat (nat (column * 2 + row * 160))"
  by (simp add: vga_cell_def LINE_SIZE_def of_nat_nat)

lemma cell_index_bound:
  fixes row column :: int
  assumes "0 \<le> row" "row < 25" "0 \<le> column" "column < 80"
  shows "nat (column * 2 + row * 160) + 1 < 4000"
  using assms by linarith

lemma vga_cell_in_screen:
  assumes "0 \<le> row" "row < 25" "0 \<le> column" "column < 80"
  shows "vga_cell row column \<in> screen_bytes" "vga_cell row column + 1 \<in> screen_bytes"
proof -
  note k = cell_index_bound [OF assms]
  show "vga_cell row column \<in> screen_bytes"
    unfolding screen_bytes_def vga_cell_nat [OF assms(1,3)] by (rule add_in_span) (use k in simp_all)
  have "VGA + of_nat (Suc (nat (column * 2 + row * 160))) \<in> span VGA 4000"
    by (rule add_in_span) (use k in simp_all)
  then show "vga_cell row column + 1 \<in> screen_bytes"
    unfolding screen_bytes_def vga_cell_nat [OF assms(1,3)] by (simp add: algebra_simps)
qed

lemma VGA_offset_inj:
  "i < 4000 \<Longrightarrow> j < 4000 \<Longrightarrow> VGA + of_nat i = VGA + of_nat j \<longleftrightarrow> i = j"
  by (simp add: of_nat_eq_small)

lemma vga_cell_eq_iff:
  assumes "0 \<le> row" "row < 25" "0 \<le> column" "column < 80"
    and "0 \<le> row'" "row' < 25" "0 \<le> column'" "column' < 80"
  shows "vga_cell row column = vga_cell row' column' \<longleftrightarrow> row = row' \<and> column = column'"
    and "vga_cell row column + 1 = vga_cell row' column' + 1 \<longleftrightarrow> row = row' \<and> column = column'"
    and "vga_cell row column \<noteq> vga_cell row' column' + 1"
proof -
  let ?i = "nat (column * 2 + row * 160)" and ?j = "nat (column' * 2 + row' * 160)"
  have b: "?i + 1 < 4000" "?j + 1 < 4000"
    using cell_index_bound [OF assms(1-4)] cell_index_bound [OF assms(5-8)] by simp_all
  have "?i = ?j \<longleftrightarrow> column * 2 + row * 160 = column' * 2 + row' * 160"
    using assms by (intro eq_nat_nat_iff) simp_all
  also have "\<dots> \<longleftrightarrow> row = row' \<and> column = column'"
  proof
    have "(c * 2 + r * 160) div 160 = r" if "0 \<le> c" "c < 80" for c r :: int
      using that by simp
    moreover assume "column * 2 + row * 160 = column' * 2 + row' * 160"
    ultimately have "row = row'" using assms by metis
    with \<open>column * 2 + row * 160 = column' * 2 + row' * 160\<close>
    show "row = row' \<and> column = column'" by simp
  qed simp
  finally have "VGA + of_nat ?i = VGA + of_nat ?j \<longleftrightarrow> row = row' \<and> column = column'"
    using b by (subst VGA_offset_inj) simp_all
  then show 1: "vga_cell row column = vga_cell row' column' \<longleftrightarrow> row = row' \<and> column = column'"
    using assms by (simp only: vga_cell_nat)
  then show "vga_cell row column + 1 = vga_cell row' column' + 1 \<longleftrightarrow> row = row' \<and> column = column'"
    by simp
  have "even ?i" "even ?j" using assms by (simp_all add: even_nat_iff)
  then have "?i \<noteq> ?j + 1" by (metis even_plus_one_iff)
  then have "VGA + of_nat ?i \<noteq> VGA + of_nat (?j + 1)" using b by (subst VGA_offset_inj) simp_all
  then show "vga_cell row column \<noteq> vga_cell row' column' + 1"
    using assms by (simp add: vga_cell_nat algebra_simps)
qed

text \<open>Scrolling moves every line up by one and blanks the last.\<close>

lemma vga_scroll_apply:
  "vga_scroll m x =
     (if unat (x - VGA) < 3840 then m (x + 160)
      else if unat (x - VGA) < 4000 then 0 else m x)"
proof -
  have cp: "memcpy m VGA (VGA + 160) 3840 = blit m VGA (VGA + 160) 3840"
  proof -
    have "VGA + of_nat i \<noteq> VGA + 160 + of_nat j" if "i < j" "j < 3840" for i j
    proof -
      have "(of_nat i :: u64) \<noteq> of_nat (160 + j)"
        using that by (subst of_nat_eq_small) simp_all
      then show ?thesis by (simp add: algebra_simps)
    qed
    then show ?thesis by (simp add: memcpy_def memcpy_loop_eq_blit)
  qed
  have "vga_scroll m = fill (blit m VGA (VGA + 160) 3840) (VGA + 3840) 0 160"
    by (simp add: vga_scroll_def LINE_SIZE_def cp memset_eq_fill)
  moreover have "unat (x - (VGA + 3840)) < 160 \<longleftrightarrow> 3840 \<le> unat (x - VGA) \<and> unat (x - VGA) < 4000"
  proof -
    have e: "x - (VGA + 3840) = (x - VGA) - 3840" by simp
    have "unat (3840 :: u64) = 3840" by simp
    then have "unat (x - VGA - 3840) = (if 3840 \<le> unat (x - VGA) then unat (x - VGA) - 3840
        else unat (x - VGA) + 2 ^ 64 - 3840)"
      using unat_sub_if_size [of "x - VGA" 3840] by (simp add: word_size)
    then show ?thesis unfolding e by auto
  qed
  ultimately show ?thesis by (auto simp: fill_def blit_def algebra_simps)
qed


section \<open>The screen as a grid\<close>

text \<open>
  The specification: a terminal of 25 lines of 80 cells with a cursor. \<open>tty_put\<close> writes one
  character to it.
\<close>

type_synonym grid = "int \<Rightarrow> int \<Rightarrow> u8 \<times> u8"

definition set_cell :: "grid \<Rightarrow> int \<Rightarrow> int \<Rightarrow> u8 \<times> u8 \<Rightarrow> grid" where
  "set_cell g row column v = g(row := (g row)(column := v))"

definition scroll_grid :: "grid \<Rightarrow> grid" where
  "scroll_grid g = (\<lambda>row column. if row < 24 then g (row + 1) column else (0, 0))"

definition tty_char :: "u8 \<Rightarrow> grid \<times> int \<times> int \<Rightarrow> grid \<times> int \<times> int" where
  "tty_char c = (\<lambda>(g, column, row).
     if c = 10 then (g, 0, row + 1)
     else if c = 8 then
       (if column > 0 then (set_cell g row (column - 1) (0, 0), column - 1, row)
        else if row > 0 then (set_cell g (row - 1) 79 (0, 0), 79, row - 1)
        else (g, column, row))
     else if column = 79 then (set_cell g row column (c, DEFAULT_COLOR), 0, row + 1)
     else (set_cell g row column (c, DEFAULT_COLOR), column + 1, row))"

definition tty_put :: "u8 \<Rightarrow> grid \<times> int \<times> int \<Rightarrow> grid \<times> int \<times> int" where
  "tty_put c = (\<lambda>(g, column, row).
     if row = 25 then tty_char c (scroll_grid g, column, 24) else tty_char c (g, column, row))"

definition cursor_ok :: "int \<Rightarrow> int \<Rightarrow> bool" where
  "cursor_ok column row \<longleftrightarrow> 0 \<le> column \<and> column < 80 \<and> 0 \<le> row \<and> row \<le> 25"

definition grid_of :: "memory \<Rightarrow> grid" where
  "grid_of m = (\<lambda>row column. if 0 \<le> row \<and> row < 25 \<and> 0 \<le> column \<and> column < 80
     then (m (vga_cell row column), m (vga_cell row column + 1)) else (0, 0))"

definition same_screen :: "grid \<Rightarrow> grid \<Rightarrow> bool" where
  "same_screen g g' \<longleftrightarrow>
     (\<forall>row column. 0 \<le> row \<and> row < 25 \<and> 0 \<le> column \<and> column < 80 \<longrightarrow> g row column = g' row column)"

lemma vga_char_codes [simp]: "(of_char (CHR 0x0A) :: u8) = 10" "(of_char (CHR 0x08) :: u8) = 8"
  by simp_all

lemma grid_of_set_cell:
  assumes "0 \<le> row" "row < 25" "0 \<le> column" "column < 80"
  shows "grid_of (m(vga_cell row column := a, vga_cell row column + 1 := b))
       = set_cell (grid_of m) row column (a, b)"
proof (intro ext)
  fix r c :: int
  show "grid_of (m(vga_cell row column := a, vga_cell row column + 1 := b)) r c
      = set_cell (grid_of m) row column (a, b) r c"
  proof (cases "0 \<le> r \<and> r < 25 \<and> 0 \<le> c \<and> c < 80")
    case True
    then have r: "0 \<le> r" "r < 25" "0 \<le> c" "c < 80" by simp_all
    note eqs = vga_cell_eq_iff [OF r assms] not_sym [OF vga_cell_eq_iff(3) [OF assms r]]
    show ?thesis
    proof (cases "r = row \<and> c = column")
      case True
      then show ?thesis using assms by (simp add: grid_of_def set_cell_def)
    next
      case False
      then show ?thesis using r eqs by (auto simp: grid_of_def set_cell_def)
    qed
  next
    case False
    then have ne: "\<not> (r = row \<and> c = column)" using assms by auto
    have "grid_of m' r c = (0, 0)" for m' using False unfolding grid_of_def by (simp only: if_False)
    moreover have "set_cell (grid_of m) row column (a, b) r c = grid_of m r c"
      using ne by (auto simp: set_cell_def)
    ultimately show ?thesis by simp
  qed
qed

lemma grid_of_scroll: "same_screen (grid_of (vga_scroll m)) (scroll_grid (grid_of m))"
  unfolding same_screen_def
proof (intro allI impI)
  fix row column :: int
  assume a: "0 \<le> row \<and> row < 25 \<and> 0 \<le> column \<and> column < 80"
  let ?k = "nat (column * 2 + row * 160)"
  have k: "?k + 1 < 4000" using a by (intro cell_index_bound) auto
  have cell: "vga_cell row column = VGA + of_nat ?k" "vga_cell row column + 1 = VGA + of_nat (Suc ?k)"
    using a by (simp_all add: vga_cell_nat algebra_simps)
  have off_of_nat: "unat (VGA + of_nat j - VGA) = j" if "j < 4000" for j
    using that unat_of_nat_less [where 'w = 64, of j] by simp
  have off: "unat (vga_cell row column - VGA) = ?k" "unat (vga_cell row column + 1 - VGA) = Suc ?k"
    using off_of_nat [of ?k] off_of_nat [of "Suc ?k"] k unfolding cell(1) [symmetric] cell(2) [symmetric]
    by simp_all
  show "grid_of (vga_scroll m) row column = scroll_grid (grid_of m) row column"
  proof (cases "row < 24")
    case True
    have "vga_cell (row + 1) column = vga_cell row column + 160"
      by (simp add: vga_cell_def LINE_SIZE_def algebra_simps)
    moreover have "Suc ?k < 3840" using a True by linarith
    ultimately show ?thesis using True a off
      by (simp add: grid_of_def scroll_grid_def vga_scroll_apply algebra_simps)
  next
    case False
    then have "row = 24" using a by simp
    moreover have "3840 \<le> ?k" using a \<open>row = 24\<close> by linarith
    ultimately show ?thesis using a off k by (simp add: grid_of_def scroll_grid_def vga_scroll_apply)
  qed
qed

text \<open>The memory, the cursor and the grid agree, and the rest of the memory is untouched.\<close>

definition screen_rel :: "memory \<Rightarrow> memory \<times> int \<times> int \<Rightarrow> grid \<times> int \<times> int \<Rightarrow> bool" where
  "screen_rel m0 = (\<lambda>(m, column, row) (g, column', row').
     column = column' \<and> row = row' \<and> cursor_ok column row \<and> same_screen (grid_of m) g
     \<and> (\<forall>x. x \<notin> screen_bytes \<longrightarrow> m x = m0 x))"

lemma same_screen_refl [simp]: "same_screen g g"
  by (simp add: same_screen_def)

lemma same_screen_trans: "same_screen a b \<Longrightarrow> same_screen b c \<Longrightarrow> same_screen a c"
  by (simp add: same_screen_def)

lemma same_screen_set_cell:
  "same_screen g g' \<Longrightarrow> same_screen (set_cell g r c v) (set_cell g' r c v)"
  by (simp add: same_screen_def set_cell_def)

lemma same_screen_scroll: "same_screen g g' \<Longrightarrow> same_screen (scroll_grid g) (scroll_grid g')"
  by (simp add: same_screen_def scroll_grid_def)

lemma scroll_frame: "x \<notin> screen_bytes \<Longrightarrow> vga_scroll m x = m x"
  by (simp add: vga_scroll_apply screen_bytes_def span_def)

lemma set_cell_rel:
  assumes "same_screen (grid_of m) g" "0 \<le> row" "row < 25" "0 \<le> column" "column < 80"
  shows "same_screen (grid_of (m(vga_cell row column := a, vga_cell row column + 1 := b)))
           (set_cell g row column (a, b))"
    and "x \<notin> screen_bytes \<Longrightarrow> (m(vga_cell row column := a, vga_cell row column + 1 := b)) x = m x"
  using assms(1) grid_of_set_cell [OF assms(2-)] vga_cell_in_screen [OF assms(2-)]
  by (auto simp: same_screen_set_cell)

lemma vga_char_rel:
  assumes "screen_rel m0 (m, column, row) (g, column, row)" "row < 25"
  shows "screen_rel m0 (vga_char c (m, column, row)) (tty_char c (g, column, row))"
proof -
  have ok: "0 \<le> column" "column < 80" "0 \<le> row" and g: "same_screen (grid_of m) g"
    and fr: "\<And>x. x \<notin> screen_bytes \<Longrightarrow> m x = m0 x"
    using assms(1) by (simp_all add: screen_rel_def cursor_ok_def)
  consider "c = 10" | "c = 8" "column = 0" "row = 0" | "c = 8" "column = 0" "row > 0"
    | "c = 8" "column > 0" | "c \<noteq> 10" "c \<noteq> 8" "column = 79" | "c \<noteq> 10" "c \<noteq> 8" "column < 79"
    using ok by fastforce
  then show ?thesis
  proof cases
    case 1
    then show ?thesis using ok g fr assms(2)
      by (simp add: vga_char_def tty_char_def screen_rel_def cursor_ok_def)
  next
    case 2
    then show ?thesis using ok g fr assms(2)
      by (simp add: vga_char_def tty_char_def screen_rel_def cursor_ok_def)
  next
    case 3
    then show ?thesis using set_cell_rel [OF g, of "row - 1" 79] ok fr assms(2)
      by (simp add: vga_char_def tty_char_def screen_rel_def cursor_ok_def del: fun_upd_apply)
  next
    case 4
    then show ?thesis using set_cell_rel [OF g, of row "column - 1"] ok fr assms(2)
      by (simp add: Let_def vga_char_def tty_char_def screen_rel_def cursor_ok_def del: fun_upd_apply)
  next
    case 5
    then show ?thesis using set_cell_rel [OF g, of row 79] ok fr assms(2)
      by (simp add: vga_char_def tty_char_def screen_rel_def cursor_ok_def del: fun_upd_apply)
  next
    case 6
    then show ?thesis using set_cell_rel [OF g, of row column] ok fr assms(2)
      by (simp add: vga_char_def tty_char_def screen_rel_def cursor_ok_def del: fun_upd_apply)
  qed
qed

lemma vga_put_rel:
  assumes "screen_rel m0 (m, column, row) (g, column, row)"
  shows "screen_rel m0 (vga_put c (m, column, row)) (tty_put c (g, column, row))"
proof (cases "row = 25")
  case True
  have "same_screen (grid_of (vga_scroll m)) (scroll_grid g)"
    using assms grid_of_scroll same_screen_scroll same_screen_trans
    by (fastforce simp: screen_rel_def)
  then have "screen_rel m0 (vga_scroll m, column, 24) (scroll_grid g, column, 24)"
    using assms True by (simp add: screen_rel_def cursor_ok_def scroll_frame)
  then show ?thesis using True by (simp add: vga_put_def tty_put_def vga_char_rel)
next
  case False
  then have "row < 25" using assms by (simp add: screen_rel_def cursor_ok_def)
  then show ?thesis using assms False by (simp add: vga_put_def tty_put_def vga_char_rel)
qed

lemma fold_vga_put_rel:
  "screen_rel m0 s t \<Longrightarrow> screen_rel m0 (fold vga_put buffer s) (fold tty_put buffer t)"
proof (induction buffer arbitrary: s t)
  case Nil
  then show ?case by simp
next
  case (Cons c cs)
  obtain m column row g where st: "s = (m, column, row)" "t = (g, column, row)"
    using Cons.prems by (cases s; cases t) (auto simp: screen_rel_def)
  with Cons.prems have "screen_rel m0 (vga_put c s) (tty_put c t)" by (simp add: vga_put_rel)
  then show ?case using Cons.IH by simp
qed

definition screen_ok :: "'z console_scheme \<Rightarrow> bool" where
  "screen_ok s \<longleftrightarrow> cursor_ok (scr_column s) (scr_row s)"

lemma WriteVGA_rel:
  assumes "screen_ok s"
  shows "screen_rel (mem s)
      (mem (WriteVGA b s), scr_column (WriteVGA b s), scr_row (WriteVGA b s))
      (fold tty_put b (grid_of (mem s), scr_column s, scr_row s))"
proof -
  have "screen_rel (mem s) (mem s, scr_column s, scr_row s) (grid_of (mem s), scr_column s, scr_row s)"
    using assms by (simp add: screen_rel_def screen_ok_def)
  from fold_vga_put_rel [OF this, of b] show ?thesis
    by (auto simp: WriteVGA_def split: prod.splits)
qed

lemma WriteVGA_screen_ok: "screen_ok s \<Longrightarrow> screen_ok (WriteVGA b s)"
  using WriteVGA_rel [of s b] by (auto simp: screen_rel_def screen_ok_def split: prod.splits)

lemma WriteVGA_frame: "screen_ok s \<Longrightarrow> x \<notin> screen_bytes \<Longrightarrow> mem (WriteVGA b s) x = mem s x"
  using WriteVGA_rel [of s b] by (auto simp: screen_rel_def split: prod.splits)


section \<open>Formatting\<close>

definition plain :: "u8 list \<Rightarrow> bool" where
  "plain s \<longleftrightarrow> of_char CHR ''%'' \<notin> set s"

lemma put_eq: "put buffer bs =
    (if length buffer + length bs \<le> 1024 then ret (buffer @ bs) else fails Out_of_bounds)"
  by (simp add: put_def PRINT_MAX_BUFFER_SIZE_def)

lemma format_loop_plain_append:
  "plain a \<Longrightarrow> length buffer + length a \<le> 1024 \<Longrightarrow>
   format_loop (a @ b) args buffer = format_loop b args (buffer @ a)"
proof (induction a arbitrary: buffer)
  case Nil
  then show ?case by simp
next
  case (Cons c cs)
  then show ?case by (simp add: plain_def put_eq)
qed

lemma format_loop_plain:
  "plain a \<Longrightarrow> length buffer + length a \<le> 1024 \<Longrightarrow>
   format_loop a args buffer = ret (buffer @ a)"
  using format_loop_plain_append [of a buffer "[]" args] by simp

lemma format_loop_overflow:
  assumes "plain a" "length buffer \<le> 1024" "1024 < length buffer + length a"
  shows "format_loop (a @ b) args buffer = fails Out_of_bounds"
proof -
  let ?k = "1024 - length buffer"
  have k: "?k < length a" using assms by linarith
  have sub: "set (take ?k a) \<subseteq> set a" "set (drop ?k a) \<subseteq> set a"
    by (simp_all add: set_take_subset set_drop_subset)
  have "plain (take ?k a)" using assms(1) sub by (auto simp: plain_def)
  then have "format_loop (take ?k a @ drop ?k a @ b) args buffer
      = format_loop (drop ?k a @ b) args (buffer @ take ?k a)"
    using assms(2) k by (intro format_loop_plain_append) auto
  moreover obtain c cs where d: "drop ?k a = c # cs" using k by (cases "drop ?k a") auto
  have "c \<noteq> of_char CHR ''%''" using d sub(2) assms(1) by (auto simp: plain_def)
  moreover have "length (buffer @ take ?k a) = 1024" using k assms(2) by simp
  ultimately have "format_loop (take ?k a @ drop ?k a @ b) args buffer = fails Out_of_bounds"
    using d by (simp add: put_eq)
  moreover have "take ?k a @ drop ?k a @ b = a @ b" by (metis append_assoc append_take_drop_id)
  ultimately show ?thesis by (simp only:)
qed

lemma format_loop_directive:
  assumes "directive d args = Some (ret (bs, args'))" "length buffer + length bs \<le> 1024"
  shows "format_loop (of_char CHR ''%'' # d # ds) args buffer = format_loop ds args' (buffer @ bs)"
  using assms by (simp add: put_eq)

lemma directives [simp]:
  "directive (of_char CHR ''x'') (KInt n # args) = Some (ret (WriteHexToBuffer n, args))"
  "directive (of_char CHR ''u'') (KInt n # args) = Some (ret (WriteUDecimalToBuffer n, args))"
  "directive (of_char CHR ''d'') (KInt n # args) = Some (ret (WriteDecimalToBuffer n, args))"
  "directive (of_char CHR ''s'') (KStr s # args) = Some (ret (WriteStringToBuffer s, args))"
  by (simp_all add: directive_def)

lemma WriteStringToBuffer_cstring: "0 \<notin> set s \<Longrightarrow> WriteStringToBuffer s = s"
  by (auto simp: WriteStringToBuffer_def takeWhile_eq_all_conv)

text \<open>A directive between two plain texts.\<close>

lemma format_one_directive:
  assumes "plain a" "plain b" "directive d args = Some (ret (bs, args'))"
    and "length a + length bs + length b \<le> 1024"
  shows "format_loop (a @ [of_char CHR ''%'', d] @ b) args [] = ret (a @ bs @ b)"
proof -
  have "format_loop (a @ [of_char CHR ''%'', d] @ b) args []
      = format_loop (of_char CHR ''%'' # d # b) args a"
    using assms by (subst format_loop_plain_append) simp_all
  also have "\<dots> = format_loop b args' (a @ bs)"
    using assms by (intro format_loop_directive) simp_all
  also have "\<dots> = ret (a @ bs @ b)"
    using assms by (subst format_loop_plain) simp_all
  finally show ?thesis .
qed

lemma put_eq_ret: "put buffer bs = ret buffer' \<longleftrightarrow>
    length buffer + length bs \<le> 1024 \<and> buffer' = buffer @ bs"
  by (auto simp: put_eq)

text \<open>What the loop returns fits the buffer.\<close>

lemma format_loop_length:
  "format_loop format args buffer = ret out \<Longrightarrow> length buffer \<le> 1024 \<Longrightarrow> length out \<le> 1024"
proof (induction format args buffer rule: format_loop.induct)
  case (1 args buffer)
  then show ?case by simp
next
  case (2 c cs args buffer)
  have put: "length out \<le> 1024"
    if "andthen (put buffer bs) (\<lambda>buffer'. format_loop cs' args' buffer') = ret out"
      "\<And>buffer'. format_loop cs' args' buffer' = ret out \<Longrightarrow> length buffer' \<le> 1024 \<Longrightarrow> length out \<le> 1024"
    for bs cs' args'
    using that by (auto simp: put_eq_ret)
  show ?case
  proof (cases "c = of_char CHR ''%''")
    case False
    then have "andthen (put buffer [c]) (\<lambda>buffer'. format_loop cs args buffer') = ret out"
      using "2.prems"(1) by (simp only: format_loop.simps if_True simp_thms)
    then show ?thesis by (rule put) (rule "2.IH"(1) [OF False])
  next
    case c: True
    show ?thesis
    proof (cases cs)
      case Nil
      then have "andthen (put buffer [c]) (\<lambda>buffer'. format_loop cs args buffer') = ret out"
        using "2.prems"(1) c by (simp only: format_loop.simps(2) list.case simp_thms if_False)
      then show ?thesis by (rule put) (rule "2.IH"(2), simp_all add: c Nil)
    next
      case (Cons d ds)
      show ?thesis
      proof (cases "directive d args")
        case None
        then have "andthen (put buffer [c]) (\<lambda>buffer'. format_loop cs args buffer') = ret out"
          using "2.prems"(1) [unfolded format_loop.simps(2) [of c cs]] c Cons
          by (simp del: format_loop.simps)
        then show ?thesis by (rule put) (rule "2.IH"(3) [OF _ Cons None], simp_all add: c)
      next
        case (Some m)
        then have "andthen m (\<lambda>(bs, args').
            andthen (put buffer bs) (\<lambda>buffer'. format_loop ds args' buffer')) = ret out"
          using "2.prems"(1) [unfolded format_loop.simps(2) [of c cs]] c Cons
          by (simp del: format_loop.simps)
        then obtain bs args' where
          "andthen (put buffer bs) (\<lambda>buffer'. format_loop ds args' buffer') = ret out"
          by auto
        then show ?thesis by (rule put) (rule "2.IH"(4) [OF _ Cons Some], simp_all add: c)
      qed
    qed
  qed
qed

section \<open>Properties\<close>

text \<open>
  Property C39. \<open>WriteVGA\<close> implements a terminal: from a cursor on the screen, the text buffer and the
  cursor it leaves are those of the terminal \<open>tty_put\<close> run on each character in turn (newline,
  backspace, wrapping at 80 columns, scrolling at 25 rows), the cursor is on the screen again, and
  no byte outside the text buffer changes.
\<close>

theorem WriteVGA_is_terminal:
  assumes "screen_ok s"
  shows "screen_ok (WriteVGA b s)
     \<and> same_screen (grid_of (mem (WriteVGA b s)))
         (fst (fold tty_put b (grid_of (mem s), scr_column s, scr_row s)))
     \<and> (scr_column (WriteVGA b s), scr_row (WriteVGA b s))
         = snd (fold tty_put b (grid_of (mem s), scr_column s, scr_row s))
     \<and> (\<forall>x. x \<notin> screen_bytes \<longrightarrow> mem (WriteVGA b s) x = mem s x)"
  using WriteVGA_rel [OF assms, of b] WriteVGA_screen_ok [OF assms, of b]
  by (auto simp: screen_rel_def split: prod.splits)

theorem WriteVGA_is_terminal_witness:
  "(let s = \<lparr>mem = \<lambda>_. 0, scr_column = 79, scr_row = 24\<rparr>;
        s' = WriteVGA [65, 10] s
    in (scr_column s', scr_row s') = (0, 25) \<and> screen_ok s')"
  using WriteVGA_is_terminal [of "\<lparr>mem = \<lambda>_. 0, scr_column = 79, scr_row = 24\<rparr>" "[65]"]
    WriteVGA_is_terminal [of "\<lparr>mem = \<lambda>_. 0, scr_column = 79, scr_row = 23\<rparr>" "[65, 10]"]
    WriteVGA_is_terminal [of "\<lparr>mem = \<lambda>_. 0, scr_column = 79, scr_row = 24\<rparr>" "[65, 10]"]
  by (simp add: screen_ok_def cursor_ok_def tty_put_def tty_char_def Let_def)

text \<open>
  Property C40. The number directives print what they are given: reading back the text of \<open>%u\<close>, \<open>%d\<close>
  and \<open>%x\<close> gives the 64-bit argument as an unsigned, a signed and an unsigned number, and the
  digits always fit the 25 bytes of \<open>digits_buffer\<close>.
\<close>

theorem printed_numbers_read_back:
  "dec_value (WriteUDecimalToBuffer n) = unat n
   \<and> sdec_value (WriteDecimalToBuffer n) = sint n
   \<and> hex_value (drop 2 (WriteHexToBuffer n)) = unat n \<and> take 2 (WriteHexToBuffer n) = bytes_of ''0x''
   \<and> length (udec_digits n) \<le> 25 \<and> length (hex_digits n) \<le> 25"
  using digit_buffer_bounds [of n] sdec_value_WriteDecimalToBuffer [of n]
  by (simp add: dec_value_def hex_value_def WriteUDecimalToBuffer_def WriteHexToBuffer_def
      udec_digits_value hex_digits_value bytes_of_def)

text \<open>
  \<open>printk\<close> of a format with one directive between plain texts shows the first text,
  what the directive makes of its argument and the second text, and returns the length of the
  whole, as long as it fits the 1024 bytes of \<open>buffer\<close>.
\<close>

theorem printk_one_directive:
  assumes "plain a" "plain b" "directive d args = Some (ret (bs, args'))"
    and "length a + length bs + length b \<le> 1024"
  shows "printk (a @ [of_char CHR ''%'', d] @ b) args s
       = ret (length a + length bs + length b, WriteVGA (a @ bs @ b) s)"
  using format_one_directive [OF assms] by (simp add: printk_def)

theorem printk_one_directive_witness:
  "printk [65, of_char CHR ''%'', of_char CHR ''s'', 10] [KStr [66, 67]]
     \<lparr>mem = \<lambda>_. 0, scr_column = 0, scr_row = 0\<rparr>
   = ret (length [65, 66, 67, 10 :: u8], WriteVGA [65, 66, 67, 10] \<lparr>mem = \<lambda>_. 0, scr_column = 0, scr_row = 0\<rparr>)"
proof -
  have "directive (of_char CHR ''s'') [KStr [66, 67]] = Some (ret ([66, 67], []))"
    by (simp only: directives) (simp add: WriteStringToBuffer_def)
  moreover have "plain [65]" "plain [10]" by (simp_all add: plain_def)
  ultimately show ?thesis
    using printk_one_directive [of "[65]" "[10]" "of_char CHR ''s''" "[KStr [66, 67]]" "[66, 67]" "[]"
        "\<lparr>mem = \<lambda>_. 0, scr_column = 0, scr_row = 0\<rparr>"]
    by simp
qed

text \<open>
  \<open>printk\<close> does not check the size of its local \<open>buffer\<close>: a text of more than 1024
  plain characters is written past its end, which is undefined behaviour, whatever follows it.
\<close>

theorem printk_overflows_buffer:
  assumes "plain a" "1024 < length a"
  shows "printk (a @ b) args s = fails Out_of_bounds"
  using format_loop_overflow [of a "[]" b args] assms by (simp add: printk_def)

theorem printk_overflows_buffer_witness:
  "printk (replicate 1025 65) [] \<lparr>mem = \<lambda>_. 0, scr_column = 0, scr_row = 0\<rparr> = fails Out_of_bounds"
  using printk_overflows_buffer [of "replicate 1025 65" "[]" "[]"] by (simp add: plain_def)

text \<open>
  \<open>sprintk\<close> stores the formatted text at \<open>str\<close>, leaves the byte behind the text as it
  was, and stores its zero one byte further: the string ends only where a zero happened to be.
\<close>

theorem sprintk_terminator_misplaced:
  assumes "format_loop format args [] = ret out"
  shows "\<exists>s'. sprintk str format args s = ret (length out, s')
     \<and> mem s' (str + of_nat (length out)) = mem s (str + of_nat (length out))
     \<and> mem s' (str + of_nat (length out) + 1) = 0
     \<and> (\<forall>i<length out. mem s' (str + of_nat i) = out ! i)"
proof -
  have l: "length out \<le> 1024"
    using format_loop_length [of format args "[]" out] assms by simp
  have ne: "(of_nat i :: u64) \<noteq> of_nat (length out) + 1" if "i \<le> length out" for i
  proof -
    have "(of_nat i :: u64) \<noteq> of_nat (Suc (length out))"
      using that l by (subst of_nat_eq_small) simp_all
    then show ?thesis by (simp add: add.commute)
  qed
  have "mem s' (str + of_nat i) = write_bytes (mem s) str out (str + of_nat i)"
    if le: "i \<le> length out" and s': "s' = s\<lparr>mem := (write_bytes (mem s) str out)(str + of_nat (length out) + 1 := 0)\<rparr>"
    for i s'
    using s' ne [OF le] by (simp add: add.assoc)
  then show ?thesis
    using assms l by (simp add: sprintk_def Let_def write_bytes_apply span_def unat_of_nat add.assoc)
qed

theorem sprintk_terminator_misplaced_witness:
  "\<exists>s'. sprintk 100 [65, 66] [] \<lparr>mem = \<lambda>_. 1, scr_column = 0, scr_row = 0\<rparr> = ret (2, s')
     \<and> mem s' 102 = 1 \<and> mem s' 103 = 0"
proof -
  have "format_loop [65, 66] [] [] = ret [65, 66]" by (simp add: put_eq)
  from sprintk_terminator_misplaced [OF this, of 100 "\<lparr>mem = \<lambda>_. 1, scr_column = 0, scr_row = 0\<rparr>"]
  show ?thesis by (auto simp: numeral_2_eq_2)
qed

end
