(* ===== verification/Phys_Memory.thy ===== *)
theory Phys_Memory
  imports Console
begin

text \<open>
  The physical page allocator of \<open>kernel/memory.c\<close>: \<open>kalloc\<close>, \<open>kfree\<close>, \<open>FreeRegion\<close> and
  \<open>RetrieveMemoryInfo\<close>. Free 2 MB pages form a linked list whose links are stored in the first
  eight bytes of the free pages themselves, so the list lives in the byte memory and every write
  to a page that is still free destroys it. The memory is addressed as the kernel sees it, with
  physical address \<open>p\<close> at \<open>PHY_TO_VIR p\<close>; the boot code also maps the first gigabyte one to one,
  and the two tables the loader leaves at \<open>0x9000\<close> and \<open>0x9008\<close> are read through
  \<open>PHY_TO_VIR\<close> here. \<open>l_kernel_end\<close> is the linker's symbol, a constant of the run.
\<close>

record kmem = console +
  s_free_memory_page_head :: u64
  s_free_memory_regions :: "(u64 \<times> u64) list"
  s_free_memory_end_address :: u64
  s_total_mem :: u64
  l_kernel_end :: u64
  cr3 :: u64

section \<open>Addresses\<close>

definition PAGE_SIZE :: u64 where
  "PAGE_SIZE = 2 * 1024 * 1024"

definition PHYSICAL_MEMORY_SIZE :: u64 where
  "PHYSICAL_MEMORY_SIZE = 0x40000000"

definition VIRTUAL_ADDRESS_END :: u64 where
  "VIRTUAL_ADDRESS_END = KERNEL_VIRTUAL_ADDRESS_BASE + PHYSICAL_MEMORY_SIZE"

definition PAGE_ALIGN_UP :: "u64 \<Rightarrow> u64" where
  "PAGE_ALIGN_UP v = push_bit 21 (drop_bit 21 (v + PAGE_SIZE - 1))"

definition PAGE_ALIGN_DOWN :: "u64 \<Rightarrow> u64" where
  "PAGE_ALIGN_DOWN v = push_bit 21 (drop_bit 21 v)"

definition ADDR_IS_ALIGNED :: "u64 \<Rightarrow> bool" where
  "ADDR_IS_ALIGNED a \<longleftrightarrow> a mod PAGE_SIZE = 0"

section \<open>kalloc, kfree, FreeRegion\<close>

definition kfree :: "u64 \<Rightarrow> 'z kmem_scheme \<Rightarrow> 'z kmem_scheme kres" where
  "kfree addr s =
     andthen (ASSERT (ADDR_IS_ALIGNED addr) ''memory.c'' 212) (\<lambda>_.
     andthen (ASSERT (addr \<ge> l_kernel_end s) ''memory.c'' 215) (\<lambda>_.
     andthen (ASSERT (addr + PAGE_SIZE \<le> VIRTUAL_ADDRESS_END) ''memory.c'' 216) (\<lambda>_.
     ret (s\<lparr>mem := store64 (mem s) addr (s_free_memory_page_head s),
            s_free_memory_page_head := addr\<rparr>))))"

definition kalloc :: "'z kmem_scheme \<Rightarrow> (u64 \<times> 'z kmem_scheme) kres" where
  "kalloc s =
     (let page_address = s_free_memory_page_head s
      in if page_address \<noteq> 0 then
           andthen (ASSERT (ADDR_IS_ALIGNED page_address) ''memory.c'' 230) (\<lambda>_.
           andthen (ASSERT (page_address \<ge> l_kernel_end s) ''memory.c'' 233) (\<lambda>_.
           andthen (ASSERT (page_address + PAGE_SIZE \<le> VIRTUAL_ADDRESS_END) ''memory.c'' 234) (\<lambda>_.
           ret (page_address, s\<lparr>s_free_memory_page_head := load64 (mem s) page_address\<rparr>))))
         else ret (page_address, s))"

partial_function (option) FreeRegion_loop ::
  "u64 \<Rightarrow> u64 \<Rightarrow> 'z kmem_scheme \<Rightarrow> 'z kmem_scheme kres" where
  "FreeRegion_loop start v_end s =
     (if start + PAGE_SIZE \<le> v_end then
        andthen (if start + PAGE_SIZE \<le> VIRTUAL_ADDRESS_END then kfree start s else ret s)
          (\<lambda>s'. FreeRegion_loop (start + PAGE_SIZE) v_end s')
      else ret s)"

definition FreeRegion :: "u64 \<Rightarrow> u64 \<Rightarrow> 'z kmem_scheme \<Rightarrow> 'z kmem_scheme kres" where
  "FreeRegion v_start v_end s = FreeRegion_loop (PAGE_ALIGN_UP v_start) v_end s"

section \<open>RetrieveMemoryInfo\<close>

definition MEMORY_MAX_FREE_REGIONS :: int where
  "MEMORY_MAX_FREE_REGIONS = 50"

text \<open>The packed BIOS entries (\<open>E820\<close>, 20 bytes): base, length, type.\<close>

definition mem_map_entry :: "memory \<Rightarrow> nat \<Rightarrow> u64 \<times> u64 \<times> u32" where
  "mem_map_entry m i =
     (let base = PHY_TO_VIR 0x9008 + of_nat (20 * i)
      in (load64 m base, load64 m (base + 8), load32 m (base + 16)))"

definition kline :: "string \<Rightarrow> u8 list" where
  "kline s = bytes_of s @ [10]"

definition print :: "u8 list \<Rightarrow> karg list \<Rightarrow> 'z console_scheme \<Rightarrow> 'z console_scheme kres" where
  "print format args s = andthen (printk format args s) (\<lambda>(_, s'). ret s')"

text \<open>The first loop: collect the usable regions and report every region.\<close>

primrec collect_regions :: "nat \<Rightarrow> nat \<Rightarrow> 'z kmem_scheme \<Rightarrow> 'z kmem_scheme kres" where
  "collect_regions i 0 s = ret s"
| "collect_regions i (Suc left) s =
     (let (address, len, type) = mem_map_entry (mem s) i;
          s1 = (if type = 1
                then s\<lparr>s_free_memory_regions := s_free_memory_regions s @ [(address, len)],
                       s_total_mem := s_total_mem s + len\<rparr>
                else s)
      in andthen (print (kline ''Physical Address: %x   size: %uKB   type: %u'')
                    [KInt address, KInt (len div 1024), KInt (ucast type)] s1)
           (\<lambda>s2. collect_regions (Suc i) left s2))"

text \<open>The second loop: hand the usable memory above the kernel to the allocator.\<close>

primrec free_regions :: "(u64 \<times> u64) list \<Rightarrow> 'z kmem_scheme \<Rightarrow> 'z kmem_scheme kres" where
  "free_regions [] s = ret s"
| "free_regions (r # rs) s =
     (let v_start = PHY_TO_VIR (fst r);
          v_end = v_start + snd r
      in andthen
           (if v_start > l_kernel_end s then FreeRegion v_start v_end s
            else if v_end > l_kernel_end s then FreeRegion (l_kernel_end s) v_end s
            else ret s)
           (\<lambda>s'. free_regions rs s'))"

text \<open>The walk to the last free page, for the message only.\<close>

partial_function (option) last_page :: "memory \<Rightarrow> u64 \<Rightarrow> u64 \<Rightarrow> u64 option" where
  "last_page m start_page page =
     (if page \<noteq> 0 then last_page m page (load64 m page) else Some start_page)"

definition RetrieveMemoryInfo :: "'z kmem_scheme \<Rightarrow> 'z kmem_scheme kres" where
  "RetrieveMemoryInfo s =
     (let count = sint (load32 (mem s) (PHY_TO_VIR 0x9000))
      in andthen (ASSERT (count < MEMORY_MAX_FREE_REGIONS) ''memory.c'' 96) (\<lambda>_.
         andthen (collect_regions 0 (nat count) s) (\<lambda>s1.
         andthen (print (kline ''Total Free Memory: %uKB'') [KInt (s_total_mem s1 div 1024)] s1) (\<lambda>s2.
         andthen (free_regions (s_free_memory_regions s2) s2) (\<lambda>s3.
         let s4 = s3\<lparr>s_free_memory_end_address := s_free_memory_page_head s3 + PAGE_SIZE\<rparr>
         in andthen (map_option Inr (last_page (mem s4) 0 (s_free_memory_page_head s4))) (\<lambda>start_page.
            print (kline ''Virtual Free Memory: %x->%x'')
              [KInt start_page, KInt (s_free_memory_end_address s4)] s4))))))"

definition GetTotalMem :: "'z kmem_scheme \<Rightarrow> u64" where
  "GetTotalMem s = s_total_mem s"

section \<open>The free list\<close>

primrec free_chain :: "memory \<Rightarrow> u64 \<Rightarrow> u64 list \<Rightarrow> bool" where
  "free_chain m p [] \<longleftrightarrow> p = 0"
| "free_chain m p (x # xs) \<longleftrightarrow> p = x \<and> x \<noteq> 0 \<and> free_chain m (load64 m x) xs"

definition valid_page :: "u64 \<Rightarrow> u64 \<Rightarrow> bool" where
  "valid_page kernel_end a \<longleftrightarrow>
     aligned 21 a \<and> kernel_end \<le> a \<and> a + PAGE_SIZE \<le> VIRTUAL_ADDRESS_END"

definition page_span :: "u64 \<Rightarrow> u64 set" where
  "page_span p = span p (2 ^ 21)"

definition free_pages :: "'z kmem_scheme \<Rightarrow> u64 list \<Rightarrow> bool" where
  "free_pages s ps \<longleftrightarrow>
     free_chain (mem s) (s_free_memory_page_head s) ps \<and> distinct ps
     \<and> (\<forall>p\<in>set ps. valid_page (l_kernel_end s) p) \<and> 0 < l_kernel_end s"

lemma ADDR_IS_ALIGNED_iff: "ADDR_IS_ALIGNED a \<longleftrightarrow> aligned 21 a"
proof -
  have "unat (a mod PAGE_SIZE) = unat a mod 2 ^ 21"
    by (simp add: unat_mod PAGE_SIZE_def)
  then show ?thesis by (metis ADDR_IS_ALIGNED_def aligned_def unat_eq_zero unat_0)
qed

lemma aligned_21_mono: "aligned 21 a \<Longrightarrow> k \<le> 21 \<Longrightarrow> aligned k a"
proof -
  assume "aligned 21 a" "k \<le> 21"
  then have "(2::nat) ^ k dvd 2 ^ 21" "2 ^ 21 dvd unat a"
    by (auto simp: aligned_def intro: le_imp_power_dvd simp del: power_numeral)
  then have "2 ^ k dvd unat a" by (rule dvd_trans)
  then show ?thesis by (simp add: aligned_def dvd_eq_mod_eq_0)
qed

lemma page_spans_disjoint:
  "aligned 21 p \<Longrightarrow> aligned 21 q \<Longrightarrow> p \<noteq> q \<Longrightarrow> page_span p \<inter> page_span q = {}"
  unfolding page_span_def by (rule aligned_spans_disjoint) simp_all

lemma link_in_page: "span p 8 \<subseteq> page_span p"
  by (auto simp: page_span_def span_def)

lemma free_chain_cong:
  "(\<And>x. x \<in> set ps \<Longrightarrow> load64 m' x = load64 m x) \<Longrightarrow> free_chain m' p ps = free_chain m p ps"
  by (induction ps arbitrary: p) auto

text \<open>Whatever happens outside the free pages leaves the free list alone.\<close>

lemma free_chain_frame:
  assumes "\<And>x p. p \<in> set ps \<Longrightarrow> x \<in> page_span p \<Longrightarrow> m' x = m x"
  shows "free_chain m' q ps = free_chain m q ps"
proof (rule free_chain_cong)
  fix p
  assume "p \<in> set ps"
  then show "load64 m' p = load64 m p"
    using assms link_in_page by (intro load64_cong) blast
qed

lemma free_pages_frame:
  assumes "free_pages s ps"
    and "\<And>x p. p \<in> set ps \<Longrightarrow> x \<in> page_span p \<Longrightarrow> mem s' x = mem s x"
    and "s_free_memory_page_head s' = s_free_memory_page_head s" "l_kernel_end s' = l_kernel_end s"
  shows "free_pages s' ps"
  using assms free_chain_frame [of ps "mem s'" "mem s"] by (simp add: free_pages_def)

lemma valid_page_neq_0: "0 < ke \<Longrightarrow> valid_page ke p \<Longrightarrow> p \<noteq> 0"
  by (auto simp: valid_page_def)

lemma kalloc_Nil: "free_pages s [] \<Longrightarrow> kalloc s = ret (0, s)"
  by (simp add: free_pages_def kalloc_def)

lemma kalloc_Cons:
  assumes "free_pages s (p # ps)"
  shows "kalloc s = ret (p, s\<lparr>s_free_memory_page_head := load64 (mem s) p\<rparr>)"
    and "free_pages (s\<lparr>s_free_memory_page_head := load64 (mem s) p\<rparr>) ps"
  using assms
  by (auto simp: free_pages_def kalloc_def valid_page_def ADDR_IS_ALIGNED_iff Let_def)

lemma kfree_ok:
  assumes "free_pages s ps" "valid_page (l_kernel_end s) p" "p \<notin> set ps"
  shows "kfree p s = ret (s\<lparr>mem := store64 (mem s) p (s_free_memory_page_head s),
                            s_free_memory_page_head := p\<rparr>)"
    and "free_pages (s\<lparr>mem := store64 (mem s) p (s_free_memory_page_head s),
                       s_free_memory_page_head := p\<rparr>) (p # ps)"
proof -
  show "kfree p s = ret (s\<lparr>mem := store64 (mem s) p (s_free_memory_page_head s),
                            s_free_memory_page_head := p\<rparr>)"
    using assms(2) by (simp add: kfree_def valid_page_def ADDR_IS_ALIGNED_iff)
  have al: "aligned 21 q" if "q \<in> set (p # ps)" for q
    using that assms by (auto simp: free_pages_def valid_page_def)
  have "store64 (mem s) p v x = mem s x" if "q \<in> set ps" "x \<in> page_span q" for q x v
  proof (rule store64_other)
    have "page_span q \<inter> page_span p = {}"
      using that assms(3) al by (intro page_spans_disjoint) auto
    then show "x \<notin> span p 8" using that link_in_page by blast
  qed
  then have "free_chain (store64 (mem s) p (s_free_memory_page_head s)) (s_free_memory_page_head s) ps"
    using assms(1) by (subst free_chain_frame [where m = "mem s"]) (auto simp: free_pages_def)
  then show "free_pages (s\<lparr>mem := store64 (mem s) p (s_free_memory_page_head s),
                       s_free_memory_page_head := p\<rparr>) (p # ps)"
    using assms valid_page_neq_0 by (auto simp: free_pages_def)
qed


section \<open>The allocator interface\<close>

primrec alloc_times :: "('s \<Rightarrow> ('p \<times> 's) kres) \<Rightarrow> nat \<Rightarrow> 's \<Rightarrow> ('p list \<times> 's) kres" where
  "alloc_times alloc 0 s = ret ([], s)"
| "alloc_times alloc (Suc n) s =
     andthen (alloc s) (\<lambda>(p, s1).
     andthen (alloc_times alloc n s1) (\<lambda>(ps, s2). ret (p # ps, s2)))"

locale page_allocator =
  fixes owns :: "'s \<Rightarrow> 'p list \<Rightarrow> bool"
    and page_ok :: "'s \<Rightarrow> 'p \<Rightarrow> bool"
    and null :: 'p
    and alloc :: "'s \<Rightarrow> ('p \<times> 's) kres"
    and free :: "'p \<Rightarrow> 's \<Rightarrow> 's kres"
  assumes owns_distinct: "owns s ps \<Longrightarrow> distinct ps"
    and owns_ok: "owns s ps \<Longrightarrow> p \<in> set ps \<Longrightarrow> page_ok s p \<and> p \<noteq> null"
    and alloc_Nil_law: "owns s [] \<Longrightarrow> alloc s = ret (null, s)"
    and alloc_Cons_law: "owns s (p # ps) \<Longrightarrow>
        \<exists>s'. alloc s = ret (p, s') \<and> owns s' ps \<and> page_ok s' = page_ok s"
    and free_law: "owns s ps \<Longrightarrow> page_ok s p \<Longrightarrow> p \<notin> set ps \<Longrightarrow>
        \<exists>s'. free p s = ret s' \<and> owns s' (p # ps) \<and> page_ok s' = page_ok s"
begin

text \<open>Successive allocations return the free pages in order, so never the same page twice.\<close>

lemma alloc_times_law:
  "owns s (ps @ qs) \<Longrightarrow>
   \<exists>s'. alloc_times alloc (length ps) s = ret (ps, s') \<and> owns s' qs \<and> page_ok s' = page_ok s"
proof (induction ps arbitrary: s)
  case Nil
  then show ?case by simp
next
  case (Cons p ps)
  obtain s1 where s1: "alloc s = ret (p, s1)" "owns s1 (ps @ qs)" "page_ok s1 = page_ok s"
    using alloc_Cons_law Cons.prems by fastforce
  obtain s2 where "alloc_times alloc (length ps) s1 = ret (ps, s2)" "owns s2 qs" "page_ok s2 = page_ok s1"
    using Cons.IH [OF s1(2)] by blast
  with s1 show ?case by simp
qed

lemma free_all_law:
  "owns s qs \<Longrightarrow> distinct (ps @ qs) \<Longrightarrow> \<forall>p\<in>set ps. page_ok s p \<Longrightarrow>
   \<exists>s'. for_each free ps s = ret s' \<and> owns s' (rev ps @ qs) \<and> page_ok s' = page_ok s"
proof (induction ps arbitrary: s qs)
  case Nil
  then show ?case by simp
next
  case (Cons p ps)
  obtain s1 where s1: "free p s = ret s1" "owns s1 (p # qs)" "page_ok s1 = page_ok s"
    using free_law [OF Cons.prems(1), of p] Cons.prems by auto
  have "distinct (ps @ p # qs)" "\<forall>p\<in>set ps. page_ok s1 p" using Cons.prems s1(3) by auto
  then obtain s2 where "for_each free ps s1 = ret s2" "owns s2 (rev ps @ p # qs)" "page_ok s2 = page_ok s1"
    using Cons.IH [OF s1(2)] by blast
  with s1 show ?case by simp
qed

text \<open>Giving back what was taken, last first, restores the free list.\<close>

lemma alloc_free_round_trip:
  assumes "owns s (ps @ qs)"
  shows "\<exists>s1 s2. alloc_times alloc (length ps) s = ret (ps, s1)
           \<and> for_each free (rev ps) s1 = ret s2 \<and> owns s2 (ps @ qs)"
proof -
  obtain s1 where s1: "alloc_times alloc (length ps) s = ret (ps, s1)" "owns s1 qs" "page_ok s1 = page_ok s"
    using alloc_times_law [OF assms] by blast
  have "distinct (rev ps @ qs)" "\<forall>p\<in>set (rev ps). page_ok s1 p"
    using owns_distinct [OF assms] owns_ok [OF assms] s1(3) by auto
  then obtain s2 where "for_each free (rev ps) s1 = ret s2" "owns s2 (rev (rev ps) @ qs)"
    using free_all_law [OF s1(2)] by blast
  with s1(1) show ?thesis by auto
qed

end

text \<open>The kernel's allocator provides the interface.\<close>

definition page_ok :: "'z kmem_scheme \<Rightarrow> u64 \<Rightarrow> bool" where
  "page_ok s = valid_page (l_kernel_end s)"

interpretation pages: page_allocator free_pages page_ok 0 kalloc kfree
proof unfold_locales
  fix s :: "'z kmem_scheme" and p ps
  show "free_pages s ps \<Longrightarrow> distinct ps" by (simp add: free_pages_def)
  show "free_pages s ps \<Longrightarrow> p \<in> set ps \<Longrightarrow> page_ok s p \<and> p \<noteq> 0"
    using valid_page_neq_0 by (auto simp: free_pages_def page_ok_def)
  show "free_pages s [] \<Longrightarrow> kalloc s = ret (0, s)" by (rule kalloc_Nil)
  show "free_pages s (p # ps) \<Longrightarrow>
      \<exists>s'. kalloc s = ret (p, s') \<and> free_pages s' ps \<and> page_ok s' = page_ok s"
    using kalloc_Cons [of s p ps] by (auto simp: page_ok_def)
  show "free_pages s ps \<Longrightarrow> page_ok s p \<Longrightarrow> p \<notin> set ps \<Longrightarrow>
      \<exists>s'. kfree p s = ret s' \<and> free_pages s' (p # ps) \<and> page_ok s' = page_ok s"
    using kfree_ok [of s ps p] by (auto simp: page_ok_def)
qed

section \<open>FreeRegion\<close>

definition region_pages :: "u64 \<Rightarrow> nat \<Rightarrow> u64 list" where
  "region_pages start n = map (\<lambda>i. start + of_nat i * PAGE_SIZE) [0..<n]"

lemma region_pages_Suc: "region_pages start (Suc n) = start # region_pages (start + PAGE_SIZE) n"
  unfolding region_pages_def by (simp only: upt_conv_Cons map_Suc_upt [symmetric]) (simp add: algebra_simps)

lemma unat_PAGE_SIZE [simp]: "unat PAGE_SIZE = 2 ^ 21"
  by (simp add: PAGE_SIZE_def)

lemma unat_PAGE_ALIGN_DOWN: "unat (PAGE_ALIGN_DOWN v) = unat v div 2 ^ 21 * 2 ^ 21"
proof -
  have "unat v div 2 ^ 21 * 2 ^ 21 < 2 ^ 64"
    using le_less_trans [OF div_times_less_eq_dividend unat_lt2p [of v]] by simp
  moreover have "take_bit 64 (unat v) = unat v"
    using unat_lt2p [of v] by (intro take_bit_nat_eq_self) simp
  ultimately show ?thesis
    unfolding PAGE_ALIGN_DOWN_def unsigned_push_bit_eq unsigned_drop_bit_eq
    by (simp add: push_bit_nat_def drop_bit_nat_def take_bit_nat_eq_self del: power_numeral)
qed

lemma PAGE_ALIGN_UP_eq: "PAGE_ALIGN_UP v = PAGE_ALIGN_DOWN (v + (PAGE_SIZE - 1))"
  by (simp add: PAGE_ALIGN_UP_def PAGE_ALIGN_DOWN_def add_diff_eq)

lemma unat_PAGE_ALIGN_UP:
  assumes "unat v + 2 ^ 21 \<le> 2 ^ 64"
  shows "unat (PAGE_ALIGN_UP v) = (unat v + (2 ^ 21 - 1)) div 2 ^ 21 * 2 ^ 21"
proof -
  have "unat (PAGE_SIZE - 1) = 2 ^ 21 - 1" by (simp add: PAGE_SIZE_def)
  moreover from this have "unat (v + (PAGE_SIZE - 1)) = unat v + unat (PAGE_SIZE - 1)"
    using assms by (intro unat_plus_le) auto
  ultimately show ?thesis by (simp only: PAGE_ALIGN_UP_eq unat_PAGE_ALIGN_DOWN)
qed

lemma unat_VIRTUAL_ADDRESS_END: "unat VIRTUAL_ADDRESS_END = 2 ^ 64 - 2 ^ 47 + 2 ^ 30"
  by (simp add: VIRTUAL_ADDRESS_END_def KERNEL_VIRTUAL_ADDRESS_BASE_def PHYSICAL_MEMORY_SIZE_def)

lemma PAGE_ALIGN_UP_range:
  assumes "v \<le> VIRTUAL_ADDRESS_END"
  shows "v \<le> PAGE_ALIGN_UP v" "PAGE_ALIGN_UP v \<le> VIRTUAL_ADDRESS_END" "aligned 21 (PAGE_ALIGN_UP v)"
    "unat (PAGE_ALIGN_UP v) < unat v + 2 ^ 21"
proof -
  have v: "unat v \<le> 2 ^ 64 - 2 ^ 47 + 2 ^ 30"
    using assms by (simp add: word_le_nat_alt unat_VIRTUAL_ADDRESS_END)
  then have u: "unat (PAGE_ALIGN_UP v) = (unat v + (2 ^ 21 - 1)) div 2 ^ 21 * 2 ^ 21"
    by (intro unat_PAGE_ALIGN_UP) simp
  show "v \<le> PAGE_ALIGN_UP v" "PAGE_ALIGN_UP v \<le> VIRTUAL_ADDRESS_END" "unat (PAGE_ALIGN_UP v) < unat v + 2 ^ 21"
    using v by (simp_all add: word_le_nat_alt u unat_VIRTUAL_ADDRESS_END)
  show "aligned 21 (PAGE_ALIGN_UP v)" by (simp add: aligned_def u)
qed

lemma FreeRegion_loop_eq:
  fixes s :: "'z kmem_scheme"
  assumes "n * 2 ^ 21 \<le> unat v_end - unat start" "unat v_end < unat start + Suc n * 2 ^ 21"
    and "v_end \<le> VIRTUAL_ADDRESS_END" "start \<le> VIRTUAL_ADDRESS_END"
  shows "FreeRegion_loop start v_end s = for_each kfree (region_pages start n) s"
  using assms
proof (induction n arbitrary: start s)
  case 0
  have "unat (start + PAGE_SIZE) = unat start + 2 ^ 21"
    using "0.prems" by (subst unat_plus_le) (auto simp: word_le_nat_alt unat_VIRTUAL_ADDRESS_END)
  then have "\<not> start + PAGE_SIZE \<le> v_end" using "0.prems" by (simp add: word_le_nat_alt)
  then show ?case by (subst FreeRegion_loop.simps) (simp add: region_pages_def)
next
  case (Suc n)
  have sum: "unat (start + PAGE_SIZE) = unat start + 2 ^ 21"
    using Suc.prems by (subst unat_plus_le) (auto simp: word_le_nat_alt unat_VIRTUAL_ADDRESS_END)
  then have "start + PAGE_SIZE \<le> v_end" using Suc.prems by (simp add: word_le_nat_alt)
  moreover from this have le: "start + PAGE_SIZE \<le> VIRTUAL_ADDRESS_END" using Suc.prems(3) by simp
  moreover have "FreeRegion_loop (start + PAGE_SIZE) v_end
      = (for_each kfree (region_pages (start + PAGE_SIZE) n) :: 'z kmem_scheme \<Rightarrow> _)"
  proof
    fix t :: "'z kmem_scheme"
    show "FreeRegion_loop (start + PAGE_SIZE) v_end t
        = for_each kfree (region_pages (start + PAGE_SIZE) n) t"
      using Suc.prems sum le by (intro Suc.IH) simp_all
  qed
  ultimately show ?case by (subst FreeRegion_loop.simps) (simp add: region_pages_Suc)
qed

text \<open>The whole pages of a region, in the order the loop frees them.\<close>

definition whole_pages :: "u64 \<Rightarrow> u64 \<Rightarrow> u64 list" where
  "whole_pages v_start v_end =
     region_pages (PAGE_ALIGN_UP v_start) ((unat v_end - unat (PAGE_ALIGN_UP v_start)) div 2 ^ 21)"

lemma less_add_Suc_div:
  assumes "0 < d"
  shows "(x::nat) < y + Suc ((x - y) div d) * d"
proof -
  have "x - y < d + d * ((x - y) div d)" using assms by (rule dividend_less_times_div)
  then show ?thesis by (simp add: mult.commute)
qed

lemma step_le_div_iff:
  assumes "0 < d" "k \<le> a"
  shows "Suc a * d \<le> k * d + (E - k * d) div d * d \<longleftrightarrow> Suc a * d \<le> (E::nat)"
proof -
  obtain m where m: "Suc a = k + m" "0 < m"
    using assms(2) by (metis le_Suc_ex add_Suc_right zero_less_Suc)
  have "m \<le> (E - k * d) div d \<longleftrightarrow> m * d \<le> E - k * d"
    using assms(1) by (simp add: less_eq_div_iff_mult_less_eq)
  moreover have "m * d \<le> E - k * d \<longleftrightarrow> k * d + m * d \<le> E"
  proof -
    have "0 < m * d" using m(2) assms(1) by simp
    then show ?thesis by arith
  qed
  ultimately show ?thesis using assms(1) by (simp add: m distrib_right)
qed

lemma FreeRegion_eq:
  assumes "v_start \<le> VIRTUAL_ADDRESS_END" "v_end \<le> VIRTUAL_ADDRESS_END"
  shows "FreeRegion v_start v_end s = for_each kfree (whole_pages v_start v_end) s"
  unfolding FreeRegion_def whole_pages_def
  using PAGE_ALIGN_UP_range [OF assms(1)] assms(2)
  by (intro FreeRegion_loop_eq div_times_less_eq_dividend less_add_Suc_div) simp_all

lemma region_page_address:
  assumes "unat start + n * 2 ^ 21 < 2 ^ 64" "i < n"
  shows "unat (start + of_nat i * PAGE_SIZE) = unat start + i * 2 ^ 21"
proof -
  have "i * 2 ^ 21 < 2 ^ 64" using assms by auto
  then have "unat (of_nat i * PAGE_SIZE) = i * 2 ^ 21"
    by (simp add: PAGE_SIZE_def unat_word_ariths unat_of_nat take_bit_nat_eq_self)
  then show ?thesis using assms by (subst unat_plus_le) auto
qed

lemma in_region_pages:
  assumes "aligned 21 start" "unat start + n * 2 ^ 21 < 2 ^ 64"
  shows "p \<in> set (region_pages start n) \<longleftrightarrow>
    aligned 21 p \<and> start \<le> p \<and> unat p + 2 ^ 21 \<le> unat start + n * 2 ^ 21"
    and "distinct (region_pages start n)" "sorted (region_pages start n)"
proof -
  note u = region_page_address [OF assms(2)]
  show "sorted (region_pages start n)"
    by (auto simp: region_pages_def sorted_wrt_map sorted_wrt_iff_nth_less word_le_nat_alt u)
  show "distinct (region_pages start n)"
    unfolding region_pages_def distinct_map
    by (auto intro!: inj_onI dest!: arg_cong [where f = unat] simp: u)
  show "p \<in> set (region_pages start n) \<longleftrightarrow>
    aligned 21 p \<and> start \<le> p \<and> unat p + 2 ^ 21 \<le> unat start + n * 2 ^ 21" (is "?l \<longleftrightarrow> ?r")
  proof
    assume ?l
    then obtain i where i: "i < n" "p = start + of_nat i * PAGE_SIZE" by (auto simp: region_pages_def)
    then have "unat p = unat start + i * 2 ^ 21" by (simp add: u)
    then show ?r using assms(1) i(1) by (auto simp: aligned_def word_le_nat_alt)
  next
    assume r: ?r
    then obtain a b where ab: "unat p = a * 2 ^ 21" "unat start = b * 2 ^ 21"
      using assms(1) by (auto simp: aligned_def dvd_eq_mod_eq_0 [symmetric] dvd_def mult.commute)
    then have i: "a - b < n" "b \<le> a" using r by (auto simp: word_le_nat_alt)
    then have "unat p = unat (start + of_nat (a - b) * PAGE_SIZE)"
      unfolding u [OF i(1)] using ab i(2) by (simp add: diff_mult_distrib)
    then have "p = start + of_nat (a - b) * PAGE_SIZE" by (simp add: word_unat_eq_iff)
    then show ?l using i by (auto simp: region_pages_def simp del: of_nat_diff)
  qed
qed

lemma in_whole_pages:
  assumes "v_start \<le> VIRTUAL_ADDRESS_END" "v_end \<le> VIRTUAL_ADDRESS_END"
  shows "p \<in> set (whole_pages v_start v_end) \<longleftrightarrow>
    aligned 21 p \<and> v_start \<le> p \<and> unat p + 2 ^ 21 \<le> unat v_end"
    and "distinct (whole_pages v_start v_end)" "sorted (whole_pages v_start v_end)"
proof -
  note r = PAGE_ALIGN_UP_range [OF assms(1)]
  let ?u = "PAGE_ALIGN_UP v_start" and ?n = "(unat v_end - unat (PAGE_ALIGN_UP v_start)) div 2 ^ 21"
  have e: "unat v_end \<le> 2 ^ 64 - 2 ^ 47 + 2 ^ 30" "unat ?u \<le> 2 ^ 64 - 2 ^ 47 + 2 ^ 30"
    using assms(2) r(2) by (simp_all add: word_le_nat_alt unat_VIRTUAL_ADDRESS_END)
  have n: "?n * 2 ^ 21 \<le> unat v_end - unat ?u" by (rule div_times_less_eq_dividend)
  then have b: "unat ?u + ?n * 2 ^ 21 < 2 ^ 64" using e by simp
  show "distinct (whole_pages v_start v_end)"
    unfolding whole_pages_def by (rule in_region_pages(2) [OF r(3) b])
  show "sorted (whole_pages v_start v_end)"
    unfolding whole_pages_def by (rule in_region_pages(3) [OF r(3) b])
  have "(?u \<le> p \<and> unat p + 2 ^ 21 \<le> unat ?u + ?n * 2 ^ 21) \<longleftrightarrow> (v_start \<le> p \<and> unat p + 2 ^ 21 \<le> unat v_end)"
    if al: "aligned 21 p"
  proof -
    obtain a k where "unat p = a * 2 ^ 21" "unat ?u = k * 2 ^ 21"
      using al r(3) by (auto simp: aligned_def dvd_eq_mod_eq_0 [symmetric] dvd_def mult.commute)
    then show ?thesis
      using r(1,4) step_le_div_iff [of "2 ^ 21" k a "unat v_end"] unfolding word_le_nat_alt
      by (cases "k \<le> a") (simp_all add: algebra_simps)
  qed
  then show "p \<in> set (whole_pages v_start v_end) \<longleftrightarrow>
    aligned 21 p \<and> v_start \<le> p \<and> unat p + 2 ^ 21 \<le> unat v_end"
    unfolding whole_pages_def in_region_pages(1) [OF r(3) b] by blast
qed

lemma valid_page_in_region:
  assumes "aligned 21 p" "l \<le> a" "a \<le> p" "unat p + 2 ^ 21 \<le> unat b" "b \<le> VIRTUAL_ADDRESS_END"
  shows "valid_page l p"
proof -
  have "unat (p + PAGE_SIZE) = unat p + 2 ^ 21"
    using assms(4) unat_lt2p [of b] by (subst unat_plus_le) auto
  then have "p + PAGE_SIZE \<le> b" using assms(4) by (simp add: word_le_nat_alt)
  then show ?thesis using assms by (auto simp: valid_page_def)
qed

section \<open>Properties\<close>

text \<open>
  \<open>kalloc\<close> refines "take the first page of the free list": it never stops the kernel
  on a well-formed list, returns the first free page and leaves the rest free, or returns the null
  pointer when the list is empty; it writes no memory.
\<close>

theorem kalloc_takes_first_page:
  assumes "free_pages s ps"
  shows "\<exists>s'. kalloc s = ret (case ps of [] \<Rightarrow> 0 | p # _ \<Rightarrow> p, s')
     \<and> free_pages s' (tl ps) \<and> mem s' = mem s"
  using assms kalloc_Nil [of s] kalloc_Cons [of s]
  by (cases ps) auto

definition one_page_kernel :: kmem where
  "one_page_kernel = \<lparr>mem = \<lambda>_. 0, scr_column = 0, scr_row = 0,
     s_free_memory_page_head = 0xFFFF800000400000, s_free_memory_regions = [],
     s_free_memory_end_address = 0xFFFF800000600000, s_total_mem = 0,
     l_kernel_end = 0xFFFF800000200000, cr3 = 0\<rparr>"

lemma free_pages_one_page_kernel: "free_pages one_page_kernel [0xFFFF800000400000]"
proof -
  have "load64 (\<lambda>_. 0) 0xFFFF800000400000 = 0" by (rule load64_zero) simp
  then show ?thesis
    by (simp add: free_pages_def one_page_kernel_def valid_page_def aligned_def PAGE_SIZE_def
        VIRTUAL_ADDRESS_END_def KERNEL_VIRTUAL_ADDRESS_BASE_def PHYSICAL_MEMORY_SIZE_def)
qed

theorem kalloc_takes_first_page_witness:
  "\<exists>s'. kalloc one_page_kernel = ret (0xFFFF800000400000, s') \<and> free_pages s' []"
  using kalloc_takes_first_page [OF free_pages_one_page_kernel] by auto

text \<open>
  Property C38. Allocating as many pages as there are in a prefix of the free list returns them all,
  each once; giving them back with \<open>kfree\<close>, last first, never fails and restores the free list.
\<close>

theorem kalloc_kfree_round_trip:
  assumes "free_pages s (ps @ qs)"
  shows "\<exists>s1 s2. alloc_times kalloc (length ps) s = ret (ps, s1)
           \<and> for_each kfree (rev ps) s1 = ret s2 \<and> free_pages s2 (ps @ qs)"
  by (rule pages.alloc_free_round_trip [OF assms])

theorem kalloc_kfree_round_trip_witness:
  "\<exists>s1 s2. alloc_times kalloc 1 one_page_kernel = ret ([0xFFFF800000400000], s1)
     \<and> for_each kfree [0xFFFF800000400000] s1 = ret s2 \<and> free_pages s2 [0xFFFF800000400000]"
  using kalloc_kfree_round_trip [of one_page_kernel "[0xFFFF800000400000]" "[]"]
    free_pages_one_page_kernel by simp

text \<open>
  \<open>FreeRegion\<close> puts exactly the aligned 2 MB pages that lie wholly inside the region on
  the free list, each once, in front of the pages already free, and never trips an assertion.
\<close>

theorem FreeRegion_frees_whole_pages:
  assumes "free_pages s ps" "l_kernel_end s \<le> v_start" "v_start \<le> VIRTUAL_ADDRESS_END"
    and "v_end \<le> VIRTUAL_ADDRESS_END"
    and "\<forall>p\<in>set ps. \<not> (v_start \<le> p \<and> unat p + 2 ^ 21 \<le> unat v_end)"
  shows "\<exists>s' qs. FreeRegion v_start v_end s = ret s' \<and> free_pages s' (qs @ ps)
     \<and> set qs = {p. aligned 21 p \<and> v_start \<le> p \<and> unat p + 2 ^ 21 \<le> unat v_end}"
proof -
  let ?qs = "whole_pages v_start v_end"
  note qs = in_whole_pages [OF assms(3,4)]
  have d: "distinct (?qs @ ps)" using assms(1,5) qs by (auto simp: free_pages_def)
  have ok: "\<forall>p\<in>set ?qs. page_ok s p"
    using valid_page_in_region [OF _ assms(2) _ _ assms(4)] by (simp add: page_ok_def qs(1))
  obtain s' where "for_each kfree ?qs s = ret s'" "free_pages s' (rev ?qs @ ps)"
    using pages.free_all_law [OF assms(1) d ok] by blast
  moreover have "set (rev ?qs) = {p. aligned 21 p \<and> v_start \<le> p \<and> unat p + 2 ^ 21 \<le> unat v_end}"
    using qs(1) by auto
  ultimately show ?thesis using FreeRegion_eq [OF assms(3,4), of s] by metis
qed

theorem FreeRegion_frees_whole_pages_witness:
  "\<exists>s' qs. FreeRegion 0xFFFF800000600001 0xFFFF800000A00000 one_page_kernel = ret s'
     \<and> free_pages s' (qs @ [0xFFFF800000400000]) \<and> 0xFFFF800000800000 \<in> set qs"
proof -
  have le: "l_kernel_end one_page_kernel \<le> 0xFFFF800000600001"
    "(0xFFFF800000600001 :: u64) \<le> VIRTUAL_ADDRESS_END" "(0xFFFF800000A00000 :: u64) \<le> VIRTUAL_ADDRESS_END"
    by (simp_all add: one_page_kernel_def VIRTUAL_ADDRESS_END_def KERNEL_VIRTUAL_ADDRESS_BASE_def
        PHYSICAL_MEMORY_SIZE_def)
  obtain s' qs where "FreeRegion 0xFFFF800000600001 0xFFFF800000A00000 one_page_kernel = ret s'"
    and "free_pages s' (qs @ [0xFFFF800000400000])"
    and qs: "set qs = {p. aligned 21 p \<and> 0xFFFF800000600001 \<le> p
      \<and> unat p + 2 ^ 21 \<le> unat (0xFFFF800000A00000 :: u64)}"
    using FreeRegion_frees_whole_pages [OF free_pages_one_page_kernel le] by auto
  moreover have "0xFFFF800000800000 \<in> set qs" unfolding qs by (simp add: aligned_def)
  ultimately show ?thesis by blast
qed

end
