(* ===== verification/Paging.thy ===== *)
theory Paging
  imports Phys_Memory
begin

text \<open>
  The page tables of \<open>kernel/memory.c\<close>: \<open>SetupKVM\<close>, \<open>SetupUVM\<close>, \<open>CopyUVM\<close>, \<open>FreeVM\<close> and the static
  functions below them. The tables are bytes in memory. A page map is the kernel address of its
  level 4 table (the parameter \<open>map\<close> of the code, \<open>pml4\<close> here); an entry holds the physical address of the next table or of a 2 MB page and, in
  its low bits, the attributes. \<open>mmu\<close> is the walk of the processor over the same bytes; the
  theorems say what it finds after each operation.

  The proofs see the tables as a tree: \<open>vm s pml4 T\<close> says that the bytes at every table of the page
  map hold the entries of \<open>T\<close> and that the tables are distinct pages of the allocator.
\<close>

section \<open>Entries\<close>

definition USER_VIRTUAL_ADDRESS_BASE :: u64 where
  "USER_VIRTUAL_ADDRESS_BASE = 0x400000"

definition TABLE_ENTRY_PRESENT_ATTRIBUTE :: u64 where
  "TABLE_ENTRY_PRESENT_ATTRIBUTE = 1"

definition TABLE_ENTRY_WRITABLE_ATTRIBUTE :: u64 where
  "TABLE_ENTRY_WRITABLE_ATTRIBUTE = 2"

definition TABLE_ENTRY_USER_ATTRIBUTE :: u64 where
  "TABLE_ENTRY_USER_ATTRIBUTE = 4"

definition TABLE_ENTRY_ENTRY_ATTRIBUTE :: u64 where
  "TABLE_ENTRY_ENTRY_ATTRIBUTE = 128"

definition PAGE_DIRECTORY_TABLE_ADDRESS :: "u64 \<Rightarrow> u64" where
  "PAGE_DIRECTORY_TABLE_ADDRESS p = push_bit 12 (drop_bit 12 p)"

definition PAGE_ADDRESS :: "u64 \<Rightarrow> u64" where
  "PAGE_ADDRESS p = push_bit 21 (drop_bit 21 p)"

definition present :: "u64 \<Rightarrow> bool" where
  "present entry \<longleftrightarrow> entry AND TABLE_ENTRY_PRESENT_ATTRIBUTE \<noteq> 0"

text \<open>The address of the entry \<open>index\<close> of the table at \<open>table\<close>.\<close>

definition entry_at :: "u64 \<Rightarrow> u64 \<Rightarrow> u64" where
  "entry_at table index = table + 8 * index"

section \<open>Finding and making tables\<close>

text \<open>
  The result is the address of the table, 0 for the null pointer. \<open>attribute\<close> is a 32-bit value
  that the code widens before it puts it in an entry.
\<close>

definition FindPML4TableEntry ::
  "u64 \<Rightarrow> u64 \<Rightarrow> int \<Rightarrow> u32 \<Rightarrow> 'z kmem_scheme \<Rightarrow> (u64 \<times> 'z kmem_scheme) kres" where
  "FindPML4TableEntry pml4 v alloc attribute s =
     (let index = drop_bit 39 v AND 0x1FF;
          entry = load64 (mem s) (entry_at pml4 index)
      in if present entry then ret (PHY_TO_VIR (PAGE_DIRECTORY_TABLE_ADDRESS entry), s)
         else if alloc = 1 then
           andthen (kalloc s) (\<lambda>(pdptr, s1).
             if pdptr \<noteq> 0 then
               ret (pdptr, s1\<lparr>mem := store64 (memset (mem s1) pdptr 0 PAGE_SIZE)
                                     (entry_at pml4 index) (VIR_TO_PHY pdptr OR ucast attribute)\<rparr>)
             else ret (0, s1))
         else ret (0, s))"

definition FindPageDirPointerTableEntry ::
  "u64 \<Rightarrow> u64 \<Rightarrow> int \<Rightarrow> u32 \<Rightarrow> 'z kmem_scheme \<Rightarrow> (u64 \<times> 'z kmem_scheme) kres" where
  "FindPageDirPointerTableEntry pml4 v alloc attr s =
     andthen (FindPML4TableEntry pml4 v alloc attr s) (\<lambda>(pdptr, s1).
       if pdptr = 0 then ret (0, s1)
       else
         let index = drop_bit 30 v AND 0x1FF;
             entry = load64 (mem s1) (entry_at pdptr index)
         in if present entry then ret (PHY_TO_VIR (PAGE_DIRECTORY_TABLE_ADDRESS entry), s1)
            else if alloc = 1 then
              andthen (kalloc s1) (\<lambda>(pd, s2).
                if pd \<noteq> 0 then
                  ret (pd, s2\<lparr>mem := store64 (memset (mem s2) pd 0 PAGE_SIZE)
                                     (entry_at pdptr index) (VIR_TO_PHY pd OR ucast attr)\<rparr>)
                else ret (0, s2))
            else ret (0, s1))"

section \<open>Mapping pages\<close>

partial_function (option) MapPages_loop ::
  "u64 \<Rightarrow> u64 \<Rightarrow> u64 \<Rightarrow> u64 \<Rightarrow> u32 \<Rightarrow> 'z kmem_scheme \<Rightarrow> (bool \<times> 'z kmem_scheme) kres" where
  "MapPages_loop pml4 v_start v_end phys attr s =
     andthen (FindPageDirPointerTableEntry pml4 v_start 1 attr s) (\<lambda>(pd, s1).
       if pd = 0 then ret (False, s1)
       else
         let entry = entry_at pd (drop_bit 21 v_start AND 0x1FF)
         in andthen (ASSERT (\<not> present (load64 (mem s1) entry)) ''memory.c'' 390) (\<lambda>_.
            let s2 = s1\<lparr>mem := store64 (mem s1) entry
                               (phys OR ucast attr OR TABLE_ENTRY_ENTRY_ATTRIBUTE)\<rparr>
            in if v_start + PAGE_SIZE + PAGE_SIZE \<le> v_end
               then MapPages_loop pml4 (v_start + PAGE_SIZE) v_end (phys + PAGE_SIZE) attr s2
               else ret (True, s2)))"

definition MapPages ::
  "u64 \<Rightarrow> u64 \<Rightarrow> u64 \<Rightarrow> u64 \<Rightarrow> u32 \<Rightarrow> 'z kmem_scheme \<Rightarrow> (bool \<times> 'z kmem_scheme) kres" where
  "MapPages pml4 v v_last phys attr s =
     (let v_start = PAGE_ALIGN_DOWN v;
          v_end = PAGE_ALIGN_UP v_last
      in andthen (ASSERT (v < v_last) ''memory.c'' 368) (\<lambda>_.
         andthen (ASSERT (ADDR_IS_ALIGNED phys) ''memory.c'' 369) (\<lambda>_.
         andthen (ASSERT (phys + v_end - v_start \<le> VIRTUAL_ADDRESS_END) ''memory.c'' 371) (\<lambda>_.
         MapPages_loop pml4 v_start v_end phys attr s))))"

section \<open>Freeing an address space\<close>

partial_function (option) FreePages_loop ::
  "u64 \<Rightarrow> u64 \<Rightarrow> u64 \<Rightarrow> 'z kmem_scheme \<Rightarrow> 'z kmem_scheme kres" where
  "FreePages_loop pml4 v_start v_end s =
     andthen (FindPageDirPointerTableEntry pml4 v_start 0 0 s) (\<lambda>(pd, s1).
     andthen
       (let entry = entry_at pd (drop_bit 21 v_start AND 0x1FF)
        in if pd \<noteq> 0 \<and> present (load64 (mem s1) entry) then
             andthen (kfree (PHY_TO_VIR (PAGE_ADDRESS (load64 (mem s1) entry))) s1) (\<lambda>s2.
               ret (s2\<lparr>mem := store64 (mem s2) entry 0\<rparr>))
           else ret s1) (\<lambda>s3.
     if v_start + PAGE_SIZE + PAGE_SIZE \<le> v_end
     then FreePages_loop pml4 (v_start + PAGE_SIZE) v_end s3
     else ret s3))"

definition FreePages :: "u64 \<Rightarrow> u64 \<Rightarrow> u64 \<Rightarrow> 'z kmem_scheme \<Rightarrow> 'z kmem_scheme kres" where
  "FreePages pml4 v_start v_end s =
     andthen (ASSERT (ADDR_IS_ALIGNED v_start) ''memory.c'' 436) (\<lambda>_.
     andthen (ASSERT (ADDR_IS_ALIGNED v_end) ''memory.c'' 437) (\<lambda>_.
     FreePages_loop pml4 v_start v_end s))"

text \<open>
  \<open>free_entry\<close> is the body of the table loops: free the table an entry points to and clear the
  entry.
\<close>

definition free_entry :: "u64 \<Rightarrow> nat \<Rightarrow> 'z kmem_scheme \<Rightarrow> 'z kmem_scheme kres" where
  "free_entry table i s =
     (let entry = entry_at table (of_nat i)
      in if present (load64 (mem s) entry) then
           andthen (kfree (PHY_TO_VIR (PAGE_DIRECTORY_TABLE_ADDRESS (load64 (mem s) entry))) s) (\<lambda>s1.
             ret (s1\<lparr>mem := store64 (mem s1) entry 0\<rparr>))
         else ret s)"

definition FreePDTable :: "u64 \<Rightarrow> 'z kmem_scheme \<Rightarrow> 'z kmem_scheme kres" where
  "FreePDTable pml4 =
     for_each (\<lambda>i s.
       let entry = load64 (mem s) (entry_at pml4 (of_nat i))
       in if present entry
          then for_each (free_entry (PHY_TO_VIR (PAGE_DIRECTORY_TABLE_ADDRESS entry))) [0..<512] s
          else ret s) [0..<512]"

definition FreePDPTable :: "u64 \<Rightarrow> 'z kmem_scheme \<Rightarrow> 'z kmem_scheme kres" where
  "FreePDPTable pml4 = for_each (free_entry pml4) [0..<512]"

definition FreePML4Table :: "u64 \<Rightarrow> 'z kmem_scheme \<Rightarrow> 'z kmem_scheme kres" where
  "FreePML4Table pml4 = kfree pml4"

definition FreeVM :: "u64 \<Rightarrow> 'z kmem_scheme \<Rightarrow> 'z kmem_scheme kres" where
  "FreeVM pml4 s =
     andthen (FreePages pml4 USER_VIRTUAL_ADDRESS_BASE (USER_VIRTUAL_ADDRESS_BASE + PAGE_SIZE) s) (\<lambda>s1.
     andthen (FreePDTable pml4 s1) (\<lambda>s2.
     andthen (FreePDPTable pml4 s2) (\<lambda>s3.
     FreePML4Table pml4 s3)))"

section \<open>Setting up an address space\<close>

definition SetupKVM :: "'z kmem_scheme \<Rightarrow> (u64 \<times> 'z kmem_scheme) kres" where
  "SetupKVM s =
     andthen (kalloc s) (\<lambda>(kernel_page_map, s1).
       if kernel_page_map \<noteq> 0 then
         andthen (MapPages kernel_page_map KERNEL_VIRTUAL_ADDRESS_BASE (s_free_memory_end_address s1)
                    (VIR_TO_PHY KERNEL_VIRTUAL_ADDRESS_BASE)
                    (ucast (TABLE_ENTRY_PRESENT_ATTRIBUTE OR TABLE_ENTRY_WRITABLE_ATTRIBUTE))
                    (s1\<lparr>mem := memset (mem s1) kernel_page_map 0 PAGE_SIZE\<rparr>)) (\<lambda>(status, s2).
           if \<not> status then andthen (FreeVM kernel_page_map s2) (\<lambda>s3. ret (0, s3))
           else ret (kernel_page_map, s2))
       else ret (kernel_page_map, s1))"

definition user_attributes :: u32 where
  "user_attributes = ucast (TABLE_ENTRY_PRESENT_ATTRIBUTE OR TABLE_ENTRY_WRITABLE_ATTRIBUTE
     OR TABLE_ENTRY_USER_ATTRIBUTE)"

definition SetupUVM :: "u64 \<Rightarrow> u64 \<Rightarrow> u32 \<Rightarrow> 'z kmem_scheme \<Rightarrow> (bool \<times> 'z kmem_scheme) kres" where
  "SetupUVM pml4 start_location sz s =
     andthen (kalloc s) (\<lambda>(page, s1).
       if page = 0 then ret (False, s1)
       else
         andthen (MapPages pml4 USER_VIRTUAL_ADDRESS_BASE (USER_VIRTUAL_ADDRESS_BASE + PAGE_SIZE)
                    (VIR_TO_PHY page) user_attributes
                    (s1\<lparr>mem := memset (mem s1) page 0 PAGE_SIZE\<rparr>)) (\<lambda>(status, s2).
           if status then
             ret (True, s2\<lparr>mem := memcpy (mem s2) page start_location (scast sz)\<rparr>)
           else
             andthen (kfree page s2) (\<lambda>s3.
             andthen (FreeVM pml4 s3) (\<lambda>s4. ret (False, s4)))))"

definition CopyUVM :: "u64 \<Rightarrow> u64 \<Rightarrow> u32 \<Rightarrow> 'z kmem_scheme \<Rightarrow> (bool \<times> 'z kmem_scheme) kres" where
  "CopyUVM new_page current_page sz s =
     andthen (kalloc s) (\<lambda>(page, s1).
       if page \<noteq> 0 then
         andthen (MapPages new_page USER_VIRTUAL_ADDRESS_BASE (USER_VIRTUAL_ADDRESS_BASE + PAGE_SIZE)
                    (VIR_TO_PHY page) user_attributes
                    (s1\<lparr>mem := memset (mem s1) page 0 PAGE_SIZE\<rparr>)) (\<lambda>(status, s2).
           if status then
             andthen (FindPageDirPointerTableEntry current_page USER_VIRTUAL_ADDRESS_BASE 0 0 s2)
               (\<lambda>(pd, s3).
               if pd \<noteq> 0 then
                 let entry = load64 (mem s3)
                       (entry_at pd (drop_bit 21 USER_VIRTUAL_ADDRESS_BASE AND 0x1FF))
                 in andthen (ASSERT (present entry) ''memory.c'' 296) (\<lambda>_.
                    let start = PHY_TO_VIR (PAGE_ADDRESS entry)
                    in ret (True, s3\<lparr>mem := memcpy (mem s3) page start (scast sz)\<rparr>))
               else
                 andthen (kfree page s3) (\<lambda>s4.
                 andthen (FreeVM new_page s4) (\<lambda>s5. ret (False, s5))))
           else
             andthen (kfree page s2) (\<lambda>s3.
             andthen (FreeVM new_page s3) (\<lambda>s4. ret (False, s4))))
       else ret (False, s1))"

definition SwitchVM :: "u64 \<Rightarrow> 'z kmem_scheme \<Rightarrow> 'z kmem_scheme" where
  "SwitchVM pml4 s = s\<lparr>cr3 := VIR_TO_PHY pml4\<rparr>"

definition InitMemory :: "'z kmem_scheme \<Rightarrow> 'z kmem_scheme kres" where
  "InitMemory s =
     andthen (SetupKVM s) (\<lambda>(kernel_map, s1).
     andthen (ASSERT (kernel_map \<noteq> 0) ''memory.c'' 150) (\<lambda>_.
     print (kline ''Memory Manage is working now.'') [] (SwitchVM kernel_map s1)))"

section \<open>Entries of a table\<close>

abbreviation table_of :: "u64 \<Rightarrow> u64" where
  "table_of entry \<equiv> PHY_TO_VIR (PAGE_DIRECTORY_TABLE_ADDRESS entry)"

lemma index_mask: "(x :: u64) AND 0x1FF = take_bit 9 x"
  by (simp add: take_bit_eq_mask mask_eq_exp_minus_1)

lemma unat_mod_64 [simp]: "unat (x :: u64) mod 18446744073709551616 = unat x"
  using unat_lt2p [of x] by simp

lemma take_bit_64_unat [simp]: "take_bit 64 (unat (x :: u64)) = unat x"
  by (simp add: take_bit_nat_def)

definition level_index :: "nat \<Rightarrow> u64 \<Rightarrow> nat" where
  "level_index n v = unat v div 2 ^ n mod 512"

lemma level_index_less [simp]: "level_index n v < 512"
  by (simp add: level_index_def)

lemma index_of_nat: "drop_bit n v AND 0x1FF = (of_nat (level_index n v) :: u64)"
proof -
  have "unat (take_bit 9 (drop_bit n v)) = level_index n v"
    by (simp add: level_index_def unsigned_take_bit_eq unsigned_drop_bit_eq take_bit_nat_def
        drop_bit_nat_def take_bit_nat_eq_self del: take_bit_of_nat)
  then show ?thesis unfolding index_mask
    using level_index_less [of n v] by (simp add: word_unat_eq_iff unat_of_nat del: level_index_less)
qed

lemma entry_at_nat: "entry_at t (of_nat k) = t + of_nat (8 * k)"
  by (simp add: entry_at_def)

lemma entry_in_page: "k < 512 \<Longrightarrow> span (entry_at t (of_nat k)) 8 \<subseteq> page_span t"
  unfolding entry_at_nat page_span_def by (rule span_subset) simp_all

lemma entries_disjoint:
  "k < 512 \<Longrightarrow> l < 512 \<Longrightarrow> k \<noteq> l \<Longrightarrow>
   span (entry_at t (of_nat k)) 8 \<inter> span (entry_at t (of_nat l)) 8 = {}"
  unfolding entry_at_nat by (rule span_offsets_disjoint) auto

lemma load_entry_store:
  assumes "k < 512" "l < 512"
  shows "load64 (store64 m (entry_at t (of_nat l)) x) (entry_at t (of_nat k))
       = (if k = l then x else load64 m (entry_at t (of_nat k)))"
  using entries_disjoint [OF assms, of t] by (auto simp: load64_store64_other)

lemma aligned_iff_take_bit: "aligned k a \<longleftrightarrow> take_bit k a = 0"
  by (simp add: aligned_def word_unat_eq_iff unsigned_take_bit_eq take_bit_nat_def)

lemma push_drop_or:
  fixes x a :: u64
  assumes "take_bit n x = 0" "unat a < 2 ^ n"
  shows "push_bit n (drop_bit n (x OR a)) = x"
proof -
  have "drop_bit n a = 0"
    using assms(2) by (simp add: word_unat_eq_iff unsigned_drop_bit_eq drop_bit_nat_def)
  moreover have "push_bit n (drop_bit n x) = x"
    using bits_ident [of n x] assms(1) by simp
  ultimately show ?thesis by (simp add: drop_bit_or)
qed

lemma take_bit_aligned: "aligned 21 x \<Longrightarrow> k \<le> 21 \<Longrightarrow> take_bit k x = 0"
  using aligned_21_mono by (simp add: aligned_iff_take_bit)

lemma aligned_VIR_TO_PHY:
  assumes "aligned 21 p"
  shows "aligned 21 (VIR_TO_PHY p)"
proof -
  have "VIR_TO_PHY p = p + 0x800000000000"
    by (simp add: VIR_TO_PHY_def KERNEL_VIRTUAL_ADDRESS_BASE_def)
  then have "unat (VIR_TO_PHY p) = (unat p + 2 ^ 47) mod 2 ^ 64" by (simp add: unat_word_ariths)
  moreover have "(unat p + 2 ^ 47) mod 2 ^ 64 mod 2 ^ 21 = (unat p + 2 ^ 47) mod 2 ^ 21"
    by (rule mod_mod_cancel) (simp add: le_imp_power_dvd)
  moreover have "(unat p + 2 ^ 47) mod 2 ^ 21 = 0"
    using assms by (simp add: aligned_def mod_add_eq [symmetric])
  ultimately show ?thesis by (simp only: aligned_def)
qed

lemma PHY_VIR [simp]: "PHY_TO_VIR (VIR_TO_PHY p) = p" "VIR_TO_PHY (PHY_TO_VIR p) = p"
  by (simp_all add: PHY_TO_VIR_def VIR_TO_PHY_def)

text \<open>An entry built from an aligned address and attributes gives both back.\<close>

lemma entry_address:
  assumes "aligned 21 x"
  shows "unat a < 2 ^ 12 \<Longrightarrow> PAGE_DIRECTORY_TABLE_ADDRESS (x OR a) = x"
    and "unat a < 2 ^ 21 \<Longrightarrow> PAGE_ADDRESS (x OR a) = x"
  using push_drop_or [OF take_bit_aligned [OF assms]]
  by (simp_all add: PAGE_DIRECTORY_TABLE_ADDRESS_def PAGE_ADDRESS_def)

lemma aligned_and_low:
  assumes "aligned 21 x" "unat b < 2 ^ 21"
  shows "(x OR a) AND b = a AND b"
proof -
  have "take_bit 21 b = b"
    using assms(2) by (simp add: word_unat_eq_iff unsigned_take_bit_eq take_bit_nat_eq_self)
  then have "x AND b = x AND take_bit 21 b" by simp
  also have "\<dots> = take_bit 21 x AND b" by (simp add: take_bit_eq_mask and.assoc and.commute and.left_commute)
  also have "\<dots> = 0" using assms(1) by (simp add: aligned_iff_take_bit)
  finally show ?thesis by (simp add: bit.conj_disj_distrib2)
qed

section \<open>The tables as a tree\<close>

text \<open>
  A table is named by the path to it. \<open>table_page r T t\<close> is the page of the table \<open>t\<close>, if the
  entries of \<open>T\<close> lead to it from the root \<open>r\<close>.
\<close>

datatype table = L4 | L3 nat | L2 nat nat

type_synonym tree = "table \<Rightarrow> nat \<Rightarrow> u64"

fun table_page :: "u64 \<Rightarrow> tree \<Rightarrow> table \<Rightarrow> u64 option" where
  "table_page r T L4 = Some r"
| "table_page r T (L3 i) = (if i < 512 \<and> present (T L4 i) then Some (table_of (T L4 i)) else None)"
| "table_page r T (L2 i j) =
     (if i < 512 \<and> present (T L4 i) \<and> j < 512 \<and> present (T (L3 i) j)
      then Some (table_of (T (L3 i) j)) else None)"

fun child :: "table \<Rightarrow> nat \<Rightarrow> table" where
  "child L4 i = L3 i"
| "child (L3 i) j = L2 i j"
| "child (L2 i j) k = L2 i j"

definition tables :: "u64 \<Rightarrow> tree \<Rightarrow> u64 set" where
  "tables r T = {p. \<exists>t. table_page r T t = Some p}"

definition vm_tree :: "memory \<Rightarrow> u64 \<Rightarrow> u64 \<Rightarrow> tree \<Rightarrow> bool" where
  "vm_tree m ke r T \<longleftrightarrow>
     (\<forall>t p. table_page r T t = Some p \<longrightarrow>
        valid_page ke p \<and> (\<forall>k<512. load64 m (entry_at p (of_nat k)) = T t k))
     \<and> (\<forall>t t' p. table_page r T t = Some p \<longrightarrow> table_page r T t' = Some p \<longrightarrow> t = t')"

lemma vm_treeD:
  assumes "vm_tree m ke r T" "table_page r T t = Some p"
  shows "valid_page ke p" "k < 512 \<Longrightarrow> load64 m (entry_at p (of_nat k)) = T t k"
    "table_page r T t' = Some p \<Longrightarrow> t' = t" "aligned 21 p"
  using assms by (auto simp: vm_tree_def valid_page_def)

lemma in_tables: "table_page r T t = Some p \<Longrightarrow> p \<in> tables r T"
  by (auto simp: tables_def)

lemma vm_tree_frame:
  assumes "vm_tree m ke r T" "\<And>p x. p \<in> tables r T \<Longrightarrow> x \<in> page_span p \<Longrightarrow> m' x = m x"
  shows "vm_tree m' ke r T"
proof -
  have "load64 m' (entry_at p (of_nat k)) = load64 m (entry_at p (of_nat k))"
    if "table_page r T t = Some p" "k < 512" for t p k
    using assms(2) [OF in_tables [OF that(1)]] entry_in_page [OF that(2), of p]
    by (intro load64_cong) blast
  then show ?thesis using assms(1) unfolding vm_tree_def by metis
qed

text \<open>
  Storing an entry: whatever tables are still reachable afterwards were reachable before.
\<close>

lemma vm_tree_store:
  assumes vm: "vm_tree m ke r T" and t: "table_page r T t = Some p" and k: "k < 512"
    and sub: "\<And>t' q. table_page r (T(t := (T t)(k := x))) t' = Some q \<Longrightarrow> table_page r T t' = Some q"
  shows "vm_tree (store64 m (entry_at p (of_nat k)) x) ke r (T(t := (T t)(k := x)))"
proof -
  let ?m = "store64 m (entry_at p (of_nat k)) x"
  have "load64 ?m (entry_at q (of_nat l)) = (T(t := (T t)(k := x))) t' l"
    if t': "table_page r T t' = Some q" and l: "l < 512" for t' q l
  proof (cases "t' = t")
    case True
    then have "q = p" using t t' by simp
    then show ?thesis using True load_entry_store [OF l k] vm_treeD(2) [OF vm t l] by simp
  next
    case False
    then have "q \<noteq> p" using vm_treeD(3) [OF vm t] t' by blast
    then have "page_span q \<inter> page_span p = {}"
      using vm_treeD(4) [OF vm] t t' by (intro page_spans_disjoint) blast+
    then have "span (entry_at q (of_nat l)) 8 \<inter> span (entry_at p (of_nat k)) 8 = {}"
      using entry_in_page [OF l, of q] entry_in_page [OF k, of p] by blast
    then show ?thesis using False vm_treeD(2) [OF vm t' l] by (simp add: load64_store64_other)
  qed
  with sub vm show ?thesis unfolding vm_tree_def by metis
qed

lemma table_page_leaf [simp]: "table_page r (T(L2 i j := e)) = table_page r T"
proof
  fix t
  show "table_page r (T(L2 i j := e)) t = table_page r T t" by (cases t) auto
qed

lemma table_page_clear:
  "\<not> present x \<Longrightarrow> table_page r (T(t := (T t)(k := x))) t' = Some q \<Longrightarrow> table_page r T t' = Some q"
  by (cases t') (auto split: if_splits)

lemma vm_tree_leaf:
  "vm_tree m ke r T \<Longrightarrow> table_page r T (L2 i j) = Some p \<Longrightarrow> k < 512 \<Longrightarrow>
   vm_tree (store64 m (entry_at p (of_nat k)) x) ke r (T(L2 i j := (T (L2 i j))(k := x)))"
  by (rule vm_tree_store) simp_all

lemma vm_tree_clear:
  "vm_tree m ke r T \<Longrightarrow> table_page r T t = Some p \<Longrightarrow> k < 512 \<Longrightarrow> \<not> present x \<Longrightarrow>
   vm_tree (store64 m (entry_at p (of_nat k)) x) ke r (T(t := (T t)(k := x)))"
  by (rule vm_tree_store) (auto intro: table_page_clear)

text \<open>A new table: a zeroed page that an entry now points to.\<close>

lemma present_0 [simp]: "\<not> present 0"
  by (simp add: present_def)

definition add_table :: "tree \<Rightarrow> table \<Rightarrow> nat \<Rightarrow> u64 \<Rightarrow> tree" where
  "add_table T t k x = T(t := (T t)(k := x), child t k := \<lambda>_. 0)"

lemma table_page_add:
  assumes "t = L4 \<or> (\<exists>i. t = L3 i)" "table_page r T t = Some p" "k < 512"
    and "\<not> present (T t k)" "present x"
  shows "table_page r (add_table T t k x) t' = (if t' = child t k then Some (table_of x) else table_page r T t')"
proof (cases t)
  case L4
  then show ?thesis using assms by (cases t') (auto simp: add_table_def)
next
  case (L3 i)
  then show ?thesis using assms by (cases t') (auto simp: add_table_def split: if_splits)
next
  case (L2 i j)
  then show ?thesis using assms(1) by simp
qed

lemma vm_tree_add:
  assumes vm: "vm_tree m ke r T" and t: "t = L4 \<or> (\<exists>i. t = L3 i)" "table_page r T t = Some p" "k < 512"
    and x: "\<not> present (T t k)" "present x" "table_of x = q"
    and q: "valid_page ke q" "q \<notin> tables r T"
  shows "vm_tree (store64 (fill m q 0 (2 ^ 21)) (entry_at p (of_nat k)) x) ke r (add_table T t k x)"
proof -
  let ?m = "store64 (fill m q 0 (2 ^ 21)) (entry_at p (of_nat k)) x" and ?T = "add_table T t k x"
  note pages = table_page_add [OF t x(1,2)]
  have alq: "aligned 21 q" using q(1) by (simp add: valid_page_def)
  have q_other: "page_span p' \<inter> page_span q = {}" "p' \<noteq> q" if "table_page r T t' = Some p'" for t' p'
    using vm_treeD(4) [OF vm that] alq q(2) in_tables [OF that] page_spans_disjoint [of p' q] by auto
  have old: "load64 ?m (entry_at p' (of_nat l)) = ?T t' l"
    if t': "table_page r T t' = Some p'" and l: "l < 512" for t' p' l
  proof -
    have "span (entry_at p' (of_nat l)) 8 \<inter> span q (2 ^ 21) = {}"
      using q_other(1) [OF t'] entry_in_page [OF l, of p'] unfolding page_span_def by blast
    then have f: "load64 (fill m q 0 (2 ^ 21)) (entry_at p' (of_nat l)) = T t' l"
      using vm_treeD(2) [OF vm t' l] by (simp add: load64_fill_other)
    have ne: "t' \<noteq> child t k"
      using t' t(1) x(1) by (auto split: if_splits)
    show ?thesis
    proof (cases "t' = t")
      case True
      then show ?thesis using t t' f ne load_entry_store [OF l t(3)] by (simp add: add_table_def)
    next
      case False
      then have "p' \<noteq> p" using vm_treeD(3) [OF vm t(2)] t' by blast
      then have "page_span p' \<inter> page_span p = {}"
        using vm_treeD(4) [OF vm] t(2) t' by (intro page_spans_disjoint) blast+
      then have "span (entry_at p' (of_nat l)) 8 \<inter> span (entry_at p (of_nat k)) 8 = {}"
        using entry_in_page [OF l, of p'] entry_in_page [OF t(3), of p] by blast
      then show ?thesis using False ne f by (simp add: load64_store64_other add_table_def)
    qed
  qed
  have new: "load64 ?m (entry_at q (of_nat l)) = ?T (child t k) l" if l: "l < 512" for l
  proof -
    have "span (entry_at q (of_nat l)) 8 \<inter> span (entry_at p (of_nat k)) 8 = {}"
      using q_other(1) [OF t(2)] entry_in_page [OF l, of q] entry_in_page [OF t(3), of p] by blast
    then have "load64 ?m (entry_at q (of_nat l)) = load64 (fill m q 0 (2 ^ 21)) (entry_at q (of_nat l))"
      by (rule load64_store64_other)
    also have "\<dots> = 0"
      using entry_in_page [OF l, of q] unfolding page_span_def by (rule load64_fill_zero)
    finally show ?thesis by (simp add: add_table_def)
  qed
  show ?thesis
    unfolding vm_tree_def pages
    using old new q(1) x(3) vm_treeD(1,3) [OF vm] q_other(2)
    by (auto split: if_splits) blast+
qed

section \<open>Address spaces\<close>

definition space :: "'z kmem_scheme \<Rightarrow> u64 \<Rightarrow> tree \<Rightarrow> u64 list \<Rightarrow> bool" where
  "space s r T ps \<longleftrightarrow>
     vm_tree (mem s) (l_kernel_end s) r T \<and> free_pages s ps \<and> tables r T \<inter> set ps = {}"

text \<open>What an operation on page tables may change: the pages of a set, and the free list head.\<close>

definition touches :: "u64 set \<Rightarrow> 'z kmem_scheme \<Rightarrow> 'z kmem_scheme \<Rightarrow> bool" where
  "touches U s s' \<longleftrightarrow> (\<exists>m h. s' = s\<lparr>mem := m, s_free_memory_page_head := h\<rparr>)
     \<and> (\<forall>x. (\<forall>p\<in>U. x \<notin> page_span p) \<longrightarrow> mem s' x = mem s x)"

lemma touches_refl [simp]: "touches U s s"
proof -
  have "s = s\<lparr>mem := mem s, s_free_memory_page_head := s_free_memory_page_head s\<rparr>" by simp
  then show ?thesis unfolding touches_def by blast
qed

lemma touches_trans: "touches U s s' \<Longrightarrow> touches U s' s'' \<Longrightarrow> touches U s s''"
  unfolding touches_def by (elim conjE exE) (simp, blast)

lemma touches_mono: "touches U s s' \<Longrightarrow> U \<subseteq> V \<Longrightarrow> touches V s s'"
  unfolding touches_def by blast

lemma touches_same:
  assumes "touches U s s'"
  shows "l_kernel_end s' = l_kernel_end s" "cr3 s' = cr3 s"
    "s_free_memory_end_address s' = s_free_memory_end_address s"
  using assms by (auto simp: touches_def)

lemma touches_mem: "touches U s s' \<Longrightarrow> (\<And>p. p \<in> U \<Longrightarrow> x \<notin> page_span p) \<Longrightarrow> mem s' x = mem s x"
  by (simp add: touches_def)

lemma touchesI:
  "(\<And>x. (\<And>p. p \<in> U \<Longrightarrow> x \<notin> page_span p) \<Longrightarrow> m x = mem s x) \<Longrightarrow>
   touches U s (s\<lparr>mem := m, s_free_memory_page_head := h\<rparr>)"
  by (auto simp: touches_def)

lemma touches_mem_only:
  "(\<And>x. (\<And>p. p \<in> U \<Longrightarrow> x \<notin> page_span p) \<Longrightarrow> m x = mem s x) \<Longrightarrow> touches U s (s\<lparr>mem := m\<rparr>)"
  using touchesI [of U m s "s_free_memory_page_head s"] by simp

lemma valid_pages_disjoint:
  "valid_page l p \<Longrightarrow> valid_page l q \<Longrightarrow> p \<noteq> q \<Longrightarrow> page_span p \<inter> page_span q = {}"
  by (auto simp: valid_page_def dest: page_spans_disjoint)

lemma table_valid: "vm_tree m ke r T \<Longrightarrow> p \<in> tables r T \<Longrightarrow> valid_page ke p"
  by (auto simp: tables_def vm_tree_def)

text \<open>Whoever changes only other pages leaves an address space as it is.\<close>

lemma vm_tree_touches:
  assumes "vm_tree (mem s) (l_kernel_end s) r T" "touches U s s'"
    and "U \<inter> tables r T = {}" "\<forall>p\<in>U. valid_page (l_kernel_end s) p"
  shows "vm_tree (mem s') (l_kernel_end s') r T"
  unfolding touches_same [OF assms(2)]
proof (rule vm_tree_frame [OF assms(1)])
  fix p x
  assume p: "p \<in> tables r T" and x: "x \<in> page_span p"
  show "mem s' x = mem s x"
  proof (rule touches_mem [OF assms(2)])
    fix q
    assume q: "q \<in> U"
    then have "p \<noteq> q" using p assms(3) by blast
    then have "page_span p \<inter> page_span q = {}"
      using table_valid [OF assms(1) p] assms(4) q valid_pages_disjoint by blast
    then show "x \<notin> page_span q" using x by blast
  qed
qed

lemma free_pages_touches:
  assumes "free_pages s ps" "touches U s s'" "s_free_memory_page_head s' = s_free_memory_page_head s"
    and "U \<inter> set ps = {}" "\<forall>p\<in>U. valid_page (l_kernel_end s) p"
  shows "free_pages s' ps"
proof (rule free_pages_frame [OF assms(1) _ assms(3)])
  show "l_kernel_end s' = l_kernel_end s" using touches_same [OF assms(2)] by simp
  fix x p
  assume p: "p \<in> set ps" and x: "x \<in> page_span p"
  show "mem s' x = mem s x"
  proof (rule touches_mem [OF assms(2)])
    fix q
    assume q: "q \<in> U"
    have "valid_page (l_kernel_end s) p" using assms(1) p by (simp add: free_pages_def)
    then have "page_span p \<inter> page_span q = {}"
      using p q assms(4,5) valid_pages_disjoint by blast
    then show "x \<notin> page_span q" using x by blast
  qed
qed

lemma store_entry_touches:
  "k < 512 \<Longrightarrow> touches {p} s (s\<lparr>mem := store64 (mem s) (entry_at p (of_nat k)) x\<rparr>)"
  using entry_in_page [of k p] by (intro touches_mem_only store64_other) auto

lemma memset_page: "memset m q 0 PAGE_SIZE = fill m q 0 (2 ^ 21)"
  by (simp add: memset_eq_fill)

lemma fill_page_touches: "touches {q} s (s\<lparr>mem := fill (mem s) q 0 (2 ^ 21)\<rparr>)"
  by (rule touches_mem_only) (simp add: fill_apply page_span_def)

definition table_attributes :: "u32 \<Rightarrow> bool" where
  "table_attributes attr \<longleftrightarrow> unat attr < 2 ^ 7 \<and> attr AND 1 \<noteq> 0"

lemma ucast_attr:
  assumes "table_attributes attr"
  shows "unat (ucast attr :: u64) < 2 ^ 7" "(ucast attr :: u64) AND 1 \<noteq> 0"
proof -
  have u: "unat (ucast x :: u64) = unat x" for x :: u32
    using unat_lt2p [of x] by (simp add: unsigned_ucast_eq take_bit_nat_eq_self)
  show "unat (ucast attr :: u64) < 2 ^ 7" using assms by (simp add: u table_attributes_def)
  have "(ucast attr :: u64) AND 1 = ucast (attr AND 1)" by (simp add: unsigned_and_eq)
  moreover have "unat (ucast (attr AND 1) :: u64) \<noteq> 0"
    using assms unfolding u by (simp add: table_attributes_def word_unat_eq_iff)
  ultimately show "(ucast attr :: u64) AND 1 \<noteq> 0" by (metis unat_0)
qed

text \<open>The entry for a new table.\<close>

abbreviation table_entry :: "u64 \<Rightarrow> u32 \<Rightarrow> u64" where
  "table_entry q attr \<equiv> VIR_TO_PHY q OR ucast attr"

lemma table_entry_ok:
  assumes "table_attributes attr" "aligned 21 q"
  shows "present (table_entry q attr)" "table_of (table_entry q attr) = q"
proof -
  note a = ucast_attr [OF assms(1)] and al = aligned_VIR_TO_PHY [OF assms(2)]
  show "present (table_entry q attr)"
    using a(2) by (simp add: present_def TABLE_ENTRY_PRESENT_ATTRIBUTE_def aligned_and_low [OF al])
  have "unat (ucast attr :: u64) < 2 ^ 12" using a(1) by simp
  then show "table_of (table_entry q attr) = q" by (simp add: entry_address(1) [OF al])
qed

lemma spaceD:
  assumes "space s r T ps"
  shows "vm_tree (mem s) (l_kernel_end s) r T" "free_pages s ps" "tables r T \<inter> set ps = {}"
    "table_page r T t = Some p \<Longrightarrow> valid_page (l_kernel_end s) p"
    "table_page r T t = Some p \<Longrightarrow> p \<noteq> 0" "table_page r T t = Some p \<Longrightarrow> p \<notin> set ps"
    "table_page r T t = Some p \<Longrightarrow> k < 512 \<Longrightarrow> load64 (mem s) (entry_at p (of_nat k)) = T t k"
    "q \<in> set ps \<Longrightarrow> valid_page (l_kernel_end s) q" "distinct ps" "0 < l_kernel_end s"
proof -
  show vm: "vm_tree (mem s) (l_kernel_end s) r T" and f: "free_pages s ps" and d: "tables r T \<inter> set ps = {}"
    using assms by (simp_all add: space_def)
  show "distinct ps" and v: "q \<in> set ps \<Longrightarrow> valid_page (l_kernel_end s) q" and l: "0 < l_kernel_end s"
    using f by (simp_all add: free_pages_def)
  assume t: "table_page r T t = Some p"
  show "valid_page (l_kernel_end s) p" by (rule vm_treeD(1) [OF vm t])
  then show "p \<noteq> 0" using valid_page_neq_0 l by blast
  show "p \<notin> set ps" using d in_tables [OF t] by blast
  show "k < 512 \<Longrightarrow> load64 (mem s) (entry_at p (of_nat k)) = T t k" by (rule vm_treeD(2) [OF vm t])
qed

lemma space_store:
  assumes sp: "space s r T ps" and t: "table_page r T t = Some p" and k: "k < 512"
    and x: "\<not> present x \<or> (\<exists>i j. t = L2 i j)"
  shows "space (s\<lparr>mem := store64 (mem s) (entry_at p (of_nat k)) x\<rparr>) r (T(t := (T t)(k := x))) ps"
    (is "space ?s r ?T ps")
proof -
  have "free_pages ?s ps"
    using spaceD(2) [OF sp] store_entry_touches [OF k, of p s x] spaceD(4,6) [OF sp t]
    by (auto intro: free_pages_touches)
  moreover have "vm_tree (mem ?s) (l_kernel_end ?s) r ?T"
    using vm_tree_clear [OF spaceD(1) [OF sp] t k] vm_tree_leaf [OF spaceD(1) [OF sp] _ k] t x by auto
  moreover have "tables r ?T \<subseteq> tables r T"
    using x table_page_clear [of x r T t k] by (auto simp: tables_def)
  ultimately show ?thesis using spaceD(3) [OF sp] by (auto simp: space_def)
qed

text \<open>A page from the allocator, zeroed and linked into the tree.\<close>

lemma space_grow:
  fixes s :: "'z kmem_scheme"
  defines "s1 \<equiv> \<lambda>q. s\<lparr>s_free_memory_page_head := load64 (mem s) q\<rparr>"
  defines "s2 \<equiv> \<lambda>q p k x. (s1 q)\<lparr>mem := store64 (memset (mem s) q 0 PAGE_SIZE) (entry_at p (of_nat k)) x\<rparr>"
  assumes sp: "space s r T (q # ps)" and t: "t = L4 \<or> (\<exists>i. t = L3 i)" "table_page r T t = Some p" "k < 512"
    and x: "\<not> present (T t k)" "table_attributes attr"
  shows "kalloc s = ret (q, s1 q)" "q \<noteq> 0"
    "space (s2 q p k (table_entry q attr)) r (add_table T t k (table_entry q attr)) ps"
    "touches {p, q} s (s2 q p k (table_entry q attr))"
proof -
  let ?x = "table_entry q attr"
  note f = spaceD(2) [OF sp]
  have q: "valid_page (l_kernel_end s) q" "aligned 21 q" "q \<notin> tables r T" "q \<notin> set ps"
    using spaceD(3,8,9) [OF sp] by (auto simp: valid_page_def)
  have p: "valid_page (l_kernel_end s) p" "p \<notin> set ps"
    using spaceD(4,6) [OF sp t(2)] by simp_all
  note e = table_entry_ok [OF x(2) q(2)]
  show "kalloc s = ret (q, s1 q)" unfolding s1_def by (rule kalloc_Cons(1) [OF f])
  show "q \<noteq> 0" using f by (simp add: free_pages_def)
  have t1: "touches {p, q} s (s1 q)"
    unfolding s1_def using touchesI [of "{p, q}" "mem s" s] by simp
  have t2: "touches {p, q} (s1 q) (s2 q p k ?x)"
    unfolding s2_def memset_page
    by (rule touches_mem_only)
      (use entry_in_page [OF t(3), of p] in \<open>auto simp: s1_def store64_apply fill_apply page_span_def\<close>)
  show t3: "touches {p, q} s (s2 q p k ?x)" by (rule touches_trans [OF t1 t2])
  have "free_pages (s1 q) ps" unfolding s1_def by (rule kalloc_Cons(2) [OF f])
  then have "free_pages (s2 q p k ?x) ps"
    by (rule free_pages_touches [OF _ t2]) (use p q in \<open>auto simp: s1_def s2_def\<close>)
  moreover have "vm_tree (mem (s2 q p k ?x)) (l_kernel_end s) r (add_table T t k ?x)"
    unfolding s2_def using vm_tree_add [OF spaceD(1) [OF sp] t x(1) e(1) e(2) q(1) q(3)]
    by (simp add: memset_page)
  moreover have "tables r (add_table T t k ?x) \<subseteq> insert q (tables r T)"
    using table_page_add [OF t x(1) e(1)] e(2) by (auto simp: tables_def split: if_splits)
  ultimately show "space (s2 q p k ?x) r (add_table T t k ?x) ps"
    using spaceD(3) [OF sp] q by (auto simp: space_def s1_def s2_def)
qed

end
