(* ===== verification/Address_Space.thy ===== *)
theory Address_Space
  imports Paging
begin

text \<open>
  What the page-table operations of \<open>Paging\<close> achieve. \<open>mmu\<close> is the translation of the processor;
  \<open>SetupKVM\<close>, \<open>SetupUVM\<close>, \<open>CopyUVM\<close> and \<open>FreeVM\<close> are shown to build, extend, copy and give back
  address spaces.
\<close>

section \<open>Finding tables\<close>

lemma find_existing:
  assumes "space s r T ps" "table_page r T (L2 (level_index 39 v) (level_index 30 v)) = Some pd"
  shows "FindPageDirPointerTableEntry r v alloc attr s = ret (pd, s)"
proof -
  let ?i = "level_index 39 v" and ?j = "level_index 30 v"
  have pr: "present (T L4 ?i)" "present (T (L3 ?i) ?j)" and pd: "pd = table_of (T (L3 ?i) ?j)"
    using assms(2) by (auto split: if_splits)
  note r = spaceD(7) [OF assms(1), of L4 r ?i]
  have t3: "table_page r T (L3 ?i) = Some (table_of (T L4 ?i))" using pr by simp
  show ?thesis
    using pr pd r spaceD(5) [OF assms(1) t3] spaceD(7) [OF assms(1) t3, of ?j]
    by (simp add: FindPageDirPointerTableEntry_def FindPML4TableEntry_def index_of_nat Let_def)
qed

lemma find_none:
  assumes "space s r T ps" "table_page r T (L2 (level_index 39 v) (level_index 30 v)) = None"
    and "alloc \<noteq> 1"
  shows "FindPageDirPointerTableEntry r v alloc attr s = ret (0, s)"
proof -
  let ?i = "level_index 39 v" and ?j = "level_index 30 v"
  note r = spaceD(7) [OF assms(1), of L4 r ?i]
  show ?thesis
  proof (cases "present (T L4 ?i)")
    case True
    then have t3: "table_page r T (L3 ?i) = Some (table_of (T L4 ?i))" by simp
    then show ?thesis
      using True assms(2,3) r spaceD(5) [OF assms(1) t3] spaceD(7) [OF assms(1) t3, of ?j]
      by (simp add: FindPageDirPointerTableEntry_def FindPML4TableEntry_def index_of_nat Let_def
          split: if_splits)
  next
    case False
    then show ?thesis using r assms(3)
      by (simp add: FindPageDirPointerTableEntry_def FindPML4TableEntry_def index_of_nat Let_def)
  qed
qed

text \<open>The tree after both tables of a path have been made.\<close>

definition path_tree :: "tree \<Rightarrow> nat \<Rightarrow> nat \<Rightarrow> u64 \<Rightarrow> u64 \<Rightarrow> u32 \<Rightarrow> tree" where
  "path_tree T i j a b attr =
     add_table (add_table T L4 i (table_entry a attr)) (L3 i) j (table_entry b attr)"

lemma find_fresh:
  assumes sp: "space s r T ps" and np: "\<not> present (T L4 (level_index 39 v))"
    and attr: "table_attributes attr"
  shows "case ps of
      [] \<Rightarrow> FindPageDirPointerTableEntry r v 1 attr s = ret (0, s)
    | [a] \<Rightarrow> \<exists>s'. FindPageDirPointerTableEntry r v 1 attr s = ret (0, s') \<and> touches {r, a} s s'
          \<and> space s' r (add_table T L4 (level_index 39 v) (table_entry a attr)) []
    | a # b # ps' \<Rightarrow> \<exists>s'. FindPageDirPointerTableEntry r v 1 attr s = ret (b, s') \<and> b \<noteq> 0
          \<and> touches {r, a, b} s s'
          \<and> space s' r (path_tree T (level_index 39 v) (level_index 30 v) a b attr) ps'"
proof -
  let ?i = "level_index 39 v" and ?j = "level_index 30 v"
  have l4: "load64 (mem s) (entry_at r (of_nat ?i)) = T L4 ?i"
    by (rule spaceD(7) [OF sp]) simp_all
  show ?thesis
  proof (cases ps)
    case Nil
    then show ?thesis using np l4 kalloc_Nil [of s] spaceD(2) [OF sp]
      by (simp add: FindPageDirPointerTableEntry_def FindPML4TableEntry_def index_of_nat Let_def)
  next
    case (Cons a qs)
    note sp1 = sp [unfolded Cons]
    let ?s1 = "s\<lparr>s_free_memory_page_head := load64 (mem s) a,
        mem := store64 (memset (mem s) a 0 PAGE_SIZE) (entry_at r (of_nat ?i)) (table_entry a attr)\<rparr>"
    let ?T1 = "add_table T L4 ?i (table_entry a attr)"
    note g = space_grow [OF sp1 _ _ _ np attr, of r, simplified]
    have f4: "FindPML4TableEntry r v 1 attr s = ret (a, ?s1)"
      using np l4 g(1,2) by (simp add: FindPML4TableEntry_def index_of_nat Let_def)
    have al: "aligned 21 a" using spaceD(8) [OF sp1, of a] by (simp add: valid_page_def)
    note te = table_entry_ok [OF attr al]
    have t3: "table_page r ?T1 (L3 ?i) = Some a" using te np by (simp add: add_table_def)
    have z: "?T1 (L3 ?i) ?j = 0" by (simp add: add_table_def)
    have l3: "load64 (mem ?s1) (entry_at a (of_nat ?j)) = 0"
      using spaceD(7) [OF g(3) t3, of ?j] z by simp
    show ?thesis
    proof (cases qs)
      case Nil
      then have "kalloc ?s1 = ret (0, ?s1)" using g(3) spaceD(2) kalloc_Nil by blast
      then have "FindPageDirPointerTableEntry r v 1 attr s = ret (0, ?s1)"
        using f4 l3 g(2) by (simp add: FindPageDirPointerTableEntry_def index_of_nat Let_def)
      then show ?thesis using g(3,4) Cons Nil by auto
    next
      case qs: (Cons b ps')
      let ?s2 = "?s1\<lparr>s_free_memory_page_head := load64 (mem ?s1) b,
        mem := store64 (memset (mem ?s1) b 0 PAGE_SIZE) (entry_at a (of_nat ?j)) (table_entry b attr)\<rparr>"
      have sp2: "space ?s1 r ?T1 (b # ps')" using g(3) qs by simp
      note h = space_grow [OF sp2 _ t3 _ _ attr, of ?j, simplified z, simplified]
      have "FindPageDirPointerTableEntry r v 1 attr s = ret (b, ?s2)"
        using f4 l3 g(2) h(1,2) by (simp add: FindPageDirPointerTableEntry_def index_of_nat Let_def)
      moreover have "touches {r, a, b} s ?s1" "touches {r, a, b} ?s1 ?s2"
        using touches_mono [OF g(4), of "{r, a, b}"] touches_mono [OF h(4), of "{r, a, b}"] by auto
      then have "touches {r, a, b} s ?s2" by (rule touches_trans)
      ultimately show ?thesis using h(2,3) Cons qs by (auto simp: path_tree_def)
    qed
  qed
qed

section \<open>Mapping a run of pages\<close>

lemma level_index_up:
  "level_index 30 v = unat v div 2 ^ 21 div 512 mod 512"
  "level_index 39 v = unat v div 2 ^ 21 div 512 div 512 mod 512"
proof -
  have "unat v div 2 ^ 30 = unat v div (2 ^ 21 * 512)" "unat v div 2 ^ 39 = unat v div (2 ^ 21 * 512 * 512)"
    by simp_all
  then show "level_index 30 v = unat v div 2 ^ 21 div 512 mod 512"
    "level_index 39 v = unat v div 2 ^ 21 div 512 div 512 mod 512"
    by (simp_all only: level_index_def div_mult2_eq)
qed

lemma div_Suc_same: "q mod n < n - 1 \<Longrightarrow> Suc q div n = q div (n :: nat)"
  by (auto simp: div_Suc mod_Suc)

lemma level_index_next:
  assumes "level_index 21 v < 511"
  shows "level_index 21 (v + PAGE_SIZE) = Suc (level_index 21 v)"
    "level_index 30 (v + PAGE_SIZE) = level_index 30 v" "level_index 39 (v + PAGE_SIZE) = level_index 39 v"
    "unat (v + PAGE_SIZE) = unat v + 2 ^ 21"
proof -
  let ?q = "unat v div 2 ^ 21"
  have q: "?q mod 512 < 511" using assms by (simp add: level_index_def)
  have "?q < 2 ^ 43" using unat_lt2p [of v] by (simp add: div_less_iff_less_mult)
  moreover have "Suc ?q \<noteq> 2 ^ 43"
  proof
    assume "Suc ?q = 2 ^ 43"
    then have "?q = 2 ^ 43 - 1" by simp
    then have "?q mod 512 = 511" by simp
    with q show False by simp
  qed
  ultimately have q1: "Suc ?q < 2 ^ 43" by simp
  have "unat v < Suc ?q * 2 ^ 21"
    using dividend_less_div_times [of "2 ^ 21" "unat v"] by simp
  then have "unat v + 2 ^ 21 < 2 ^ 64" using q1 by simp
  then show u: "unat (v + PAGE_SIZE) = unat v + 2 ^ 21" by (subst unat_plus_le) simp_all
  then have q': "unat (v + PAGE_SIZE) div 2 ^ 21 = Suc ?q" by simp
  have "Suc ?q div 512 = ?q div 512" using q by (intro div_Suc_same) simp
  then show "level_index 30 (v + PAGE_SIZE) = level_index 30 v"
    "level_index 39 (v + PAGE_SIZE) = level_index 39 v"
    by (simp_all only: level_index_up q')
  show "level_index 21 (v + PAGE_SIZE) = Suc (level_index 21 v)"
    using q unfolding level_index_def q' by (simp add: mod_Suc del: power_numeral)
qed

text \<open>The leaf entry of a page, and the tree with \<open>n\<close> pages from the entry \<open>k\<close> on.\<close>

definition leaf_entry :: "u64 \<Rightarrow> u32 \<Rightarrow> u64" where
  "leaf_entry phys attr = phys OR ucast attr OR TABLE_ENTRY_ENTRY_ATTRIBUTE"

definition map_run :: "tree \<Rightarrow> table \<Rightarrow> nat \<Rightarrow> nat \<Rightarrow> u64 \<Rightarrow> u32 \<Rightarrow> tree" where
  "map_run T t k n phys attr = T(t := \<lambda>l. if k \<le> l \<and> l < k + n
     then leaf_entry (phys + of_nat (l - k) * PAGE_SIZE) attr else T t l)"

lemma map_run_Suc:
  "map_run T t k (Suc n) phys attr
   = map_run (T(t := (T t)(k := leaf_entry phys attr))) t (Suc k) n (phys + PAGE_SIZE) attr"
proof -
  have "(if k \<le> l \<and> l < k + Suc n then leaf_entry (phys + of_nat (l - k) * PAGE_SIZE) attr else T t l)
      = (if Suc k \<le> l \<and> l < Suc k + n then leaf_entry (phys + PAGE_SIZE + of_nat (l - Suc k) * PAGE_SIZE) attr
         else ((T t)(k := leaf_entry phys attr)) l)" for l
  proof (cases "k < l")
    case True
    then have "l - k = Suc (l - Suc k)" by simp
    then have "phys + of_nat (l - k) * PAGE_SIZE = phys + PAGE_SIZE + of_nat (l - Suc k) * PAGE_SIZE"
      by (simp only: of_nat_Suc) (simp add: distrib_right del: of_nat_diff)
    then show ?thesis using True by (simp add: add.assoc del: of_nat_diff)
  next
    case False
    then show ?thesis by auto
  qed
  then show ?thesis by (simp only: map_run_def fun_upd_same fun_upd_upd)
qed

lemma map_loop:
  fixes s :: "'z kmem_scheme"
  assumes "space s r T ps" "table_page r T (L2 i j) = Some pd"
    and "level_index 39 v = i" "level_index 30 v = j" "level_index 21 v = k"
    and "k + Suc n \<le> 512" "\<forall>l. k \<le> l \<and> l < k + Suc n \<longrightarrow> \<not> present (T (L2 i j) l)"
    and "unat v_end = unat v + Suc n * 2 ^ 21" "unat v_end + 2 ^ 22 < 2 ^ 64"
  shows "\<exists>s'. MapPages_loop r v v_end phys attr s = ret (True, s')
     \<and> space s' r (map_run T (L2 i j) k (Suc n) phys attr) ps \<and> touches {pd} s s'"
  using assms
proof (induction n arbitrary: s T v k phys)
  case 0
  let ?s = "s\<lparr>mem := store64 (mem s) (entry_at pd (of_nat k)) (leaf_entry phys attr)\<rparr>"
  have k: "k < 512" using "0.prems" by simp
  have find: "FindPageDirPointerTableEntry r v 1 attr s = ret (pd, s)"
    using find_existing "0.prems" by blast
  have np: "\<not> present (load64 (mem s) (entry_at pd (of_nat k)))"
    using spaceD(7) [OF "0.prems"(1,2) k] "0.prems" by simp
  have "unat (v + (PAGE_SIZE + PAGE_SIZE)) = unat v + unat (PAGE_SIZE + PAGE_SIZE)"
    using "0.prems"(8,9) by (intro unat_plus_le) (simp add: PAGE_SIZE_def)
  then have "\<not> v + PAGE_SIZE + PAGE_SIZE \<le> v_end"
    using "0.prems"(8) by (simp add: word_le_nat_alt add.assoc) (simp add: PAGE_SIZE_def)
  then have "MapPages_loop r v v_end phys attr s = ret (True, ?s)"
    using find np spaceD(5) [OF "0.prems"(1,2)] "0.prems"(5)
    by (subst MapPages_loop.simps) (simp add: index_of_nat Let_def leaf_entry_def or.assoc)
  moreover have "space ?s r (T(L2 i j := (T (L2 i j))(k := leaf_entry phys attr))) ps"
    using space_store [OF "0.prems"(1,2) k] by blast
  moreover have "T(L2 i j := (T (L2 i j))(k := leaf_entry phys attr)) = map_run T (L2 i j) k (Suc 0) phys attr"
    by (auto simp: map_run_def fun_eq_iff)
  ultimately show ?case using store_entry_touches [OF k] by auto
next
  case (Suc n)
  let ?s = "s\<lparr>mem := store64 (mem s) (entry_at pd (of_nat k)) (leaf_entry phys attr)\<rparr>"
  let ?T = "T(L2 i j := (T (L2 i j))(k := leaf_entry phys attr))"
  have k: "k < 512" "k < 511" using Suc.prems by simp_all
  note next_v = level_index_next [of v, unfolded Suc.prems(5), OF k(2)]
  have find: "FindPageDirPointerTableEntry r v 1 attr s = ret (pd, s)"
    using find_existing Suc.prems by blast
  have np: "\<not> present (load64 (mem s) (entry_at pd (of_nat k)))"
    using spaceD(7) [OF Suc.prems(1,2) k(1)] Suc.prems by simp
  have "unat (v + (PAGE_SIZE + PAGE_SIZE)) = unat v + unat (PAGE_SIZE + PAGE_SIZE)"
    using Suc.prems(8,9) by (intro unat_plus_le) (simp add: PAGE_SIZE_def)
  then have "v + PAGE_SIZE + PAGE_SIZE \<le> v_end"
    using Suc.prems(8) by (simp add: word_le_nat_alt add.assoc) (simp add: PAGE_SIZE_def)
  then have step: "MapPages_loop r v v_end phys attr s
      = MapPages_loop r (v + PAGE_SIZE) v_end (phys + PAGE_SIZE) attr ?s"
    using find np spaceD(5) [OF Suc.prems(1,2)] Suc.prems(5)
    by (subst MapPages_loop.simps) (simp add: index_of_nat Let_def leaf_entry_def or.assoc)
  have sp: "space ?s r ?T ps" using space_store [OF Suc.prems(1,2) k(1)] by blast
  have "\<exists>s'. MapPages_loop r (v + PAGE_SIZE) v_end (phys + PAGE_SIZE) attr ?s = ret (True, s')
     \<and> space s' r (map_run ?T (L2 i j) (Suc k) (Suc n) (phys + PAGE_SIZE) attr) ps \<and> touches {pd} ?s s'"
  proof (rule Suc.IH [OF sp])
    show "table_page r ?T (L2 i j) = Some pd" using Suc.prems(2) by simp
    show "level_index 39 (v + PAGE_SIZE) = i" "level_index 30 (v + PAGE_SIZE) = j"
      "level_index 21 (v + PAGE_SIZE) = Suc k"
      using next_v Suc.prems by simp_all
    show "Suc k + Suc n \<le> 512" using Suc.prems by simp
    show "\<forall>l. Suc k \<le> l \<and> l < Suc k + Suc n \<longrightarrow> \<not> present (?T (L2 i j) l)" using Suc.prems by auto
    show "unat v_end = unat (v + PAGE_SIZE) + Suc n * 2 ^ 21" using Suc.prems next_v by simp
  qed (rule Suc.prems)
  then show ?case
    unfolding step map_run_Suc [of T "L2 i j" k "Suc n"]
    using touches_trans [OF store_entry_touches [OF k(1)]] by blast
qed

lemma path_tree_pages:
  assumes "\<not> present (T L4 i)" "i < 512" "j < 512" "table_attributes attr" "aligned 21 a" "aligned 21 b"
  shows "table_page r (path_tree T i j a b attr) t
       = (if t = L2 i j then Some b else if t = L3 i then Some a else table_page r T t)"
proof -
  let ?T = "add_table T L4 i (table_entry a attr)"
  note a = table_entry_ok [OF assms(4,5)] and b = table_entry_ok [OF assms(4,6)]
  have 1: "table_page r ?T t' = (if t' = L3 i then Some a else table_page r T t')" for t'
    using table_page_add [of L4 r T r i "table_entry a attr" t'] assms a by simp
  have np: "\<not> present (?T (L3 i) j)" by (simp add: add_table_def)
  have p3: "table_page r ?T (L3 i) = Some a" unfolding 1 by simp
  have "table_page r (add_table ?T (L3 i) j (table_entry b attr)) t
      = (if t = child (L3 i) j then Some (table_of (table_entry b attr)) else table_page r ?T t)"
    by (rule table_page_add [OF _ p3 assms(3) np b(1)]) simp
  then show ?thesis unfolding path_tree_def 1 b(2) by simp
qed

lemma MapPages_loop_found:
  assumes "FindPageDirPointerTableEntry r v 1 attr s = ret (pd, s1)"
    and "FindPageDirPointerTableEntry r v 1 attr s1 = ret (pd, s1)"
  shows "MapPages_loop r v v_end phys attr s = MapPages_loop r v v_end phys attr s1"
  using assms by (simp add: MapPages_loop.simps [of r v v_end phys attr s]
      MapPages_loop.simps [of r v v_end phys attr s1])

definition mapped_tree :: "tree \<Rightarrow> nat \<Rightarrow> nat \<Rightarrow> nat \<Rightarrow> nat \<Rightarrow> u64 \<Rightarrow> u64 \<Rightarrow> u64 \<Rightarrow> u32 \<Rightarrow> tree" where
  "mapped_tree T i j k n a b phys attr =
     map_run (path_tree T i j a b attr) (L2 i j) k n phys attr"

text \<open>\<open>MapPages\<close> of \<open>n\<close> pages below a level 4 entry that is not in use.\<close>

lemma MapPages_fresh:
  fixes s :: "'z kmem_scheme"
  assumes sp: "space s r T ps" and np: "\<not> present (T L4 (level_index 39 v))"
    and attr: "table_attributes attr" and v: "aligned 21 v" "v < v_last" and ph: "aligned 21 phys"
    and n: "level_index 21 v + Suc n \<le> 512" "unat (PAGE_ALIGN_UP v_last) = unat v + Suc n * 2 ^ 21"
      "unat (PAGE_ALIGN_UP v_last) + 2 ^ 22 < 2 ^ 64"
    and fits: "phys + PAGE_ALIGN_UP v_last - v \<le> VIRTUAL_ADDRESS_END"
  shows "case ps of
      [] \<Rightarrow> MapPages r v v_last phys attr s = ret (False, s)
    | [a] \<Rightarrow> \<exists>s'. MapPages r v v_last phys attr s = ret (False, s') \<and> touches {r, a} s s'
          \<and> space s' r (add_table T L4 (level_index 39 v) (table_entry a attr)) []
    | a # b # ps' \<Rightarrow> \<exists>s'. MapPages r v v_last phys attr s = ret (True, s') \<and> touches {r, a, b} s s'
          \<and> space s' r (mapped_tree T (level_index 39 v) (level_index 30 v) (level_index 21 v) (Suc n)
              a b phys attr) ps'"
proof -
  let ?i = "level_index 39 v" and ?j = "level_index 30 v" and ?k = "level_index 21 v"
  have down: "PAGE_ALIGN_DOWN v = v"
  proof -
    have "unat (PAGE_ALIGN_DOWN v) = unat v"
      using v(1) unfolding unat_PAGE_ALIGN_DOWN aligned_def by (metis add.right_neutral div_mult_mod_eq)
    then show ?thesis by (simp add: word_unat_eq_iff)
  qed
  have loop: "MapPages r v v_last phys attr s = MapPages_loop r v (PAGE_ALIGN_UP v_last) phys attr s"
    using v ph fits by (simp add: MapPages_def down ADDR_IS_ALIGNED_iff)
  note find = find_fresh [OF sp np attr]
  show ?thesis
  proof (cases ps)
    case Nil
    then show ?thesis using find by (simp add: loop MapPages_loop.simps [of r v _ phys attr s])
  next
    case (Cons a qs)
    show ?thesis
    proof (cases qs)
      case Nil
      then obtain s1 where "FindPageDirPointerTableEntry r v 1 attr s = ret (0, s1)" "touches {r, a} s s1"
        "space s1 r (add_table T L4 ?i (table_entry a attr)) []"
        using find Cons by auto
      then show ?thesis using Cons Nil by (simp add: loop MapPages_loop.simps [of r v _ phys attr s])
    next
      case qs: (Cons b ps')
      let ?T = "path_tree T ?i ?j a b attr"
      obtain s1 where s1: "FindPageDirPointerTableEntry r v 1 attr s = ret (b, s1)"
        "touches {r, a, b} s s1" "space s1 r ?T ps'"
        using find Cons qs by auto
      have al: "aligned 21 a" "aligned 21 b"
        using spaceD(8) [OF sp] Cons qs by (auto simp: valid_page_def)
      have pd: "table_page r ?T (L2 ?i ?j) = Some b"
        using path_tree_pages [of T ?i ?j attr a b r "L2 ?i ?j"] np attr al by (simp del: table_page.simps)
      have new: "?T (L2 ?i ?j) = (\<lambda>_. 0)" by (simp add: path_tree_def add_table_def)
      have "\<exists>s'. MapPages_loop r v (PAGE_ALIGN_UP v_last) phys attr s1 = ret (True, s')
         \<and> space s' r (map_run ?T (L2 ?i ?j) ?k (Suc n) phys attr) ps' \<and> touches {b} s1 s'"
        by (rule map_loop [OF s1(3) pd]) (use n new in simp_all)
      moreover have "MapPages_loop r v (PAGE_ALIGN_UP v_last) phys attr s
          = MapPages_loop r v (PAGE_ALIGN_UP v_last) phys attr s1"
        by (rule MapPages_loop_found [OF s1(1) find_existing [OF s1(3) pd]])
      ultimately obtain s' where "MapPages r v v_last phys attr s = ret (True, s')"
        "space s' r (map_run ?T (L2 ?i ?j) ?k (Suc n) phys attr) ps'" "touches {b} s1 s'"
        unfolding loop by auto
      moreover have "touches {r, a, b} s s'"
        by (rule touches_trans [OF s1(2) touches_mono [OF calculation(3)]]) simp
      ultimately show ?thesis using Cons qs by (auto simp: mapped_tree_def)
    qed
  qed
qed

section \<open>The translation of the processor\<close>

text \<open>
  The four-level walk of x86-64: \<open>m\<close> holds the tables, \<open>r\<close> is the kernel address of the level 4
  table. The result is the physical address and the writable (2) and user (4) bits that every
  level grants. Bit 7 of an entry of the third or second level ends the walk at a 1 GB or 2 MB
  page.
\<close>

definition canonical :: "u64 \<Rightarrow> bool" where
  "canonical v \<longleftrightarrow> v < 0x800000000000 \<or> 0xFFFF800000000000 \<le> v"

definition large :: "u64 \<Rightarrow> bool" where
  "large entry \<longleftrightarrow> entry AND 128 \<noteq> 0"

definition frame :: "nat \<Rightarrow> u64 \<Rightarrow> u64" where
  "frame n entry = push_bit n (drop_bit n (take_bit 52 entry))"

definition mmu :: "memory \<Rightarrow> u64 \<Rightarrow> u64 \<Rightarrow> (u64 \<times> u64) option" where
  "mmu m r v =
     (if \<not> canonical v then None
      else
        let e4 = load64 m (entry_at r (drop_bit 39 v AND 0x1FF));
            e3 = load64 m (entry_at (PHY_TO_VIR (frame 12 e4)) (drop_bit 30 v AND 0x1FF));
            e2 = load64 m (entry_at (PHY_TO_VIR (frame 12 e3)) (drop_bit 21 v AND 0x1FF));
            e1 = load64 m (entry_at (PHY_TO_VIR (frame 12 e2)) (drop_bit 12 v AND 0x1FF))
        in if \<not> present e4 \<or> \<not> present e3 then None
           else if large e3 then Some (frame 30 e3 OR take_bit 30 v, e4 AND e3 AND 6)
           else if \<not> present e2 then None
           else if large e2 then Some (frame 21 e2 OR take_bit 21 v, e4 AND e3 AND e2 AND 6)
           else if \<not> present e1 then None
           else Some (frame 12 e1 OR take_bit 12 v, e4 AND e3 AND e2 AND e1 AND 6))"

text \<open>The same walk in a tree whose leaves are 2 MB pages.\<close>

definition walk :: "tree \<Rightarrow> u64 \<Rightarrow> (u64 \<times> u64) option" where
  "walk T v =
     (let i = level_index 39 v; j = level_index 30 v; k = level_index 21 v in
      if canonical v \<and> present (T L4 i) \<and> present (T (L3 i) j) \<and> present (T (L2 i j) k)
      then Some (PAGE_ADDRESS (T (L2 i j) k) OR take_bit 21 v,
                 T L4 i AND T (L3 i) j AND T (L2 i j) k AND 6)
      else None)"

definition tree_ok :: "tree \<Rightarrow> bool" where
  "tree_ok T \<longleftrightarrow> (\<forall>t k. unat (T t k) < 2 ^ 52)
     \<and> (\<forall>i k. present (T (L3 i) k) \<longrightarrow> \<not> large (T (L3 i) k))
     \<and> (\<forall>i j k. present (T (L2 i j) k) \<longrightarrow> large (T (L2 i j) k))"

lemma frame_small:
  assumes "unat e < 2 ^ 52"
  shows "frame 12 e = PAGE_DIRECTORY_TABLE_ADDRESS e" "frame 21 e = PAGE_ADDRESS e"
proof -
  have "take_bit 52 e = e"
    using assms by (simp add: word_unat_eq_iff unsigned_take_bit_eq take_bit_nat_eq_self)
  then show "frame 12 e = PAGE_DIRECTORY_TABLE_ADDRESS e" "frame 21 e = PAGE_ADDRESS e"
    by (simp_all add: frame_def PAGE_DIRECTORY_TABLE_ADDRESS_def PAGE_ADDRESS_def)
qed

lemma mmu_walk:
  assumes vm: "vm_tree m ke r T" and ok: "tree_ok T"
  shows "mmu m r v = walk T v"
proof -
  let ?i = "level_index 39 v" and ?j = "level_index 30 v" and ?k = "level_index 21 v"
  have small: "unat (T t k) < 2 ^ 52" for t k using ok by (simp add: tree_ok_def)
  have e4: "load64 m (entry_at r (of_nat ?i)) = T L4 ?i"
    by (rule vm_treeD(2) [OF vm]) simp_all
  have e3: "load64 m (entry_at (table_of (T L4 ?i)) (of_nat ?j)) = T (L3 ?i) ?j" if "present (T L4 ?i)"
    by (rule vm_treeD(2) [OF vm]) (simp_all add: that)
  have e2: "load64 m (entry_at (table_of (T (L3 ?i) ?j)) (of_nat ?k)) = T (L2 ?i ?j) ?k"
    if "present (T L4 ?i)" "present (T (L3 ?i) ?j)"
    by (rule vm_treeD(2) [OF vm]) (simp_all add: that)
  have l3: "present (T (L3 ?i) ?j) \<Longrightarrow> \<not> large (T (L3 ?i) ?j)"
    and l2: "present (T (L2 ?i ?j) ?k) \<Longrightarrow> large (T (L2 ?i ?j) ?k)"
    using ok by (simp_all add: tree_ok_def)
  show ?thesis
  proof (cases "canonical v \<and> present (T L4 ?i)")
    case False
    then show ?thesis using e4 by (auto simp: mmu_def walk_def index_of_nat Let_def)
  next
    case c4: True
    show ?thesis
    proof (cases "present (T (L3 ?i) ?j)")
      case False
      then show ?thesis using c4 e4 e3
        by (simp add: mmu_def walk_def index_of_nat Let_def frame_small(1) [OF small])
    next
      case c3: True
      then show ?thesis using c4 e4 e3 e2 l3 l2
        by (simp add: mmu_def walk_def index_of_nat Let_def frame_small [OF small])
    qed
  qed
qed

lemma small_or: "unat x < 2 ^ n \<Longrightarrow> unat y < 2 ^ n \<Longrightarrow> n \<le> 64 \<Longrightarrow> unat (x OR y :: u64) < 2 ^ n"
proof -
  assume a: "unat x < 2 ^ n" "unat y < 2 ^ n" "n \<le> 64"
  then have "take_bit n x = x" "take_bit n y = y"
    by (simp_all add: word_unat_eq_iff unsigned_take_bit_eq take_bit_nat_eq_self)
  then have "take_bit n (x OR y) = x OR y" by simp
  moreover have "unat (take_bit n (x OR y)) = take_bit n (unat (x OR y))"
    by (rule unsigned_take_bit_eq)
  ultimately show ?thesis using take_bit_nat_less_exp [of n "unat (x OR y)"] by metis
qed

lemma tree_ok_zero: "tree_ok (\<lambda>_ _. 0)"
  by (simp add: tree_ok_def)

lemma tree_ok_add:
  assumes "tree_ok T" "t = L4 \<or> (\<exists>i. t = L3 i)" "unat x < 2 ^ 52" "\<not> large x"
  shows "tree_ok (add_table T t k x)"
  using assms by (auto simp: tree_ok_def add_table_def)

lemma tree_ok_run:
  assumes "tree_ok T" "\<And>l. l < n \<Longrightarrow> unat (leaf_entry (phys + of_nat l * PAGE_SIZE) attr) < 2 ^ 52"
    and "\<And>l. l < n \<Longrightarrow> large (leaf_entry (phys + of_nat l * PAGE_SIZE) attr)"
  shows "tree_ok (map_run T (L2 i j) k n phys attr)"
proof -
  have "l - k < n" if "k \<le> l" "l < k + n" for l using that by simp
  then show ?thesis using assms by (simp add: tree_ok_def map_run_def del: of_nat_diff)
qed

section \<open>What the entries translate to\<close>

lemma VIR_TO_PHY_small:
  assumes "KERNEL_VIRTUAL_ADDRESS_BASE \<le> q"
  shows "unat (VIR_TO_PHY q) < 2 ^ 47"
proof -
  have "unat (VIR_TO_PHY q) = unat q - unat KERNEL_VIRTUAL_ADDRESS_BASE"
    using assms by (simp add: VIR_TO_PHY_def unat_sub)
  then show ?thesis
    using unat_lt2p [of q] by (simp add: KERNEL_VIRTUAL_ADDRESS_BASE_def)
qed

lemma table_entry_small:
  assumes "table_attributes attr" "valid_page ke q" "KERNEL_VIRTUAL_ADDRESS_BASE \<le> ke"
  shows "unat (table_entry q attr) < 2 ^ 52" "\<not> large (table_entry q attr)"
    "table_entry q attr AND 6 = ucast attr AND 6"
proof -
  have q: "aligned 21 q" "KERNEL_VIRTUAL_ADDRESS_BASE \<le> q"
    using assms(2,3) by (auto simp: valid_page_def)
  note al = aligned_VIR_TO_PHY [OF q(1)] and a = ucast_attr(1) [OF assms(1)]
  show "unat (table_entry q attr) < 2 ^ 52"
    using VIR_TO_PHY_small [OF q(2)] a by (intro small_or) simp_all
  show "table_entry q attr AND 6 = ucast attr AND 6" by (rule aligned_and_low [OF al]) simp
  have "(ucast attr :: u64) = take_bit 7 (ucast attr)"
    using a by (simp add: word_unat_eq_iff unsigned_take_bit_eq take_bit_nat_eq_self)
  then have "(ucast attr :: u64) AND 128 = (ucast attr AND mask 7) AND 128"
    by (simp only: take_bit_eq_mask [symmetric])
  also have "\<dots> = 0" by (simp add: and.assoc mask_eq_exp_minus_1)
  finally have "(ucast attr :: u64) AND 128 = 0" .
  then show "\<not> large (table_entry q attr)" by (simp add: large_def aligned_and_low [OF al])
qed

lemma leaf_entry_ok:
  assumes "table_attributes attr" "aligned 21 x" "unat x < 2 ^ 47"
  shows "unat (leaf_entry x attr) < 2 ^ 52" "large (leaf_entry x attr)" "present (leaf_entry x attr)"
    "PAGE_ADDRESS (leaf_entry x attr) = x" "leaf_entry x attr AND 6 = ucast attr AND 6"
proof -
  let ?a = "ucast attr OR TABLE_ENTRY_ENTRY_ATTRIBUTE :: u64"
  note a = ucast_attr [OF assms(1)]
  have s: "unat ?a < 2 ^ 8" using a(1) by (intro small_or) (simp_all add: TABLE_ENTRY_ENTRY_ATTRIBUTE_def)
  show "unat (leaf_entry x attr) < 2 ^ 52"
    unfolding leaf_entry_def by (rule small_or) (use s assms(3) in simp_all)
  show "PAGE_ADDRESS (leaf_entry x attr) = x"
    unfolding leaf_entry_def by (rule entry_address(2) [OF assms(2)]) (use s in simp)
  have low: "leaf_entry x attr AND y = ?a AND y" if "unat y < 2 ^ 21" for y
    unfolding leaf_entry_def by (rule aligned_and_low [OF assms(2) that])
  show "leaf_entry x attr AND 6 = ucast attr AND 6" "large (leaf_entry x attr)" "present (leaf_entry x attr)"
    unfolding large_def present_def
    using a(2) by (simp_all add: low TABLE_ENTRY_ENTRY_ATTRIBUTE_def TABLE_ENTRY_PRESENT_ATTRIBUTE_def
        bit.conj_disj_distrib2)
qed

lemma or_offset: "aligned 21 x \<Longrightarrow> x OR take_bit 21 v = x + take_bit 21 (v :: u64)"
proof -
  assume "aligned 21 x"
  then have "x AND take_bit 21 v = 0"
    using take_bit_and [of 21 x v] by (simp add: aligned_iff_take_bit take_bit_eq_mask ac_simps)
  then show ?thesis by (simp add: disjunctive_add_eq_or)
qed

lemma mapped_tree_entries:
  "mapped_tree T i j k n a b phys attr L4 l = (if l = i then table_entry a attr else T L4 l)"
  "mapped_tree T i j k n a b phys attr (L3 i) l = (if l = j then table_entry b attr else 0)"
  "mapped_tree T i j k n a b phys attr (L2 i j) l =
     (if k \<le> l \<and> l < k + n then leaf_entry (phys + of_nat (l - k) * PAGE_SIZE) attr else 0)"
  "i' \<noteq> i \<Longrightarrow> mapped_tree T i j k n a b phys attr (L3 i') l = T (L3 i') l"
  "i' \<noteq> i \<Longrightarrow> mapped_tree T i j k n a b phys attr (L2 i' j') l = T (L2 i' j') l"
  by (simp_all add: mapped_tree_def map_run_def path_tree_def add_table_def)

lemma run_address:
  assumes "aligned 21 phys" "unat phys + n * 2 ^ 21 \<le> 2 ^ 47" "l < n"
  shows "aligned 21 (phys + of_nat l * PAGE_SIZE)" "unat (phys + of_nat l * PAGE_SIZE) < 2 ^ 47"
proof -
  have b: "unat phys + n * 2 ^ 21 < 2 ^ 64" using assms(2) by simp
  have "phys + of_nat l * PAGE_SIZE \<in> set (region_pages phys n)"
    using assms(3) by (auto simp: region_pages_def)
  then show "aligned 21 (phys + of_nat l * PAGE_SIZE)" "unat (phys + of_nat l * PAGE_SIZE) < 2 ^ 47"
    unfolding in_region_pages(1) [OF assms(1) b] using assms(2) by auto
qed

lemma walk_mapped:
  assumes attr: "table_attributes attr" and ab: "valid_page ke a" "valid_page ke b"
    and ke: "KERNEL_VIRTUAL_ADDRESS_BASE \<le> ke"
    and phys: "aligned 21 phys" "unat phys + n * 2 ^ 21 \<le> 2 ^ 47"
  shows "walk (mapped_tree T i j k n a b phys attr) v =
    (if level_index 39 v = i then
       if canonical v \<and> level_index 30 v = j \<and> k \<le> level_index 21 v \<and> level_index 21 v < k + n
       then Some (phys + of_nat (level_index 21 v - k) * PAGE_SIZE + take_bit 21 v, ucast attr AND 6)
       else None
     else walk T v)"
proof (cases "level_index 39 v = i")
  case False
  then show ?thesis by (simp add: walk_def mapped_tree_entries Let_def)
next
  case i: True
  have al: "aligned 21 a" "aligned 21 b" using ab by (simp_all add: valid_page_def)
  note pa = table_entry_ok(1) [OF attr al(1)] and pb = table_entry_ok(1) [OF attr al(2)]
    and sa = table_entry_small(3) [OF attr ab(1) ke] and sb = table_entry_small(3) [OF attr ab(2) ke]
  let ?l = "level_index 21 v"
  show ?thesis
  proof (cases "canonical v \<and> level_index 30 v = j \<and> k \<le> ?l \<and> ?l < k + n")
    case False
    then show ?thesis using i by (auto simp: walk_def mapped_tree_entries Let_def)
  next
    case True
    then have "?l - k < n" by auto
    note x = run_address [OF phys this]
    note leaf = leaf_entry_ok [OF attr x]
    have perm: "e AND f AND g AND 6 = (e AND 6) AND (f AND 6) AND (g AND 6)" for e f g :: u64
      by (simp add: ac_simps)
    have "table_entry a attr AND table_entry b attr
        AND leaf_entry (phys + of_nat (?l - k) * PAGE_SIZE) attr AND 6 = ucast attr AND 6"
      by (subst perm) (simp only: sa sb leaf(5) and.idem)
    then show ?thesis using i True pa pb leaf or_offset [OF x(1), of v]
      by (simp add: walk_def mapped_tree_entries Let_def del: of_nat_diff)
  qed
qed

lemma tree_ok_mapped:
  assumes ok: "tree_ok T" and attr: "table_attributes attr" and ab: "valid_page ke a" "valid_page ke b"
    and ke: "KERNEL_VIRTUAL_ADDRESS_BASE \<le> ke"
    and phys: "aligned 21 phys" "unat phys + n * 2 ^ 21 \<le> 2 ^ 47"
  shows "tree_ok (mapped_tree T i j k n a b phys attr)"
proof -
  have "tree_ok (add_table T L4 i (table_entry a attr))"
    using table_entry_small [OF attr ab(1) ke] by (intro tree_ok_add [OF ok]) simp_all
  then have "tree_ok (path_tree T i j a b attr)"
    unfolding path_tree_def using table_entry_small [OF attr ab(2) ke]
    by (auto intro: tree_ok_add [where t = "L3 i"])
  then show ?thesis
    unfolding mapped_tree_def
    by (rule tree_ok_run)
      (rule leaf_entry_ok [OF attr run_address [OF phys]]; assumption)+
qed

section \<open>SetupKVM\<close>

lemma kernel_address_iff:
  assumes "n \<le> 512"
  shows "canonical v \<and> level_index 39 v = 256 \<and> level_index 30 v = 0 \<and> level_index 21 v < n
    \<longleftrightarrow> KERNEL_VIRTUAL_ADDRESS_BASE \<le> v \<and> unat v < 2 ^ 64 - 2 ^ 47 + n * 2 ^ 21"
proof -
  define A where "A = unat v div 2 ^ 21"
  define B where "B = A div 512"
  have w: "unat v = A * 2 ^ 21 + unat v mod 2 ^ 21" "unat v mod 2 ^ 21 < 2 ^ 21"
    by (simp_all only: A_def div_mult_mod_eq mod_less_divisor zero_less_power zero_less_numeral)
  have idx: "level_index 39 v = B div 512 mod 512" "level_index 30 v = B mod 512" "level_index 21 v = A mod 512"
    by (simp_all only: level_index_up level_index_def [of 21] A_def B_def)
  have A: "A < 2 ^ 43" using unat_lt2p [of v] unfolding A_def by (simp add: div_less_iff_less_mult)
  have can: "canonical v \<longleftrightarrow> A < 2 ^ 26 \<or> 2 ^ 43 - 2 ^ 26 \<le> A"
    using w by (simp add: canonical_def word_less_nat_alt word_le_nat_alt) linarith
  have kb: "KERNEL_VIRTUAL_ADDRESS_BASE \<le> v \<and> unat v < 2 ^ 64 - 2 ^ 47 + n * 2 ^ 21
      \<longleftrightarrow> 2 ^ 43 - 2 ^ 26 \<le> A \<and> A < 2 ^ 43 - 2 ^ 26 + n"
    using w by (simp add: KERNEL_VIRTUAL_ADDRESS_BASE_def word_le_nat_alt) linarith
  have ab: "A = 512 * B + A mod 512" "A mod 512 < 512" by (simp_all add: B_def)
  have "(A < 2 ^ 26 \<or> 2 ^ 43 - 2 ^ 26 \<le> A) \<and> B div 512 mod 512 = 256 \<and> B mod 512 = 0 \<and> A mod 512 < n
      \<longleftrightarrow> 2 ^ 43 - 2 ^ 26 \<le> A \<and> A < 2 ^ 43 - 2 ^ 26 + n" (is "?l \<longleftrightarrow> ?r")
  proof
    assume l: ?l
    obtain D where "B div 512 = 512 * D + 256" using l by (metis mult_div_mod_eq)
    then have A': "A = 134217728 * D + 67108864 + A mod 512"
      using l ab mult_div_mod_eq [of 512 B] by simp
    have "D < 65536" using A A' by (intro ccontr [of "D < 65536"]) simp
    moreover have "\<not> D < 65535" using l A' ab(2) by auto
    ultimately have "D = 65535" by simp
    then show ?r using A' l by simp
  next
    assume r: ?r
    then obtain m where m: "A = 2 ^ 43 - 2 ^ 26 + m" by (metis le_Suc_ex)
    then have "m < n" "m < 512" using r assms by simp_all
    have A': "A = m + 512 * 17179738112" using m by simp
    have "A mod 512 = m" unfolding A' mod_mult_self2 using \<open>m < 512\<close> by simp
    moreover have "B = 17179738112"
      unfolding B_def A' using \<open>m < 512\<close> by (subst div_mult_self2) simp_all
    ultimately have "B = 17179738112" "A mod 512 = m" by simp_all
    then show ?l using r \<open>m < n\<close> by simp
  qed
  then show ?thesis unfolding can kb idx .
qed

lemma new_root:
  assumes "free_pages s (r # ps)"
  defines "s' \<equiv> s\<lparr>s_free_memory_page_head := load64 (mem s) r, mem := memset (mem s) r 0 PAGE_SIZE\<rparr>"
  shows "kalloc s = ret (r, s\<lparr>s_free_memory_page_head := load64 (mem s) r\<rparr>)" "r \<noteq> 0"
    "space s' r (\<lambda>_ _. 0) ps" "touches {r} s s'"
proof -
  let ?s1 = "s\<lparr>s_free_memory_page_head := load64 (mem s) r\<rparr>"
  note k = kalloc_Cons [OF assms(1)]
  show "kalloc s = ret (r, ?s1)" by (rule k(1))
  show "r \<noteq> 0" using assms by (simp add: free_pages_def)
  have r: "valid_page (l_kernel_end s) r" "r \<notin> set ps"
    using assms(1) by (simp_all add: free_pages_def)
  have s': "s' = ?s1\<lparr>mem := fill (mem ?s1) r 0 (2 ^ 21)\<rparr>" by (simp add: s'_def memset_page)
  have t: "touches {r} ?s1 s'" unfolding s' by (rule fill_page_touches)
  have "touches {r} s ?s1" using touchesI [of "{r}" "mem s" s] by simp
  then show "touches {r} s s'" using t by (rule touches_trans)
  have "free_pages s' ps"
    by (rule free_pages_touches [OF k(2) t]) (use r in \<open>auto simp: s'\<close>)
  moreover have page: "table_page r (\<lambda>_ _. 0) t = (if t = L4 then Some r else None)" for t
    by (cases t) auto
  moreover have "load64 (mem s') (entry_at r (of_nat k)) = 0" if "k < 512" for k
    unfolding s' using entry_in_page [OF that, of r] by (simp add: load64_fill_zero page_span_def)
  ultimately show "space s' r (\<lambda>_ _. 0) ps"
    using r by (auto simp: space_def vm_tree_def tables_def s'_def)
qed

lemma page_count:
  assumes "v < v_last" "v_last \<le> VIRTUAL_ADDRESS_END" "aligned 21 v"
  obtains n where "unat (PAGE_ALIGN_UP v_last) = unat v + Suc n * 2 ^ 21"
proof -
  note up = PAGE_ALIGN_UP_range [OF assms(2)]
  obtain p q where pq: "unat (PAGE_ALIGN_UP v_last) = 2 ^ 21 * p" "unat v = 2 ^ 21 * q"
    using up(3) assms(3) unfolding aligned_def dvd_eq_mod_eq_0 [symmetric] dvd_def by blast
  moreover have "unat v < unat (PAGE_ALIGN_UP v_last)"
    using assms(1) up(1) by (simp add: word_less_nat_alt word_le_nat_alt)
  ultimately have "q < p" by simp
  then obtain n where "p = q + Suc n" by (metis less_iff_Suc_add add_Suc_right)
  then have "unat (PAGE_ALIGN_UP v_last) = unat v + Suc n * 2 ^ 21" using pq by simp
  then show ?thesis by (rule that)
qed

lemma kernel_half:
  "aligned 21 KERNEL_VIRTUAL_ADDRESS_BASE" "unat KERNEL_VIRTUAL_ADDRESS_BASE = 2 ^ 64 - 2 ^ 47"
  "level_index 39 KERNEL_VIRTUAL_ADDRESS_BASE = 256" "level_index 30 KERNEL_VIRTUAL_ADDRESS_BASE = 0"
  "level_index 21 KERNEL_VIRTUAL_ADDRESS_BASE = 0" "VIR_TO_PHY KERNEL_VIRTUAL_ADDRESS_BASE = 0"
  by (simp_all add: aligned_def level_index_def KERNEL_VIRTUAL_ADDRESS_BASE_def VIR_TO_PHY_def)

text \<open>The tree of a kernel map: \<open>n\<close> pages of physical memory from 0 on, at the kernel's base.\<close>

definition kernel_tree :: "nat \<Rightarrow> u64 \<Rightarrow> u64 \<Rightarrow> tree" where
  "kernel_tree n a b = mapped_tree (\<lambda>_ _. 0) 256 0 0 n a b 0 3"

definition kernel_pages :: "'z kmem_scheme \<Rightarrow> nat" where
  "kernel_pages s = (unat (PAGE_ALIGN_UP (s_free_memory_end_address s)) - (2 ^ 64 - 2 ^ 47)) div 2 ^ 21"

text \<open>The memory the allocator describes: it ends above the kernel's base and within the address range.\<close>

definition memory_ok :: "'z kmem_scheme \<Rightarrow> bool" where
  "memory_ok s \<longleftrightarrow> KERNEL_VIRTUAL_ADDRESS_BASE \<le> l_kernel_end s
     \<and> KERNEL_VIRTUAL_ADDRESS_BASE < s_free_memory_end_address s
     \<and> s_free_memory_end_address s \<le> VIRTUAL_ADDRESS_END"

lemma kernel_pages:
  assumes "memory_ok s"
  shows "unat (PAGE_ALIGN_UP (s_free_memory_end_address s)) = 2 ^ 64 - 2 ^ 47 + kernel_pages s * 2 ^ 21"
    and "0 < kernel_pages s" "kernel_pages s \<le> 512"
proof -
  obtain n where n: "unat (PAGE_ALIGN_UP (s_free_memory_end_address s)) = 2 ^ 64 - 2 ^ 47 + Suc n * 2 ^ 21"
    using page_count [OF _ _ kernel_half(1)] assms kernel_half(2) unfolding memory_ok_def by metis
  then have "kernel_pages s = Suc n" unfolding kernel_pages_def by simp
  then show "unat (PAGE_ALIGN_UP (s_free_memory_end_address s)) = 2 ^ 64 - 2 ^ 47 + kernel_pages s * 2 ^ 21"
    "0 < kernel_pages s" using n by simp_all
  have "PAGE_ALIGN_UP (s_free_memory_end_address s) \<le> VIRTUAL_ADDRESS_END"
    using assms PAGE_ALIGN_UP_range(2) by (simp add: memory_ok_def)
  then have "kernel_pages s * 2 ^ 21 \<le> 2 ^ 30"
    using n \<open>kernel_pages s = Suc n\<close> by (simp add: word_le_nat_alt unat_VIRTUAL_ADDRESS_END)
  then show "kernel_pages s \<le> 512" by simp
qed

lemma table_attributes_kernel: "table_attributes 3" "table_attributes 7"
  by (simp_all add: table_attributes_def)

lemma MapPages_kernel:
  assumes "space s r (\<lambda>_ _. 0) ps" "memory_ok s"
  shows "case ps of
      [] \<Rightarrow> MapPages r KERNEL_VIRTUAL_ADDRESS_BASE (s_free_memory_end_address s) 0 3 s = ret (False, s)
    | [a] \<Rightarrow> \<exists>s'. MapPages r KERNEL_VIRTUAL_ADDRESS_BASE (s_free_memory_end_address s) 0 3 s = ret (False, s')
          \<and> touches {r, a} s s' \<and> space s' r (add_table (\<lambda>_ _. 0) L4 256 (table_entry a 3)) []
    | a # b # ps' \<Rightarrow>
        \<exists>s'. MapPages r KERNEL_VIRTUAL_ADDRESS_BASE (s_free_memory_end_address s) 0 3 s = ret (True, s')
          \<and> touches {r, a, b} s s' \<and> space s' r (kernel_tree (kernel_pages s) a b) ps'"
proof -
  note kp = kernel_pages [OF assms(2)]
  obtain n where n: "kernel_pages s = Suc n" using kp(2) gr0_conv_Suc by blast
  let ?e = "PAGE_ALIGN_UP (s_free_memory_end_address s)"
  have lt: "KERNEL_VIRTUAL_ADDRESS_BASE < s_free_memory_end_address s" using assms(2) by (simp add: memory_ok_def)
  have "KERNEL_VIRTUAL_ADDRESS_BASE \<le> ?e" using kp(1) by (simp add: word_le_nat_alt kernel_half(2))
  then have "unat (?e - KERNEL_VIRTUAL_ADDRESS_BASE) \<le> 2 ^ 30"
    using kp(1,3) by (simp add: unat_sub kernel_half(2))
  then have fits: "0 + ?e - KERNEL_VIRTUAL_ADDRESS_BASE \<le> VIRTUAL_ADDRESS_END"
    by (simp add: word_le_nat_alt unat_VIRTUAL_ADDRESS_END)
  have z: "aligned 21 0" by (simp add: aligned_def)
  have e: "unat ?e = unat KERNEL_VIRTUAL_ADDRESS_BASE + Suc n * 2 ^ 21" "unat ?e + 2 ^ 22 < 2 ^ 64"
    using kp(1,3) n by (simp_all add: kernel_half(2))
  have k: "level_index 21 KERNEL_VIRTUAL_ADDRESS_BASE + Suc n \<le> 512" using kp(3) n by (simp add: kernel_half(5))
  have np: "\<not> present ((\<lambda>_ _. 0) L4 (level_index 39 KERNEL_VIRTUAL_ADDRESS_BASE))" by simp
  show ?thesis
    using MapPages_fresh [OF assms(1) np table_attributes_kernel(1) kernel_half(1) lt z k e fits]
    by (simp add: kernel_half kernel_tree_def n split: list.splits)
qed

lemma SetupKVM_ok:
  assumes "free_pages s (r # a # b # ps)" "memory_ok s"
  shows "\<exists>s'. SetupKVM s = ret (r, s') \<and> space s' r (kernel_tree (kernel_pages s) a b) ps
     \<and> touches {r, a, b} s s'"
proof -
  note n = new_root [OF assms(1)]
  let ?s = "s\<lparr>s_free_memory_page_head := load64 (mem s) r, mem := memset (mem s) r 0 PAGE_SIZE\<rparr>"
  have ok: "memory_ok ?s" using assms(2) by (simp add: memory_ok_def)
  have kp: "kernel_pages ?s = kernel_pages s" by (simp add: kernel_pages_def)
  obtain s' where s': "MapPages r KERNEL_VIRTUAL_ADDRESS_BASE (s_free_memory_end_address s) 0 3 ?s = ret (True, s')"
      "touches {r, a, b} ?s s'" "space s' r (kernel_tree (kernel_pages s) a b) ps"
    using MapPages_kernel [OF n(3) ok] unfolding kp by auto
  have "SetupKVM s = ret (r, s')"
    using n(1,2) s'(1) by (simp add: SetupKVM_def kernel_half TABLE_ENTRY_PRESENT_ATTRIBUTE_def
        TABLE_ENTRY_WRITABLE_ATTRIBUTE_def)
  moreover have "touches {r, a, b} s s'"
    using touches_trans [OF touches_mono [OF n(4)] s'(2)] by simp
  ultimately show ?thesis using s'(3) by blast
qed

lemma page_offset:
  assumes "KERNEL_VIRTUAL_ADDRESS_BASE \<le> v" "unat v < 2 ^ 64 - 2 ^ 47 + n * 2 ^ 21" "n \<le> 512"
  shows "of_nat (level_index 21 v) * PAGE_SIZE + take_bit 21 v = VIR_TO_PHY v"
proof -
  let ?x = "VIR_TO_PHY v"
  have x: "unat ?x = unat v - (2 ^ 64 - 2 ^ 47)"
    using assms(1) by (simp add: VIR_TO_PHY_def unat_sub kernel_half(2))
  have le: "2 ^ 64 - 2 ^ 47 \<le> unat v" using assms(1) by (simp add: word_le_nat_alt kernel_half(2))
  then have v: "unat v = unat ?x + 2 ^ 21 * (512 * 17179738112)" using x by simp
  have lt: "unat ?x < 512 * 2 ^ 21" using x assms(2,3) by simp
  have d: "unat v div 2 ^ 21 = unat ?x div 2 ^ 21 + 512 * 17179738112"
    unfolding v by (subst div_mult_self2) simp_all
  have "unat ?x div 2 ^ 21 < 512" using lt by (simp add: div_less_iff_less_mult)
  then have l: "level_index 21 v = unat ?x div 2 ^ 21"
    unfolding level_index_def d mod_mult_self2 by simp
  have m: "unat (take_bit 21 v) = unat ?x mod 2 ^ 21"
    unfolding unsigned_take_bit_eq take_bit_nat_def v by (rule mod_mult_self2)
  have tb: "take_bit 21 v = of_nat (unat ?x mod 2 ^ 21)" unfolding m [symmetric] by simp
  have ps: "PAGE_SIZE = of_nat (2 ^ 21)" by (simp add: PAGE_SIZE_def)
  have "of_nat (level_index 21 v) * PAGE_SIZE + take_bit 21 v
      = (of_nat (unat ?x div 2 ^ 21 * 2 ^ 21 + unat ?x mod 2 ^ 21) :: u64)"
    unfolding l tb ps of_nat_add of_nat_mult by (rule refl)
  also have "\<dots> = ?x" unfolding div_mult_mod_eq by simp
  finally show ?thesis .
qed

lemma kernel_tree_facts:
  assumes "valid_page ke a" "valid_page ke b" "KERNEL_VIRTUAL_ADDRESS_BASE \<le> ke" "n \<le> 512"
  shows "tree_ok (kernel_tree n a b)"
    and "walk (kernel_tree n a b) v =
      (if KERNEL_VIRTUAL_ADDRESS_BASE \<le> v \<and> unat v < 2 ^ 64 - 2 ^ 47 + n * 2 ^ 21
       then Some (VIR_TO_PHY v, 2) else None)"
proof -
  have z: "aligned 21 0" "unat (0 :: u64) + n * 2 ^ 21 \<le> 2 ^ 47" using assms(4) by (simp_all add: aligned_def)
  note args = table_attributes_kernel(1) assms(1-3) z
  show "tree_ok (kernel_tree n a b)"
    unfolding kernel_tree_def by (rule tree_ok_mapped [OF tree_ok_zero args])
  have "walk (\<lambda>_ _. 0) v = None" by (simp add: walk_def Let_def)
  then show "walk (kernel_tree n a b) v =
      (if KERNEL_VIRTUAL_ADDRESS_BASE \<le> v \<and> unat v < 2 ^ 64 - 2 ^ 47 + n * 2 ^ 21
       then Some (VIR_TO_PHY v, 2) else None)"
    unfolding kernel_tree_def walk_mapped [OF args]
    using kernel_address_iff [OF assms(4), of v] page_offset [of v n] assms(4) by auto
qed

lemma kernel_tree_L4: "present (kernel_tree n a b L4 i) \<Longrightarrow> i = 256"
  by (auto simp: kernel_tree_def mapped_tree_entries split: if_splits)

section \<open>SetupUVM\<close>

lemma take_page:
  assumes sp: "space s r T (p # ps)"
  defines "s' \<equiv> s\<lparr>s_free_memory_page_head := load64 (mem s) p, mem := memset (mem s) p 0 PAGE_SIZE\<rparr>"
  shows "kalloc s = ret (p, s\<lparr>s_free_memory_page_head := load64 (mem s) p\<rparr>)" "p \<noteq> 0"
    "space s' r T ps" "touches {p} s s'" "x \<in> page_span p \<Longrightarrow> mem s' x = 0"
proof -
  note n = new_root [OF spaceD(2) [OF sp]]
  show "kalloc s = ret (p, s\<lparr>s_free_memory_page_head := load64 (mem s) p\<rparr>)" "p \<noteq> 0"
    by (rule n(1,2))+
  show t: "touches {p} s s'" unfolding s'_def by (rule n(4))
  have p: "valid_page (l_kernel_end s) p" "p \<notin> tables r T" using spaceD(3,8) [OF sp] by auto
  have "vm_tree (mem s') (l_kernel_end s') r T"
    by (rule vm_tree_touches [OF spaceD(1) [OF sp] t]) (use p in auto)
  moreover have "free_pages s' ps" unfolding s'_def using n(3) by (rule spaceD(2))
  ultimately show "space s' r T ps" using spaceD(3) [OF sp] by (auto simp: space_def)
  show "x \<in> page_span p \<Longrightarrow> mem s' x = 0"
    by (simp add: s'_def memset_page fill_apply page_span_def)
qed

text \<open>Changing only pages that are neither tables nor free.\<close>

lemma space_touches:
  assumes "space s r T ps" "touches U s s'" "s_free_memory_page_head s' = s_free_memory_page_head s"
    and "U \<inter> tables r T = {}" "U \<inter> set ps = {}" "\<forall>p\<in>U. valid_page (l_kernel_end s) p"
  shows "space s' r T ps"
  using assms vm_tree_touches [OF spaceD(1) [OF assms(1)] assms(2,4,6)]
    free_pages_touches [OF spaceD(2) [OF assms(1)] assms(2,3,5,6)]
  by (simp add: space_def)

definition user_tree :: "tree \<Rightarrow> u64 \<Rightarrow> u64 \<Rightarrow> u64 \<Rightarrow> tree" where
  "user_tree T p a b = mapped_tree T 0 0 2 1 a b (VIR_TO_PHY p) 7"

lemma user_base:
  "aligned 21 USER_VIRTUAL_ADDRESS_BASE" "level_index 39 USER_VIRTUAL_ADDRESS_BASE = 0"
  "level_index 30 USER_VIRTUAL_ADDRESS_BASE = 0" "level_index 21 USER_VIRTUAL_ADDRESS_BASE = 2"
  "USER_VIRTUAL_ADDRESS_BASE < USER_VIRTUAL_ADDRESS_BASE + PAGE_SIZE"
  "unat (PAGE_ALIGN_UP (USER_VIRTUAL_ADDRESS_BASE + PAGE_SIZE))
     = unat USER_VIRTUAL_ADDRESS_BASE + Suc 0 * 2 ^ 21"
  by (simp_all add: aligned_def level_index_def USER_VIRTUAL_ADDRESS_BASE_def PAGE_SIZE_def
      unat_PAGE_ALIGN_UP)

lemma user_attributes: "user_attributes = 7"
  by (simp add: user_attributes_def TABLE_ENTRY_PRESENT_ATTRIBUTE_def TABLE_ENTRY_WRITABLE_ATTRIBUTE_def
      TABLE_ENTRY_USER_ATTRIBUTE_def)

lemma MapPages_user:
  assumes sp: "space s r T ps" and np: "\<not> present (T L4 0)"
    and p: "valid_page (l_kernel_end s) p" "KERNEL_VIRTUAL_ADDRESS_BASE \<le> l_kernel_end s"
  shows "case ps of
      [] \<Rightarrow> MapPages r USER_VIRTUAL_ADDRESS_BASE (USER_VIRTUAL_ADDRESS_BASE + PAGE_SIZE)
              (VIR_TO_PHY p) user_attributes s = ret (False, s)
    | [a] \<Rightarrow> \<exists>s'. MapPages r USER_VIRTUAL_ADDRESS_BASE (USER_VIRTUAL_ADDRESS_BASE + PAGE_SIZE)
              (VIR_TO_PHY p) user_attributes s = ret (False, s') \<and> touches {r, a} s s'
          \<and> space s' r (add_table T L4 0 (table_entry a 7)) []
    | a # b # ps' \<Rightarrow> \<exists>s'. MapPages r USER_VIRTUAL_ADDRESS_BASE (USER_VIRTUAL_ADDRESS_BASE + PAGE_SIZE)
              (VIR_TO_PHY p) user_attributes s = ret (True, s') \<and> touches {r, a, b} s s'
          \<and> space s' r (user_tree T p a b) ps'"
proof -
  have kb: "KERNEL_VIRTUAL_ADDRESS_BASE \<le> p" and al: "aligned 21 p" using p by (auto simp: valid_page_def)
  let ?e = "PAGE_ALIGN_UP (USER_VIRTUAL_ADDRESS_BASE + PAGE_SIZE)"
  have e: "?e = USER_VIRTUAL_ADDRESS_BASE + PAGE_SIZE"
    using user_base(6) by (simp add: word_unat_eq_iff USER_VIRTUAL_ADDRESS_BASE_def PAGE_SIZE_def)
  have eq: "VIR_TO_PHY p + ?e - USER_VIRTUAL_ADDRESS_BASE = VIR_TO_PHY p + PAGE_SIZE" by (simp add: e)
  have u: "unat (VIR_TO_PHY p + PAGE_SIZE) = unat (VIR_TO_PHY p) + 2 ^ 21"
    using VIR_TO_PHY_small [OF kb] by (subst unat_plus_le) simp_all
  have fits: "VIR_TO_PHY p + ?e - USER_VIRTUAL_ADDRESS_BASE \<le> VIRTUAL_ADDRESS_END"
    unfolding eq word_le_nat_alt u unat_VIRTUAL_ADDRESS_END using VIR_TO_PHY_small [OF kb] by simp
  have np': "\<not> present (T L4 (level_index 39 USER_VIRTUAL_ADDRESS_BASE))" using np by (simp add: user_base)
  have n: "level_index 21 USER_VIRTUAL_ADDRESS_BASE + Suc 0 \<le> 512" "unat ?e + 2 ^ 22 < 2 ^ 64"
    by (simp_all add: user_base(4) user_base(6)) (simp add: USER_VIRTUAL_ADDRESS_BASE_def)
  show ?thesis
    using MapPages_fresh [OF sp np' table_attributes_kernel(2) user_base(1,5) aligned_VIR_TO_PHY [OF al]
        n(1) user_base(6) n(2) fits]
    by (simp add: user_base user_tree_def user_attributes split: list.splits)
qed

lemma user_address_iff:
  "canonical v \<and> level_index 39 v = 0 \<and> level_index 30 v = 0 \<and> level_index 21 v = 2
    \<longleftrightarrow> USER_VIRTUAL_ADDRESS_BASE \<le> v \<and> v < USER_VIRTUAL_ADDRESS_BASE + PAGE_SIZE"
proof -
  define A where "A = unat v div 2 ^ 21"
  define B where "B = A div 512"
  have w: "unat v = A * 2 ^ 21 + unat v mod 2 ^ 21" "unat v mod 2 ^ 21 < 2 ^ 21"
    by (simp_all only: A_def div_mult_mod_eq mod_less_divisor zero_less_power zero_less_numeral)
  have idx: "level_index 39 v = B div 512 mod 512" "level_index 30 v = B mod 512" "level_index 21 v = A mod 512"
    by (simp_all only: level_index_up level_index_def [of 21] A_def B_def)
  have A: "A < 2 ^ 43" using unat_lt2p [of v] unfolding A_def by (simp add: div_less_iff_less_mult)
  have can: "canonical v \<longleftrightarrow> A < 2 ^ 26 \<or> 2 ^ 43 - 2 ^ 26 \<le> A"
    using w by (simp add: canonical_def word_less_nat_alt word_le_nat_alt) linarith
  have range: "USER_VIRTUAL_ADDRESS_BASE \<le> v \<and> v < USER_VIRTUAL_ADDRESS_BASE + PAGE_SIZE \<longleftrightarrow> A = 2"
    using w by (simp add: USER_VIRTUAL_ADDRESS_BASE_def PAGE_SIZE_def word_le_nat_alt word_less_nat_alt) linarith
  have "(A < 2 ^ 26 \<or> 2 ^ 43 - 2 ^ 26 \<le> A) \<and> B div 512 mod 512 = 0 \<and> B mod 512 = 0 \<and> A mod 512 = 2
      \<longleftrightarrow> A = 2" (is "?l \<longleftrightarrow> ?r")
  proof
    assume l: ?l
    then obtain D where "B div 512 = 512 * D" by (metis mult_div_mod_eq add.right_neutral)
    then have A': "A = 134217728 * D + 2"
      using l mult_div_mod_eq [of 512 B] mult_div_mod_eq [of 512 A] B_def by simp
    have "D < 65536" using A A' by (intro ccontr [of "D < 65536"]) simp
    then have "A < 2 ^ 43 - 2 ^ 26" using A' by simp
    then have "A < 2 ^ 26" using l by simp
    then show ?r using A' by (cases D) simp_all
  qed (simp add: B_def)
  then show ?thesis unfolding can range idx .
qed

lemma user_tree_facts:
  assumes "valid_page ke a" "valid_page ke b" "KERNEL_VIRTUAL_ADDRESS_BASE \<le> ke" "valid_page ke p"
  shows "tree_ok T \<Longrightarrow> tree_ok (user_tree T p a b)"
    and "\<not> present (T L4 0) \<Longrightarrow> walk (user_tree T p a b) v =
      (if USER_VIRTUAL_ADDRESS_BASE \<le> v \<and> v < USER_VIRTUAL_ADDRESS_BASE + PAGE_SIZE
       then Some (VIR_TO_PHY p + (v - USER_VIRTUAL_ADDRESS_BASE), 6) else walk T v)"
proof -
  have p: "aligned 21 p" "KERNEL_VIRTUAL_ADDRESS_BASE \<le> p" using assms(3,4) by (auto simp: valid_page_def)
  obtain q where "unat (VIR_TO_PHY p) = 2 ^ 21 * q"
    using aligned_VIR_TO_PHY [OF p(1)] unfolding aligned_def dvd_eq_mod_eq_0 [symmetric] dvd_def by blast
  then have z: "unat (VIR_TO_PHY p) + 1 * 2 ^ 21 \<le> 2 ^ 47" using VIR_TO_PHY_small [OF p(2)] by simp
  note args = table_attributes_kernel(2) assms(1-3) aligned_VIR_TO_PHY [OF p(1)] z
  show "tree_ok T \<Longrightarrow> tree_ok (user_tree T p a b)"
    unfolding user_tree_def by (rule tree_ok_mapped [OF _ args])
  have off: "take_bit 21 v = v - USER_VIRTUAL_ADDRESS_BASE"
    if "USER_VIRTUAL_ADDRESS_BASE \<le> v" "v < USER_VIRTUAL_ADDRESS_BASE + PAGE_SIZE"
  proof -
    have r: "2 * 2 ^ 21 \<le> unat v" "unat v < 3 * 2 ^ 21"
      using that by (simp_all add: USER_VIRTUAL_ADDRESS_BASE_def PAGE_SIZE_def word_le_nat_alt word_less_nat_alt)
    then have "unat v mod 2 ^ 21 = unat v - 2 * 2 ^ 21" by (auto simp: mod_if)
    then have "unat (take_bit 21 v) = unat (v - USER_VIRTUAL_ADDRESS_BASE)"
      using that(1) by (simp add: unsigned_take_bit_eq take_bit_nat_def unat_sub) (simp add: USER_VIRTUAL_ADDRESS_BASE_def)
    then show ?thesis by (simp add: word_unat_eq_iff)
  qed
  assume np: "\<not> present (T L4 0)"
  show "walk (user_tree T p a b) v =
      (if USER_VIRTUAL_ADDRESS_BASE \<le> v \<and> v < USER_VIRTUAL_ADDRESS_BASE + PAGE_SIZE
       then Some (VIR_TO_PHY p + (v - USER_VIRTUAL_ADDRESS_BASE), 6) else walk T v)"
  proof (cases "level_index 39 v = 0")
    case True
    have "walk T v = None" using np True by (simp add: walk_def Let_def)
    moreover have "2 \<le> level_index 21 v \<and> level_index 21 v < 2 + 1 \<longleftrightarrow> level_index 21 v = 2" by auto
    ultimately show ?thesis
      unfolding user_tree_def walk_mapped [OF args]
      using user_address_iff [of v] True off by auto
  next
    case False
    then show ?thesis
      unfolding user_tree_def walk_mapped [OF args] using user_address_iff [of v] by auto
  qed
qed

lemma in_page: "i < 2 ^ 21 \<Longrightarrow> p + of_nat i \<in> page_span p"
  unfolding page_span_def by (rule add_in_span) simp_all

lemma scast_size:
  assumes "0 \<le> sint (sz :: u32)"
  shows "unat (scast sz :: u64) = nat (sint sz)"
proof -
  have "of_nat (nat (sint sz)) = (of_int (sint sz) :: u64)" using assms by (rule of_nat_nat)
  then have "(scast sz :: u64) = of_nat (nat (sint sz))" by (simp only: scast_eq)
  moreover have "nat (sint sz) < 2 ^ 31" using sint_lt [of sz] by simp
  ultimately show ?thesis using unat_of_nat_less [where 'w = 64, of "nat (sint sz)"] by simp
qed

text \<open>The user page after the program has been copied over zeros.\<close>

lemma copy_to_page:
  fixes sz :: u32
  assumes zero: "\<And>x. x \<in> page_span p \<Longrightarrow> m x = 0" and sz: "0 \<le> sint sz" "sint sz \<le> 2 ^ 21"
    and dis: "span start (nat (sint sz)) \<inter> page_span p = {}"
  shows "i < 2 ^ 21 \<Longrightarrow> memcpy m p start (scast sz) (p + of_nat i)
       = (if i < nat (sint sz) then m (start + of_nat i) else 0)"
    and "x \<notin> page_span p \<Longrightarrow> memcpy m p start (scast sz) x = m x"
proof -
  let ?n = "nat (sint sz)"
  note n = scast_size [OF sz(1)]
  have le: "?n \<le> 2 ^ 21" using sz by simp
  then have "span p ?n \<subseteq> page_span p" by (auto simp: page_span_def span_def)
  then have "span p ?n \<inter> span start ?n = {}" using dis by blast
  then have eq: "memcpy m p start (scast sz) = blit m p start ?n"
    using memcpy_eq_blit [of p "scast sz" start m] by (simp only: n)
  show "x \<notin> page_span p \<Longrightarrow> memcpy m p start (scast sz) x = m x"
    using le unfolding eq blit_apply page_span_def span_def by auto
  show "memcpy m p start (scast sz) (p + of_nat i) = (if i < ?n then m (start + of_nat i) else 0)"
    if i: "i < 2 ^ 21"
  proof -
    have u: "unat (of_nat i :: u64) = i" using i by (intro unat_of_nat_less) simp
    show ?thesis using zero [OF in_page [OF i]] by (simp add: eq blit_apply span_def u)
  qed
qed

lemma SetupUVM_ok:
  assumes sp: "space s r T (p # a # b # ps)" and np: "\<not> present (T L4 0)"
    and ke: "KERNEL_VIRTUAL_ADDRESS_BASE \<le> l_kernel_end s"
    and sz: "0 \<le> sint sz" "sint sz \<le> 2 ^ 21"
    and dis: "\<forall>q\<in>{r, p, a, b}. span start (nat (sint sz)) \<inter> page_span q = {}"
  shows "\<exists>s'. SetupUVM r start sz s = ret (True, s') \<and> space s' r (user_tree T p a b) ps
     \<and> touches {r, p, a, b} s s' \<and> p \<notin> tables r (user_tree T p a b)
     \<and> (\<forall>i<2 ^ 21. mem s' (p + of_nat i) = (if i < nat (sint sz) then mem s (start + of_nat i) else 0))"
proof -
  note t = take_page [OF sp]
  let ?s1 = "s\<lparr>s_free_memory_page_head := load64 (mem s) p, mem := memset (mem s) p 0 PAGE_SIZE\<rparr>"
  have v: "valid_page (l_kernel_end s) q" if "q \<in> {r, p, a, b}" for q
    using that spaceD(4) [OF sp, of L4 r] spaceD(8) [OF sp] by auto
  have d: "p \<noteq> r" "p \<noteq> a" "p \<noteq> b" "p \<notin> tables r T" "p \<notin> set ps"
    using spaceD(3,9) [OF sp] in_tables [of r T L4 r] by auto
  have vp: "valid_page (l_kernel_end ?s1) p" "KERNEL_VIRTUAL_ADDRESS_BASE \<le> l_kernel_end ?s1"
    using v ke by simp_all
  obtain s2 where s2: "MapPages r USER_VIRTUAL_ADDRESS_BASE (USER_VIRTUAL_ADDRESS_BASE + PAGE_SIZE)
       (VIR_TO_PHY p) user_attributes ?s1 = ret (True, s2)"
    "touches {r, a, b} ?s1 s2" "space s2 r (user_tree T p a b) ps"
    using MapPages_user [OF t(3) np vp] by auto
  let ?m = "memcpy (mem s2) p start (scast sz)" let ?s3 = "s2\<lparr>mem := ?m\<rparr>"
  have run: "SetupUVM r start sz s = ret (True, ?s3)"
    using t(1,2) s2(1) by (simp add: SetupUVM_def)
  have dj: "page_span p \<inter> page_span q = {}" if "q \<in> {r, a, b}" for q
    using that v d by (intro valid_pages_disjoint [of "l_kernel_end s"]) auto
  have zero: "mem s2 x = 0" if "x \<in> page_span p" for x
    using touches_mem [OF s2(2), of x] dj that t(5) [OF that] by auto
  have src: "mem s2 x = mem s x" if "x \<in> span start (nat (sint sz))" for x
  proof -
    have out: "x \<notin> page_span q" if "q \<in> {r, p, a, b}" for q
      using dis that \<open>x \<in> span start (nat (sint sz))\<close> by blast
    have "mem s2 x = mem ?s1 x" by (rule touches_mem [OF s2(2)]) (use out in blast)
    also have "\<dots> = mem s x" by (rule touches_mem [OF t(4)]) (use out in blast)
    finally show ?thesis .
  qed
  have disp: "span start (nat (sint sz)) \<inter> page_span p = {}" using dis by simp
  have c: "i < 2 ^ 21 \<Longrightarrow> ?m (p + of_nat i) = (if i < nat (sint sz) then mem s2 (start + of_nat i) else 0)"
    "x \<notin> page_span p \<Longrightarrow> ?m x = mem s2 x" for i x
    by (rule copy_to_page [OF _ sz disp]; simp add: zero)+
  have te: "touches {p} s2 ?s3" by (rule touches_mem_only) (use c(2) in auto)
  have le: "l_kernel_end s2 = l_kernel_end s" using touches_same(1) [OF s2(2)] by simp
  have al: "aligned 21 a" "aligned 21 b" using v by (auto simp: valid_page_def)
  have "table_page r (user_tree T p a b) t' = (if t' = L2 0 0 then Some b else if t' = L3 0 then Some a
      else table_page r T t')" for t'
    unfolding user_tree_def mapped_tree_def map_run_def table_page_leaf
    by (rule path_tree_pages [OF _ _ _ table_attributes_kernel(2) al]) (use np in simp_all)
  then have nt: "p \<notin> tables r (user_tree T p a b)"
    using d by (auto simp: tables_def split: if_splits)
  have "space ?s3 r (user_tree T p a b) ps"
    by (rule space_touches [OF s2(3) te]) (use v nt d le in simp_all)
  moreover have "touches {r, p, a, b} s ?s3"
    by (rule touches_trans [OF touches_mono [OF t(4)]
          touches_trans [OF touches_mono [OF s2(2)] touches_mono [OF te]]]) auto
  moreover have "mem ?s3 (p + of_nat i) = (if i < nat (sint sz) then mem s (start + of_nat i) else 0)"
    if "i < 2 ^ 21" for i
    using c(1) [OF that] src [of "start + of_nat i"] sz by simp
  ultimately show ?thesis using run nt by blast
qed

section \<open>FreeVM\<close>

lemma link_touches:
  "touches {u} s (s\<lparr>mem := store64 (mem s) u x, s_free_memory_page_head := h\<rparr>)"
  by (rule touchesI, rule store64_other) (use link_in_page [of u] in blast)

lemma space_kfree:
  assumes sp: "space s r T ps" and u: "valid_page (l_kernel_end s) u" "u \<notin> set ps" "u \<notin> tables r T"
  shows "\<exists>s'. kfree u s = ret s' \<and> space s' r T (u # ps) \<and> touches {u} s s'"
proof -
  let ?s = "s\<lparr>mem := store64 (mem s) u (s_free_memory_page_head s), s_free_memory_page_head := u\<rparr>"
  note k = kfree_ok [OF spaceD(2) [OF sp] u(1,2)]
  have t: "touches {u} s ?s" by (rule link_touches)
  have "vm_tree (mem ?s) (l_kernel_end ?s) r T"
    by (rule vm_tree_touches [OF spaceD(1) [OF sp] t]) (use u in auto)
  then have "space ?s r T (u # ps)" using k(2) spaceD(3) [OF sp] u(3) by (auto simp: space_def)
  then show ?thesis using k(1) t by blast
qed

definition clr :: "u64 \<Rightarrow> u64" where
  "clr x = (if present x then 0 else x)"

definition clear :: "tree \<Rightarrow> table \<Rightarrow> nat set \<Rightarrow> tree" where
  "clear T t K = T(t := \<lambda>l. if l \<in> K then clr (T t l) else T t l)"

lemma not_present_clr [simp]: "\<not> present (clr x)" "clr (clr x) = clr x"
  by (simp_all add: clr_def)

lemma clear_empty [simp]: "clear T t {} = T"
  by (simp add: clear_def)

lemma clear_insert: "clear (clear T t {k}) t K = clear T t (insert k K)"
  by (auto simp: clear_def fun_eq_iff)

text \<open>Clearing one entry unlinks the table below it; the tables below that are gone with it.\<close>

lemma table_page_clear_entry:
  assumes "t = L4 \<or> (\<exists>i. t = L3 i)" "k < 512"
    and "t = L4 \<longrightarrow> present (T L4 k) \<longrightarrow> (\<forall>j<512. \<not> present (T (L3 k) j))"
  shows "table_page r (clear T t {k}) t' = (if t' = child t k then None else table_page r T t')
     \<or> \<not> present (T t k) \<and> clear T t {k} = T"
proof (cases "present (T t k)")
  case False
  then show ?thesis by (auto simp: clear_def clr_def fun_eq_iff)
next
  case True
  show ?thesis
  proof (cases t)
    case L4
    then show ?thesis using assms True by (cases t') (auto simp: clear_def clr_def)
  next
    case (L3 i)
    then show ?thesis using assms True by (cases t') (auto simp: clear_def clr_def)
  next
    case (L2 i j)
    then show ?thesis using assms(1) by simp
  qed
qed

lemma child_page:
  "t = L4 \<or> (\<exists>i. t = L3 i) \<Longrightarrow> table_page r T t = Some p \<Longrightarrow> k < 512 \<Longrightarrow> present (T t k) \<Longrightarrow>
   table_page r T (child t k) = Some (table_of (T t k))"
  by (auto split: if_splits)

lemma free_entry_ok:
  assumes sp: "space s r T ps" and t: "t = L4 \<or> (\<exists>i. t = L3 i)" "table_page r T t = Some p" "k < 512"
    and leafless: "t = L4 \<longrightarrow> present (T L4 k) \<longrightarrow> (\<forall>j<512. \<not> present (T (L3 k) j))"
  shows "\<exists>s' ps'. free_entry p k s = ret s' \<and> space s' r (clear T t {k}) ps'
     \<and> set ps' \<union> tables r (clear T t {k}) = set ps \<union> tables r T \<and> touches (tables r T) s s'"
proof (cases "present (T t k)")
  case False
  then have "clear T t {k} = T" by (auto simp: clear_def clr_def fun_eq_iff)
  moreover have "free_entry p k s = ret s"
    using False spaceD(7) [OF sp t(2,3)] by (simp add: free_entry_def)
  ultimately show ?thesis using sp by auto
next
  case True
  let ?c = "table_of (T t k)" and ?T = "clear T t {k}" and ?e = "entry_at p (of_nat k)"
  have l: "load64 (mem s) ?e = T t k" by (rule spaceD(7) [OF sp t(2,3)])
  note c = child_page [OF t True]
  have cv: "valid_page (l_kernel_end s) ?c" "?c \<notin> set ps" using spaceD(4,6) [OF sp c] .
  let ?s1 = "s\<lparr>mem := store64 (mem s) ?c (s_free_memory_page_head s), s_free_memory_page_head := ?c\<rparr>"
  let ?s2 = "?s1\<lparr>mem := store64 (mem ?s1) ?e 0\<rparr>"
  note k1 = kfree_ok [OF spaceD(2) [OF sp] cv]
  have run: "free_entry p k s = ret ?s2" using True l k1(1) by (simp add: free_entry_def)
  have pages: "table_page r ?T t' = (if t' = child t k then None else table_page r T t')" for t'
    using table_page_clear_entry [OF t(1,3) leafless, of r t'] True by blast
  have T: "?T = T(t := (T t)(k := 0))" using True by (auto simp: clear_def clr_def fun_eq_iff)
  have tabs: "tables r ?T = tables r T - {?c}"
  proof (intro set_eqI iffI)
    fix q
    assume "q \<in> tables r ?T"
    then obtain t' where t': "t' \<noteq> child t k" "table_page r T t' = Some q"
      unfolding tables_def pages by (auto split: if_splits)
    then have "q \<noteq> ?c" using vm_treeD(3) [OF spaceD(1) [OF sp] c] by blast
    then show "q \<in> tables r T - {?c}" using in_tables [OF t'(2)] by simp
  next
    fix q
    assume "q \<in> tables r T - {?c}"
    then obtain t' where t': "table_page r T t' = Some q" "q \<noteq> ?c" by (auto simp: tables_def)
    then have "t' \<noteq> child t k" using c by auto
    then have "table_page r ?T t' = Some q" using t'(1) by (simp only: pages if_False)
    then show "q \<in> tables r ?T" by (rule in_tables)
  qed
  have "vm_tree (store64 (mem s) ?e 0) (l_kernel_end s) r ?T"
    unfolding T by (rule vm_tree_clear [OF spaceD(1) [OF sp] t(2,3)]) simp
  then have vm: "vm_tree (mem ?s2) (l_kernel_end s) r ?T"
  proof (rule vm_tree_frame)
    fix q x
    assume q: "q \<in> tables r ?T" "x \<in> page_span q"
    then have "valid_page (l_kernel_end s) q" "q \<noteq> ?c"
      using tabs table_valid [OF spaceD(1) [OF sp]] by auto
    then have "x \<notin> page_span ?c" using q(2) valid_pages_disjoint cv(1) by blast
    then show "mem ?s2 x = store64 (mem s) ?e 0 x"
      using link_in_page [of ?c] by (auto simp: store64_apply)
  qed
  have "child t k \<noteq> t" using t(1) by auto
  then have ne: "p \<noteq> ?c" using vm_treeD(3) [OF spaceD(1) [OF sp] c] t(2) by metis
  note pv = spaceD(4,6) [OF sp t(2)] ne
  have t2: "touches {p} ?s1 ?s2" by (rule store_entry_touches [OF t(3)])
  have "free_pages ?s2 (?c # ps)"
    by (rule free_pages_touches [OF k1(2) t2]) (use pv in auto)
  then have "space ?s2 r ?T (?c # ps)" using vm tabs spaceD(3) [OF sp] by (auto simp: space_def)
  moreover have "touches {p, ?c} s ?s2"
  proof (rule touches_trans)
    show "touches {p, ?c} s ?s1" by (rule touches_mono [OF link_touches]) simp
    show "touches {p, ?c} ?s1 ?s2" by (rule touches_mono [OF t2]) simp
  qed
  then have "touches (tables r T) s ?s2"
    by (rule touches_mono) (use in_tables [OF t(2)] in_tables [OF c] in auto)
  moreover have "set (?c # ps) \<union> tables r ?T = set ps \<union> tables r T"
    using tabs in_tables [OF c] by auto
  ultimately show ?thesis using run by blast
qed

lemma table_page_clear_self:
  "t = L4 \<or> (\<exists>i. t = L3 i) \<Longrightarrow> table_page r (clear T t K) t = table_page r T t"
  by (auto simp: clear_def)

lemma clear_children:
  "t = L4 \<longrightarrow> present (T L4 k) \<longrightarrow> (\<forall>j<512. \<not> present (T (L3 k) j)) \<Longrightarrow>
   t = L4 \<longrightarrow> present (clear T t K L4 k) \<longrightarrow> (\<forall>j<512. \<not> present (clear T t K (L3 k) j))"
  by (auto simp: clear_def split: if_splits)

lemma tables_clear: "tables r (clear T t K) \<subseteq> tables r T"
proof -
  have "table_page r (clear T t K) t' = Some q \<Longrightarrow> table_page r T t' = Some q" for t' q
    by (cases t') (auto simp: clear_def split: if_splits)
  then show ?thesis by (auto simp: tables_def)
qed

lemma free_entries_ok:
  fixes s :: "'z kmem_scheme"
  assumes "space s r T ps" "t = L4 \<or> (\<exists>i. t = L3 i)" "table_page r T t = Some p"
    and "\<forall>k\<in>set ks. k < 512"
    and "\<forall>k. t = L4 \<longrightarrow> present (T L4 k) \<longrightarrow> (\<forall>j<512. \<not> present (T (L3 k) j))"
  shows "\<exists>s' ps'. for_each (free_entry p) ks s = ret s' \<and> space s' r (clear T t (set ks)) ps'
     \<and> set ps' \<union> tables r (clear T t (set ks)) = set ps \<union> tables r T \<and> touches (tables r T) s s'"
  using assms
proof (induction ks arbitrary: s T ps)
  case Nil
  then show ?case by auto
next
  case (Cons k ks)
  let ?T = "clear T t {k}"
  have k: "k < 512" using Cons.prems(4) by simp
  obtain s1 ps1 where s1: "free_entry p k s = ret s1" "space s1 r ?T ps1"
      "set ps1 \<union> tables r ?T = set ps \<union> tables r T" "touches (tables r T) s s1"
    using free_entry_ok [OF Cons.prems(1-3) k] Cons.prems(5) by blast
  have "\<exists>s' ps'. for_each (free_entry p) ks s1 = ret s' \<and> space s' r (clear ?T t (set ks)) ps'
     \<and> set ps' \<union> tables r (clear ?T t (set ks)) = set ps1 \<union> tables r ?T \<and> touches (tables r ?T) s1 s'"
  proof (rule Cons.IH [OF s1(2) Cons.prems(2)])
    show "table_page r ?T t = Some p" using Cons.prems(2,3) by (simp only: table_page_clear_self)
    show "\<forall>k\<in>set ks. k < 512" using Cons.prems(4) by simp
    show "\<forall>k. t = L4 \<longrightarrow> present (?T L4 k) \<longrightarrow> (\<forall>j<512. \<not> present (?T (L3 k) j))"
      using Cons.prems(5) clear_children by blast
  qed
  then obtain s' ps' where s': "for_each (free_entry p) ks s1 = ret s'"
      "space s' r (clear ?T t (set ks)) ps'"
      "set ps' \<union> tables r (clear ?T t (set ks)) = set ps1 \<union> tables r ?T" "touches (tables r ?T) s1 s'"
    by blast
  have "touches (tables r T) s s'"
    using touches_trans [OF s1(4) touches_mono [OF s'(4) tables_clear]] .
  then show ?case using s1(1,3) s' by (simp add: clear_insert) blast
qed

lemma FreePDTable_loop_ok:
  fixes s :: "'z kmem_scheme"
  assumes "space s r T ps" "\<forall>i\<in>set is. i < 512"
  shows "\<exists>s' ps' T'. for_each (\<lambda>i s.
       let entry = load64 (mem s) (entry_at r (of_nat i))
       in if present entry then for_each (free_entry (table_of entry)) [0..<512] s else ret s) is s = ret s'
     \<and> space s' r T' ps' \<and> set ps' \<union> tables r T' = set ps \<union> tables r T \<and> tables r T' \<subseteq> tables r T
     \<and> touches (tables r T) s s' \<and> T' L4 = T L4
     \<and> (\<forall>i j. \<not> present (T (L3 i) j) \<longrightarrow> \<not> present (T' (L3 i) j))
     \<and> (\<forall>i\<in>set is. present (T L4 i) \<longrightarrow> (\<forall>j<512. \<not> present (T' (L3 i) j)))"
  using assms
proof (induction "is" arbitrary: s T ps)
  case Nil
  then show ?case by auto
next
  case (Cons i "is")
  let ?body = "\<lambda>i (s :: 'z kmem_scheme).
       let entry = load64 (mem s) (entry_at r (of_nat i))
       in if present entry then for_each (free_entry (table_of entry)) [0..<512] s else ret s"
  have i: "i < 512" using Cons.prems(2) by simp
  have l: "load64 (mem s) (entry_at r (of_nat i)) = T L4 i"
    by (rule spaceD(7) [OF Cons.prems(1) _ i]) simp
  obtain s1 ps1 T1 where s1: "?body i s = ret s1" "space s1 r T1 ps1"
    "set ps1 \<union> tables r T1 = set ps \<union> tables r T" "tables r T1 \<subseteq> tables r T" "touches (tables r T) s s1"
    "T1 L4 = T L4" "\<forall>i j. \<not> present (T (L3 i) j) \<longrightarrow> \<not> present (T1 (L3 i) j)"
    "present (T L4 i) \<longrightarrow> (\<forall>j<512. \<not> present (T1 (L3 i) j))"
  proof (cases "present (T L4 i)")
    case False
    then show ?thesis using that [of s T ps] Cons.prems(1) l by simp
  next
    case True
    have t3: "table_page r T (L3 i) = Some (table_of (T L4 i))" using True i by simp
    obtain s1 ps1 where "for_each (free_entry (table_of (T L4 i))) [0..<512] s = ret s1"
      "space s1 r (clear T (L3 i) (set [0..<512])) ps1"
      "set ps1 \<union> tables r (clear T (L3 i) (set [0..<512])) = set ps \<union> tables r T"
      "touches (tables r T) s s1"
      using free_entries_ok [OF Cons.prems(1) _ t3, of "[0..<512]"] by auto
    moreover have "clear T (L3 i) K L4 = T L4" "\<not> present (T (L3 i') j) \<Longrightarrow> \<not> present (clear T (L3 i) K (L3 i') j)"
      "j \<in> K \<Longrightarrow> \<not> present (clear T (L3 i) K (L3 i) j)" for K i' j
      by (auto simp: clear_def)
    ultimately show ?thesis
      using True l tables_clear by (intro that [of s1 "clear T (L3 i) (set [0..<512])" ps1]) simp_all
  qed
  have "\<exists>s' ps' T'. for_each ?body is s1 = ret s'
     \<and> space s' r T' ps' \<and> set ps' \<union> tables r T' = set ps1 \<union> tables r T1 \<and> tables r T' \<subseteq> tables r T1
     \<and> touches (tables r T1) s1 s' \<and> T' L4 = T1 L4
     \<and> (\<forall>i j. \<not> present (T1 (L3 i) j) \<longrightarrow> \<not> present (T' (L3 i) j))
     \<and> (\<forall>i\<in>set is. present (T1 L4 i) \<longrightarrow> (\<forall>j<512. \<not> present (T' (L3 i) j)))"
    by (rule Cons.IH [OF s1(2)]) (use Cons.prems(2) in simp)
  then obtain s' ps' T' where s': "for_each ?body is s1 = ret s'" "space s' r T' ps'"
    "set ps' \<union> tables r T' = set ps1 \<union> tables r T1" "tables r T' \<subseteq> tables r T1"
    "touches (tables r T1) s1 s'" "T' L4 = T1 L4"
    "\<forall>i j. \<not> present (T1 (L3 i) j) \<longrightarrow> \<not> present (T' (L3 i) j)"
    "\<forall>i\<in>set is. present (T1 L4 i) \<longrightarrow> (\<forall>j<512. \<not> present (T' (L3 i) j))"
    by blast
  have "for_each ?body (i # is) s = ret s'" using s1(1) s'(1) by simp
  moreover have "touches (tables r T) s s'"
    by (rule touches_trans [OF s1(5) touches_mono [OF s'(5) s1(4)]])
  moreover have "\<forall>k\<in>set (i # is). present (T L4 k) \<longrightarrow> (\<forall>j<512. \<not> present (T' (L3 k) j))"
    using s'(6-8) s1(6-8) by auto
  ultimately show ?case
    using s'(2) s1(3,4,6,7) s'(3,4,6,7) by (intro exI [of _ s'] exI [of _ ps'] exI [of _ T']) auto
qed

lemma FreePDPTable_ok:
  assumes sp: "space s r T ps" and e: "\<forall>k. present (T L4 k) \<longrightarrow> (\<forall>j<512. \<not> present (T (L3 k) j))"
  shows "\<exists>s' ps' T'. FreePDPTable r s = ret s' \<and> space s' r T' ps' \<and> tables r T' = {r}
     \<and> set ps' \<union> {r} = set ps \<union> tables r T \<and> touches (tables r T) s s'"
proof -
  let ?T = "clear T L4 {0..<512}"
  have "table_page r ?T t = (if t = L4 then Some r else None)" for t
    by (cases t) (auto simp: clear_def)
  then have "tables r ?T = {r}" by (auto simp: tables_def)
  moreover obtain s' ps' where "for_each (free_entry r) [0..<512] s = ret s'"
    "space s' r ?T ps'" "set ps' \<union> tables r ?T = set ps \<union> tables r T" "touches (tables r T) s s'"
    using free_entries_ok [OF sp, of L4 r "[0..<512]"] e by auto
  ultimately show ?thesis unfolding FreePDPTable_def by auto
qed

text \<open>The page a map holds for its user program.\<close>

definition user_pages :: "u64 \<Rightarrow> tree \<Rightarrow> u64 set" where
  "user_pages r T =
     (if table_page r T (L2 0 0) \<noteq> None \<and> present (T (L2 0 0) 2)
      then {PHY_TO_VIR (PAGE_ADDRESS (T (L2 0 0) 2))} else {})"

lemma FreePages_user:
  assumes sp: "space s r T ps"
    and u: "\<forall>u\<in>user_pages r T. valid_page (l_kernel_end s) u \<and> u \<notin> set ps \<and> u \<notin> tables r T"
  shows "\<exists>s' ps' T'. FreePages r USER_VIRTUAL_ADDRESS_BASE (USER_VIRTUAL_ADDRESS_BASE + PAGE_SIZE) s = ret s'
     \<and> space s' r T' ps' \<and> set ps' = set ps \<union> user_pages r T \<and> tables r T' = tables r T
     \<and> touches (tables r T \<union> user_pages r T) s s'"
proof -
  have al: "ADDR_IS_ALIGNED USER_VIRTUAL_ADDRESS_BASE"
    "ADDR_IS_ALIGNED (USER_VIRTUAL_ADDRESS_BASE + PAGE_SIZE)"
    by (simp_all add: ADDR_IS_ALIGNED_iff aligned_def USER_VIRTUAL_ADDRESS_BASE_def PAGE_SIZE_def)
  have stop: "\<not> USER_VIRTUAL_ADDRESS_BASE + PAGE_SIZE + PAGE_SIZE \<le> USER_VIRTUAL_ADDRESS_BASE + PAGE_SIZE"
    by (simp add: USER_VIRTUAL_ADDRESS_BASE_def PAGE_SIZE_def)
  note ix = index_of_nat user_base(2-4)
  note loop = FreePages_def FreePages_loop.simps [of r USER_VIRTUAL_ADDRESS_BASE]
  show ?thesis
  proof (cases "table_page r T (L2 0 0)")
    case None
    have "FindPageDirPointerTableEntry r USER_VIRTUAL_ADDRESS_BASE 0 0 s = ret (0, s)"
      by (rule find_none [OF sp]) (simp_all only: user_base None)
    then have "FreePages r USER_VIRTUAL_ADDRESS_BASE (USER_VIRTUAL_ADDRESS_BASE + PAGE_SIZE) s = ret s"
      using al stop by (simp add: loop)
    moreover have "user_pages r T = {}" unfolding user_pages_def None by simp
    ultimately show ?thesis using sp by auto
  next
    case (Some pd)
    have find: "FindPageDirPointerTableEntry r USER_VIRTUAL_ADDRESS_BASE 0 0 s = ret (pd, s)"
      by (rule find_existing [OF sp]) (simp_all only: user_base Some)
    have e: "load64 (mem s) (entry_at pd 2) = T (L2 0 0) 2"
      using spaceD(7) [OF sp Some, of 2] by simp
    note pd = spaceD(4-6) [OF sp Some]
    show ?thesis
    proof (cases "present (T (L2 0 0) 2)")
      case False
      then have "FreePages r USER_VIRTUAL_ADDRESS_BASE (USER_VIRTUAL_ADDRESS_BASE + PAGE_SIZE) s = ret s"
        using al stop find e by (simp add: loop ix)
      moreover have "user_pages r T = {}" using False by (simp add: user_pages_def)
      ultimately show ?thesis using sp by auto
    next
      case True
      let ?u = "PHY_TO_VIR (PAGE_ADDRESS (T (L2 0 0) 2))"
      have up: "user_pages r T = {?u}" using True Some by (simp add: user_pages_def)
      then have v: "valid_page (l_kernel_end s) ?u" "?u \<notin> set ps" "?u \<notin> tables r T" using u by auto
      obtain s1 where s1: "kfree ?u s = ret s1" "space s1 r T (?u # ps)" "touches {?u} s s1"
        using space_kfree [OF sp v] by blast
      let ?s2 = "s1\<lparr>mem := store64 (mem s1) (entry_at pd 2) 0\<rparr>"
      have "FreePages r USER_VIRTUAL_ADDRESS_BASE (USER_VIRTUAL_ADDRESS_BASE + PAGE_SIZE) s = ret ?s2"
        using al stop find e True pd(2) s1(1) by (simp add: loop ix)
      moreover have "space ?s2 r (T(L2 0 0 := (T (L2 0 0))(2 := 0))) (?u # ps)"
        using space_store [OF s1(2) Some, of 2 0] by simp
      moreover have "tables r (T(L2 0 0 := (T (L2 0 0))(2 := 0))) = tables r T"
        by (simp add: tables_def)
      moreover have "touches {pd} s1 ?s2" using store_entry_touches [of 2 pd s1 0] by simp
      then have "touches (tables r T \<union> user_pages r T) s ?s2"
        using in_tables [OF Some]
        by (intro touches_trans [OF touches_mono [OF s1(3)] touches_mono]) (auto simp: up)
      ultimately show ?thesis using up by (intro exI conjI) (assumption | simp)+
    qed
  qed
qed

text \<open>
  \<open>FreeVM\<close> gives everything back: every table of the map and the user's page are free afterwards,
  each once, and the pages that were free still are.
\<close>

lemma FreeVM_ok:
  assumes sp: "space s r T ps"
    and u: "\<forall>u\<in>user_pages r T. valid_page (l_kernel_end s) u \<and> u \<notin> set ps \<and> u \<notin> tables r T"
  shows "\<exists>s' ps'. FreeVM r s = ret s' \<and> free_pages s' ps'
     \<and> set ps' = set ps \<union> tables r T \<union> user_pages r T
     \<and> touches (tables r T \<union> user_pages r T) s s'"
proof -
  let ?U = "tables r T \<union> user_pages r T"
  obtain s1 ps1 T1 where s1:
    "FreePages r USER_VIRTUAL_ADDRESS_BASE (USER_VIRTUAL_ADDRESS_BASE + PAGE_SIZE) s = ret s1"
    "space s1 r T1 ps1" "set ps1 = set ps \<union> user_pages r T" "tables r T1 = tables r T" "touches ?U s s1"
    using FreePages_user [OF sp u] by blast
  obtain s2 ps2 T2 where s2: "FreePDTable r s1 = ret s2" "space s2 r T2 ps2"
    "set ps2 \<union> tables r T2 = set ps1 \<union> tables r T1" "tables r T2 \<subseteq> tables r T1"
    "touches (tables r T1) s1 s2" "T2 L4 = T1 L4"
    "\<forall>i\<in>set [0..<512]. present (T1 L4 i) \<longrightarrow> (\<forall>j<512. \<not> present (T2 (L3 i) j))"
    using FreePDTable_loop_ok [OF s1(2), of "[0..<512]"] unfolding FreePDTable_def by auto
  have t2: "touches ?U s1 s2" by (rule touches_mono [OF s2(5)]) (use s1(4) in auto)
  have dom: "\<exists>T2'. space s2 r T2' ps2 \<and> tables r T2' = tables r T2
      \<and> (\<forall>k. present (T2' L4 k) \<longrightarrow> (\<forall>j<512. \<not> present (T2' (L3 k) j)))"
  proof -
    let ?T = "T2(L4 := \<lambda>k. if k < 512 then T2 L4 k else 0)"
    have pg: "table_page r ?T t = table_page r T2 t" for t by (cases t) auto
    have "vm_tree (mem s2) (l_kernel_end s2) r ?T"
      using spaceD(1) [OF s2(2)] unfolding vm_tree_def pg by auto
    then have "space s2 r ?T ps2" using s2(2) by (simp add: space_def tables_def pg)
    moreover have "tables r ?T = tables r T2" by (simp add: tables_def pg)
    ultimately show ?thesis using s2(6,7) by (intro exI [of _ ?T]) auto
  qed
  then obtain T2' where T2': "space s2 r T2' ps2" "tables r T2' = tables r T2"
    "\<forall>k. present (T2' L4 k) \<longrightarrow> (\<forall>j<512. \<not> present (T2' (L3 k) j))" by blast
  obtain s3 ps3 T3 where s3: "FreePDPTable r s2 = ret s3" "space s3 r T3 ps3" "tables r T3 = {r}"
    "set ps3 \<union> {r} = set ps2 \<union> tables r T2" "touches (tables r T2) s2 s3"
    using FreePDPTable_ok [OF T2'(1,3)] unfolding T2'(2) by blast
  have t3: "touches ?U s2 s3" by (rule touches_mono [OF s3(5)]) (use s2(4) s1(4) in auto)
  have r: "valid_page (l_kernel_end s3) r" "r \<notin> set ps3"
    using spaceD(4,6) [OF s3(2), of L4 r] by auto
  let ?s4 = "s3\<lparr>mem := store64 (mem s3) r (s_free_memory_page_head s3), s_free_memory_page_head := r\<rparr>"
  note k = kfree_ok [OF spaceD(2) [OF s3(2)] r]
  have "FreeVM r s = ret ?s4" using s1(1) s2(1) s3(1) k(1) by (simp add: FreeVM_def FreePML4Table_def)
  moreover have "set (r # ps3) = set ps \<union> tables r T \<union> user_pages r T"
    using s1(3,4) s2(3) s3(4) by auto
  moreover have "touches ?U s3 ?s4"
    by (rule touches_mono [OF link_touches]) (use in_tables [of r T L4 r] in simp)
  then have "touches ?U s ?s4"
    by (rule touches_trans [OF touches_trans [OF touches_trans [OF s1(5) t2] t3]])
  ultimately show ?thesis using k(2) by blast
qed

section \<open>CopyUVM\<close>

lemma mapped_tree_pages:
  assumes "\<not> present (T L4 i)" "i < 512" "j < 512" "table_attributes attr" "aligned 21 a" "aligned 21 b"
  shows "table_page r (mapped_tree T i j k n a b phys attr) t
       = (if t = L2 i j then Some b else if t = L3 i then Some a else table_page r T t)"
  unfolding mapped_tree_def map_run_def table_page_leaf by (rule path_tree_pages [where T = T and i = i, OF assms])

lemma mapped_tree_tables:
  assumes "\<not> present (T L4 i)" "i < 512" "j < 512" "table_attributes attr" "aligned 21 a" "aligned 21 b"
  shows "tables r (mapped_tree T i j k n a b phys attr) = tables r T \<union> {a, b}"
proof -
  have "table_page r T (L3 i) = None" "((table_page r T)(L3 i \<mapsto> a)) (L2 i j) = None" using assms(1) by simp_all
  then have "ran ((table_page r T)(L3 i \<mapsto> a, L2 i j \<mapsto> b)) = ran (table_page r T) \<union> {a, b}"
    by (simp add: ran_map_upd insert_commute)
  moreover have "table_page r (mapped_tree T i j k n a b phys attr) = (table_page r T)(L3 i \<mapsto> a, L2 i j \<mapsto> b)"
    by (rule ext) (simp only: mapped_tree_pages [where T = T and i = i, OF assms] fun_upd_apply)
  ultimately show ?thesis by (simp add: tables_def ran_def)
qed

lemma user_tree_tables:
  assumes "\<not> present (T L4 0)" "valid_page ke a" "valid_page ke b" "valid_page ke p"
    and "KERNEL_VIRTUAL_ADDRESS_BASE \<le> ke"
  shows "tables r (user_tree T p a b) = tables r T \<union> {a, b}"
    "table_page r (user_tree T p a b) (L2 0 0) = Some b"
    "user_pages r (user_tree T p a b) = {p}"
proof -
  have al: "aligned 21 a" "aligned 21 b" "aligned 21 p" "KERNEL_VIRTUAL_ADDRESS_BASE \<le> p"
    using assms by (auto simp: valid_page_def)
  have z: "(0 :: nat) < 512" by simp
  note args = assms(1) z z table_attributes_kernel(2) al(1,2)
  show "tables r (user_tree T p a b) = tables r T \<union> {a, b}"
    unfolding user_tree_def by (rule mapped_tree_tables [where T = T and i = 0, OF args])
  show b: "table_page r (user_tree T p a b) (L2 0 0) = Some b"
    unfolding user_tree_def by (simp add: mapped_tree_pages [where T = T and i = 0, OF args] del: table_page.simps)
  note leaf = leaf_entry_ok [OF table_attributes_kernel(2) aligned_VIR_TO_PHY [OF al(3)] VIR_TO_PHY_small [OF al(4)]]
  have "user_tree T p a b (L2 0 0) 2 = leaf_entry (VIR_TO_PHY p) 7"
    by (simp add: user_tree_def mapped_tree_entries)
  then show "user_pages r (user_tree T p a b) = {p}"
    unfolding user_pages_def b using leaf(3,4) by simp
qed

lemma CopyUVM_ok:
  assumes sp: "space s r T (p # a # b # ps)" and np: "\<not> present (T L4 0)"
    and ke: "KERNEL_VIRTUAL_ADDRESS_BASE \<le> l_kernel_end s"
    and cur: "space s c C (p # a # b # ps)" "tables c C \<inter> tables r T = {}"
    and u: "user_pages c C = {u}" "valid_page (l_kernel_end s) u" "u \<notin> tables r T" "u \<notin> {p, a, b}"
    and sz: "0 \<le> sint sz" "sint sz \<le> 2 ^ 21"
  shows "\<exists>s'. CopyUVM r c sz s = ret (True, s') \<and> space s' r (user_tree T p a b) ps
     \<and> touches {r, p, a, b} s s' \<and> p \<notin> tables r (user_tree T p a b)
     \<and> (\<forall>i<2 ^ 21. mem s' (p + of_nat i) = (if i < nat (sint sz) then mem s (u + of_nat i) else 0))"
proof -
  note t = take_page [OF sp]
  let ?s1 = "s\<lparr>s_free_memory_page_head := load64 (mem s) p, mem := memset (mem s) p 0 PAGE_SIZE\<rparr>"
  have rt: "r \<in> tables r T" using in_tables [of r T L4 r] by simp
  have v: "valid_page (l_kernel_end s) q" if "q \<in> {r, p, a, b}" for q
    using that spaceD(4) [OF sp, of L4 r] spaceD(8) [OF sp] by auto
  have d: "p \<noteq> r" "p \<noteq> a" "p \<noteq> b" "p \<notin> tables r T" "p \<notin> set ps"
    using spaceD(3,9) [OF sp] rt by auto
  have vp: "valid_page (l_kernel_end ?s1) p" "KERNEL_VIRTUAL_ADDRESS_BASE \<le> l_kernel_end ?s1"
    using v ke by simp_all
  obtain s2 where s2: "MapPages r USER_VIRTUAL_ADDRESS_BASE (USER_VIRTUAL_ADDRESS_BASE + PAGE_SIZE)
       (VIR_TO_PHY p) user_attributes ?s1 = ret (True, s2)"
    "touches {r, a, b} ?s1 s2" "space s2 r (user_tree T p a b) ps"
    using MapPages_user [OF t(3) np vp] by auto
  have t2: "touches {r, p, a, b} s s2"
    by (rule touches_trans [OF touches_mono [OF t(4)] touches_mono [OF s2(2)]]) auto
  have le: "l_kernel_end s2 = l_kernel_end s" using touches_same(1) [OF t2] .
  \<comment> \<open>the current map is still in place\<close>
  have dc: "{r, p, a, b} \<inter> tables c C = {}" using cur rt spaceD(3) [OF cur(1)] by auto
  have "vm_tree (mem s2) (l_kernel_end s2) c C"
    by (rule vm_tree_touches [OF spaceD(1) [OF cur(1)] t2 dc]) (use v in blast)
  then have c2: "space s2 c C ps" using spaceD(2) [OF s2(3)] spaceD(3) [OF cur(1)] by (auto simp: space_def)
  obtain pd where pd: "table_page c C (L2 0 0) = Some pd" "present (C (L2 0 0) 2)"
      "u = PHY_TO_VIR (PAGE_ADDRESS (C (L2 0 0) 2))"
    using u(1) unfolding user_pages_def by (auto split: if_splits)
  have find: "FindPageDirPointerTableEntry c USER_VIRTUAL_ADDRESS_BASE 0 0 s2 = ret (pd, s2)"
    by (rule find_existing [OF c2]) (simp_all only: user_base pd)
  have e: "load64 (mem s2) (entry_at pd 2) = C (L2 0 0) 2" using spaceD(7) [OF c2 pd(1), of 2] by simp
  let ?m = "memcpy (mem s2) p u (scast sz)" let ?s3 = "s2\<lparr>mem := ?m\<rparr>"
  have run: "CopyUVM r c sz s = ret (True, ?s3)"
    using t(1,2) s2(1) find e pd spaceD(5) [OF c2 pd(1)]
    by (simp add: CopyUVM_def index_of_nat user_base Let_def)
  have dj: "page_span q \<inter> page_span q' = {}"
    if "q \<in> {r, p, a, b, u}" "q' \<in> {r, p, a, b, u}" "q \<noteq> q'" for q q'
    using that v u(2) by (intro valid_pages_disjoint [of "l_kernel_end s"]) auto
  have zero: "mem s2 x = 0" if "x \<in> page_span p" for x
    using touches_mem [OF s2(2), of x] dj [of p] d that t(5) [OF that] by auto
  have sub: "span u (nat (sint sz)) \<subseteq> page_span u" using sz(2) by (auto simp: page_span_def span_def)
  have disp: "span u (nat (sint sz)) \<inter> page_span p = {}" using sub dj [of u p] u(4) by auto
  have c: "i < 2 ^ 21 \<Longrightarrow> ?m (p + of_nat i) = (if i < nat (sint sz) then mem s2 (u + of_nat i) else 0)"
    "x \<notin> page_span p \<Longrightarrow> ?m x = mem s2 x" for i x
    by (rule copy_to_page [OF _ sz disp]; simp add: zero)+
  have te: "touches {p} s2 ?s3" by (rule touches_mem_only) (use c(2) in auto)
  have nt: "p \<notin> tables r (user_tree T p a b)"
    using user_tree_tables(1) [where T = T, OF np v v v ke, of a b p] d by simp
  have "space ?s3 r (user_tree T p a b) ps"
    by (rule space_touches [OF s2(3) te]) (use v nt d le in simp_all)
  moreover have "touches {r, p, a, b} s ?s3"
    by (rule touches_trans [OF t2 touches_mono [OF te]]) auto
  moreover have "mem s2 (u + of_nat i) = mem s (u + of_nat i)" if "i < 2 ^ 21" for i
    by (rule touches_mem [OF t2]) (use dj [of u] u(3,4) rt in_page [OF that, of u] in blast)
  then have "mem ?s3 (p + of_nat i) = (if i < nat (sint sz) then mem s (u + of_nat i) else 0)"
    if "i < 2 ^ 21" for i using c(1) [OF that] that by simp
  ultimately show ?thesis using run nt by blast
qed

end
