(* ===== verification/Virtual_Memory.thy ===== *)
theory Virtual_Memory
  imports Address_Space
begin

text \<open>
  The properties of the virtual memory of \<open>kernel/memory.c\<close>, stated on whole operations: which
  addresses the processor translates after \<open>SetupKVM\<close>, \<open>SetupUVM\<close> and \<open>CopyUVM\<close>, what the user's page
  holds, and that \<open>FreeVM\<close> gives every page back.
\<close>

section \<open>Whole address spaces\<close>

lemma kernel_tree_tables:
  assumes "valid_page ke a" "valid_page ke b"
  shows "tables r (kernel_tree n a b) = {r, a, b}"
proof -
  have al: "aligned 21 a" "aligned 21 b" using assms by (simp_all add: valid_page_def)
  have "table_page r (\<lambda>_ _. 0) t = (if t = L4 then Some r else None)" for t by (cases t) auto
  then have "tables r (\<lambda>_ _. 0) = {r}" by (auto simp: tables_def)
  moreover have "tables r (kernel_tree n a b) = tables r (\<lambda>_ _. 0) \<union> {a, b}"
    unfolding kernel_tree_def
    by (rule mapped_tree_tables [where T = "\<lambda>_ _. 0" and i = 256])
      (simp_all add: table_attributes_kernel al)
  ultimately show ?thesis by auto
qed

lemma kernel_range_iff:
  assumes "memory_ok s"
  shows "unat v < 2 ^ 64 - 2 ^ 47 + kernel_pages s * 2 ^ 21
    \<longleftrightarrow> v < PAGE_ALIGN_UP (s_free_memory_end_address s)"
  using kernel_pages(1) [OF assms] by (simp add: word_less_nat_alt)

lemma user_base_not_kernel:
  "USER_VIRTUAL_ADDRESS_BASE \<le> v \<Longrightarrow> v < USER_VIRTUAL_ADDRESS_BASE + PAGE_SIZE \<Longrightarrow>
   \<not> KERNEL_VIRTUAL_ADDRESS_BASE \<le> v"
  by (simp add: USER_VIRTUAL_ADDRESS_BASE_def KERNEL_VIRTUAL_ADDRESS_BASE_def PAGE_SIZE_def
      word_le_nat_alt word_less_nat_alt)

lemma SetupKVM_space:
  assumes f: "free_pages s (r # a # b # ps)" and ok: "memory_ok s"
  obtains s' where "SetupKVM s = ret (r, s')" "space s' r (kernel_tree (kernel_pages s) a b) ps"
    "touches {r, a, b} s s'" "tree_ok (kernel_tree (kernel_pages s) a b)"
    "\<not> present (kernel_tree (kernel_pages s) a b L4 0)"
    "tables r (kernel_tree (kernel_pages s) a b) = {r, a, b}"
    "\<And>v. walk (kernel_tree (kernel_pages s) a b) v =
       (if KERNEL_VIRTUAL_ADDRESS_BASE \<le> v \<and> v < PAGE_ALIGN_UP (s_free_memory_end_address s)
        then Some (VIR_TO_PHY v, 2) else None)"
proof -
  obtain s' where s': "SetupKVM s = ret (r, s')" "space s' r (kernel_tree (kernel_pages s) a b) ps"
    "touches {r, a, b} s s'"
    using SetupKVM_ok [OF f ok] by blast
  have ke: "KERNEL_VIRTUAL_ADDRESS_BASE \<le> l_kernel_end s" using ok by (simp add: memory_ok_def)
  have v: "valid_page (l_kernel_end s) a" "valid_page (l_kernel_end s) b"
    using f by (simp_all add: free_pages_def)
  note k = kernel_tree_facts [OF v ke kernel_pages(3) [OF ok]]
  show ?thesis
  proof (rule that [OF s' k(1)])
    show "\<not> present (kernel_tree (kernel_pages s) a b L4 0)" using kernel_tree_L4 by fastforce
    show "tables r (kernel_tree (kernel_pages s) a b) = {r, a, b}" by (rule kernel_tree_tables [OF v])
  qed (simp only: k(2) kernel_range_iff [OF ok])
qed

section \<open>A concrete machine\<close>

text \<open>\<open>n\<close> free pages from 4 MB on, above a kernel that ends at 2 MB.\<close>

definition empty_kernel :: "nat \<Rightarrow> kmem" where
  "empty_kernel n = \<lparr>mem = \<lambda>_. 0, scr_column = 0, scr_row = 0,
     s_free_memory_page_head = 0, s_free_memory_regions = [],
     s_free_memory_end_address = 0xFFFF800000400000 + of_nat n * PAGE_SIZE, s_total_mem = 0,
     l_kernel_end = 0xFFFF800000200000, cr3 = 0\<rparr>"

definition kernel_page :: "nat \<Rightarrow> u64" where
  "kernel_page i = 0xFFFF800000400000 + of_nat i * PAGE_SIZE"

definition free_kernel :: "nat \<Rightarrow> kmem" where
  "free_kernel n =
     (case for_each kfree (map kernel_page [0..<n]) (empty_kernel n) of
        Some (Inr s) \<Rightarrow> s | _ \<Rightarrow> empty_kernel n)"

lemma for_each_kfree_same:
  "for_each kfree ps s = ret s' \<Longrightarrow>
   l_kernel_end s' = l_kernel_end s \<and> s_free_memory_end_address s' = s_free_memory_end_address s"
proof (induction ps arbitrary: s)
  case Nil
  then show ?case by simp
next
  case (Cons p ps)
  then obtain s1 where s1: "kfree p s = ret s1" "for_each kfree ps s1 = ret s'" by auto
  have "l_kernel_end s1 = l_kernel_end s \<and> s_free_memory_end_address s1 = s_free_memory_end_address s"
    using s1(1) by (auto simp: kfree_def)
  then show ?case using Cons.IH [OF s1(2)] by simp
qed

lemma free_kernel:
  assumes "0 < n" "n \<le> 500"
  shows "free_pages (free_kernel n) (rev (map kernel_page [0..<n]))" "memory_ok (free_kernel n)"
    "l_kernel_end (free_kernel n) = 0xFFFF800000200000"
    "s_free_memory_end_address (free_kernel n) = kernel_page n"
proof -
  have e: "free_pages (empty_kernel n) []" by (simp add: free_pages_def empty_kernel_def)
  have rp: "map kernel_page [0..<n] = region_pages 0xFFFF800000400000 n"
    by (simp add: kernel_page_def region_pages_def)
  have al: "aligned 21 0xFFFF800000400000" by (simp add: aligned_def)
  have b: "unat (0xFFFF800000400000 :: u64) + n * 2 ^ 21 < 2 ^ 64" using assms(2) by simp
  note r = in_region_pages [OF al b]
  have d: "distinct (map kernel_page [0..<n] @ [])" unfolding rp using r(2) by simp
  have v: "\<forall>p\<in>set (map kernel_page [0..<n]). page_ok (empty_kernel n) p"
  proof
    fix p
    assume "p \<in> set (map kernel_page [0..<n])"
    then have p: "aligned 21 p" "0xFFFF800000400000 \<le> p"
      "unat p + 2 ^ 21 \<le> unat (0xFFFF800000400000 :: u64) + n * 2 ^ 21"
      unfolding rp r(1) by simp_all
    have "valid_page 0xFFFF800000200000 p"
    proof (rule valid_page_in_region [OF p(1) _ p(2)])
      show "unat p + 2 ^ 21 \<le> unat VIRTUAL_ADDRESS_END"
        using p(3) assms(2) by (simp add: unat_VIRTUAL_ADDRESS_END)
    qed simp_all
    then show "page_ok (empty_kernel n) p" by (simp add: page_ok_def empty_kernel_def)
  qed
  obtain s where s: "for_each kfree (map kernel_page [0..<n]) (empty_kernel n) = ret s"
    "free_pages s (rev (map kernel_page [0..<n]) @ [])"
    using pages.free_all_law [OF e d v] by blast
  have same: "l_kernel_end s = 0xFFFF800000200000" "s_free_memory_end_address s = kernel_page n"
    using for_each_kfree_same [OF s(1)] by (simp_all add: empty_kernel_def kernel_page_def)
  have fk: "free_kernel n = s" using s(1) by (simp add: free_kernel_def)
  show "free_pages (free_kernel n) (rev (map kernel_page [0..<n]))" using s(2) fk by simp
  show "l_kernel_end (free_kernel n) = 0xFFFF800000200000"
    "s_free_memory_end_address (free_kernel n) = kernel_page n" using same fk by simp_all
  have "unat (of_nat n * PAGE_SIZE :: u64) = n * 2 ^ 21"
    using assms(2) by (simp add: PAGE_SIZE_def unat_word_ariths unat_of_nat)
  then have "unat (kernel_page n) = 2 ^ 64 - 2 ^ 47 + 2 ^ 22 + n * 2 ^ 21"
    unfolding kernel_page_def using assms(2) by (subst unat_plus_le) simp_all
  then show "memory_ok (free_kernel n)"
    using assms unfolding memory_ok_def fk same
    by (simp add: word_le_nat_alt word_less_nat_alt unat_VIRTUAL_ADDRESS_END) (simp add: KERNEL_VIRTUAL_ADDRESS_BASE_def)
qed

section \<open>Properties\<close>

text \<open>
  With three free pages \<open>SetupKVM\<close> succeeds: it takes those pages for its tables, and in
  the new map the processor translates exactly the addresses from the kernel's base to the end of
  the free memory, to the physical memory from 0 on, writable and for the kernel only.
\<close>

theorem SetupKVM_maps_physical_memory:
  assumes "free_pages s (r # a # b # ps)" "memory_ok s"
  shows "\<exists>s'. SetupKVM s = ret (r, s') \<and> free_pages s' ps
     \<and> (\<forall>v. mmu (mem s') r v =
          (if KERNEL_VIRTUAL_ADDRESS_BASE \<le> v \<and> v < PAGE_ALIGN_UP (s_free_memory_end_address s)
           then Some (VIR_TO_PHY v, 2) else None))"
proof -
  obtain s' where s': "SetupKVM s = ret (r, s')" "space s' r (kernel_tree (kernel_pages s) a b) ps"
    "tree_ok (kernel_tree (kernel_pages s) a b)"
    "\<And>v. walk (kernel_tree (kernel_pages s) a b) v =
       (if KERNEL_VIRTUAL_ADDRESS_BASE \<le> v \<and> v < PAGE_ALIGN_UP (s_free_memory_end_address s)
        then Some (VIR_TO_PHY v, 2) else None)"
    using SetupKVM_space [OF assms] by metis
  show ?thesis
    using s'(1) spaceD(2) [OF s'(2)] mmu_walk [OF spaceD(1) [OF s'(2)] s'(3)] s'(4) by auto
qed

theorem SetupKVM_maps_physical_memory_witness:
  "\<exists>s'. SetupKVM (free_kernel 3) = ret (kernel_page 2, s') \<and> free_pages s' []
     \<and> mmu (mem s') (kernel_page 2) 0xFFFF800000200123 = Some (0x200123, 2)
     \<and> mmu (mem s') (kernel_page 2) 0x400000 = None"
proof -
  have f: "free_pages (free_kernel 3) [kernel_page 2, kernel_page 1, kernel_page 0]"
    using free_kernel(1) [of 3] by (simp add: upt_rec numeral_eq_Suc)
  have e: "PAGE_ALIGN_UP (s_free_memory_end_address (free_kernel 3)) = 0xFFFF800000A00000"
    by (simp add: free_kernel(4) kernel_page_def PAGE_SIZE_def PAGE_ALIGN_UP_def)
  show ?thesis
    using SetupKVM_maps_physical_memory [OF f free_kernel(2)] unfolding e
    by (auto simp: KERNEL_VIRTUAL_ADDRESS_BASE_def VIR_TO_PHY_def)
qed

lemma MapPages_kernel_fails:
  assumes sp: "space s r (\<lambda>_ _. 0) ps" and ok: "memory_ok s" and l: "length ps < 2"
  obtains s' T where
    "MapPages r KERNEL_VIRTUAL_ADDRESS_BASE (s_free_memory_end_address s) 0 3 s = ret (False, s')"
    "space s' r T []" "tables r T = insert r (set ps)" "user_pages r T = {}"
    "touches (insert r (set ps)) s s'"
proof -
  have page: "table_page r (\<lambda>_ _. 0) t = (if t = L4 then Some r else None)" for t by (cases t) auto
  show ?thesis
  proof (cases ps)
    case Nil
    then have "MapPages r KERNEL_VIRTUAL_ADDRESS_BASE (s_free_memory_end_address s) 0 3 s = ret (False, s)"
      using MapPages_kernel [OF sp ok] by simp
    moreover have "tables r (\<lambda>_ _. 0) = {r}" using page by (auto simp: tables_def)
    ultimately show ?thesis using that [of s "\<lambda>_ _. 0"] sp Nil by (simp add: user_pages_def)
  next
    case (Cons a qs)
    then have ps: "ps = [a]" using l by simp
    let ?T = "add_table (\<lambda>_ _. 0) L4 256 (table_entry a 3)"
    have al: "aligned 21 a" using spaceD(8) [OF sp, of a] ps by (simp add: valid_page_def)
    note te = table_entry_ok [OF table_attributes_kernel(1) al]
    have pages: "table_page r ?T t = (if t = L3 256 then Some a else if t = L4 then Some r else None)" for t
      using table_page_add [of L4 r "\<lambda>_ _. 0" r 256 "table_entry a 3" t] te by (simp add: page)
    obtain s' where
      "MapPages r KERNEL_VIRTUAL_ADDRESS_BASE (s_free_memory_end_address s) 0 3 s = ret (False, s')"
      "space s' r ?T []" "touches (insert r (set ps)) s s'"
      using MapPages_kernel [OF sp ok] ps by auto
    moreover have "tables r ?T = insert r (set ps)"
      unfolding tables_def pages ps by (auto split: if_splits intro: exI [of _ L4] exI [of _ "L3 256"])
    moreover have "user_pages r ?T = {}" unfolding user_pages_def pages by simp
    ultimately show ?thesis using that by blast
  qed
qed

lemma SetupKVM_fails:
  assumes "free_pages s ps" "length ps < 3" "memory_ok s"
  shows "\<exists>s' qs. SetupKVM s = ret (0, s') \<and> free_pages s' qs \<and> set qs = set ps \<and> touches (set ps) s s'"
proof (cases ps)
  case Nil
  then have "SetupKVM s = ret (0, s)" using kalloc_Nil [of s] assms(1) by (simp add: SetupKVM_def)
  then show ?thesis using assms(1) by (intro exI [of _ s] exI [of _ ps]) simp
next
  case (Cons r qs)
  note n = new_root [OF assms(1) [unfolded Cons]]
  let ?s = "s\<lparr>s_free_memory_page_head := load64 (mem s) r, mem := memset (mem s) r 0 PAGE_SIZE\<rparr>"
  have ok: "memory_ok ?s" using assms(3) by (simp add: memory_ok_def)
  have l: "length qs < 2" using assms(2) Cons by simp
  obtain s2 T where s2:
    "MapPages r KERNEL_VIRTUAL_ADDRESS_BASE (s_free_memory_end_address ?s) 0 3 ?s = ret (False, s2)"
    "space s2 r T []" "tables r T = insert r (set qs)" "user_pages r T = {}" "touches (set ps) ?s s2"
    using MapPages_kernel_fails [OF n(3) ok l] Cons by (metis list.simps(15))
  obtain s3 ps3 where s3: "FreeVM r s2 = ret s3" "free_pages s3 ps3" "set ps3 = insert r (set qs)" "touches (set ps) s2 s3"
    using FreeVM_ok [OF s2(2)] s2(3,4) Cons by auto
  have "SetupKVM s = ret (0, s3)"
    using n(1,2) s2(1) s3(1) by (simp add: SetupKVM_def kernel_half TABLE_ENTRY_PRESENT_ATTRIBUTE_def
        TABLE_ENTRY_WRITABLE_ATTRIBUTE_def)
  moreover have "touches (set ps) s s3"
    using touches_trans [OF touches_trans [OF touches_mono [OF n(4)] s2(5)] s3(4)] Cons by simp
  ultimately show ?thesis using s3 Cons by auto
qed

text \<open>
  When fewer than three pages are free, \<open>SetupKVM\<close> returns 0 and all the pages are free
  again: the partly built map is taken down.
\<close>

theorem SetupKVM_out_of_memory:
  assumes "free_pages s ps" "length ps < 3" "memory_ok s"
  shows "\<exists>s' qs. SetupKVM s = ret (0, s') \<and> free_pages s' qs \<and> set qs = set ps"
  using SetupKVM_fails [OF assms] by blast

theorem SetupKVM_out_of_memory_witness:
  "\<exists>s' qs. SetupKVM (free_kernel 2) = ret (0, s') \<and> free_pages s' qs \<and> set qs = {kernel_page 0, kernel_page 1}"
proof -
  have f: "free_pages (free_kernel 2) [kernel_page 1, kernel_page 0]"
    using free_kernel(1) [of 2] by (simp add: upt_rec numeral_eq_Suc)
  show ?thesis
    using SetupKVM_out_of_memory [OF f _ free_kernel(2)] by (auto simp: insert_commute)
qed

text \<open>A process map from six free pages: three for the kernel half, three for the user half.\<close>

lemma process_map:
  assumes f: "free_pages s (r # a # b # p # c # d # ps)" and ok: "memory_ok s"
    and sz: "0 \<le> sint sz" "sint sz \<le> 2 ^ 21"
    and dis: "\<forall>q\<in>{r, a, b, p, c, d}. span start (nat (sint sz)) \<inter> page_span q = {}"
  obtains s1 s2 T where "SetupKVM s = ret (r, s1)" "SetupUVM r start sz s1 = ret (True, s2)"
    "space s2 r T ps" "tree_ok T" "tables r T = {r, a, b, c, d}" "user_pages r T = {p}"
    "valid_page (l_kernel_end s2) p" "p \<notin> tables r T" "p \<notin> set ps" "memory_ok s2"
    "\<And>v. mmu (mem s2) r v =
       (if USER_VIRTUAL_ADDRESS_BASE \<le> v \<and> v < USER_VIRTUAL_ADDRESS_BASE + PAGE_SIZE
        then Some (VIR_TO_PHY p + (v - USER_VIRTUAL_ADDRESS_BASE), 6)
        else if KERNEL_VIRTUAL_ADDRESS_BASE \<le> v \<and> v < PAGE_ALIGN_UP (s_free_memory_end_address s)
        then Some (VIR_TO_PHY v, 2) else None)"
    "\<And>i. i < 2 ^ 21 \<Longrightarrow>
       mem s2 (p + of_nat i) = (if i < nat (sint sz) then mem s (start + of_nat i) else 0)"
    "touches {r, a, b, p, c, d} s s2"
proof -
  obtain s1 where s1: "SetupKVM s = ret (r, s1)"
    "space s1 r (kernel_tree (kernel_pages s) a b) (p # c # d # ps)" "touches {r, a, b} s s1"
    "tree_ok (kernel_tree (kernel_pages s) a b)" "\<not> present (kernel_tree (kernel_pages s) a b L4 0)"
    "tables r (kernel_tree (kernel_pages s) a b) = {r, a, b}"
    "\<And>v. walk (kernel_tree (kernel_pages s) a b) v =
       (if KERNEL_VIRTUAL_ADDRESS_BASE \<le> v \<and> v < PAGE_ALIGN_UP (s_free_memory_end_address s)
        then Some (VIR_TO_PHY v, 2) else None)"
    using SetupKVM_space [OF f ok] by metis
  let ?K = "kernel_tree (kernel_pages s) a b" let ?T = "user_tree ?K p c d"
  have le: "l_kernel_end s1 = l_kernel_end s" using touches_same(1) [OF s1(3)] .
  have ke: "KERNEL_VIRTUAL_ADDRESS_BASE \<le> l_kernel_end s1" using ok le by (simp add: memory_ok_def)
  have v: "valid_page (l_kernel_end s1) c" "valid_page (l_kernel_end s1) d" "valid_page (l_kernel_end s1) p"
    using f le by (simp_all add: free_pages_def)
  have dis1: "\<forall>q\<in>{r, p, c, d}. span start (nat (sint sz)) \<inter> page_span q = {}" using dis by simp
  obtain s2 where s2: "SetupUVM r start sz s1 = ret (True, s2)" "space s2 r ?T ps"
    "touches {r, p, c, d} s1 s2" "p \<notin> tables r ?T"
    "\<forall>i<2 ^ 21. mem s2 (p + of_nat i) = (if i < nat (sint sz) then mem s1 (start + of_nat i) else 0)"
    using SetupUVM_ok [OF s1(2,5) ke sz dis1] by blast
  note ut = user_tree_tables [where T = ?K, OF s1(5) v ke]
  note uf = user_tree_facts [where T = ?K, OF v(1,2) ke v(3)]
  have src: "mem s1 (start + of_nat i) = mem s (start + of_nat i)" if "i < nat (sint sz)" for i
  proof (rule touches_mem [OF s1(3)])
    fix q
    assume "q \<in> {r, a, b}"
    moreover have "start + of_nat i \<in> span start (nat (sint sz))" using that sz by (intro add_in_span) simp_all
    ultimately show "start + of_nat i \<notin> page_span q" using dis by blast
  qed
  have tr: "touches {r, a, b, p, c, d} s s2"
    by (rule touches_trans [OF touches_mono [OF s1(3)] touches_mono [OF s2(3)]]) auto
  show ?thesis
  proof (rule that [OF s1(1) s2(1,2) uf(1) [OF s1(4)]])
    show "tables r ?T = {r, a, b, c, d}" using ut(1) s1(6) by auto
    show "user_pages r ?T = {p}" by (rule ut(3))
    show "valid_page (l_kernel_end s2) p" using v(3) touches_same(1) [OF s2(3)] by simp
    show "p \<notin> tables r ?T" by (rule s2(4))
    show "p \<notin> set ps" using f by (auto simp: free_pages_def)
    show "memory_ok s2" using ok touches_same [OF tr] by (simp add: memory_ok_def)
    show "touches {r, a, b, p, c, d} s s2" by (rule tr)
  next
    fix v
    show "mmu (mem s2) r v =
       (if USER_VIRTUAL_ADDRESS_BASE \<le> v \<and> v < USER_VIRTUAL_ADDRESS_BASE + PAGE_SIZE
        then Some (VIR_TO_PHY p + (v - USER_VIRTUAL_ADDRESS_BASE), 6)
        else if KERNEL_VIRTUAL_ADDRESS_BASE \<le> v \<and> v < PAGE_ALIGN_UP (s_free_memory_end_address s)
        then Some (VIR_TO_PHY v, 2) else None)"
      unfolding mmu_walk [OF spaceD(1) [OF s2(2)] uf(1) [OF s1(4)]] uf(2) [OF s1(5)] s1(7) ..
  next
    fix i :: nat
    assume "i < 2 ^ 21"
    then show "mem s2 (p + of_nat i) = (if i < nat (sint sz) then mem s (start + of_nat i) else 0)"
      using s2(5) src by simp
  qed
qed

text \<open>
  Property C35. A process is isolated and loaded: after \<open>SetupKVM\<close> and \<open>SetupUVM\<close> its map translates
  the 2 MB from the user base to one page of its own, for the user and writable; it translates the
  kernel's memory for the kernel only, and nothing else. The page holds the program image followed
  by zeros.
\<close>

theorem process_address_space:
  assumes "free_pages s (r # a # b # p # c # d # ps)" "memory_ok s" "0 \<le> sint sz" "sint sz \<le> 2 ^ 21"
    and "\<forall>q\<in>{r, a, b, p, c, d}. span start (nat (sint sz)) \<inter> page_span q = {}"
  shows "\<exists>s1 s2. SetupKVM s = ret (r, s1) \<and> SetupUVM r start sz s1 = ret (True, s2) \<and> free_pages s2 ps
     \<and> (\<forall>v. mmu (mem s2) r v =
         (if USER_VIRTUAL_ADDRESS_BASE \<le> v \<and> v < USER_VIRTUAL_ADDRESS_BASE + PAGE_SIZE
          then Some (VIR_TO_PHY p + (v - USER_VIRTUAL_ADDRESS_BASE), 6)
          else if KERNEL_VIRTUAL_ADDRESS_BASE \<le> v \<and> v < PAGE_ALIGN_UP (s_free_memory_end_address s)
          then Some (VIR_TO_PHY v, 2) else None))
     \<and> (\<forall>i<2 ^ 21. mem s2 (p + of_nat i) = (if i < nat (sint sz) then mem s (start + of_nat i) else 0))"
proof (rule process_map [OF assms])
  fix s1 s2 T
  assume run: "SetupKVM s = ret (r, s1)" "SetupUVM r start sz s1 = ret (True, s2)"
    and "space s2 r T ps"
    and res: "\<And>v. mmu (mem s2) r v =
         (if USER_VIRTUAL_ADDRESS_BASE \<le> v \<and> v < USER_VIRTUAL_ADDRESS_BASE + PAGE_SIZE
          then Some (VIR_TO_PHY p + (v - USER_VIRTUAL_ADDRESS_BASE), 6)
          else if KERNEL_VIRTUAL_ADDRESS_BASE \<le> v \<and> v < PAGE_ALIGN_UP (s_free_memory_end_address s)
          then Some (VIR_TO_PHY v, 2) else None)"
      "\<And>i. i < 2 ^ 21 \<Longrightarrow> mem s2 (p + of_nat i) = (if i < nat (sint sz) then mem s (start + of_nat i) else 0)"
  then have "free_pages s2 ps" by (blast dest: spaceD(2))
  with run res show ?thesis by blast
qed

lemma below_kernel_disjoint:
  assumes "valid_page 0xFFFF800000200000 q"
  shows "span 0xFFFF800000010000 16 \<inter> page_span q = {}"
proof -
  have "span 0xFFFF800000010000 16 \<subseteq> page_span 0xFFFF800000000000"
    using span_subset [of "0x10000" 16 "2 ^ 21" "0xFFFF800000000000"] by (simp add: page_span_def)
  moreover have "page_span 0xFFFF800000000000 \<inter> page_span q = {}"
    using assms by (intro page_spans_disjoint) (auto simp: valid_page_def aligned_def)
  ultimately show ?thesis by blast
qed

lemma six_pages:
  "free_pages (free_kernel 6) [kernel_page 5, kernel_page 4, kernel_page 3, kernel_page 2,
     kernel_page 1, kernel_page 0]"
  using free_kernel(1) [of 6] by (simp add: upt_rec numeral_eq_Suc)

lemma six_pages_disjoint:
  "\<forall>q\<in>{kernel_page 5, kernel_page 4, kernel_page 3, kernel_page 2, kernel_page 1, kernel_page 0}.
     span 0xFFFF800000010000 (nat (sint (16 :: u32))) \<inter> page_span q = {}"
  using six_pages below_kernel_disjoint by (simp add: free_pages_def free_kernel(3))

theorem process_address_space_witness:
  "\<exists>s1 s2. SetupKVM (free_kernel 6) = ret (kernel_page 5, s1)
     \<and> SetupUVM (kernel_page 5) 0xFFFF800000010000 16 s1 = ret (True, s2) \<and> free_pages s2 []
     \<and> mmu (mem s2) (kernel_page 5) 0x400010 = Some (0x800010, 6)
     \<and> mmu (mem s2) (kernel_page 5) 0x600000 = None"
proof -
  have k: "VIR_TO_PHY (kernel_page 2) = 0x800000"
    by (simp add: kernel_page_def VIR_TO_PHY_def KERNEL_VIRTUAL_ADDRESS_BASE_def PAGE_SIZE_def)
  note mem_ok = free_kernel(2) [of 6, simplified]
  obtain s1 s2 where s12: "SetupKVM (free_kernel 6) = ret (kernel_page 5, s1)"
    "SetupUVM (kernel_page 5) 0xFFFF800000010000 16 s1 = ret (True, s2)" "free_pages s2 []"
    "\<forall>v. mmu (mem s2) (kernel_page 5) v =
         (if USER_VIRTUAL_ADDRESS_BASE \<le> v \<and> v < USER_VIRTUAL_ADDRESS_BASE + PAGE_SIZE
          then Some (VIR_TO_PHY (kernel_page 2) + (v - USER_VIRTUAL_ADDRESS_BASE), 6)
          else if KERNEL_VIRTUAL_ADDRESS_BASE \<le> v
            \<and> v < PAGE_ALIGN_UP (s_free_memory_end_address (free_kernel 6))
          then Some (VIR_TO_PHY v, 2) else None)"
    using process_address_space [OF six_pages mem_ok _ _ six_pages_disjoint] by auto
  have "mmu (mem s2) (kernel_page 5) 0x400010 = Some (0x800010, 6)"
    "mmu (mem s2) (kernel_page 5) 0x600000 = None"
    unfolding s12(4) [rule_format] k
    by (simp_all add: USER_VIRTUAL_ADDRESS_BASE_def PAGE_SIZE_def KERNEL_VIRTUAL_ADDRESS_BASE_def)
  with s12 show ?thesis by blast
qed

text \<open>
  No page is lost or freed twice over the life of a process's memory: \<open>FreeVM\<close> of the map
  that \<open>SetupKVM\<close> and \<open>SetupUVM\<close> built returns, and the free list then holds the six pages of the
  map and the pages that were free, each once.
\<close>

theorem process_memory_given_back:
  assumes "free_pages s (r # a # b # p # c # d # ps)" "memory_ok s" "0 \<le> sint sz" "sint sz \<le> 2 ^ 21"
    and "\<forall>q\<in>{r, a, b, p, c, d}. span start (nat (sint sz)) \<inter> page_span q = {}"
  shows "\<exists>s1 s2 s3 qs. SetupKVM s = ret (r, s1) \<and> SetupUVM r start sz s1 = ret (True, s2)
     \<and> FreeVM r s2 = ret s3 \<and> free_pages s3 qs \<and> set qs = set (r # a # b # p # c # d # ps)"
proof (rule process_map [OF assms])
  fix s1 s2 T
  assume run: "SetupKVM s = ret (r, s1)" "SetupUVM r start sz s1 = ret (True, s2)"
    and sp: "space s2 r T ps" "tables r T = {r, a, b, c, d}" "user_pages r T = {p}"
      "valid_page (l_kernel_end s2) p" "p \<notin> tables r T" "p \<notin> set ps"
  obtain s3 qs where "FreeVM r s2 = ret s3" "free_pages s3 qs"
    "set qs = set ps \<union> tables r T \<union> user_pages r T"
    using FreeVM_ok [OF sp(1)] sp(3-6) by auto
  moreover have "set ps \<union> tables r T \<union> user_pages r T = set (r # a # b # p # c # d # ps)"
    unfolding sp(2,3) by auto
  ultimately show ?thesis using run by metis
qed

theorem process_memory_given_back_witness:
  "\<exists>s1 s2 s3 qs. SetupKVM (free_kernel 6) = ret (kernel_page 5, s1)
     \<and> SetupUVM (kernel_page 5) 0xFFFF800000010000 16 s1 = ret (True, s2)
     \<and> FreeVM (kernel_page 5) s2 = ret s3 \<and> free_pages s3 qs
     \<and> set qs = set [kernel_page 5, kernel_page 4, kernel_page 3, kernel_page 2, kernel_page 1, kernel_page 0]"
  by (rule process_memory_given_back [OF six_pages free_kernel(2) _ _ six_pages_disjoint]) simp_all

text \<open>
  What \<open>Fork\<close> does to memory: \<open>CopyUVM\<close> gives the new map \<open>r\<close>, which has only its kernel
  half so far, a page of its own at the user base, filled with the first \<open>sz\<close> bytes of the page the
  current map \<open>c\<close> has there and zeros after them; every other translation of the new map, the whole
  current map and the current process's page stay as they were.
\<close>

theorem CopyUVM_copies_user_page:
  assumes "space s r T (p # a # b # ps)" "tree_ok T" "\<not> present (T L4 0)"
    and "KERNEL_VIRTUAL_ADDRESS_BASE \<le> l_kernel_end s"
    and "space s c C (p # a # b # ps)" "tree_ok C" "tables c C \<inter> tables r T = {}"
    and "user_pages c C = {u}" "valid_page (l_kernel_end s) u" "u \<notin> tables r T" "u \<notin> {p, a, b}"
    and "0 \<le> sint sz" "sint sz \<le> 2 ^ 21"
  shows "\<exists>s'. CopyUVM r c sz s = ret (True, s') \<and> free_pages s' ps
     \<and> (\<forall>v. mmu (mem s') r v =
         (if USER_VIRTUAL_ADDRESS_BASE \<le> v \<and> v < USER_VIRTUAL_ADDRESS_BASE + PAGE_SIZE
          then Some (VIR_TO_PHY p + (v - USER_VIRTUAL_ADDRESS_BASE), 6) else mmu (mem s) r v))
     \<and> (\<forall>v. mmu (mem s') c v = mmu (mem s) c v)
     \<and> (\<forall>i<2 ^ 21. mem s' (p + of_nat i) = (if i < nat (sint sz) then mem s (u + of_nat i) else 0)
          \<and> mem s' (u + of_nat i) = mem s (u + of_nat i))"
proof -
  obtain s' where s': "CopyUVM r c sz s = ret (True, s')" "space s' r (user_tree T p a b) ps"
    "touches {r, p, a, b} s s'"
    "\<forall>i<2 ^ 21. mem s' (p + of_nat i) = (if i < nat (sint sz) then mem s (u + of_nat i) else 0)"
    using CopyUVM_ok [OF assms(1,3,4,5,7-13)] by blast
  have v: "valid_page (l_kernel_end s) q" if "q \<in> {r, p, a, b}" for q
    using that spaceD(4) [OF assms(1), of L4 r] spaceD(8) [OF assms(1)] by auto
  have rt: "r \<in> tables r T" using in_tables [of r T L4 r] by simp
  have dc: "{r, p, a, b} \<inter> tables c C = {}" using assms(7) rt spaceD(3) [OF assms(5)] by auto
  have "vm_tree (mem s') (l_kernel_end s') c C"
    by (rule vm_tree_touches [OF spaceD(1) [OF assms(5)] s'(3) dc]) (use v in blast)
  then have "mmu (mem s') c v = mmu (mem s) c v" for v
    using mmu_walk [OF _ assms(6)] spaceD(1) [OF assms(5)] by metis
  moreover have "mmu (mem s') r v =
     (if USER_VIRTUAL_ADDRESS_BASE \<le> v \<and> v < USER_VIRTUAL_ADDRESS_BASE + PAGE_SIZE
      then Some (VIR_TO_PHY p + (v - USER_VIRTUAL_ADDRESS_BASE), 6) else mmu (mem s) r v)" for v
    using user_tree_facts [where T = T, OF v v assms(4) v, of a b p] assms(2,3)
      mmu_walk [OF spaceD(1) [OF s'(2)], of v] mmu_walk [OF spaceD(1) [OF assms(1)] assms(2), of v]
    by simp
  moreover have "mem s' (u + of_nat i) = mem s (u + of_nat i)" if "i < 2 ^ 21" for i
  proof (rule touches_mem [OF s'(3)])
    fix q
    assume q: "q \<in> {r, p, a, b}"
    then have "q \<noteq> u" using assms(10,11) rt by auto
    then have "page_span u \<inter> page_span q = {}"
      using v [OF q] assms(9) valid_pages_disjoint by blast
    then show "u + of_nat i \<notin> page_span q" using in_page [OF that, of u] by blast
  qed
  ultimately show ?thesis using s'(1,4) spaceD(2) [OF s'(2)] by blast
qed

theorem CopyUVM_copies_user_page_witness:
  "\<exists>s0 s1 s2 s3. SetupKVM (free_kernel 12) = ret (kernel_page 11, s0)
     \<and> SetupUVM (kernel_page 11) 0xFFFF800000010000 16 s0 = ret (True, s1)
     \<and> SetupKVM s1 = ret (kernel_page 5, s2)
     \<and> CopyUVM (kernel_page 5) (kernel_page 11) 16 s2 = ret (True, s3)
     \<and> mem s3 (kernel_page 2 + of_nat 7) = mem s2 (kernel_page 8 + of_nat 7)"
proof -
  let ?P = kernel_page
  let ?rest = "[?P 5, ?P 4, ?P 3, ?P 2, ?P 1, ?P 0]"
  have f: "free_pages (free_kernel 12) (?P 11 # ?P 10 # ?P 9 # ?P 8 # ?P 7 # ?P 6 # ?rest)"
    using free_kernel(1) [of 12] by (simp add: upt_rec numeral_eq_Suc)
  have dis: "\<forall>q\<in>{?P 11, ?P 10, ?P 9, ?P 8, ?P 7, ?P 6}.
     span 0xFFFF800000010000 (nat (sint (16 :: u32))) \<inter> page_span q = {}"
    using f below_kernel_disjoint by (simp add: free_pages_def free_kernel(3))
  have nz: "(0 :: nat) < 12" "(12 :: nat) \<le> 500" by simp_all
  have sz: "0 \<le> sint (16 :: u32)" "sint (16 :: u32) \<le> 2 ^ 21" by simp_all
  obtain s0 s1 C where p: "SetupKVM (free_kernel 12) = ret (?P 11, s0)"
    "SetupUVM (?P 11) 0xFFFF800000010000 16 s0 = ret (True, s1)"
    "space s1 (?P 11) C ?rest" "tree_ok C" "tables (?P 11) C = {?P 11, ?P 10, ?P 9, ?P 7, ?P 6}"
    "user_pages (?P 11) C = {?P 8}" "valid_page (l_kernel_end s1) (?P 8)" "memory_ok s1"
    using process_map [OF f free_kernel(2) [OF nz] sz dis] by metis
  obtain s2 T where k: "SetupKVM s1 = ret (?P 5, s2)" "space s2 (?P 5) T [?P 2, ?P 1, ?P 0]"
    "touches {?P 5, ?P 4, ?P 3} s1 s2" "tree_ok T" "\<not> present (T L4 0)"
    "tables (?P 5) T = {?P 5, ?P 4, ?P 3}"
    using SetupKVM_space [OF spaceD(2) [OF p(3)] p(8)] by metis
  have d: "distinct (?P 11 # ?P 10 # ?P 9 # ?P 8 # ?P 7 # ?P 6 # ?rest)"
    using f unfolding free_pages_def by blast
  have v: "\<forall>q\<in>{?P 5, ?P 4, ?P 3}. valid_page (l_kernel_end s1) q"
    using spaceD(8) [OF p(3)] by simp
  have dj: "{?P 5, ?P 4, ?P 3} \<inter> tables (?P 11) C = {}" unfolding p(5) using d by auto
  have "vm_tree (mem s2) (l_kernel_end s2) (?P 11) C"
    by (rule vm_tree_touches [OF spaceD(1) [OF p(3)] k(3) dj v])
  moreover have "tables (?P 11) C \<inter> set [?P 2, ?P 1, ?P 0] = {}" unfolding p(5) using d by auto
  ultimately have c: "space s2 (?P 11) C [?P 2, ?P 1, ?P 0]" using spaceD(2) [OF k(2)] by (simp add: space_def)
  have ke: "l_kernel_end s2 = l_kernel_end s1" by (rule touches_same(1) [OF k(3)])
  have kb: "KERNEL_VIRTUAL_ADDRESS_BASE \<le> l_kernel_end s2" using p(8) ke by (simp add: memory_ok_def)
  have dj2: "tables (?P 11) C \<inter> tables (?P 5) T = {}" unfolding p(5) k(6) using d by auto
  have u: "valid_page (l_kernel_end s2) (?P 8)" "?P 8 \<notin> tables (?P 5) T" "?P 8 \<notin> {?P 2, ?P 1, ?P 0}"
    using p(7) ke d unfolding k(6) by auto
  obtain s3 where "CopyUVM (?P 5) (?P 11) 16 s2 = ret (True, s3)"
    "\<forall>i<2 ^ 21. mem s3 (?P 2 + of_nat i) = (if i < nat (sint (16 :: u32)) then mem s2 (?P 8 + of_nat i) else 0)"
    using CopyUVM_copies_user_page [OF k(2,4,5) kb c p(4) dj2 p(6) u sz] by blast
  then have "CopyUVM (?P 5) (?P 11) 16 s2 = ret (True, s3)"
    "mem s3 (?P 2 + of_nat 7) = mem s2 (?P 8 + of_nat 7)" by (auto simp del: of_nat_numeral)
  with p(1,2) k(1) show ?thesis by blast
qed

end
