(* ===== verification/Kernel_State.thy ===== *)
theory Kernel_State
  imports Linked_List Virtual_Memory
begin

text \<open>
  The state of the whole kernel: the static variables of \<open>process.c\<close>, \<open>file.c\<close>, \<open>keyboard.c\<close> and
  \<open>trap.c\<close> on top of the memory and the console, and the registers of the processor.

  A \<open>Process *\<close> is the index of its slot in \<open>s_process_manager\<close>, an \<open>FCB *\<close> and an \<open>FD *\<close> the index of
  its entry; \<open>None\<close> is the null pointer. The field \<open>next\<close> of a process and the heads of the three
  lists are in \<open>proc_lists\<close>, the pointer structure of \<open>Linked_List\<close>. \<open>pid\<close>, \<open>wait_id\<close> and the open
  counts are C ints whose values stay far from the limits of the type; they are integers here. The
  saved registers of a process are on its kernel stack, in memory. \<open>TrapReturn\<close> and the return
  address of the call of \<open>ContextSwitch\<close> are addresses of code, constants of the run.
\<close>

section \<open>Processes\<close>

datatype ProcessState =
    PROCESS_SLOT_UNUSED
  | PROCESS_SLOT_INITIALIZED
  | PROCESS_SLOT_READY
  | PROCESS_SLOT_RUNNING
  | PROCESS_SLOT_SLEEPING
  | PROCESS_SLOT_KILLED

text \<open>The enumeration is ordered by its C values.\<close>

fun state_code :: "ProcessState \<Rightarrow> nat" where
  "state_code PROCESS_SLOT_UNUSED = 0"
| "state_code PROCESS_SLOT_INITIALIZED = 1"
| "state_code PROCESS_SLOT_READY = 2"
| "state_code PROCESS_SLOT_RUNNING = 3"
| "state_code PROCESS_SLOT_SLEEPING = 4"
| "state_code PROCESS_SLOT_KILLED = 5"

lemma state_code_inj: "state_code a = state_code b \<Longrightarrow> a = b"
  by (cases a; cases b) simp_all

instantiation ProcessState :: linorder
begin

definition less_eq_ProcessState :: "ProcessState \<Rightarrow> ProcessState \<Rightarrow> bool" where
  "a \<le> b \<longleftrightarrow> state_code a \<le> state_code b"

definition less_ProcessState :: "ProcessState \<Rightarrow> ProcessState \<Rightarrow> bool" where
  "a < b \<longleftrightarrow> state_code a < state_code b"

instance
  by intro_classes
    (auto simp: less_eq_ProcessState_def less_ProcessState_def intro: state_code_inj)

end

record process =
  p_pid :: int
  p_wait_id :: int
  p_state :: ProcessState
  p_page_map :: u64
  p_context :: u64
  p_stack :: u64
  p_tf :: u64
  p_file :: "nat \<Rightarrow> nat option"

text \<open>A slot after \<open>memset(proc, 0, sizeof(Process))\<close>.\<close>

definition zero_process :: process where
  "zero_process = \<lparr>p_pid = 0, p_wait_id = 0, p_state = PROCESS_SLOT_UNUSED, p_page_map = 0,
     p_context = 0, p_stack = 0, p_tf = 0, p_file = \<lambda>_. None\<rparr>"

datatype queue_name = Ready_list | Wait_list | Kill_list

section \<open>Files\<close>

record FCB =
  f_name :: "u8 list"
  f_ext :: "u8 list"
  f_start_cluster :: u32
  f_dir_entry :: u32
  f_file_size :: u32
  f_open_count :: int

record FD =
  d_fcb :: "nat option"
  d_position :: u32
  d_open_count :: int

text \<open>The fields of the BIOS parameter block the code reads.\<close>

record BPB =
  bytes_per_sector :: u16
  sectors_per_cluster :: u8
  reserved_sectors :: u16
  fat_copies :: u8
  root_dir_entries :: u16
  sectors_per_fat :: u16
  b_signature :: u8

section \<open>Keyboard\<close>

record KeyboardBuffer =
  k_buffer :: "nat \<Rightarrow> u8"
  k_front :: nat
  k_end :: nat
  k_size :: nat

section \<open>System calls\<close>

text \<open>A function pointer of type \<open>SYSTEM_CALL\<close> is the name of the function.\<close>

datatype SYSTEM_CALL =
    Call_SysWrite | Call_SysSleep | Call_SysExit | Call_SysWait | Call_SysRead | Call_SysMemInfo
  | Call_SysOpen | Call_SysClose | Call_SysFork | Call_SysExec | Call_SysLstat | Call_SysClrSrc

section \<open>Registers\<close>

datatype reg =
  R15 | R14 | R13 | R12 | R11 | R10 | R9 | R8 | RBP | RDI | RSI | RDX | RCX | RBX | RAX
  | RIP | CS | RFLAGS | RSP | SS

section \<open>The kernel\<close>

record kernel = kmem +
  s_process_manager :: "nat \<Rightarrow> process"
  s_pid_num :: int
  proc_lists :: "(queue_name, nat) links"
  current_proc :: nat
  tss_rsp0 :: u64
  regs :: "reg \<Rightarrow> u64"
  l_TrapReturn :: u64
  l_switch_return :: u64
  s_BIOS_parameter_block :: BPB
  s_fcb_table :: "nat \<Rightarrow> FCB"
  s_fd_table :: "nat \<Rightarrow> FD"
  s_keyboard_controller :: KeyboardBuffer
  s_flag :: u32
  s_system_ticks :: u64
  s_syscall_table :: "nat \<Rightarrow> SYSTEM_CALL option"

definition MAXIMUM_NUMBER_OF_PROCESS :: nat where
  "MAXIMUM_NUMBER_OF_PROCESS = 10"

definition PROCESS_MAXIMUM_FILE_DESCRIPTOR :: nat where
  "PROCESS_MAXIMUM_FILE_DESCRIPTOR = 100"

definition STACK_SIZE :: u64 where
  "STACK_SIZE = PAGE_SIZE"

definition USER_STACK_START :: u64 where
  "USER_STACK_START = USER_VIRTUAL_ADDRESS_BASE + STACK_SIZE"

abbreviation proc :: "'z kernel_scheme \<Rightarrow> nat \<Rightarrow> process" where
  "proc s i \<equiv> s_process_manager s i"

definition set_proc :: "nat \<Rightarrow> process \<Rightarrow> 'z kernel_scheme \<Rightarrow> 'z kernel_scheme" where
  "set_proc i p s = s\<lparr>s_process_manager := (s_process_manager s)(i := p)\<rparr>"

definition set_state :: "nat \<Rightarrow> ProcessState \<Rightarrow> 'z kernel_scheme \<Rightarrow> 'z kernel_scheme" where
  "set_state i st s = set_proc i ((proc s i)\<lparr>p_state := st\<rparr>) s"

lemma set_proc_simps [simp]:
  "proc (set_proc i p s) j = (if j = i then p else proc s j)"
  "proc_lists (set_proc i p s) = proc_lists s" "current_proc (set_proc i p s) = current_proc s"
  "s_pid_num (set_proc i p s) = s_pid_num s" "mem (set_proc i p s) = mem s"
  "regs (set_proc i p s) = regs s"
  by (simp_all add: set_proc_def)

lemma set_state_simps [simp]:
  "p_state (proc (set_state i st s) j) = (if j = i then st else p_state (proc s j))"
  "p_pid (proc (set_state i st s) j) = p_pid (proc s j)"
  "p_wait_id (proc (set_state i st s) j) = p_wait_id (proc s j)"
  "p_page_map (proc (set_state i st s) j) = p_page_map (proc s j)"
  "p_stack (proc (set_state i st s) j) = p_stack (proc s j)"
  "p_file (proc (set_state i st s) j) = p_file (proc s j)"
  "proc_lists (set_state i st s) = proc_lists s" "current_proc (set_state i st s) = current_proc s"
  "s_pid_num (set_state i st s) = s_pid_num s" "mem (set_state i st s) = mem s"
  "regs (set_state i st s) = regs s"
  by (simp_all add: set_state_def)

section \<open>The statics at boot\<close>

text \<open>
  The memory \<open>m\<close> with the static variables as the C code initialises them: zero, except the first
  process number and the size of the keyboard buffer.
\<close>

definition zero_FCB :: FCB where
  "zero_FCB = \<lparr>f_name = replicate 8 0, f_ext = replicate 3 0, f_start_cluster = 0, f_dir_entry = 0,
     f_file_size = 0, f_open_count = 0\<rparr>"

definition zero_FD :: FD where
  "zero_FD = \<lparr>d_fcb = None, d_position = 0, d_open_count = 0\<rparr>"

definition zero_BPB :: BPB where
  "zero_BPB = \<lparr>bytes_per_sector = 0, sectors_per_cluster = 0, reserved_sectors = 0, fat_copies = 0,
     root_dir_entries = 0, sectors_per_fat = 0, b_signature = 0\<rparr>"

definition boot_kernel :: "kmem \<Rightarrow> kernel" where
  "boot_kernel m = kmem.extend m
     (kernel.fields (\<lambda>_. zero_process) 1 \<lparr>lnext = \<lambda>_. None, ltail = \<lambda>_. None\<rparr> 0 0 (\<lambda>_. 0) 0 0
        zero_BPB (\<lambda>_. zero_FCB) (\<lambda>_. zero_FD)
        \<lparr>k_buffer = \<lambda>_. 0, k_front = 0, k_end = 0, k_size = 500\<rparr> 0 0 (\<lambda>_. None))"

lemma boot_kernel_simps [simp]:
  "s_process_manager (boot_kernel m) i = zero_process" "s_pid_num (boot_kernel m) = 1"
  "proc_lists (boot_kernel m) = \<lparr>lnext = \<lambda>_. None, ltail = \<lambda>_. None\<rparr>" "current_proc (boot_kernel m) = 0"
  "s_keyboard_controller (boot_kernel m) = \<lparr>k_buffer = \<lambda>_. 0, k_front = 0, k_end = 0, k_size = 500\<rparr>"
  "s_flag (boot_kernel m) = 0" "s_system_ticks (boot_kernel m) = 0" "s_syscall_table (boot_kernel m) = (\<lambda>_. None)"
  "s_fcb_table (boot_kernel m) = (\<lambda>_. zero_FCB)" "s_fd_table (boot_kernel m) = (\<lambda>_. zero_FD)"
  "mem (boot_kernel m) = mem m" "cr3 (boot_kernel m) = cr3 m" "regs (boot_kernel m) r = 0"
  "s_free_memory_page_head (boot_kernel m) = s_free_memory_page_head m"
  "s_free_memory_end_address (boot_kernel m) = s_free_memory_end_address m"
  "l_kernel_end (boot_kernel m) = l_kernel_end m"
  by (cases m; simp add: boot_kernel_def kmem.defs kernel.defs)+

end
