(* ===== verification/Context_Switch.thy ===== *)
theory Context_Switch
  imports Kernel_State
begin

text \<open>
  \<open>ContextSwitch\<close> of \<open>kernel/trap.asm\<close> with \<open>SwitchProcess\<close> and \<open>SetTSS\<close> of \<open>kernel/process.c\<close>.
  \<open>ContextSwitch\<close> returns on the stack of the other process, so a function that switches ends in
  the state in which the other process goes on: the registers are those of the other process, and
  what runs next is the code at \<open>RIP\<close>.
\<close>

section \<open>ContextSwitch\<close>

definition push :: "u64 \<Rightarrow> 'z kernel_scheme \<Rightarrow> 'z kernel_scheme" where
  "push v s =
     s\<lparr>mem := store64 (mem s) (regs s RSP - 8) v, regs := (regs s)(RSP := regs s RSP - 8)\<rparr>"

definition pop :: "reg \<Rightarrow> 'z kernel_scheme \<Rightarrow> 'z kernel_scheme" where
  "pop r s = s\<lparr>regs := (regs s)(r := load64 (mem s) (regs s RSP), RSP := regs s RSP + 8)\<rparr>"

text \<open>\<open>old\<close> is the slot whose field \<open>context\<close> receives the stack pointer.\<close>

definition ContextSwitch :: "nat \<Rightarrow> u64 \<Rightarrow> 'z kernel_scheme \<Rightarrow> 'z kernel_scheme" where
  "ContextSwitch old new s =
     (let s1 = fold (\<lambda>r s. push (regs s r) s) [RBX, RBP, R12, R13, R14, R15] s;
          s2 = set_proc old ((proc s1 old)\<lparr>p_context := regs s1 RSP\<rparr>) s1;
          s3 = s2\<lparr>regs := (regs s2)(RSP := new)\<rparr>
      in fold pop [R15, R14, R13, R12, RBP, RBX, RIP] s3)"

section \<open>SwitchProcess\<close>

definition SetTSS :: "nat \<Rightarrow> 'z kernel_scheme \<Rightarrow> 'z kernel_scheme" where
  "SetTSS i s = s\<lparr>tss_rsp0 := p_stack (proc s i) + STACK_SIZE\<rparr>"

text \<open>The call of \<open>ContextSwitch\<close> pushes its return address.\<close>

definition SwitchProcess :: "nat \<Rightarrow> nat \<Rightarrow> 'z kernel_scheme \<Rightarrow> 'z kernel_scheme" where
  "SwitchProcess prev new s =
     (let s1 = SetTSS new s;
          s2 = SwitchVM (p_page_map (proc s1 new)) s1
      in ContextSwitch prev (p_context (proc s2 new)) (push (l_switch_return s2) s2))"

section \<open>Stacks\<close>

lemma push_simps [simp]:
  "regs (push v s) = (regs s)(RSP := regs s RSP - 8)" "proc (push v s) i = proc s i"
  "proc_lists (push v s) = proc_lists s" "current_proc (push v s) = current_proc s"
  "s_pid_num (push v s) = s_pid_num s" "s_process_manager (push v s) = s_process_manager s"
  "mem (push v s) = store64 (mem s) (regs s RSP - 8) v"
  by (simp_all add: push_def)

lemma pop_simps [simp]:
  "mem (pop r s) = mem s" "proc (pop r s) i = proc s i" "proc_lists (pop r s) = proc_lists s"
  "current_proc (pop r s) = current_proc s" "s_pid_num (pop r s) = s_pid_num s"
  "s_process_manager (pop r s) = s_process_manager s"
  "regs (pop r s) = (regs s)(r := load64 (mem s) (regs s RSP), RSP := regs s RSP + 8)"
  by (simp_all add: pop_def)

lemma fold_push_regs:
  "RSP \<notin> set rs \<Longrightarrow> fold (\<lambda>r s. push (regs s r) s) rs s = fold push (map (regs s) rs) s"
proof (induction rs arbitrary: s)
  case Nil
  then show ?case by simp
next
  case (Cons r rs)
  have "map (regs (push (regs s r) s)) rs = map (regs s) rs" using Cons.prems by auto
  then show ?case using Cons by simp
qed

lemma fold_push_simps:
  "regs (fold push vs s) = (regs s)(RSP := regs s RSP - 8 * of_nat (length vs))"
  "s_process_manager (fold push vs s) = s_process_manager s"
  "proc_lists (fold push vs s) = proc_lists s" "current_proc (fold push vs s) = current_proc s"
  "s_pid_num (fold push vs s) = s_pid_num s"
  by (induction vs arbitrary: s) (auto simp: algebra_simps fun_eq_iff)

lemma fold_push_mem:
  "8 * length vs \<le> 2 ^ 60 \<Longrightarrow> x \<notin> span (regs s RSP - 8 * of_nat (length vs)) (8 * length vs) \<Longrightarrow>
   mem (fold push vs s) x = mem s x"
proof (induction vs arbitrary: s)
  case Nil
  then show ?case by simp
next
  case (Cons v vs)
  let ?n = "length vs" and ?b = "regs s RSP - 8 * of_nat (Suc (length vs))"
  have top: "regs s RSP - 8 = ?b + of_nat (8 * ?n)" by (simp add: algebra_simps)
  have "span (?b + of_nat (8 * ?n)) 8 \<subseteq> span ?b (8 * Suc ?n)"
    using Cons.prems(1) by (intro span_subset) auto
  then have out: "x \<notin> span (regs s RSP - 8) 8" using Cons.prems(2) unfolding top by auto
  have "span ?b (8 * ?n) \<subseteq> span ?b (8 * Suc ?n)" by (auto simp: span_def)
  then have "x \<notin> span (regs (push v s) RSP - 8 * of_nat ?n) (8 * ?n)"
    using Cons.prems(2) by (auto simp: algebra_simps)
  then have "mem (fold push vs (push v s)) x = mem (push v s) x"
    using Cons.prems(1) by (intro Cons.IH) auto
  then show ?case using out by (simp add: store64_other)
qed

lemma fold_push_load:
  "8 * length vs \<le> 2 ^ 60 \<Longrightarrow> k < length vs \<Longrightarrow>
   load64 (mem (fold push vs s)) (regs s RSP - 8 * of_nat (Suc k)) = vs ! k"
proof (induction vs arbitrary: s k)
  case Nil
  then show ?case by simp
next
  case (Cons v vs)
  let ?n = "length vs" and ?b = "regs (push v s) RSP - 8 * of_nat (length vs)"
  show ?case
  proof (cases k)
    case 0
    have top: "regs s RSP - 8 = ?b + of_nat (8 * ?n)" by (simp add: algebra_simps)
    have "span (?b + of_nat (8 * ?n)) 8 \<inter> span (?b + of_nat 0) (8 * ?n) = {}"
      using Cons.prems(1) by (intro span_offsets_disjoint) auto
    then have dis: "span (regs s RSP - 8) 8 \<inter> span ?b (8 * ?n) = {}" unfolding top by simp
    have "load64 (mem (fold push vs (push v s))) (regs s RSP - 8) = load64 (mem (push v s)) (regs s RSP - 8)"
    proof (rule load64_cong)
      fix x
      assume "x \<in> span (regs s RSP - 8) 8"
      then show "mem (fold push vs (push v s)) x = mem (push v s) x"
        using dis Cons.prems(1) by (intro fold_push_mem) auto
    qed
    then show ?thesis using 0 by simp
  next
    case (Suc j)
    have "load64 (mem (fold push vs (push v s))) (regs (push v s) RSP - 8 * of_nat (Suc j)) = vs ! j"
      using Cons.prems Suc by (intro Cons.IH) auto
    then show ?thesis using Suc by (simp add: algebra_simps)
  qed
qed

lemma fold_pop_simps:
  "mem (fold pop rs s) = mem s" "s_process_manager (fold pop rs s) = s_process_manager s"
  "proc_lists (fold pop rs s) = proc_lists s" "current_proc (fold pop rs s) = current_proc s"
  "s_pid_num (fold pop rs s) = s_pid_num s"
  by (induction rs arbitrary: s) auto

lemma fold_pop_regs:
  "RSP \<notin> set rs \<Longrightarrow> distinct rs \<Longrightarrow>
   regs (fold pop rs s) RSP = regs s RSP + 8 * of_nat (length rs)
   \<and> (\<forall>k<length rs. regs (fold pop rs s) (rs ! k) = load64 (mem s) (regs s RSP + 8 * of_nat k))
   \<and> (\<forall>r. r \<notin> set rs \<and> r \<noteq> RSP \<longrightarrow> regs (fold pop rs s) r = regs s r)"
proof (induction rs arbitrary: s)
  case Nil
  then show ?case by simp
next
  case (Cons r rs)
  note IH = Cons.IH [of "pop r s"]
  have p: "RSP \<notin> set rs" "distinct rs" "r \<notin> set rs" "r \<noteq> RSP" using Cons.prems by auto
  have "regs (fold pop (r # rs) s) ((r # rs) ! k) = load64 (mem s) (regs s RSP + 8 * of_nat k)"
    if "k < length (r # rs)" for k
  proof (cases k)
    case 0
    then show ?thesis using IH p by simp
  next
    case (Suc j)
    then show ?thesis using IH p that by (simp add: algebra_simps)
  qed
  then show ?case using IH p by (simp add: algebra_simps)
qed

lemma fold_pop_nth:
  "RSP \<notin> set rs \<Longrightarrow> distinct rs \<Longrightarrow> k < length rs \<Longrightarrow>
   regs (fold pop rs s) (rs ! k) = load64 (mem s) (regs s RSP + 8 * of_nat k)"
  using fold_pop_regs [of rs s] by blast

lemma fold_pop_RSP:
  "RSP \<notin> set rs \<Longrightarrow> distinct rs \<Longrightarrow>
   regs (fold pop rs s) RSP = regs s RSP + 8 * of_nat (length rs)"
  using fold_pop_regs [of rs s] by blast

text \<open>The values a switch pushes, first one first, and the registers it pops.\<close>

definition saved_values :: "'z kernel_scheme \<Rightarrow> u64 list" where
  "saved_values s = l_switch_return s # map (regs s) [RBX, RBP, R12, R13, R14, R15]"

abbreviation saved_regs :: "reg list" where
  "saved_regs \<equiv> [R15, R14, R13, R12, RBP, RBX, RIP]"

lemma SwitchProcess_effect:
  fixes s :: "'z kernel_scheme"
  defines "s' \<equiv> \<lambda>a b. SwitchProcess a b s"
  shows "mem (s' a b) = mem (fold push (saved_values s) s)"
    "regs (s' a b) RSP = p_context (proc s b) + 56"
    "k < 7 \<Longrightarrow> regs (s' a b) (saved_regs ! k) = load64 (mem (s' a b)) (p_context (proc s b) + 8 * of_nat k)"
    "proc (s' a b) i = (if i = a then (proc s a)\<lparr>p_context := regs s RSP - 56\<rparr> else proc s i)"
    "proc_lists (s' a b) = proc_lists s" "current_proc (s' a b) = current_proc s"
    "s_pid_num (s' a b) = s_pid_num s"
proof -
  let ?s2 = "SwitchVM (p_page_map (proc s b)) (SetTSS b s)"
  let ?t = "fold push (saved_values s) ?s2"
  let ?t2 = "set_proc a ((proc ?t a)\<lparr>p_context := regs ?t RSP\<rparr>) ?t"
  let ?t3 = "?t2\<lparr>regs := (regs ?t2)(RSP := p_context (proc s b))\<rparr>"
  have sv: "saved_values ?s2 = saved_values s" by (simp add: saved_values_def SwitchVM_def SetTSS_def)
  have pb: "proc ?s2 i = proc s i" for i by (simp add: SwitchVM_def SetTSS_def)
  have pm: "p_page_map (proc (SetTSS b s) b) = p_page_map (proc s b)" by (simp add: SetTSS_def)
  have folded: "fold (\<lambda>r s. push (regs s r) s) [RBX, RBP, R12, R13, R14, R15] (push (l_switch_return ?s2) ?s2) = ?t"
    by (subst fold_push_regs) (simp_all add: saved_values_def SwitchVM_def SetTSS_def)
  have eq: "s' a b = fold pop saved_regs ?t3"
    unfolding s'_def SwitchProcess_def ContextSwitch_def Let_def pm folded pb by (rule refl)
  have len: "length (saved_values s) = 7" by (simp add: saved_values_def)
  have same: "fold push vs (SwitchVM m (SetTSS b s)) = SwitchVM m (SetTSS b (fold push vs s))" for vs m
  proof (induction vs arbitrary: s)
    case (Cons v vs)
    have "push v (SwitchVM m (SetTSS b s)) = SwitchVM m (SetTSS b (push v s))" for s :: "'z kernel_scheme"
      by (simp add: push_def SwitchVM_def SetTSS_def)
    then show ?case using Cons by simp
  qed simp
  show m: "mem (s' a b) = mem (fold push (saved_values s) s)"
  proof -
    have "mem ?t = mem (fold push (saved_values s) s)"
      unfolding same by (simp add: SwitchVM_def SetTSS_def)
    then show ?thesis unfolding eq by (simp add: fold_pop_simps)
  qed
  have t3: "regs ?t3 RSP = p_context (proc s b)" by simp
  show "regs (s' a b) RSP = p_context (proc s b) + 56"
    unfolding eq by (subst fold_pop_RSP) (simp_all only: t3, simp_all)
  show "regs (s' a b) (saved_regs ! k) = load64 (mem (s' a b)) (p_context (proc s b) + 8 * of_nat k)"
    if "k < 7"
  proof -
    have "regs (s' a b) (saved_regs ! k) = load64 (mem ?t3) (regs ?t3 RSP + 8 * of_nat k)"
      unfolding eq by (rule fold_pop_nth) (use that in simp_all)
    moreover have "mem ?t3 = mem (s' a b)" unfolding eq fold_pop_simps by (rule refl)
    ultimately show ?thesis by (simp only: t3)
  qed
  show "proc (s' a b) i = (if i = a then (proc s a)\<lparr>p_context := regs s RSP - 56\<rparr> else proc s i)"
    unfolding eq using len by (simp add: fold_pop_simps fold_push_simps pb SwitchVM_def SetTSS_def)
  show "proc_lists (s' a b) = proc_lists s" "current_proc (s' a b) = current_proc s"
    "s_pid_num (s' a b) = s_pid_num s"
    unfolding eq by (simp_all add: fold_pop_simps fold_push_simps SwitchVM_def SetTSS_def)
qed

lemma saved_values_nth:
  assumes "k < 7"
  shows "saved_values s ! (6 - k) = (if k = 6 then l_switch_return s else regs s (saved_regs ! k))"
proof -
  have "k \<in> {0, 1, 2, 3, 4, 5, 6}" using assms by auto
  then show ?thesis by (elim insertE) (simp_all add: saved_values_def)
qed

lemma switch_saves:
  "k < 7 \<Longrightarrow> load64 (mem (SwitchProcess a b s)) (regs s RSP - 56 + 8 * of_nat k) = saved_values s ! (6 - k)"
proof -
  assume k: "k < 7"
  have "load64 (mem (fold push (saved_values s) s)) (regs s RSP - 8 * of_nat (Suc (6 - k))) = saved_values s ! (6 - k)"
    by (rule fold_push_load) (simp_all add: saved_values_def)
  moreover have "regs s RSP - 8 * of_nat (Suc (6 - k)) = regs s RSP - 56 + 8 * of_nat k"
    using k by (simp add: of_nat_diff)
  ultimately show ?thesis by (simp only: SwitchProcess_effect(1))
qed

section \<open>Properties\<close>

text \<open>
  Property C19. A process that was switched away from goes on exactly where it stopped: if its saved
  stack pointer and the 56 bytes that \<open>ContextSwitch\<close> pushed are still there when some process
  switches back to it, and that process pushes elsewhere, then all callee-saved registers and the
  stack pointer have their old values, and execution goes on behind the call of \<open>ContextSwitch\<close>.
\<close>

theorem context_switch_round_trip:
  assumes "p_context (proc t a) = p_context (proc (SwitchProcess a b s) a)"
    and "\<And>x. x \<in> span (regs s RSP - 56) 56 \<Longrightarrow> mem t x = mem (SwitchProcess a b s) x"
    and "span (regs t RSP - 56) 56 \<inter> span (regs s RSP - 56) 56 = {}"
  shows "(\<forall>r\<in>{RBX, RBP, R12, R13, R14, R15, RSP}. regs (SwitchProcess c a t) r = regs s r)
    \<and> regs (SwitchProcess c a t) RIP = l_switch_return s"
proof -
  let ?base = "regs s RSP - 56"
  have ctx: "p_context (proc t a) = ?base" using assms(1) by (simp add: SwitchProcess_effect)
  have popped: "regs (SwitchProcess c a t) (saved_regs ! k) = saved_values s ! (6 - k)" if k: "k < 7" for k
  proof -
    have "load64 (mem (SwitchProcess c a t)) (?base + 8 * of_nat k)
        = load64 (mem (SwitchProcess a b s)) (?base + 8 * of_nat k)"
    proof (rule load64_cong)
      fix x
      assume x: "x \<in> span (?base + 8 * of_nat k) 8"
      have "span (?base + of_nat (8 * k)) 8 \<subseteq> span ?base 56"
        using k by (intro span_subset) auto
      then have x: "x \<in> span ?base 56" using x by auto
      then have "x \<notin> span (regs t RSP - 56) 56" using assms(3) by auto
      then have "mem (fold push (saved_values t) t) x = mem t x"
        by (intro fold_push_mem) (simp_all add: saved_values_def)
      then show "mem (SwitchProcess c a t) x = mem (SwitchProcess a b s) x"
        using assms(2) [OF x] by (simp only: SwitchProcess_effect(1) [of c a])
    qed
    then show ?thesis
      using SwitchProcess_effect(3) [OF k, of c a t] switch_saves [OF k, of a b s] by (simp only: ctx)
  qed
  have "regs (SwitchProcess c a t) RIP = l_switch_return s"
    using popped [of 6] saved_values_nth [of 6 s] by (simp add: numeral_eq_Suc)
  moreover have "regs (SwitchProcess c a t) RSP = regs s RSP" using ctx by (simp add: SwitchProcess_effect)
  moreover have "regs (SwitchProcess c a t) (saved_regs ! k) = regs s (saved_regs ! k)" if "k < 6" for k
    using popped [of k] saved_values_nth [of k s] that by simp
  from this [of 0] this [of 1] this [of 2] this [of 3] this [of 4] this [of 5]
  have "\<forall>r\<in>{RBX, RBP, R12, R13, R14, R15}. regs (SwitchProcess c a t) r = regs s r"
    by (simp add: numeral_eq_Suc)
  ultimately show ?thesis by simp
qed

lemma context_switch_round_trip_witness:
  "let s = (boot_kernel (free_kernel 0))\<lparr>regs := (\<lambda>_. 7)(RSP := 0x2000), l_switch_return := 0x1234\<rparr>;
       t = (SwitchProcess 1 2 s)\<lparr>regs := (\<lambda>_. 9)(RSP := 0x5000)\<rparr>
   in regs (SwitchProcess 2 1 t) RBX = 7 \<and> regs (SwitchProcess 2 1 t) RIP = 0x1234"
proof -
  define s where "s = (boot_kernel (free_kernel 0))\<lparr>regs := (\<lambda>_. 7)(RSP := 0x2000), l_switch_return := 0x1234\<rparr>"
  define t where "t = (SwitchProcess 1 2 s)\<lparr>regs := (\<lambda>_. 9)(RSP := 0x5000)\<rparr>"
  have "span (0x1FC8 + of_nat 0x3000 :: u64) 56 \<inter> span (0x1FC8 + of_nat 0) 56 = {}"
    by (rule span_offsets_disjoint) auto
  then have "span (regs t RSP - 56) 56 \<inter> span (regs s RSP - 56) 56 = {}" by (simp add: s_def t_def)
  from context_switch_round_trip [OF _ _ this, of 1 2]
  have "regs (SwitchProcess 2 1 t) RBX = regs s RBX" "regs (SwitchProcess 2 1 t) RIP = l_switch_return s"
    by (simp_all add: t_def)
  moreover have "regs s RBX = 7" "l_switch_return s = 0x1234" by (simp_all add: s_def)
  ultimately show ?thesis unfolding Let_def s_def t_def by metis
qed

end
