(* ===== verification/Simulation.thy ===== *)
theory Simulation
  imports Kernel_Prelude
begin

text \<open>
  The contract between a component and its specification. A component takes operations \<open>'op\<close> on
  its state and answers each of them; the specification does the same on an abstract state, and
  never fails. The locale \<open>simulation\<close> asks for one law, that every operation the specification
  enables is answered alike and keeps the relation; its lemmas lift the law to runs of any length
  and to invariants. It is interpreted by the scheduler and by the keyboard buffer.
\<close>

primrec answers :: "('op \<Rightarrow> 's \<Rightarrow> ('o \<times> 's) kres) \<Rightarrow> 'op list \<Rightarrow> 's \<Rightarrow> ('o list \<times> 's) kres" where
  "answers step [] s = ret ([], s)"
| "answers step (x # xs) s =
     andthen (step x s) (\<lambda>(y, t). andthen (answers step xs t) (\<lambda>(ys, u). ret (y # ys, u)))"

primrec spec_answers :: "('op \<Rightarrow> 'a \<Rightarrow> 'o \<times> 'a) \<Rightarrow> 'op list \<Rightarrow> 'a \<Rightarrow> 'o list \<times> 'a" where
  "spec_answers step [] a = ([], a)"
| "spec_answers step (x # xs) a =
     (let (y, b) = step x a; (ys, c) = spec_answers step xs b in (y # ys, c))"

primrec all_enabled ::
  "('op \<Rightarrow> 'a \<Rightarrow> bool) \<Rightarrow> ('op \<Rightarrow> 'a \<Rightarrow> 'o \<times> 'a) \<Rightarrow> 'op list \<Rightarrow> 'a \<Rightarrow> bool" where
  "all_enabled en step [] a = True"
| "all_enabled en step (x # xs) a = (en x a \<and> all_enabled en step xs (snd (step x a)))"

lemma spec_answers_append:
  "spec_answers step (xs @ ys) a =
     (let (us, b) = spec_answers step xs a; (vs, c) = spec_answers step ys b in (us @ vs, c))"
  by (induction xs arbitrary: a) (auto simp: split_def Let_def)

locale simulation =
  fixes rel :: "'s \<Rightarrow> 'a \<Rightarrow> bool"
    and cstep :: "'op \<Rightarrow> 's \<Rightarrow> ('o \<times> 's) kres"
    and astep :: "'op \<Rightarrow> 'a \<Rightarrow> 'o \<times> 'a"
    and enabled :: "'op \<Rightarrow> 'a \<Rightarrow> bool"
  assumes step_law: "rel s a \<Longrightarrow> enabled x a \<Longrightarrow>
      \<exists>t. cstep x s = ret (fst (astep x a), t) \<and> rel t (snd (astep x a))"
begin

lemma run_refines:
  "rel s a \<Longrightarrow> all_enabled enabled astep xs a \<Longrightarrow>
   \<exists>t. answers cstep xs s = ret (fst (spec_answers astep xs a), t)
       \<and> rel t (snd (spec_answers astep xs a))"
proof (induction xs arbitrary: s a)
  case Nil
  then show ?case by simp
next
  case (Cons x xs)
  from step_law [OF Cons.prems(1), of x] Cons.prems(2) obtain t
    where t: "cstep x s = ret (fst (astep x a), t)" "rel t (snd (astep x a))" by auto
  from Cons.IH [OF t(2)] Cons.prems(2) obtain u
    where "answers cstep xs t = ret (fst (spec_answers astep xs (snd (astep x a))), u)"
      "rel u (snd (spec_answers astep xs (snd (astep x a))))" by auto
  with t(1) show ?case by (auto simp: split_def Let_def)
qed

text \<open>An invariant of the specification holds of the component after every run.\<close>

lemma run_invariant:
  assumes "rel s a" "all_enabled enabled astep xs a" "I a"
    and "\<And>b x. I b \<Longrightarrow> enabled x b \<Longrightarrow> I (snd (astep x b))"
  shows "\<exists>t b. answers cstep xs s = ret (fst (spec_answers astep xs a), t) \<and> rel t b \<and> I b"
proof -
  have "I (snd (spec_answers astep xs a))"
    using assms(2,3)
  proof (induction xs arbitrary: a)
    case Nil
    then show ?case by simp
  next
    case (Cons x xs)
    from Cons.prems have "I (snd (spec_answers astep xs (snd (astep x a))))"
      by (intro Cons.IH assms(4)) auto
    then show ?case by (simp add: split_def Let_def)
  qed
  with run_refines [OF assms(1,2)] show ?thesis by blast
qed

end

end
