(* ===== verification/Scheduler.thy ===== *)
theory Scheduler
  imports Context_Switch Simulation
begin

text \<open>
  The scheduler of \<open>kernel/process.c\<close>: \<open>Schedule\<close>, \<open>Yield\<close>, \<open>Sleep\<close>, \<open>Wakeup\<close>, \<open>Exit\<close>. They
  implement a specification with three lists of process slots; the proof is an interpretation of
  the locale \<open>simulation\<close>, and uses the queues through the interpretation \<open>lists\<close> only.
\<close>

section \<open>Schedule\<close>

definition IDLE_PROCESS_PID :: nat where
  "IDLE_PROCESS_PID = 0"

definition Schedule :: "'z kernel_scheme \<Rightarrow> 'z kernel_scheme kres" where
  "Schedule s =
     (let prev = current_proc s in
      andthen
        (if ListIsEmpty (proc_lists s) Ready_list then ret (IDLE_PROCESS_PID, s)
         else
           let (item, h) = ListPopFront (proc_lists s) Ready_list
           in andthen (deref item) (\<lambda>n. ret (n, s\<lparr>proc_lists := h\<rparr>)))
        (\<lambda>(new, s1).
          ret (SwitchProcess prev new ((set_state new PROCESS_SLOT_RUNNING s1)\<lparr>current_proc := new\<rparr>))))"

definition push_list :: "queue_name \<Rightarrow> nat \<Rightarrow> 'z kernel_scheme \<Rightarrow> 'z kernel_scheme kres" where
  "push_list q i s = andthen (ListPushBack (proc_lists s) q i) (\<lambda>h. ret (s\<lparr>proc_lists := h\<rparr>))"

section \<open>Yield, Sleep, Wakeup, Exit\<close>

definition Yield :: "'z kernel_scheme \<Rightarrow> 'z kernel_scheme kres" where
  "Yield s =
     (if ListIsEmpty (proc_lists s) Ready_list then ret s
      else
        let i = current_proc s;
            s1 = set_state i PROCESS_SLOT_READY s
        in andthen (if p_pid (proc s1 i) \<noteq> int IDLE_PROCESS_PID then push_list Ready_list i s1 else ret s1)
             Schedule)"

definition Sleep :: "int \<Rightarrow> 'z kernel_scheme \<Rightarrow> 'z kernel_scheme kres" where
  "Sleep wait_id s =
     (let i = current_proc s;
          s1 = set_proc i ((proc s i)\<lparr>p_state := PROCESS_SLOT_SLEEPING, p_wait_id := wait_id\<rparr>) s
      in andthen (push_list Wait_list i s1) Schedule)"

definition WaitListRemoveReadyProcess ::
  "queue_name \<Rightarrow> int \<Rightarrow> 'z kernel_scheme \<Rightarrow> (nat option \<times> 'z kernel_scheme) kres" where
  "WaitListRemoveReadyProcess q wait_id s =
     map_option (\<lambda>(item, h). Inr (item, s\<lparr>proc_lists := h\<rparr>))
       (remove_first (\<lambda>n. p_wait_id (proc s n) = wait_id) (proc_lists s) q)"

definition RemoveProcessWithPID ::
  "queue_name \<Rightarrow> int \<Rightarrow> 'z kernel_scheme \<Rightarrow> (nat option \<times> 'z kernel_scheme) kres" where
  "RemoveProcessWithPID q pid s =
     map_option (\<lambda>(item, h). Inr (item, s\<lparr>proc_lists := h\<rparr>))
       (remove_first (\<lambda>n. p_pid (proc s n) = pid) (proc_lists s) q)"

partial_function (option) Wakeup :: "int \<Rightarrow> 'z kernel_scheme \<Rightarrow> 'z kernel_scheme kres" where
  "Wakeup wait_id s =
     andthen (WaitListRemoveReadyProcess Wait_list wait_id s) (\<lambda>(item, s1).
       case item of
         None \<Rightarrow> ret s1
       | Some n \<Rightarrow>
           andthen (push_list Ready_list n (set_state n PROCESS_SLOT_READY s1)) (\<lambda>s2.
             Wakeup wait_id s2))"

definition INIT_PROCESS_WAIT_ID :: int where
  "INIT_PROCESS_WAIT_ID = 1"

definition Exit :: "'z kernel_scheme \<Rightarrow> 'z kernel_scheme kres" where
  "Exit s =
     (let i = current_proc s;
          s1 = set_state i PROCESS_SLOT_KILLED s
      in andthen (push_list Kill_list i s1) (\<lambda>s2.
         andthen (Wakeup INIT_PROCESS_WAIT_ID s2) Schedule))"

section \<open>What the scheduler promises\<close>

text \<open>
  The specification: the process that runs, the three queues as lists of slots, and the wait
  identifier of each slot. Slot 0 is the idle process; it runs when no other process is ready and
  is in no queue.
\<close>

record sched =
  running :: nat
  queue :: "queue_name \<Rightarrow> nat list"
  wid :: "nat \<Rightarrow> int"

datatype sched_op = Do_yield | Do_sleep int | Do_wakeup int | Do_exit

definition enqueue :: "queue_name \<Rightarrow> nat \<Rightarrow> sched \<Rightarrow> sched" where
  "enqueue q i a = a\<lparr>queue := (queue a)(q := queue a q @ [i])\<rparr>"

definition dispatch :: "sched \<Rightarrow> sched" where
  "dispatch a =
     (case queue a Ready_list of
        [] \<Rightarrow> a\<lparr>running := 0\<rparr>
      | n # ns \<Rightarrow> a\<lparr>running := n, queue := (queue a)(Ready_list := ns)\<rparr>)"

definition rouse :: "int \<Rightarrow> sched \<Rightarrow> sched" where
  "rouse w a = a\<lparr>queue := (queue a)(
     Wait_list := filter (\<lambda>i. wid a i \<noteq> w) (queue a Wait_list),
     Ready_list := queue a Ready_list @ filter (\<lambda>i. wid a i = w) (queue a Wait_list))\<rparr>"

fun sched_spec :: "sched_op \<Rightarrow> sched \<Rightarrow> sched" where
  "sched_spec Do_yield a =
     (if queue a Ready_list = [] then a
      else dispatch (if running a = 0 then a else enqueue Ready_list (running a) a))"
| "sched_spec (Do_sleep w) a =
     dispatch (enqueue Wait_list (running a) (a\<lparr>wid := (wid a)(running a := w)\<rparr>))"
| "sched_spec (Do_wakeup w) a = rouse w a"
| "sched_spec Do_exit a = dispatch (rouse INIT_PROCESS_WAIT_ID (enqueue Kill_list (running a) a))"

text \<open>The idle process never sleeps and never exits.\<close>

fun sched_enabled :: "sched_op \<Rightarrow> sched \<Rightarrow> bool" where
  "sched_enabled Do_yield a = True"
| "sched_enabled (Do_sleep w) a = (running a \<noteq> 0)"
| "sched_enabled (Do_wakeup w) a = True"
| "sched_enabled Do_exit a = (running a \<noteq> 0)"

fun sched_code :: "sched_op \<Rightarrow> 'z kernel_scheme \<Rightarrow> 'z kernel_scheme kres" where
  "sched_code Do_yield s = Yield s"
| "sched_code (Do_sleep w) s = Sleep w s"
| "sched_code (Do_wakeup w) s = Wakeup w s"
| "sched_code Do_exit s = Exit s"

text \<open>The answer to an operation is the process that runs after it.\<close>

definition sched_spec_step :: "sched_op \<Rightarrow> sched \<Rightarrow> nat \<times> sched" where
  "sched_spec_step x a = (running (sched_spec x a), sched_spec x a)"

definition sched_step :: "sched_op \<Rightarrow> 'z kernel_scheme \<Rightarrow> (nat \<times> 'z kernel_scheme) kres" where
  "sched_step x s = andthen (sched_code x s) (\<lambda>t. ret (current_proc t, t))"

fun queue_state :: "queue_name \<Rightarrow> ProcessState" where
  "queue_state Ready_list = PROCESS_SLOT_READY"
| "queue_state Wait_list = PROCESS_SLOT_SLEEPING"
| "queue_state Kill_list = PROCESS_SLOT_KILLED"

text \<open>
  The relation. \<open>busy\<close> says that the current process is still the running one; it is false between
  the moment a process leaves the processor and the switch in \<open>Schedule\<close>.
\<close>

definition slot :: "nat \<Rightarrow> bool" where
  "slot i \<longleftrightarrow> 0 < i \<and> i < MAXIMUM_NUMBER_OF_PROCESS"

definition in_use :: "'z kernel_scheme \<Rightarrow> nat \<Rightarrow> bool" where
  "in_use s i \<longleftrightarrow> i < MAXIMUM_NUMBER_OF_PROCESS \<and> p_state (proc s i) \<noteq> PROCESS_SLOT_UNUSED"

definition pids_ok :: "'z kernel_scheme \<Rightarrow> bool" where
  "pids_ok s \<longleftrightarrow>
     p_pid (proc s 0) = 0 \<and> in_use s 0
     \<and> (\<forall>i<MAXIMUM_NUMBER_OF_PROCESS. in_use s i \<longrightarrow> (0 < i \<longrightarrow> 0 < p_pid (proc s i)) \<and> p_pid (proc s i) < s_pid_num s)
     \<and> (\<forall>i<MAXIMUM_NUMBER_OF_PROCESS. \<forall>j<MAXIMUM_NUMBER_OF_PROCESS.
          in_use s i \<longrightarrow> in_use s j \<longrightarrow> p_pid (proc s i) = p_pid (proc s j) \<longrightarrow> i = j)"

definition represents :: "bool \<Rightarrow> 'z kernel_scheme \<Rightarrow> sched \<Rightarrow> bool" where
  "represents busy s a \<longleftrightarrow>
     queues (proc_lists s) (queue a)
     \<and> current_proc s = running a \<and> running a < MAXIMUM_NUMBER_OF_PROCESS
     \<and> (\<forall>q. \<forall>i\<in>set (queue a q). slot i)
     \<and> (\<forall>i. slot i \<longrightarrow> (\<forall>q. i \<in> set (queue a q) \<longleftrightarrow> p_state (proc s i) = queue_state q))
     \<and> (\<forall>i<MAXIMUM_NUMBER_OF_PROCESS. p_state (proc s i) = PROCESS_SLOT_RUNNING \<longleftrightarrow> busy \<and> i = running a)
     \<and> (\<forall>i<MAXIMUM_NUMBER_OF_PROCESS. p_wait_id (proc s i) = wid a i)
     \<and> pids_ok s"

lemma queue_state_inj [simp]: "queue_state q = queue_state r \<longleftrightarrow> q = r"
  by (cases q; cases r) simp_all

lemma queue_state_other [simp]:
  "queue_state q \<noteq> PROCESS_SLOT_RUNNING" "queue_state q \<noteq> PROCESS_SLOT_UNUSED"
  "PROCESS_SLOT_RUNNING \<noteq> queue_state q" "PROCESS_SLOT_UNUSED \<noteq> queue_state q"
  by (cases q; simp)+

lemma representsD:
  assumes "represents busy s a"
  shows "queues (proc_lists s) (queue a)" "current_proc s = running a"
    "running a < MAXIMUM_NUMBER_OF_PROCESS" "i \<in> set (queue a q) \<Longrightarrow> slot i"
    "slot i \<Longrightarrow> i \<in> set (queue a q) \<longleftrightarrow> p_state (proc s i) = queue_state q"
    "i < MAXIMUM_NUMBER_OF_PROCESS \<Longrightarrow> p_state (proc s i) = PROCESS_SLOT_RUNNING \<longleftrightarrow> busy \<and> i = running a"
    "i < MAXIMUM_NUMBER_OF_PROCESS \<Longrightarrow> p_wait_id (proc s i) = wid a i" "pids_ok s"
  using assms unfolding represents_def by blast+

lemma representsI:
  assumes "queues (proc_lists s) (queue a)" "current_proc s = running a"
    "running a < MAXIMUM_NUMBER_OF_PROCESS" "\<And>i q. i \<in> set (queue a q) \<Longrightarrow> slot i"
    "\<And>i q. slot i \<Longrightarrow> i \<in> set (queue a q) \<longleftrightarrow> p_state (proc s i) = queue_state q"
    "\<And>i. i < MAXIMUM_NUMBER_OF_PROCESS \<Longrightarrow> p_state (proc s i) = PROCESS_SLOT_RUNNING \<longleftrightarrow> busy \<and> i = running a"
    "\<And>i. i < MAXIMUM_NUMBER_OF_PROCESS \<Longrightarrow> p_wait_id (proc s i) = wid a i" "pids_ok s"
  shows "represents busy s a"
  using assms unfolding represents_def by blast

lemma running_not_queued:
  assumes "represents True s a" shows "running a \<notin> set (queue a q)"
proof
  assume "running a \<in> set (queue a q)"
  then have "p_state (proc s (running a)) = queue_state q" using representsD(4,5) [OF assms] by blast
  then show False using representsD(6) [OF assms representsD(3) [OF assms]] by simp
qed

text \<open>A step that changes no identifier and no slot from or to unused keeps the identifiers right.\<close>

lemma pids_ok_cong:
  assumes "pids_ok s" "s_pid_num t = s_pid_num s"
    and "\<And>i. i < MAXIMUM_NUMBER_OF_PROCESS \<Longrightarrow> p_pid (proc t i) = p_pid (proc s i)"
    and "\<And>i. i < MAXIMUM_NUMBER_OF_PROCESS \<Longrightarrow> in_use t i \<longleftrightarrow> in_use s i"
  shows "pids_ok t"
proof -
  have "0 < MAXIMUM_NUMBER_OF_PROCESS" by (simp add: MAXIMUM_NUMBER_OF_PROCESS_def)
  then show ?thesis using assms unfolding pids_ok_def by simp
qed

section \<open>The operations keep the relation\<close>

text \<open>
  What \<open>represents\<close> says of the states depends only on \<open>state\<close>, \<open>pid\<close> and \<open>wait_id\<close>; a context
  switch changes none of them.
\<close>

lemma represents_cong:
  assumes "represents b s a" "proc_lists t = proc_lists s" "current_proc t = current_proc s"
    "s_pid_num t = s_pid_num s"
    "\<And>i. p_state (proc t i) = p_state (proc s i) \<and> p_pid (proc t i) = p_pid (proc s i) \<and> p_wait_id (proc t i) = p_wait_id (proc s i)"
  shows "represents b t a"
proof -
  have "pids_ok t" using assms by (intro pids_ok_cong [OF representsD(8) [OF assms(1)]]) (auto simp: in_use_def)
  then show ?thesis using assms unfolding represents_def by simp
qed

lemma represents_switch:
  assumes "represents b s a" shows "represents b (SwitchProcess p n s) a"
  by (rule represents_cong [OF assms]) (auto simp: SwitchProcess_effect)

text \<open>A process enters a queue: its slot gets the state of the queue.\<close>

lemma represents_enter:
  assumes r: "represents b s a" and i: "slot i" "in_use s i"
    and h: "queues h f" "set (f q) - {i} = set (queue a q) - {i}" "\<And>r. r \<noteq> q \<Longrightarrow> set (f r) = set (queue a r) - {i}"
      "i \<in> set (f q)"
    and t: "proc_lists t = h" "current_proc t = current_proc s" "s_pid_num t = s_pid_num s"
      "\<And>j. j \<noteq> i \<Longrightarrow> proc t j = proc s j"
      "p_state (proc t i) = queue_state q" "p_pid (proc t i) = p_pid (proc s i)" "p_wait_id (proc t i) = w"
    and b': "b' = (b \<and> i \<noteq> running a)"
  shows "represents b' t (a\<lparr>queue := f, wid := (wid a)(i := w)\<rparr>)"
proof -
  have use: "in_use t j \<longleftrightarrow> in_use s j" for j
    using i(2) t(4) [of j] t(5) by (cases "j = i") (auto simp: in_use_def)
  have pid: "p_pid (proc t j) = p_pid (proc s j)" for j using t(4,6) by (cases "j = i") auto
  show ?thesis
  proof (rule representsI)
    show "queues (proc_lists t) (queue (a\<lparr>queue := f, wid := (wid a)(i := w)\<rparr>))" using h(1) t(1) by simp
    show "current_proc t = running (a\<lparr>queue := f, wid := (wid a)(i := w)\<rparr>)" using t(2) representsD(2) [OF r] by simp
    show "running (a\<lparr>queue := f, wid := (wid a)(i := w)\<rparr>) < MAXIMUM_NUMBER_OF_PROCESS" using representsD(3) [OF r] by simp
    show "slot j" if "j \<in> set (queue (a\<lparr>queue := f, wid := (wid a)(i := w)\<rparr>) p)" for j p
      using that h(2,3) representsD(4) [OF r, of j] i(1) by (cases "p = q"; cases "j = i") auto
    show "j \<in> set (queue (a\<lparr>queue := f, wid := (wid a)(i := w)\<rparr>) p) \<longleftrightarrow> p_state (proc t j) = queue_state p" if "slot j" for j p
    proof (cases "j = i")
      case True
      then show ?thesis using h(3,4) t(5) by (cases "p = q") auto
    next
      case False
      then have "j \<in> set (f p) \<longleftrightarrow> j \<in> set (queue a p)" using h(2,3) by (cases "p = q") blast+
      then show ?thesis using False representsD(5) [OF r that] t(4) by simp
    qed
    show "p_state (proc t j) = PROCESS_SLOT_RUNNING \<longleftrightarrow> b' \<and> j = running (a\<lparr>queue := f, wid := (wid a)(i := w)\<rparr>)"
      if "j < MAXIMUM_NUMBER_OF_PROCESS" for j
      using representsD(6) [OF r that] t(4) [of j] t(5) i(1) b' by (cases "j = i") auto
    show "p_wait_id (proc t j) = wid (a\<lparr>queue := f, wid := (wid a)(i := w)\<rparr>) j" if "j < MAXIMUM_NUMBER_OF_PROCESS" for j
      using representsD(7) [OF r that] t(4) [of j] t(7) by (cases "j = i") auto
    show "pids_ok t"
      by (rule pids_ok_cong [OF representsD(8) [OF r]]) (use t(3) pid use in auto)
  qed
qed

lemma in_use_state: "i < MAXIMUM_NUMBER_OF_PROCESS \<Longrightarrow> p_state (proc s i) \<noteq> PROCESS_SLOT_UNUSED \<Longrightarrow> in_use s i"
  by (simp add: in_use_def)

lemma upd_swap: "a\<lparr>wid := x, queue := y\<rparr> = a\<lparr>queue := y, wid := x\<rparr>"
  by simp

text \<open>The running process goes to the end of a queue.\<close>

lemma park_ok:
  assumes r: "represents True s a" and i: "running a \<noteq> 0"
    and t: "proc_lists t = proc_lists s" "current_proc t = current_proc s" "s_pid_num t = s_pid_num s"
      "\<And>j. j \<noteq> running a \<Longrightarrow> proc t j = proc s j"
      "p_state (proc t (running a)) = queue_state q" "p_pid (proc t (running a)) = p_pid (proc s (running a))"
      "p_wait_id (proc t (running a)) = w"
  shows "\<exists>u. push_list q (running a) t = ret u
           \<and> represents False u (enqueue q (running a) (a\<lparr>wid := (wid a)(running a := w)\<rparr>))"
proof -
  note lt = representsD(3) [OF r]
  from lists.push_law [OF representsD(1) [OF r], of "running a" q] running_not_queued [OF r]
  obtain h where h: "ListPushBack (proc_lists s) q (running a) = ret h"
    "queues h ((queue a)(q := queue a q @ [running a]))" by blast
  let ?u = "t\<lparr>proc_lists := h\<rparr>" and ?f = "(queue a)(q := queue a q @ [running a])"
  have "represents False ?u (a\<lparr>queue := ?f, wid := (wid a)(running a := w)\<rparr>)"
  proof (rule represents_enter [OF r _ _ h(2), of "running a" q])
    show "slot (running a)" using i lt by (simp add: slot_def)
    show "in_use s (running a)" using representsD(6) [OF r lt] lt by (intro in_use_state) auto
    show "set (?f p) = set (queue a p) - {running a}" if "p \<noteq> q" for p
      using that running_not_queued [OF r] by auto
  qed (use t in auto)
  then show ?thesis using h(1) t(1) 
    by (auto simp: push_list_def enqueue_def upd_swap)
qed

lemma Schedule_ok:
  assumes r: "represents False s a"
  shows "\<exists>t. Schedule s = ret t \<and> represents True t (dispatch a)"
proof -
  note inv = representsD [OF r]
  have run: "represents True ((set_state n PROCESS_SLOT_RUNNING (s\<lparr>proc_lists := h\<rparr>))\<lparr>current_proc := n\<rparr>)
      (a\<lparr>running := n, queue := f\<rparr>)"
    if n: "n < MAXIMUM_NUMBER_OF_PROCESS" "in_use s n" and f: "queues h f" "\<And>q. set (f q) = set (queue a q) - {n}"
    for n h f
  proof -
    let ?t = "(set_state n PROCESS_SLOT_RUNNING (s\<lparr>proc_lists := h\<rparr>))\<lparr>current_proc := n\<rparr>"
    let ?a = "a\<lparr>running := n, queue := f\<rparr>"
    show "represents True ?t ?a"
    proof (rule representsI)
      show "slot j" if "j \<in> set (queue ?a q)" for j q using that f(2) inv(4) by auto
      show "j \<in> set (queue ?a q) \<longleftrightarrow> p_state (proc ?t j) = queue_state q" if "slot j" for j q
        using inv(5) [OF that] f(2) by simp
      show "p_state (proc ?t j) = PROCESS_SLOT_RUNNING \<longleftrightarrow> True \<and> j = running ?a"
        if "j < MAXIMUM_NUMBER_OF_PROCESS" for j
        using inv(6) [OF that] by simp
      show "p_wait_id (proc ?t j) = wid ?a j" if "j < MAXIMUM_NUMBER_OF_PROCESS" for j
        using inv(7) [OF that] by simp
      show "pids_ok ?t" by (rule pids_ok_cong [OF inv(8)]) (use n in \<open>auto simp: in_use_def\<close>)
    qed (use n f(1) in simp_all)
  qed
  show ?thesis
  proof (cases "queue a Ready_list")
    case Nil
    have not0: "0 \<notin> set (queue a q)" for q using inv(4) [of 0] by (auto simp: slot_def)
    have "represents True ((set_state 0 PROCESS_SLOT_RUNNING (s\<lparr>proc_lists := proc_lists s\<rparr>))\<lparr>current_proc := 0\<rparr>)
       (a\<lparr>running := 0, queue := queue a\<rparr>)"
      using inv(1,8) not0 by (intro run) (auto simp: pids_ok_def MAXIMUM_NUMBER_OF_PROCESS_def)
    then show ?thesis
      using Nil lists.isempty_iff [OF inv(1), of Ready_list]
      by (auto simp: Schedule_def dispatch_def IDLE_PROCESS_PID_def intro!: represents_switch)
  next
    case (Cons n ns)
    from lists.pop_Cons_law [OF inv(1) Cons] obtain h
      where h: "ListPopFront (proc_lists s) Ready_list = (Some n, h)" "queues h ((queue a)(Ready_list := ns))"
      by blast
    have n: "slot n" "p_state (proc s n) = queue_state Ready_list"
      using inv(4,5) [of n Ready_list] Cons by auto
    have others: "n \<notin> set (queue a q)" if "q \<noteq> Ready_list" for q
      using lists.repr_disjoint [OF inv(1) that] Cons by auto
    have "n \<notin> set ns" using lists.repr_distinct [OF inv(1), of Ready_list] Cons by simp
    then have "represents True ((set_state n PROCESS_SLOT_RUNNING (s\<lparr>proc_lists := h\<rparr>))\<lparr>current_proc := n\<rparr>)
       (a\<lparr>running := n, queue := (queue a)(Ready_list := ns)\<rparr>)"
      using n Cons others h(2) by (intro run) (auto simp: slot_def in_use_def)
    then show ?thesis
      using Cons h(1) lists.isempty_iff [OF inv(1), of Ready_list]
      by (auto simp: Schedule_def dispatch_def intro!: represents_switch)
  qed
qed

lemma Yield_ok:
  assumes r: "represents True s a"
  shows "\<exists>t. Yield s = ret t \<and> represents True t (sched_spec Do_yield a)"
proof (cases "queue a Ready_list = []")
  case True
  then show ?thesis using r lists.isempty_iff [OF representsD(1) [OF r]] by (auto simp: Yield_def)
next
  case False
  note cur = representsD(2) [OF r] and lt = representsD(3) [OF r]
  let ?i = "running a" let ?s1 = "set_state ?i PROCESS_SLOT_READY s"
  have ne: "\<not> ListIsEmpty (proc_lists s) Ready_list"
    using False lists.isempty_iff [OF representsD(1) [OF r]] by simp
  show ?thesis
  proof (cases "?i = 0")
    case True
    have pid: "p_pid (proc s 0) = 0" using representsD(8) [OF r] by (simp add: pids_ok_def)
    have "represents False ?s1 a"
    proof (rule representsI)
      show "j \<in> set (queue a q) \<longleftrightarrow> p_state (proc ?s1 j) = queue_state q" if "slot j" for j q
        using representsD(5) [OF r that] that True by (simp add: slot_def)
      show "p_state (proc ?s1 j) = PROCESS_SLOT_RUNNING \<longleftrightarrow> False \<and> j = running a"
        if "j < MAXIMUM_NUMBER_OF_PROCESS" for j
        using representsD(6) [OF r that] by simp
      show "p_wait_id (proc ?s1 j) = wid a j" if "j < MAXIMUM_NUMBER_OF_PROCESS" for j
        using representsD(7) [OF r that] by simp
      show "pids_ok ?s1"
        by (rule pids_ok_cong [OF representsD(8) [OF r]])
          (use representsD(6) [OF r lt] in \<open>auto simp: in_use_def\<close>)
    qed (use representsD(1-4) [OF r] in simp_all)
    from Schedule_ok [OF this] show ?thesis
      using False True pid ne cur by (simp add: Yield_def IDLE_PROCESS_PID_def)
  next
    case i: False
    have "in_use s ?i" using representsD(6) [OF r lt] lt by (simp add: in_use_def)
    then have pid: "p_pid (proc s ?i) \<noteq> 0" using representsD(8) [OF r] i lt by (auto simp: pids_ok_def)
    have "\<exists>u. push_list Ready_list ?i ?s1 = ret u
        \<and> represents False u (enqueue Ready_list ?i (a\<lparr>wid := (wid a)(?i := wid a ?i)\<rparr>))"
      using representsD(7) [OF r lt] by (intro park_ok [OF r i]) (auto simp: set_state_def)
    then obtain u where u: "push_list Ready_list ?i ?s1 = ret u" "represents False u (enqueue Ready_list ?i a)"
      by auto
    from Schedule_ok [OF u(2)] show ?thesis
      using False i pid ne cur u(1) by (simp add: Yield_def IDLE_PROCESS_PID_def Let_def)
  qed
qed

lemma Sleep_ok:
  assumes r: "represents True s a" and i: "running a \<noteq> 0"
  shows "\<exists>t. Sleep w s = ret t \<and> represents True t (sched_spec (Do_sleep w) a)"
proof -
  let ?i = "running a"
  let ?s1 = "set_proc ?i ((proc s ?i)\<lparr>p_state := PROCESS_SLOT_SLEEPING, p_wait_id := w\<rparr>) s"
  have "\<exists>u. push_list Wait_list ?i ?s1 = ret u \<and> represents False u (enqueue Wait_list ?i (a\<lparr>wid := (wid a)(?i := w)\<rparr>))"
    by (rule park_ok [OF r i]) auto
  then obtain u where u: "push_list Wait_list ?i ?s1 = ret u"
    "represents False u (enqueue Wait_list ?i (a\<lparr>wid := (wid a)(?i := w)\<rparr>))" by blast
  from Schedule_ok [OF u(2)] show ?thesis
    using u(1) representsD(2) [OF r] by (simp add: Sleep_def)
qed

lemma find_delete_first_filter:
  "find p xs = Some n \<Longrightarrow> filter p xs = n # filter p (delete_first p xs)
     \<and> filter (\<lambda>x. \<not> p x) (delete_first p xs) = filter (\<lambda>x. \<not> p x) xs"
  by (induction xs) (auto split: if_splits)

lemma delete_first_cong: "(\<And>x. x \<in> set xs \<Longrightarrow> p x = q x) \<Longrightarrow> delete_first p xs = delete_first q xs"
  by (induction xs) auto

text \<open>One turn of the loop in \<open>Wakeup\<close>.\<close>

lemma wake_one:
  assumes r: "represents b s a" and n: "find (\<lambda>i. wid a i = w) (queue a Wait_list) = Some n"
  defines "f \<equiv> (queue a)(Wait_list := delete_first (\<lambda>i. wid a i = w) (queue a Wait_list),
                Ready_list := queue a Ready_list @ [n])"
  shows "\<exists>s1 s2. WaitListRemoveReadyProcess Wait_list w s = ret (Some n, s1)
           \<and> push_list Ready_list n (set_state n PROCESS_SLOT_READY s1) = ret s2
           \<and> represents b s2 (a\<lparr>queue := f\<rparr>)"
proof -
  let ?p = "\<lambda>i. p_wait_id (proc s i) = w"
  have same: "?p i = (wid a i = w)" if "i \<in> set (queue a Wait_list)" for i
    using representsD(4) [OF r that] representsD(7) [OF r, of i] by (simp add: slot_def)
  have fp: "find ?p (queue a Wait_list) = Some n" using n same by (subst find_cong [OF refl]) auto
  have dp: "delete_first ?p (queue a Wait_list) = delete_first (\<lambda>i. wid a i = w) (queue a Wait_list)"
    using same by (rule delete_first_cong)
  from lists.move_law [OF representsD(1) [OF r] fp, of Ready_list] obtain h1 h2
    where h: "remove_first ?p (proc_lists s) Wait_list = Some (Some n, h1)"
      "ListPushBack h1 Ready_list n = ret h2" "queues h2 f"
    unfolding f_def dp by auto
  have nw: "n \<in> set (queue a Wait_list)" using n by (auto simp: find_Some_iff)
  let ?s2 = "set_state n PROCESS_SLOT_READY s\<lparr>proc_lists := h2\<rparr>"
  have n0: "slot n" "p_state (proc s n) = PROCESS_SLOT_SLEEPING"
    using representsD(4,5) [OF r] nw by fastforce+
  have run: "n \<noteq> running a \<or> \<not> b" using representsD(6) [OF r, of n] n0 by (auto simp: slot_def)
  have w: "set (delete_first (\<lambda>i. wid a i = w) (queue a Wait_list)) = set (queue a Wait_list) - {n}"
    using lists.repr_distinct [OF representsD(1) [OF r]] n by (rule set_delete_first)
  have "represents b ?s2 (a\<lparr>queue := f, wid := (wid a)(n := wid a n)\<rparr>)"
  proof (rule represents_enter [OF r n0(1) _ h(3), of Ready_list])
    show "in_use s n" using n0 by (auto simp: in_use_def slot_def)
    show "set (f q) = set (queue a q) - {n}" if "q \<noteq> Ready_list" for q
      using that w nw lists.repr_disjoint [OF representsD(1) [OF r], of Wait_list q] unfolding f_def by auto
    show "p_wait_id (proc ?s2 n) = wid a n" using representsD(7) [OF r, of n] n0 by (simp add: slot_def)
    show "proc ?s2 j = proc s j" if "j \<noteq> n" for j using that by (simp add: set_state_def)
  qed (use run in \<open>auto simp: f_def\<close>)
  then have "represents b ?s2 (a\<lparr>queue := f\<rparr>)" by simp
  moreover have "set_state n PROCESS_SLOT_READY (s\<lparr>proc_lists := h1\<rparr>)\<lparr>proc_lists := h2\<rparr> = ?s2"
    by (simp add: set_state_def set_proc_def)
  ultimately show ?thesis using h(1,2) by (auto simp: WaitListRemoveReadyProcess_def push_list_def)
qed

lemma Wakeup_ok:
  "represents b s a \<Longrightarrow> \<exists>t. Wakeup w s = ret t \<and> represents b t (rouse w a)"
proof (induction "length (queue a Wait_list)" arbitrary: s a rule: less_induct)
  case less
  note r = less.prems
  let ?p = "\<lambda>i. wid a i = w" and ?ws = "queue a Wait_list"
  show ?case
  proof (cases "find ?p ?ws")
    case None
    then have none: "\<forall>i\<in>set ?ws. \<not> ?p i" by (simp add: find_None_iff)
    then have "\<forall>i\<in>set ?ws. \<not> p_wait_id (proc s i) = w"
      using representsD(4,7) [OF r] by (auto simp: slot_def)
    from lists.remove_None_law [OF representsD(1) [OF r] this] obtain h
      where h: "remove_first (\<lambda>i. p_wait_id (proc s i) = w) (proc_lists s) Wait_list = Some (None, h)"
        "queues h (queue a)" by blast
    have "represents b (s\<lparr>proc_lists := h\<rparr>) a"
      using r h(2) unfolding represents_def pids_ok_def in_use_def by simp
    moreover have "filter (\<lambda>i. wid a i \<noteq> w) ?ws = ?ws" "filter ?p ?ws = []"
      using none by (auto simp: filter_id_conv)
    then have "rouse w a = a" by (simp add: rouse_def fun_upd_idem)
    ultimately show ?thesis
      using h(1) by (subst Wakeup.simps) (simp add: WaitListRemoveReadyProcess_def)
  next
    case (Some n)
    let ?f = "(queue a)(Wait_list := delete_first ?p ?ws, Ready_list := queue a Ready_list @ [n])"
    from wake_one [OF r Some] obtain s1 s2
      where s: "WaitListRemoveReadyProcess Wait_list w s = ret (Some n, s1)"
        "push_list Ready_list n (set_state n PROCESS_SLOT_READY s1) = ret s2"
        "represents b s2 (a\<lparr>queue := ?f\<rparr>)" by blast
    have "length (delete_first ?p ?ws) < length ?ws"
      using length_delete_first [of ?p ?ws] Some by simp
    then have "\<exists>t. Wakeup w s2 = ret t \<and> represents b t (rouse w (a\<lparr>queue := ?f\<rparr>))"
      using s(3) by (intro less.hyps) auto
    moreover have "rouse w (a\<lparr>queue := ?f\<rparr>) = rouse w a"
      using find_delete_first_filter [OF Some] by (simp add: rouse_def fun_upd_twist)
    ultimately show ?thesis using s(1,2) by (subst Wakeup.simps) auto
  qed
qed

lemma Exit_ok:
  assumes r: "represents True s a" and i: "running a \<noteq> 0"
  shows "\<exists>t. Exit s = ret t \<and> represents True t (sched_spec Do_exit a)"
proof -
  let ?i = "running a"
  have "\<exists>u. push_list Kill_list ?i (set_state ?i PROCESS_SLOT_KILLED s) = ret u
      \<and> represents False u (enqueue Kill_list ?i (a\<lparr>wid := (wid a)(?i := wid a ?i)\<rparr>))"
    using representsD(7) [OF r representsD(3) [OF r]] by (intro park_ok [OF r i]) (auto simp: set_state_def)
  then obtain u where u: "push_list Kill_list ?i (set_state ?i PROCESS_SLOT_KILLED s) = ret u"
    "represents False u (enqueue Kill_list ?i a)" by auto
  from Wakeup_ok [OF u(2), of INIT_PROCESS_WAIT_ID] obtain v
    where v: "Wakeup INIT_PROCESS_WAIT_ID u = ret v"
      "represents False v (rouse INIT_PROCESS_WAIT_ID (enqueue Kill_list ?i a))" by blast
  from Schedule_ok [OF v(2)] show ?thesis
    using u(1) v(1) representsD(2) [OF r] by (simp add: Exit_def)
qed

text \<open>The scheduler implements its specification.\<close>

interpretation scheduler: simulation "represents True" sched_step sched_spec_step sched_enabled
proof
  fix s :: "'z kernel_scheme" and a x
  assume r: "represents True s a" and en: "sched_enabled x a"
  have "\<exists>t. sched_code x s = ret t \<and> represents True t (sched_spec x a)"
    using Yield_ok [OF r] Sleep_ok [OF r] Wakeup_ok [OF r] Exit_ok [OF r] en by (cases x) auto
  then show "\<exists>t. sched_step x s = ret (fst (sched_spec_step x a), t)
      \<and> represents True t (snd (sched_spec_step x a))"
    by (auto simp: sched_step_def sched_spec_step_def representsD(2))
qed

section \<open>Consequences for the specification\<close>

definition live :: "sched \<Rightarrow> nat set" where
  "live a = ({running a} \<union> (\<Union>q. set (queue a q))) - {0}"

definition sched_wf :: "sched \<Rightarrow> bool" where
  "sched_wf a \<longleftrightarrow> (\<forall>q. running a \<notin> set (queue a q) \<and> 0 \<notin> set (queue a q) \<and> distinct (queue a q))
     \<and> (\<forall>q r. q \<noteq> r \<longrightarrow> set (queue a q) \<inter> set (queue a r) = {})"

lemma represents_wf:
  assumes r: "represents True s a" shows "sched_wf a"
proof -
  note q = representsD(1) [OF r]
  have "0 \<notin> set (queue a p)" for p using representsD(4) [OF r, of 0] by (auto simp: slot_def)
  then show ?thesis
    using running_not_queued [OF r] lists.repr_distinct [OF q] lists.repr_disjoint [OF q]
    by (auto simp: sched_wf_def)
qed

lemma UNIV_queue_name: "UNIV = {Ready_list, Wait_list, Kill_list}"
proof (rule UNIV_eq_I)
  show "q \<in> {Ready_list, Wait_list, Kill_list}" for q by (cases q) simp_all
qed

lemma UN_queues: "(\<Union>q. f q) = f Ready_list \<union> f Wait_list \<union> f Kill_list"
  by (simp add: UNIV_queue_name Un_assoc)

lemma live_dispatch: "live (dispatch a) = (\<Union>q. set (queue a q)) - {0}"
  by (auto simp: live_def dispatch_def UN_queues split: list.splits)

lemma live_enqueue: "(\<Union>q. set (queue (enqueue p i a) q)) = insert i (\<Union>q. set (queue a q))"
  by (cases p) (auto simp: enqueue_def UN_queues)

lemma live_rouse: "(\<Union>q. set (queue (rouse w a) q)) = (\<Union>q. set (queue a q))"
  by (auto simp: rouse_def UN_queues)

lemma live_spec: "live (sched_spec x a) = live a"
proof -
  have l: "live (dispatch (enqueue q (running a) (a\<lparr>wid := f\<rparr>))) = live a"
    "live (dispatch (enqueue q (running a) a)) = live a"
    "live (dispatch (rouse w (enqueue Kill_list (running a) a))) = live a" for f q w
    by (simp_all add: live_dispatch live_enqueue live_rouse live_def [of a])
  have "running a = 0 \<Longrightarrow> live (dispatch a) = live a" by (auto simp: live_dispatch live_def [of a])
  moreover have "live (rouse w a) = live a" for w
    using live_rouse [of w a] by (simp add: live_def rouse_def)
  ultimately show ?thesis using l by (cases x) auto
qed

text \<open>While only yields happen, the ready queue is served from the front.\<close>

lemma yields_in_order:
  "queue a Ready_list = us @ vs \<Longrightarrow>
   fst (spec_answers sched_spec_step (replicate (length us) Do_yield) a) = us"
proof (induction us arbitrary: a vs)
  case Nil
  then show ?case by simp
next
  case (Cons u us)
  let ?b = "sched_spec Do_yield a"
  have "running ?b = u" "\<exists>ws. queue ?b Ready_list = us @ ws"
    using Cons.prems by (auto simp: dispatch_def enqueue_def)
  moreover from this obtain ws where "queue ?b Ready_list = us @ ws" by blast
  from Cons.IH [OF this] have "fst (spec_answers sched_spec_step (replicate (length us) Do_yield) ?b) = us" .
  ultimately show ?case
    by (simp add: sched_spec_step_def [of Do_yield a] split_def Let_def del: sched_spec.simps)
qed

text \<open>A process that sits in the wait or the kill list does not run while nobody takes it out.\<close>

definition rouses :: "int \<Rightarrow> sched_op \<Rightarrow> bool" where
  "rouses w x \<longleftrightarrow> x = Do_wakeup w \<or> (x = Do_exit \<and> w = INIT_PROCESS_WAIT_ID)"

definition asleep :: "nat \<Rightarrow> int \<Rightarrow> sched \<Rightarrow> bool" where
  "asleep i w a \<longleftrightarrow> i \<in> set (queue a Wait_list) \<and> wid a i = w \<and> i \<noteq> running a
     \<and> i \<notin> set (queue a Ready_list) \<and> 0 < i"

lemma asleep_dispatch:
  assumes "i \<in> set (queue a Wait_list)" "wid a i = w" "i \<notin> set (queue a Ready_list)" "0 < i"
  shows "asleep i w (dispatch a)"
  using assms by (auto simp: asleep_def dispatch_def split: list.splits)

lemma asleep_spec:
  assumes "asleep i w a" "\<not> rouses w x" shows "asleep i w (sched_spec x a)"
proof (cases x)
  case Do_yield
  have "asleep i w (dispatch (enqueue Ready_list (running a) a))"
    using assms(1) by (intro asleep_dispatch) (auto simp: asleep_def enqueue_def)
  moreover have "asleep i w (dispatch a)"
    using assms(1) by (intro asleep_dispatch) (auto simp: asleep_def)
  ultimately show ?thesis using Do_yield assms(1) by simp
next
  case (Do_sleep v)
  have "asleep i w (dispatch (enqueue Wait_list (running a) (a\<lparr>wid := (wid a)(running a := v)\<rparr>)))"
    using assms by (intro asleep_dispatch) (auto simp: asleep_def enqueue_def)
  then show ?thesis using Do_sleep by simp
next
  case (Do_wakeup v)
  then show ?thesis using assms by (auto simp: asleep_def rouses_def rouse_def)
next
  case Do_exit
  have "asleep i w (dispatch (rouse INIT_PROCESS_WAIT_ID (enqueue Kill_list (running a) a)))"
    using assms Do_exit by (intro asleep_dispatch) (auto simp: asleep_def enqueue_def rouse_def rouses_def)
  then show ?thesis using Do_exit by simp
qed

lemma asleep_run:
  "asleep i w a \<Longrightarrow> \<forall>x\<in>set xs. \<not> rouses w x \<Longrightarrow> i \<notin> set (fst (spec_answers sched_spec_step xs a))"
proof (induction xs arbitrary: a)
  case Nil
  then show ?case by simp
next
  case (Cons x xs)
  have "asleep i w (sched_spec x a)" using Cons.prems by (intro asleep_spec) auto
  then show ?case using Cons.IH [of "sched_spec x a"] Cons.prems
    by (auto simp: sched_spec_step_def split_def Let_def asleep_def)
qed

definition dead :: "nat \<Rightarrow> sched \<Rightarrow> bool" where
  "dead i a \<longleftrightarrow> i \<in> set (queue a Kill_list) \<and> i \<noteq> running a
     \<and> i \<notin> set (queue a Ready_list) \<and> i \<notin> set (queue a Wait_list) \<and> 0 < i"

lemma dead_dispatch:
  assumes "i \<in> set (queue a Kill_list)" "i \<notin> set (queue a Ready_list)" "i \<notin> set (queue a Wait_list)" "0 < i"
  shows "dead i (dispatch a)"
  using assms by (auto simp: dead_def dispatch_def split: list.splits)

lemma dead_spec:
  assumes "dead i a" shows "dead i (sched_spec x a)"
proof -
  have d: "dead i (dispatch a)" "dead i (dispatch (enqueue q (running a) (a\<lparr>wid := f\<rparr>)))"
    "dead i (dispatch (enqueue q (running a) a))"
    "dead i (dispatch (rouse w (enqueue Kill_list (running a) a)))" for f q w
    using assms by (intro dead_dispatch; auto simp: dead_def enqueue_def rouse_def)+
  have "dead i (rouse w a)" for w using assms by (auto simp: dead_def rouse_def)
  then show ?thesis using d assms by (cases x) auto
qed

lemma dead_run: "dead i a \<Longrightarrow> i \<notin> set (fst (spec_answers sched_spec_step xs a))"
proof (induction xs arbitrary: a)
  case Nil
  then show ?case by simp
next
  case (Cons x xs)
  have "dead i (sched_spec x a)" using Cons.prems by (rule dead_spec)
  then show ?case using Cons.IH [of "sched_spec x a"]
    by (auto simp: sched_spec_step_def split_def Let_def dead_def)
qed

section \<open>Properties\<close>

text \<open>A concrete state: process 1 runs, 2 and 4 are ready, 3 waits for the keyboard.\<close>

definition three_processes :: kernel where
  "three_processes = (boot_kernel (free_kernel 0))\<lparr>
     s_process_manager := (\<lambda>_. zero_process)(
       0 := zero_process\<lparr>p_state := PROCESS_SLOT_READY\<rparr>,
       1 := zero_process\<lparr>p_pid := 1, p_state := PROCESS_SLOT_RUNNING\<rparr>,
       2 := zero_process\<lparr>p_pid := 2, p_state := PROCESS_SLOT_READY\<rparr>,
       3 := zero_process\<lparr>p_pid := 3, p_state := PROCESS_SLOT_SLEEPING, p_wait_id := -2\<rparr>,
       4 := zero_process\<lparr>p_pid := 4, p_state := PROCESS_SLOT_READY\<rparr>),
     s_pid_num := 5, current_proc := 1,
     proc_lists := \<lparr>lnext = [Head Ready_list \<mapsto> 2, Node 2 \<mapsto> 4, Head Wait_list \<mapsto> 3],
                    ltail = [Ready_list \<mapsto> Node 4, Wait_list \<mapsto> Node 3]\<rparr>\<rparr>"

definition three_spec :: sched where
  "three_spec = \<lparr>running = 1, queue = (\<lambda>_. [])(Ready_list := [2, 4], Wait_list := [3]), wid = (\<lambda>_. 0)(3 := -2)\<rparr>"

lemma three_processes: "represents True three_processes three_spec"
proof (rule representsI)
  let ?s = three_processes and ?a = three_spec
  have slots: "i = 1 \<or> i = 2 \<or> i = 3 \<or> i = 4 \<or> 5 \<le> i" if "slot i" for i
    using that by (auto simp: slot_def)
  show "queues (proc_lists ?s) (queue ?a)"
    by (auto simp: queues_def hseg_def three_processes_def three_spec_def)
  show "i \<in> set (queue ?a q) \<Longrightarrow> slot i" for i q
    by (cases q) (auto simp: three_spec_def slot_def MAXIMUM_NUMBER_OF_PROCESS_def)
  show "i \<in> set (queue ?a q) \<longleftrightarrow> p_state (proc ?s i) = queue_state q" if "slot i" for i q
    using slots [OF that] that
    by (cases q) (auto simp: three_spec_def three_processes_def zero_process_def slot_def)
  show "p_state (proc ?s i) = PROCESS_SLOT_RUNNING \<longleftrightarrow> True \<and> i = running ?a" for i
    by (auto simp: three_spec_def three_processes_def zero_process_def)
  show "p_wait_id (proc ?s i) = wid ?a i" for i
    by (auto simp: three_spec_def three_processes_def zero_process_def)
  have use: "in_use ?s i \<longleftrightarrow> i \<in> {0, 1, 2, 3, 4}" for i
    by (auto simp: in_use_def three_processes_def zero_process_def MAXIMUM_NUMBER_OF_PROCESS_def)
  have pid: "p_pid (proc ?s i) = int i" if "i \<in> {0, 1, 2, 3, 4}" for i
    using that by (auto simp: three_processes_def zero_process_def)
  have num: "s_pid_num ?s = 5" by (simp add: three_processes_def)
  show "pids_ok ?s" unfolding pids_ok_def use num by (auto simp: pid)
qed (simp_all add: three_spec_def three_processes_def MAXIMUM_NUMBER_OF_PROCESS_def)

text \<open>
  Property C13. The scheduler implements its specification: from any state that represents three
  disjoint queues of processes, every sequence of \<open>Yield\<close>, \<open>Sleep\<close>, \<open>Wakeup\<close> and \<open>Exit\<close> (the idle
  process neither sleeps nor exits) returns, dispatches the processes the specification dispatches
  (round robin, waking exactly the processes with the given wait identifier, in order), and ends in
  a state that represents the queues of the specification again.
\<close>

theorem scheduler_refines:
  assumes "represents True s a" "all_enabled sched_enabled sched_spec_step xs a"
  shows "\<exists>t. answers sched_step xs s = ret (fst (spec_answers sched_spec_step xs a), t)
             \<and> represents True t (snd (spec_answers sched_spec_step xs a))"
  by (rule scheduler.run_refines [OF assms])

theorem scheduler_refines_witness:
  "\<exists>t. answers sched_step [Do_yield, Do_wakeup (-2), Do_sleep 7] three_processes
        = ret ([2, 2, 4], t)"
proof -
  let ?xs = "[Do_yield, Do_wakeup (-2), Do_sleep 7]"
  have "all_enabled sched_enabled sched_spec_step ?xs three_spec"
    "fst (spec_answers sched_spec_step ?xs three_spec) = [2, 2, 4]"
    by (simp_all add: three_spec_def sched_spec_step_def dispatch_def enqueue_def rouse_def
        INIT_PROCESS_WAIT_ID_def)
  then show ?thesis using scheduler_refines [OF three_processes, of ?xs] by metis
qed

text \<open>
  No process is lost or duplicated: whatever sequence of scheduler operations runs, each
  process that was running, ready, waiting or killed before is so afterwards, no other is, and each
  of them is in one place only.
\<close>

theorem scheduler_keeps_processes:
  assumes "represents True s a" "all_enabled sched_enabled sched_spec_step xs a"
  shows "\<exists>ys t b. answers sched_step xs s = ret (ys, t) \<and> represents True t b
                  \<and> live b = live a \<and> sched_wf b"
proof -
  have "\<exists>t b. answers sched_step xs s = ret (fst (spec_answers sched_spec_step xs a), t)
      \<and> represents True t b \<and> live b = live a"
    by (rule scheduler.run_invariant [OF assms]) (simp_all add: sched_spec_step_def live_spec)
  then show ?thesis using represents_wf by blast
qed

theorem scheduler_keeps_processes_witness:
  "\<exists>ys t b. answers sched_step [Do_exit, Do_wakeup (-2), Do_yield] three_processes = ret (ys, t)
     \<and> represents True t b \<and> live b = {1, 2, 3, 4} \<and> sched_wf b"
proof -
  have "live three_spec = {1, 2, 3, 4}" by (auto simp: live_def three_spec_def UN_queues)
  with scheduler_keeps_processes [OF three_processes, of "[Do_exit, Do_wakeup (-2), Do_yield]"] show ?thesis
    by (simp add: three_spec_def)
qed

text \<open>
  Property C17. Every ready process gets the processor: the process at position \<open>k\<close> of the ready
  queue runs after \<open>k + 1\<close> timer yields, and the processes before it have run before, in order.
\<close>

theorem ready_process_runs:
  assumes "represents True s a" "k < length (queue a Ready_list)"
  shows "\<exists>t. answers sched_step (replicate (Suc k) Do_yield) s = ret (take (Suc k) (queue a Ready_list), t)
             \<and> current_proc t = queue a Ready_list ! k"
proof -
  let ?xs = "replicate (Suc k) Do_yield" and ?q = "queue a Ready_list"
  have en: "all_enabled sched_enabled sched_spec_step (replicate n Do_yield) b" for n b
    by (induction n arbitrary: b) auto
  have len: "length (take (Suc k) ?q) = Suc k" using assms(2) by simp
  from yields_in_order [of a "take (Suc k) ?q" "drop (Suc k) ?q"]
  have ord: "fst (spec_answers sched_spec_step ?xs a) = take (Suc k) ?q" by (simp only: len append_take_drop_id)
  have last: "running (snd (spec_answers sched_spec_step (replicate n Do_yield) b))
      = last (fst (spec_answers sched_spec_step (replicate n Do_yield) b))" if "0 < n" for n b
    using that
  proof (induction n arbitrary: b)
    case (Suc n)
    let ?b = "sched_spec Do_yield b"
    show ?case
    proof (cases "n = 0")
      case True
      then show ?thesis by (simp add: sched_spec_step_def Let_def)
    next
      case False
      have "length (fst (spec_answers sched_spec_step ys c)) = length ys" for ys c
        by (induction ys arbitrary: c) (auto simp: split_def Let_def)
      then have "fst (spec_answers sched_spec_step (replicate n Do_yield) ?b) \<noteq> []"
        using False by (metis length_0_conv length_replicate)
      then show ?thesis using Suc.IH [of ?b] False
        by (simp add: sched_spec_step_def [of Do_yield b] split_def Let_def del: sched_spec.simps)
    qed
  qed simp
  from scheduler.run_refines [OF assms(1) en, of "Suc k"] obtain t
    where t: "answers sched_step ?xs s = ret (take (Suc k) ?q, t)"
      "represents True t (snd (spec_answers sched_spec_step ?xs a))" unfolding ord by blast
  have "current_proc t = last (take (Suc k) ?q)"
    using representsD(2) [OF t(2)] last [of "Suc k" a] ord by simp
  also have "\<dots> = ?q ! k" using assms(2) by (simp add: take_Suc_conv_app_nth)
  finally show ?thesis using t(1) by blast
qed

theorem ready_process_runs_witness:
  "\<exists>t. answers sched_step [Do_yield, Do_yield] three_processes = ret ([2, 4], t) \<and> current_proc t = 4"
  using ready_process_runs [OF three_processes, of 1] by (simp add: three_spec_def numeral_2_eq_2)

text \<open>
  A process that sleeps does not run before it is woken: after \<open>Sleep w\<close> of the running
  process, no sequence of operations without \<open>Wakeup w\<close> (and, for the identifier of the init
  process, without \<open>Exit\<close>, which wakes it) dispatches that process.
\<close>

theorem sleeper_waits_for_wakeup:
  assumes "represents True s a" "running a \<noteq> 0"
    and "all_enabled sched_enabled sched_spec_step (Do_sleep w # xs) a" "\<forall>x\<in>set xs. \<not> rouses w x"
  shows "\<exists>ys t. answers sched_step (Do_sleep w # xs) s = ret (ys, t) \<and> current_proc s \<notin> set ys"
proof -
  let ?b = "sched_spec (Do_sleep w) a" and ?i = "running a"
  have "asleep ?i w ?b"
    using running_not_queued [OF assms(1)] assms(2)
    by (simp add: asleep_dispatch enqueue_def)
  then have "?i \<notin> set (fst (spec_answers sched_spec_step xs ?b))" "?i \<noteq> running ?b"
    using asleep_run [OF _ assms(4)] by (auto simp: asleep_def)
  then have "?i \<notin> set (fst (spec_answers sched_spec_step (Do_sleep w # xs) a))"
    by (simp add: sched_spec_step_def [of "Do_sleep w" a] split_def Let_def del: sched_spec.simps)
  then show ?thesis
    using scheduler.run_refines [OF assms(1,3)] representsD(2) [OF assms(1)] by metis
qed

theorem sleeper_waits_for_wakeup_witness:
  "\<exists>ys t. answers sched_step [Do_sleep 1, Do_yield, Do_wakeup (-2), Do_yield, Do_yield] three_processes = ret (ys, t)
          \<and> 1 \<notin> set ys"
  using sleeper_waits_for_wakeup [OF three_processes, of 1 "[Do_yield, Do_wakeup (-2), Do_yield, Do_yield]"]
  by (simp add: three_spec_def rouses_def three_processes_def)

text \<open>
  Property C18. A process that has exited never runs again, whatever the other processes do.
\<close>

theorem killed_process_never_runs:
  assumes "represents True s a" "running a \<noteq> 0"
    and "all_enabled sched_enabled sched_spec_step (Do_exit # xs) a"
  shows "\<exists>ys t. answers sched_step (Do_exit # xs) s = ret (ys, t) \<and> current_proc s \<notin> set ys"
proof -
  let ?b = "sched_spec Do_exit a" and ?i = "running a"
  have "dead ?i ?b"
    using running_not_queued [OF assms(1)] assms(2)
    by (simp add: dead_dispatch enqueue_def rouse_def)
  then have "?i \<notin> set (fst (spec_answers sched_spec_step xs ?b))" "?i \<noteq> running ?b"
    using dead_run by (auto simp: dead_def)
  then have "?i \<notin> set (fst (spec_answers sched_spec_step (Do_exit # xs) a))"
    by (simp add: sched_spec_step_def [of Do_exit a] split_def Let_def del: sched_spec.simps)
  then show ?thesis
    using scheduler.run_refines [OF assms(1,3)] representsD(2) [OF assms(1)] by metis
qed

theorem killed_process_never_runs_witness:
  "\<exists>ys t. answers sched_step [Do_exit, Do_yield, Do_wakeup 1, Do_yield, Do_yield] three_processes = ret (ys, t)
          \<and> 1 \<notin> set ys"
  using killed_process_never_runs [OF three_processes, of "[Do_yield, Do_wakeup 1, Do_yield, Do_yield]"]
  by (simp add: three_spec_def three_processes_def)

end
