(* ===== verification/File_Table.thy ===== *)
theory File_Table
  imports Kernel_State
begin

text \<open>
  The open files: the file descriptors of a process (\<open>file\<close> in \<open>Process\<close>) point to entries of the
  file descriptor table, which point to file control blocks; both kinds of entries count their
  users. \<open>Close\<close> and \<open>GetFileSize\<close> of \<open>kernel/file.c\<close> and the two loops over the files of a process
  in \<open>Fork\<close> and \<open>Wait\<close> of \<open>kernel/process.c\<close> are here, because they share the invariant of the
  counts.
\<close>

section \<open>Operations\<close>

definition USER_START_FD :: nat where
  "USER_START_FD = 3"

text \<open>The read of \<open>proc->file[fd]\<close>; the code does not check \<open>fd\<close>.\<close>

definition file_at :: "nat \<Rightarrow> int \<Rightarrow> 'z kernel_scheme \<Rightarrow> nat option kres" where
  "file_at p fd s =
     andthen (demand (0 \<le> fd \<and> fd < int PROCESS_MAXIMUM_FILE_DESCRIPTOR) Out_of_bounds)
       (\<lambda>_. ret (p_file (proc s p) (nat fd)))"

definition set_file :: "nat \<Rightarrow> nat \<Rightarrow> nat option \<Rightarrow> 'z kernel_scheme \<Rightarrow> 'z kernel_scheme" where
  "set_file p i v s = set_proc p ((proc s p)\<lparr>p_file := (p_file (proc s p))(i := v)\<rparr>) s"

definition add_opens :: "int \<Rightarrow> nat \<Rightarrow> 'z kernel_scheme \<Rightarrow> 'z kernel_scheme kres" where
  "add_opens n d s =
     andthen (deref (d_fcb (s_fd_table s d))) (\<lambda>f.
       ret (s\<lparr>s_fcb_table := (s_fcb_table s)(f := (s_fcb_table s f)\<lparr>f_open_count := f_open_count (s_fcb_table s f) + n\<rparr>),
              s_fd_table := (s_fd_table s)(d := (s_fd_table s d)\<lparr>d_open_count := d_open_count (s_fd_table s d) + n\<rparr>)\<rparr>))"

definition unlink_unused :: "nat \<Rightarrow> 'z kernel_scheme \<Rightarrow> 'z kernel_scheme" where
  "unlink_unused d s =
     (if d_open_count (s_fd_table s d) = 0
      then s\<lparr>s_fd_table := (s_fd_table s)(d := (s_fd_table s d)\<lparr>d_fcb := None\<rparr>)\<rparr> else s)"

text \<open>The bodies of the loops in \<open>Fork\<close> and in \<open>Wait\<close>.\<close>

definition share_file :: "nat \<Rightarrow> nat \<Rightarrow> 'z kernel_scheme \<Rightarrow> 'z kernel_scheme kres" where
  "share_file p i s = (case p_file (proc s p) i of None \<Rightarrow> ret s | Some d \<Rightarrow> add_opens 1 d s)"

definition drop_file :: "nat \<Rightarrow> nat \<Rightarrow> 'z kernel_scheme \<Rightarrow> 'z kernel_scheme kres" where
  "drop_file p i s =
     (case p_file (proc s p) i of
        None \<Rightarrow> ret s
      | Some d \<Rightarrow> andthen (add_opens (-1) d s) (\<lambda>s1. ret (unlink_unused d s1)))"

definition user_fds :: "nat list" where
  "user_fds = [USER_START_FD..<PROCESS_MAXIMUM_FILE_DESCRIPTOR]"

definition Close :: "nat \<Rightarrow> int \<Rightarrow> 'z kernel_scheme \<Rightarrow> 'z kernel_scheme kres" where
  "Close p fd s =
     andthen (file_at p fd s) (\<lambda>f.
       case f of
         None \<Rightarrow> ret s
       | Some d \<Rightarrow>
           andthen (deref (d_fcb (s_fd_table s d))) (\<lambda>b.
           andthen (ASSERT (f_open_count (s_fcb_table s b) > 0) ''file.c'' 225) (\<lambda>_.
           andthen (add_opens (-1) d s) (\<lambda>s1.
           ret (set_file p (nat fd) None (unlink_unused d s1))))))"

definition EBADF :: int where
  "EBADF = 9"

definition GetFileSize :: "nat \<Rightarrow> int \<Rightarrow> 'z kernel_scheme \<Rightarrow> int kres" where
  "GetFileSize p fd s =
     andthen (file_at p fd s) (\<lambda>f.
       case f of
         None \<Rightarrow> ret (- EBADF)
       | Some d \<Rightarrow> andthen (deref (d_fcb (s_fd_table s d))) (\<lambda>b. ret (sint (f_file_size (s_fcb_table s b)))))"

section \<open>The invariant of the counts\<close>

text \<open>
  A user of an entry is a pair of a slot and a file descriptor. \<open>X\<close> holds the pairs that are
  counted: all of them between two operations, not yet or no longer those of one process in the
  middle of \<open>Fork\<close> and of \<open>Wait\<close>.
\<close>

definition users :: "(nat \<times> nat) set" where
  "users = {..<MAXIMUM_NUMBER_OF_PROCESS} \<times> {..<PROCESS_MAXIMUM_FILE_DESCRIPTOR}"

definition file_of :: "'z kernel_scheme \<Rightarrow> nat \<times> nat \<Rightarrow> nat option" where
  "file_of s u = (if u \<in> users then p_file (proc s (fst u)) (snd u) else None)"

definition fcb_of :: "'z kernel_scheme \<Rightarrow> nat \<times> nat \<Rightarrow> nat option" where
  "fcb_of s u = Option.bind (file_of s u) (\<lambda>d. d_fcb (s_fd_table s d))"

definition fd_users :: "(nat \<times> nat) set \<Rightarrow> 'z kernel_scheme \<Rightarrow> nat \<Rightarrow> (nat \<times> nat) set" where
  "fd_users X s d = {u \<in> X. file_of s u = Some d}"

definition fcb_users :: "(nat \<times> nat) set \<Rightarrow> 'z kernel_scheme \<Rightarrow> nat \<Rightarrow> (nat \<times> nat) set" where
  "fcb_users X s f = {u \<in> X. fcb_of s u = Some f}"

definition counts :: "(nat \<times> nat) set \<Rightarrow> 'z kernel_scheme \<Rightarrow> bool" where
  "counts X s \<longleftrightarrow>
     (\<forall>d. d_open_count (s_fd_table s d) = int (card (fd_users X s d))
        \<and> (d_fcb (s_fd_table s d) = None \<longleftrightarrow> fd_users X s d = {}))
     \<and> (\<forall>f. f_open_count (s_fcb_table s f) = int (card (fcb_users X s f)))"

lemma finite_users [simp]: "finite (fd_users X s d)" "finite (fcb_users X s f)"
proof -
  have f: "finite users" by (simp add: users_def)
  have "fd_users X s d \<subseteq> users" "fcb_users X s f \<subseteq> users"
    by (auto simp: fd_users_def fcb_users_def fcb_of_def file_of_def split: if_splits)
  then show "finite (fd_users X s d)" "finite (fcb_users X s f)" using f finite_subset by blast+
qed

lemma fcb_of_file: "file_of s u = Some d \<Longrightarrow> fcb_of s u = d_fcb (s_fd_table s d)"
  by (simp add: fcb_of_def)

lemma fcb_of_cong:
  "file_of t v = file_of s v \<Longrightarrow>
   (\<And>d. file_of s v = Some d \<Longrightarrow> d_fcb (s_fd_table t d) = d_fcb (s_fd_table s d)) \<Longrightarrow> fcb_of t v = fcb_of s v"
  by (cases "file_of s v") (simp_all add: fcb_of_def)

lemma counts_cong:
  assumes "counts X s" "s_fd_table t = s_fd_table s" "s_fcb_table t = s_fcb_table s"
    and "\<And>u. u \<in> X \<Longrightarrow> file_of t u = file_of s u" "\<And>u. u \<notin> X \<Longrightarrow> u \<in> Y \<Longrightarrow> file_of t u = None" "X \<subseteq> Y"
  shows "counts Y t"
proof -
  have "file_of t u = Some d \<longleftrightarrow> u \<in> X \<and> file_of s u = Some d" if "u \<in> Y" for u d
    using assms(4) [of u] assms(5) [OF _ that] by (cases "u \<in> X") auto
  then have "fd_users Y t d = fd_users X s d" "fcb_users Y t f = fcb_users X s f" for d f
    using assms(2,6) by (auto simp: fd_users_def fcb_users_def fcb_of_def bind_eq_Some_conv)
  then show ?thesis using assms(1-3) by (simp add: counts_def)
qed

text \<open>One more user, and one less.\<close>

lemma add_user:
  assumes c: "counts X s" and u: "u \<notin> X" "file_of s u = Some d" "fd_users X s d \<noteq> {}"
  shows "\<exists>t. add_opens 1 d s = ret t \<and> counts (insert u X) t
    \<and> (\<exists>b d. t = s\<lparr>s_fcb_table := b, s_fd_table := d\<rparr>)"
proof -
  obtain f where f: "d_fcb (s_fd_table s d) = Some f" using c u(3) by (auto simp: counts_def)
  let ?t = "s\<lparr>s_fcb_table := (s_fcb_table s)(f := (s_fcb_table s f)\<lparr>f_open_count := f_open_count (s_fcb_table s f) + 1\<rparr>),
              s_fd_table := (s_fd_table s)(d := (s_fd_table s d)\<lparr>d_open_count := d_open_count (s_fd_table s d) + 1\<rparr>)\<rparr>"
  have fo: "file_of ?t v = file_of s v" for v by (simp add: file_of_def)
  have fcb: "fcb_of ?t v = fcb_of s v" for v by (rule fcb_of_cong [OF fo]) simp
  note same = fo fcb
  have "fd_users (insert u X) ?t d' = (if d' = d then insert u (fd_users X s d) else fd_users X s d')" for d'
    using u by (auto simp: fd_users_def same)
  moreover have "fcb_users (insert u X) ?t f' = (if f' = f then insert u (fcb_users X s f) else fcb_users X s f')" for f'
    using u f by (auto simp: fcb_users_def same fcb_of_file)
  moreover have "u \<notin> fd_users X s d" "u \<notin> fcb_users X s f" using u by (auto simp: fd_users_def fcb_users_def)
  ultimately have "counts (insert u X) ?t" using c f by (auto simp: counts_def)
  then show ?thesis using f by (auto simp: add_opens_def)
qed

lemma drop_user:
  assumes c: "counts X s" and u: "u \<in> X" "file_of s u = Some d"
  shows "\<exists>t f. d_fcb (s_fd_table s d) = Some f \<and> 0 < f_open_count (s_fcb_table s f)
    \<and> add_opens (-1) d s = ret t \<and> counts (X - {u}) (unlink_unused d t)
    \<and> (\<exists>b d'. unlink_unused d t = s\<lparr>s_fcb_table := b, s_fd_table := d'\<rparr>)"
proof -
  have du: "u \<in> fd_users X s d" using u by (simp add: fd_users_def)
  then obtain f where f: "d_fcb (s_fd_table s d) = Some f" using c by (auto simp: counts_def)
  have fu: "u \<in> fcb_users X s f" using u f by (simp add: fcb_users_def fcb_of_file)
  let ?n = "card (fd_users X s d)"
  have n: "0 < ?n" "card (fd_users X s d - {u}) = ?n - 1" "0 < card (fcb_users X s f)"
    "card (fcb_users X s f - {u}) = card (fcb_users X s f) - 1"
    using du fu by (auto simp: card_gt_0_iff)
  have single: "fd_users X s d - {u} = {} \<longleftrightarrow> ?n = 1"
    using n(1,2) card_eq_0_iff [of "fd_users X s d - {u}"] by auto
  let ?t = "s\<lparr>s_fcb_table := (s_fcb_table s)(f := (s_fcb_table s f)\<lparr>f_open_count := f_open_count (s_fcb_table s f) - 1\<rparr>),
              s_fd_table := (s_fd_table s)(d := (s_fd_table s d)\<lparr>d_open_count := d_open_count (s_fd_table s d) - 1\<rparr>)\<rparr>"
  let ?u = "unlink_unused d ?t"
  have cnt: "d_open_count (s_fd_table s d) = int ?n" using c by (simp add: counts_def)
  have fd: "s_fd_table ?u = (s_fd_table s)(d := (s_fd_table s d)\<lparr>d_open_count := int ?n - 1, d_fcb := if ?n = 1 then None else Some f\<rparr>)"
    using cnt f by (cases "s_fd_table s d") (auto simp: unlink_unused_def)
  have fc: "s_fcb_table ?u = s_fcb_table ?t" "file_of ?u v = file_of s v" for v
    by (auto simp: unlink_unused_def file_of_def)
  have fcb: "fcb_of ?u v = fcb_of s v" if "v \<in> X - {u}" for v
  proof (cases "file_of s v = Some d \<and> ?n = 1")
    case True
    then have "v \<in> fd_users X s d - {u}" using that by (simp add: fd_users_def)
    then show ?thesis using single True by auto
  next
    case False
    then have "d_fcb (s_fd_table ?u e) = d_fcb (s_fd_table s e)" if "file_of s v = Some e" for e
      using that f unfolding fd by auto
    then show ?thesis by (rule fcb_of_cong [OF fc(2)])
  qed
  have users: "fd_users (X - {u}) ?u d' = (if d' = d then fd_users X s d - {u} else fd_users X s d')" for d'
    using u by (auto simp: fd_users_def fc(2))
  have "fcb_users (X - {u}) ?u f' = fcb_users X s f' - {u}" for f'
    unfolding fcb_users_def by (intro set_eqI) (use fcb in \<open>force simp only: Diff_iff mem_Collect_eq\<close>)
  moreover have "f' \<noteq> f \<Longrightarrow> u \<notin> fcb_users X s f'" for f'
    using u f by (auto simp: fcb_users_def fcb_of_file)
  ultimately have fusers:
    "fcb_users (X - {u}) ?u f' = (if f' = f then fcb_users X s f - {u} else fcb_users X s f')" for f'
    by simp
  have "counts (X - {u}) ?u"
    unfolding counts_def users fusers fd fc(1) using c n single
    by (auto simp: counts_def of_nat_diff Suc_le_eq)
  moreover have "\<exists>b d'. ?u = s\<lparr>s_fcb_table := b, s_fd_table := d'\<rparr>" by (auto simp: unlink_unused_def)
  moreover have "0 < f_open_count (s_fcb_table s f)" using c n(3) by (simp add: counts_def)
  ultimately show ?thesis using f by (auto simp: add_opens_def)
qed

lemma counts_insert_None:
  assumes "file_of s u = None" shows "counts (insert u X) s = counts X s" "counts (X - {u}) s = counts X s"
proof -
  have "fd_users (insert u X) s d = fd_users X s d" "fd_users (X - {u}) s d = fd_users X s d" for d
    using assms by (auto simp: fd_users_def)
  moreover have "fcb_users (insert u X) s f = fcb_users X s f" "fcb_users (X - {u}) s f = fcb_users X s f" for f
    using assms by (auto simp: fcb_users_def fcb_of_def)
  ultimately show "counts (insert u X) s = counts X s" "counts (X - {u}) s = counts X s"
    by (simp_all add: counts_def)
qed

text \<open>What the operations on files change.\<close>

definition tables_only :: "'z kernel_scheme \<Rightarrow> 'z kernel_scheme \<Rightarrow> bool" where
  "tables_only s t \<longleftrightarrow> (\<exists>b d. t = s\<lparr>s_fcb_table := b, s_fd_table := d\<rparr>)"

lemma tables_only_refl [simp]: "tables_only s s"
proof -
  have "s = s\<lparr>s_fcb_table := s_fcb_table s, s_fd_table := s_fd_table s\<rparr>" by simp
  then show ?thesis unfolding tables_only_def by blast
qed

lemma tables_only_trans:
  assumes "tables_only s t" "tables_only t u" shows "tables_only s u"
proof -
  obtain b d where "t = s\<lparr>s_fcb_table := b, s_fd_table := d\<rparr>" using assms(1) by (auto simp: tables_only_def)
  moreover obtain b' d' where "u = t\<lparr>s_fcb_table := b', s_fd_table := d'\<rparr>" using assms(2) by (auto simp: tables_only_def)
  ultimately have "u = s\<lparr>s_fcb_table := b', s_fd_table := d'\<rparr>" by simp
  then show ?thesis unfolding tables_only_def by blast
qed

lemma tables_onlyD:
  assumes "tables_only s t"
  shows "proc t i = proc s i" "file_of t u = file_of s u" "proc_lists t = proc_lists s"
    "current_proc t = current_proc s" "s_pid_num t = s_pid_num s" "mem t = mem s"
  using assms by (auto simp: tables_only_def file_of_def)

lemma user_in_users: "p < MAXIMUM_NUMBER_OF_PROCESS \<Longrightarrow> i < PROCESS_MAXIMUM_FILE_DESCRIPTOR \<Longrightarrow> file_of s (p, i) = p_file (proc s p) i"
  by (simp add: file_of_def users_def)

lemma share_files_ok:
  assumes "counts X s" "p < MAXIMUM_NUMBER_OF_PROCESS" "distinct js"
    "\<forall>i\<in>set js. i < PROCESS_MAXIMUM_FILE_DESCRIPTOR \<and> (p, i) \<notin> X
       \<and> (\<forall>d. p_file (proc s p) i = Some d \<longrightarrow> fd_users X s d \<noteq> {})"
  shows "\<exists>t. for_each (share_file p) js s = ret t \<and> counts (X \<union> Pair p ` set js) t \<and> tables_only s t"
  using assms
proof (induction js arbitrary: s X)
  case Nil
  then show ?case by simp
next
  case (Cons i js)
  have f: "file_of s (p, i) = p_file (proc s p) i" using Cons.prems by (intro user_in_users) auto
  have "\<exists>t. share_file p i s = ret t \<and> counts (insert (p, i) X) t \<and> tables_only s t"
  proof (cases "p_file (proc s p) i")
    case None
    then show ?thesis using Cons.prems(1) f by (simp add: share_file_def counts_insert_None)
  next
    case (Some d)
    then show ?thesis
      using add_user [OF Cons.prems(1), of "(p, i)" d] Cons.prems(4) f
      by (auto simp: share_file_def tables_only_def)
  qed
  then obtain t where t: "share_file p i s = ret t" "counts (insert (p, i) X) t" "tables_only s t" by blast
  have "fd_users X s d \<subseteq> fd_users (insert (p, i) X) t d" for d
    by (auto simp: fd_users_def tables_onlyD [OF t(3)])
  then have "\<exists>u. for_each (share_file p) js t = ret u \<and> counts (insert (p, i) X \<union> Pair p ` set js) u \<and> tables_only t u"
    using Cons.prems t(2) by (intro Cons.IH) (auto simp: tables_onlyD [OF t(3)], blast)
  then show ?case using t(1,3) by (auto intro: tables_only_trans)
qed

lemma drop_files_ok:
  assumes "counts X s" "p < MAXIMUM_NUMBER_OF_PROCESS" "distinct js"
    "\<forall>i\<in>set js. i < PROCESS_MAXIMUM_FILE_DESCRIPTOR \<and> (p, i) \<in> X"
  shows "\<exists>t. for_each (drop_file p) js s = ret t \<and> counts (X - Pair p ` set js) t \<and> tables_only s t"
  using assms
proof (induction js arbitrary: s X)
  case Nil
  then show ?case by simp
next
  case (Cons i js)
  have f: "file_of s (p, i) = p_file (proc s p) i" using Cons.prems by (intro user_in_users) auto
  have "\<exists>t. drop_file p i s = ret t \<and> counts (X - {(p, i)}) t \<and> tables_only s t"
  proof (cases "p_file (proc s p) i")
    case None
    then show ?thesis using Cons.prems(1) f by (simp add: drop_file_def counts_insert_None)
  next
    case (Some d)
    then show ?thesis
      using drop_user [OF Cons.prems(1), of "(p, i)" d] Cons.prems(4) f
      by (auto simp: drop_file_def tables_only_def)
  qed
  then obtain t where t: "drop_file p i s = ret t" "counts (X - {(p, i)}) t" "tables_only s t" by blast
  have "\<exists>u. for_each (drop_file p) js t = ret u \<and> counts (X - {(p, i)} - Pair p ` set js) u \<and> tables_only t u"
    using Cons.prems t(2) by (intro Cons.IH) auto
  moreover have "X - {(p, i)} - Pair p ` set js = X - Pair p ` set (i # js)" by auto
  ultimately show ?case using t(1,3) by (auto intro: tables_only_trans)
qed

section \<open>Close\<close>

lemma Close_ok:
  assumes "counts UNIV s" "p < MAXIMUM_NUMBER_OF_PROCESS" "0 \<le> fd" "fd < int PROCESS_MAXIMUM_FILE_DESCRIPTOR"
  shows "\<exists>t. Close p fd s = ret t \<and> counts UNIV t \<and> file_of t (p, nat fd) = None
             \<and> (\<forall>u. u \<noteq> (p, nat fd) \<longrightarrow> file_of t u = file_of s u)"
proof -
  let ?u = "(p, nat fd)"
  have fa: "file_at p fd s = ret (file_of s ?u)"
    using assms(2-4) by (simp add: file_at_def file_of_def users_def nat_less_iff)
  show ?thesis
  proof (cases "file_of s ?u")
    case None
    then show ?thesis using assms(1) fa by (simp add: Close_def)
  next
    case (Some d)
    from drop_user [OF assms(1) _ Some] obtain t f where
      t: "d_fcb (s_fd_table s d) = Some f" "0 < f_open_count (s_fcb_table s f)" "add_opens (-1) d s = ret t"
        "counts (UNIV - {?u}) (unlink_unused d t)"
        "\<exists>b d'. unlink_unused d t = s\<lparr>s_fcb_table := b, s_fd_table := d'\<rparr>" by auto
    let ?v = "unlink_unused d t" and ?w = "set_file p (nat fd) None (unlink_unused d t)"
    have only: "tables_only s ?v" using t(5) by (simp add: tables_only_def)
    have w: "file_of ?w u = (if u = ?u then None else file_of ?v u)" for u
      by (cases u) (auto simp: file_of_def set_file_def)
    have "counts UNIV ?w"
      by (rule counts_cong [OF t(4)]) (use w in \<open>auto simp: set_file_def set_proc_def\<close>)
    then show ?thesis
      using fa Some t(1-3) w tables_onlyD(2) [OF only] by (auto simp: Close_def)
  qed
qed


text \<open>
  \<open>Close\<close> of any file descriptor of a process returns, its assertion on the open count
  never fails, the descriptor is free afterwards, all others still refer to what they referred to,
  and the counts of the two tables are again the numbers of their users; an entry without a user is
  unlinked and can be taken by the next \<open>Open\<close>.
\<close>

theorem Close_keeps_counts:
  assumes "counts UNIV s" "p < MAXIMUM_NUMBER_OF_PROCESS" "0 \<le> fd" "fd < int PROCESS_MAXIMUM_FILE_DESCRIPTOR"
  shows "\<exists>t. Close p fd s = ret t \<and> counts UNIV t \<and> file_of t (p, nat fd) = None
             \<and> (\<forall>u. u \<noteq> (p, nat fd) \<longrightarrow> file_of t u = file_of s u)"
  by (rule Close_ok [OF assms])

text \<open>A concrete state: file descriptor 3 of process 1 and 4 of process 2 share an entry.\<close>

definition shared_file :: kernel where
  "shared_file = (boot_kernel (free_kernel 0))\<lparr>
     s_process_manager := (\<lambda>_. zero_process)(
       1 := zero_process\<lparr>p_state := PROCESS_SLOT_RUNNING, p_file := [3 \<mapsto> 7]\<rparr>,
       2 := zero_process\<lparr>p_state := PROCESS_SLOT_KILLED, p_file := [4 \<mapsto> 7]\<rparr>),
     s_fd_table := (\<lambda>_. zero_FD)(7 := zero_FD\<lparr>d_fcb := Some 20, d_open_count := 2\<rparr>),
     s_fcb_table := (\<lambda>_. zero_FCB)(20 := zero_FCB\<lparr>f_open_count := 2\<rparr>)\<rparr>"

lemma shared_file_of: "file_of shared_file u = (if u = (1, 3) \<or> u = (2, 4) then Some 7 else None)"
  by (cases u) (auto simp: file_of_def shared_file_def users_def MAXIMUM_NUMBER_OF_PROCESS_def
      PROCESS_MAXIMUM_FILE_DESCRIPTOR_def zero_process_def)

lemma shared_file: "counts UNIV shared_file"
proof -
  have fcb: "fcb_of shared_file u = (if u = (1, 3) \<or> u = (2, 4) then Some 20 else None)" for u
    by (simp add: fcb_of_def shared_file_of) (simp add: shared_file_def)
  have "fd_users UNIV shared_file d = (if d = 7 then {(1, 3), (2, 4)} else {})" for d
    by (auto simp: fd_users_def shared_file_of split: if_splits)
  moreover have "fcb_users UNIV shared_file f = (if f = 20 then {(1, 3), (2, 4)} else {})" for f
    by (auto simp: fcb_users_def fcb split: if_splits)
  moreover have "s_fd_table shared_file = (\<lambda>_. zero_FD)(7 := zero_FD\<lparr>d_fcb := Some 20, d_open_count := 2\<rparr>)"
    "s_fcb_table shared_file = (\<lambda>_. zero_FCB)(20 := zero_FCB\<lparr>f_open_count := 2\<rparr>)"
    by (simp_all add: shared_file_def)
  ultimately show ?thesis by (simp add: counts_def zero_FD_def zero_FCB_def)
qed

theorem Close_keeps_counts_witness:
  "\<exists>t. Close 1 3 shared_file = ret t \<and> counts UNIV t \<and> file_of t (1, 3) = None \<and> file_of t (2, 4) = Some 7"
proof -
  have p: "1 < MAXIMUM_NUMBER_OF_PROCESS" "(3 :: int) < int PROCESS_MAXIMUM_FILE_DESCRIPTOR"
    by (simp_all add: MAXIMUM_NUMBER_OF_PROCESS_def PROCESS_MAXIMUM_FILE_DESCRIPTOR_def)
  from Close_keeps_counts [OF shared_file p(1) _ p(2)] obtain t where
    "Close 1 3 shared_file = ret t" "counts UNIV t" "file_of t (1, 3) = None"
    "\<forall>u. u \<noteq> (1, 3) \<longrightarrow> file_of t u = file_of shared_file u" by auto
  then show ?thesis by (intro exI [of _ t]) (simp add: shared_file_of)
qed

end
