(* ===== verification/Process.thy ===== *)
theory Process
  imports Scheduler File_Table
begin

text \<open>
  The life of a process, \<open>kernel/process.c\<close>: \<open>CreateNewProcess\<close>, \<open>Fork\<close>, \<open>Wait\<close>, the idle and the
  init process, and the return to user mode at \<open>TrapReturn\<close> of \<open>kernel/trap.asm\<close>.

  \<open>Wait\<close> may sleep. \<open>Sleep\<close> ends in the state in which another process goes on, so one call of the
  model is one stretch of the loop: it ends when the function returns (\<open>True\<close>) or when the process
  has gone to sleep inside the loop (\<open>False\<close>); a process that wakes up there starts the loop again.
\<close>

section \<open>Trap frames\<close>

text \<open>The offsets of the fields of \<open>TrapFrame\<close>, and its size.\<close>

definition tf_rdi :: u64 where "tf_rdi = 72"
definition tf_rsi :: u64 where "tf_rsi = 80"
definition tf_rax :: u64 where "tf_rax = 112"
definition tf_trapno :: u64 where "tf_trapno = 120"
definition tf_error_code :: u64 where "tf_error_code = 128"
definition tf_rip :: u64 where "tf_rip = 136"
definition tf_cs :: u64 where "tf_cs = 144"
definition tf_rflags :: u64 where "tf_rflags = 152"
definition tf_rsp :: u64 where "tf_rsp = 160"
definition tf_ss :: u64 where "tf_ss = 168"
definition sizeof_TrapFrame :: u64 where "sizeof_TrapFrame = 176"

definition put64 :: "u64 \<Rightarrow> u64 \<Rightarrow> 'z kernel_scheme \<Rightarrow> 'z kernel_scheme" where
  "put64 a v s = s\<lparr>mem := store64 (mem s) a v\<rparr>"

text \<open>The frame of a process that starts: code and stack segments of ring 3, interrupts enabled.\<close>

definition set_start_frame :: "u64 \<Rightarrow> 'z kernel_scheme \<Rightarrow> 'z kernel_scheme" where
  "set_start_frame tf s =
     put64 (tf + tf_rflags) 0x202
       (put64 (tf + tf_rsp) USER_STACK_START
         (put64 (tf + tf_ss) (0x18 OR 3)
           (put64 (tf + tf_rip) USER_VIRTUAL_ADDRESS_BASE
             (put64 (tf + tf_cs) (0x10 OR 3) s))))"

text \<open>\<open>TrapReturn\<close>: pop the general registers, skip the trap number and the error code, \<open>iretq\<close>.\<close>

definition trap_regs :: "reg list" where
  "trap_regs = [R15, R14, R13, R12, R11, R10, R9, R8, RBP, RDI, RSI, RDX, RCX, RBX, RAX]"

definition iretq :: "'z kernel_scheme \<Rightarrow> 'z kernel_scheme" where
  "iretq s =
     (let m = mem s; sp = regs s RSP
      in s\<lparr>regs := (regs s)(RIP := load64 m sp, CS := load64 m (sp + 8), RFLAGS := load64 m (sp + 16),
             RSP := load64 m (sp + 24), SS := load64 m (sp + 32))\<rparr>)"

definition TrapReturn :: "'z kernel_scheme \<Rightarrow> 'z kernel_scheme" where
  "TrapReturn s =
     (let s1 = fold pop trap_regs s
      in iretq (s1\<lparr>regs := (regs s1)(RSP := regs s1 RSP + 0x10)\<rparr>))"

section \<open>Creating a process\<close>

definition FindFreeProcessSlot :: "'z kernel_scheme \<Rightarrow> nat option" where
  "FindFreeProcessSlot s =
     find (\<lambda>i. p_state (proc s i) = PROCESS_SLOT_UNUSED) [0..<MAXIMUM_NUMBER_OF_PROCESS]"

text \<open>\<open>memset(proc, 0, sizeof(Process))\<close>, which clears the field \<open>next\<close> also.\<close>

definition clear_process :: "nat \<Rightarrow> 'z kernel_scheme \<Rightarrow> 'z kernel_scheme" where
  "clear_process i s =
     (set_proc i zero_process s)\<lparr>proc_lists := (proc_lists s)\<lparr>lnext := (lnext (proc_lists s))(Node i := None)\<rparr>\<rparr>"

text \<open>The block that gives a slot its identity and an empty context on its new kernel stack.\<close>

definition start_process :: "nat \<Rightarrow> u64 \<Rightarrow> 'z kernel_scheme \<Rightarrow> 'z kernel_scheme" where
  "start_process i stack s2 =
     (let s3 = set_proc i ((proc s2 i)\<lparr>p_state := PROCESS_SLOT_INITIALIZED, p_pid := s_pid_num s2, p_wait_id := 0\<rparr>)
                 (s2\<lparr>s_pid_num := s_pid_num s2 + 1\<rparr>);
          s4 = s3\<lparr>mem := memset (mem s3) stack 0 STACK_SIZE\<rparr>;
          stack_top = stack + STACK_SIZE;
          context = stack_top - sizeof_TrapFrame - 7 * 8;
          s5 = put64 (context + 6 * 8) (l_TrapReturn s4) (set_proc i ((proc s4 i)\<lparr>p_context := context\<rparr>) s4);
          tf = stack_top - sizeof_TrapFrame
      in set_start_frame tf (set_proc i ((proc s5 i)\<lparr>p_tf := tf\<rparr>) s5))"

definition CreateNewProcess :: "'z kernel_scheme \<Rightarrow> (nat option \<times> 'z kernel_scheme) kres" where
  "CreateNewProcess s =
     (case FindFreeProcessSlot s of
        None \<Rightarrow> ret (None, s)
      | Some i \<Rightarrow>
          andthen (kalloc s) (\<lambda>(stack, s1).
          let s2 = set_proc i ((proc s1 i)\<lparr>p_stack := stack\<rparr>) s1
          in if stack = 0 then ret (None, s2)
             else
               andthen (SetupKVM (start_process i stack s2)) (\<lambda>(page_map, s3).
               let s4 = set_proc i ((proc s3 i)\<lparr>p_page_map := page_map\<rparr>) s3
               in if page_map = 0 then
                    andthen (kfree stack s4) (\<lambda>s5. ret (None, clear_process i s5))
                  else ret (Some i, s4))))"

section \<open>The idle and the init process\<close>

definition USER_INIT_PROCESS_ADDRESS_BASE :: u64 where
  "USER_INIT_PROCESS_ADDRESS_BASE = 0x20000"

definition SIZE_OF_INIT_PROCCESS :: u32 where
  "SIZE_OF_INIT_PROCCESS = 512 * 20"

definition InitIDLEProcess :: "'z kernel_scheme \<Rightarrow> 'z kernel_scheme kres" where
  "InitIDLEProcess s =
     andthen (deref (FindFreeProcessSlot s)) (\<lambda>i.
       ret ((set_proc i ((proc s i)\<lparr>p_pid := int IDLE_PROCESS_PID, p_page_map := PHY_TO_VIR (cr3 s),
              p_state := PROCESS_SLOT_RUNNING\<rparr>) s)\<lparr>current_proc := i\<rparr>))"

definition InitShellProcess :: "'z kernel_scheme \<Rightarrow> 'z kernel_scheme kres" where
  "InitShellProcess s =
     andthen (CreateNewProcess s) (\<lambda>(p, s1).
     andthen (deref p) (\<lambda>i.
     andthen (SetupUVM (p_page_map (proc s1 i)) (PHY_TO_VIR USER_INIT_PROCESS_ADDRESS_BASE)
                SIZE_OF_INIT_PROCCESS s1) (\<lambda>(b, s2).
     andthen (ASSERT b ''process.c'' 420) (\<lambda>_.
     push_list Ready_list i (set_state i PROCESS_SLOT_READY s2)))))"

definition InitProcess :: "'z kernel_scheme \<Rightarrow> 'z kernel_scheme kres" where
  "InitProcess s = andthen (InitIDLEProcess s) InitShellProcess"

section \<open>Fork and Wait\<close>

definition ENOMEM :: int where
  "ENOMEM = 12"

definition copy_files :: "nat \<Rightarrow> nat \<Rightarrow> 'z kernel_scheme \<Rightarrow> 'z kernel_scheme" where
  "copy_files i cur s = set_proc i ((proc s i)\<lparr>p_file := \<lambda>j.
     if j < PROCESS_MAXIMUM_FILE_DESCRIPTOR then p_file (proc s cur) j else p_file (proc s i) j\<rparr>) s"

definition Fork :: "'z kernel_scheme \<Rightarrow> (int \<times> 'z kernel_scheme) kres" where
  "Fork s =
     (let cur = current_proc s in
      andthen (CreateNewProcess s) (\<lambda>(p, s1).
      case p of
        None \<Rightarrow> andthen (print (kline ''DEBUG: Failed to create new process.'') [] s1) (\<lambda>s2. ret (- ENOMEM, s2))
      | Some i \<Rightarrow>
          andthen (CopyUVM (p_page_map (proc s1 i)) (p_page_map (proc s1 cur)) (ucast PAGE_SIZE) s1) (\<lambda>(b, s2).
          if \<not> b then
            andthen (print (kline ''DEBUG: Failed to copy virtual memory.'') [] s2) (\<lambda>s3. ret (- ENOMEM, s3))
          else
            andthen (for_each (share_file i) user_fds (copy_files i cur s2)) (\<lambda>s3.
            let s4 = s3\<lparr>mem := memcpy (mem s3) (p_tf (proc s3 i)) (p_tf (proc s3 cur)) sizeof_TrapFrame\<rparr>;
                s5 = put64 (p_tf (proc s4 i) + tf_rax) 0 s4
            in andthen (push_list Ready_list i (set_state i PROCESS_SLOT_READY s5)) (\<lambda>s6.
               ret (p_pid (proc s6 i), s6))))))"

text \<open>The clean-up of a killed process.\<close>

definition reap :: "nat \<Rightarrow> 'z kernel_scheme \<Rightarrow> 'z kernel_scheme kres" where
  "reap i s =
     andthen (ASSERT (p_state (proc s i) = PROCESS_SLOT_KILLED) ''process.c'' 164) (\<lambda>_.
     andthen (kfree (p_stack (proc s i)) s) (\<lambda>s1.
     andthen (FreeVM (p_page_map (proc s1 i)) s1) (\<lambda>s2.
     andthen (for_each (drop_file i) user_fds s2) (\<lambda>s3.
     ret (clear_process i s3)))))"

partial_function (option) Wait :: "int \<Rightarrow> 'z kernel_scheme \<Rightarrow> (bool \<times> 'z kernel_scheme) kres" where
  "Wait pid s =
     (if \<not> ListIsEmpty (proc_lists s) Kill_list then
        andthen (RemoveProcessWithPID Kill_list pid s) (\<lambda>(item, s1).
          case item of
            None \<Rightarrow> Wait pid s1
          | Some i \<Rightarrow> andthen (reap i s1) (\<lambda>s2. ret (True, s2)))
      else andthen (Sleep INIT_PROCESS_WAIT_ID s) (\<lambda>s1. ret (False, s1)))"

section \<open>The kernel stack of a new process\<close>

lemma FindFreeProcessSlot_Some:
  "FindFreeProcessSlot s = Some i \<Longrightarrow> i < MAXIMUM_NUMBER_OF_PROCESS \<and> p_state (proc s i) = PROCESS_SLOT_UNUSED"
  by (auto simp: FindFreeProcessSlot_def find_Some_iff)

lemma FindFreeProcessSlot_None:
  "FindFreeProcessSlot s = None \<longleftrightarrow> (\<forall>i<MAXIMUM_NUMBER_OF_PROCESS. p_state (proc s i) \<noteq> PROCESS_SLOT_UNUSED)"
  by (auto simp: FindFreeProcessSlot_def find_None_iff)

lemma load_store_offset:
  assumes "x mod 8 = 0" "y mod 8 = 0" "x < 2 ^ 60" "y < 2 ^ 60"
  shows "load64 (store64 m (k + of_nat x) v) (k + of_nat y) = (if x = y then v else load64 m (k + of_nat y))"
proof (cases "x = y")
  case False
  then have "y + 8 \<le> x \<or> x + 8 \<le> y" using assms(1,2) by presburger
  then have "span (k + of_nat y) 8 \<inter> span (k + of_nat x) 8 = {}"
    using assms(3,4) by (intro span_offsets_disjoint) auto
  then show ?thesis using False by (simp add: load64_store64_other)
qed simp

text \<open>The word at offset \<open>x\<close> of the stack of a process that has not run yet.\<close>

definition start_word :: "u64 \<Rightarrow> nat \<Rightarrow> u64" where
  "start_word l x =
     (if x = 0x1FFF48 then l else if x = 0x1FFFD8 then USER_VIRTUAL_ADDRESS_BASE
      else if x = 0x1FFFE0 then 0x13 else if x = 0x1FFFE8 then 0x202
      else if x = 0x1FFFF0 then USER_STACK_START else if x = 0x1FFFF8 then 0x1B else 0)"

definition start_stack :: "u64 \<Rightarrow> u64 \<Rightarrow> memory \<Rightarrow> memory" where
  "start_stack l k m =
     (let st = \<lambda>x v m. store64 m (k + of_nat x) v
      in st 0x1FFFE8 0x202 (st 0x1FFFF0 USER_STACK_START (st 0x1FFFF8 0x1B
           (st 0x1FFFD8 USER_VIRTUAL_ADDRESS_BASE (st 0x1FFFE0 0x13 (st 0x1FFF48 l
             (memset m k 0 STACK_SIZE)))))))"

lemma start_stack_load:
  assumes "x mod 8 = 0" "x < 2 ^ 21"
  shows "load64 (start_stack l k m) (k + of_nat x) = start_word l x"
proof -
  have "span (k + of_nat x) 8 \<subseteq> span k (2 ^ 21)"
    using assms by (intro span_subset) (simp_all, presburger)
  then have "load64 (memset m k 0 STACK_SIZE) (k + of_nat x) = 0"
    by (simp add: STACK_SIZE_def memset_page load64_fill_zero)
  then show ?thesis
    using assms unfolding start_stack_def start_word_def Let_def
    by (simp add: load_store_offset del: of_nat_numeral)
qed

lemma start_stack_other:
  assumes "x \<notin> page_span k" shows "start_stack l k m x = m x"
proof -
  have "x \<notin> span (k + of_nat i) 8" if "i + 8 \<le> 2 ^ 21" for i
    using assms span_subset [of i 8 "2 ^ 21" k] that unfolding page_span_def by auto
  moreover have "memset m k 0 STACK_SIZE x = m x"
    using assms by (simp add: STACK_SIZE_def memset_page fill_apply page_span_def)
  ultimately show ?thesis unfolding start_stack_def Let_def
    by (simp add: store64_other del: of_nat_numeral)
qed

definition new_process :: "'z kernel_scheme \<Rightarrow> nat \<Rightarrow> u64 \<Rightarrow> process" where
  "new_process s i k = (proc s i)\<lparr>p_stack := k, p_state := PROCESS_SLOT_INITIALIZED, p_pid := s_pid_num s,
     p_wait_id := 0, p_context := k + 0x1FFF18, p_tf := k + 0x1FFF50\<rparr>"

lemma start_process_eq:
  "start_process i k (set_proc i ((proc s i)\<lparr>p_stack := k\<rparr>) s) =
     s\<lparr>s_pid_num := s_pid_num s + 1, s_process_manager := (s_process_manager s)(i := new_process s i k),
       mem := start_stack (l_TrapReturn s) k (mem s)\<rparr>"
proof -
  have a: "k + STACK_SIZE - sizeof_TrapFrame - 7 * 8 = k + 0x1FFF18"
    "k + 0x1FFF18 + 6 * 8 = k + of_nat 0x1FFF48"
    "k + STACK_SIZE - sizeof_TrapFrame = k + 0x1FFF50" "k + 0x1FFF50 + tf_rflags = k + of_nat 0x1FFFE8"
    "k + 0x1FFF50 + tf_rsp = k + of_nat 0x1FFFF0" "k + 0x1FFF50 + tf_ss = k + of_nat 0x1FFFF8"
    "k + 0x1FFF50 + tf_rip = k + of_nat 0x1FFFD8" "k + 0x1FFF50 + tf_cs = k + of_nat 0x1FFFE0"
    "(0x18 OR 3 :: u64) = 0x1B" "(0x10 OR 3 :: u64) = 0x13"
    by (simp_all add: STACK_SIZE_def PAGE_SIZE_def sizeof_TrapFrame_def tf_rflags_def tf_rsp_def tf_ss_def
        tf_rip_def tf_cs_def algebra_simps)
  show ?thesis
    unfolding start_process_def set_start_frame_def put64_def Let_def a
    by (simp add: set_proc_def new_process_def start_stack_def Let_def add.commute [of _ k])
qed

section \<open>CreateNewProcess\<close>

lemma space_other_fields:
  assumes "space s r T ps" "mem t = mem s" "s_free_memory_page_head t = s_free_memory_page_head s"
    "l_kernel_end t = l_kernel_end s"
  shows "space t r T ps"
  using assms by (simp add: space_def free_pages_def)

lemma touches_shape:
  fixes s :: "'z kernel_scheme"
  assumes "touches U s t"
  obtains m h where "t = s\<lparr>mem := m, s_free_memory_page_head := h\<rparr>"
  using assms by (auto simp: touches_def)

text \<open>
  What the creation of a process leaves: the page map \<open>r\<close> of the kernel, the start stack on the page
  \<open>k\<close>, the slot filled in, and nothing else changed outside the four pages it took.
\<close>

definition created :: "'z kernel_scheme \<Rightarrow> nat \<Rightarrow> u64 \<Rightarrow> u64 \<Rightarrow> u64 \<Rightarrow> u64 \<Rightarrow> 'z kernel_scheme \<Rightarrow> bool" where
  "created s i k r a b t \<longleftrightarrow>
     (\<exists>m h. t = s\<lparr>mem := m, s_free_memory_page_head := h, s_pid_num := s_pid_num s + 1,
              s_process_manager := (s_process_manager s)(i := (new_process s i k)\<lparr>p_page_map := r\<rparr>)\<rparr>)
     \<and> (\<forall>x. x mod 8 = 0 \<longrightarrow> x < 2 ^ 21 \<longrightarrow> load64 (mem t) (k + of_nat x) = start_word (l_TrapReturn s) x)
     \<and> (\<forall>x. x \<notin> page_span k \<longrightarrow> x \<notin> page_span r \<longrightarrow> x \<notin> page_span a \<longrightarrow> x \<notin> page_span b \<longrightarrow> mem t x = mem s x)"

lemma createdD:
  assumes "created s i k r a b t"
  shows "proc t j = (if j = i then (new_process s i k)\<lparr>p_page_map := r\<rparr> else proc s j)"
    "s_pid_num t = s_pid_num s + 1" "proc_lists t = proc_lists s" "current_proc t = current_proc s"
    "l_TrapReturn t = l_TrapReturn s" "l_kernel_end t = l_kernel_end s" "s_fd_table t = s_fd_table s"
    "s_fcb_table t = s_fcb_table s" "x mod 8 = 0 \<Longrightarrow> x < 2 ^ 21 \<Longrightarrow> load64 (mem t) (k + of_nat x) = start_word (l_TrapReturn s) x"
    "\<forall>p\<in>{k, r, a, b}. y \<notin> page_span p \<Longrightarrow> mem t y = mem s y"
  using assms unfolding created_def by auto

lemma new_process_simps [simp]:
  "p_state (new_process s i k) = PROCESS_SLOT_INITIALIZED" "p_pid (new_process s i k) = s_pid_num s"
  "p_wait_id (new_process s i k) = 0" "p_stack (new_process s i k) = k"
  "p_context (new_process s i k) = k + 0x1FFF18" "p_tf (new_process s i k) = k + 0x1FFF50"
  "p_file (new_process s i k) = p_file (proc s i)"
  by (simp_all add: new_process_def)

lemma free_pagesD:
  assumes "free_pages s (p # ps)"
  shows "p \<notin> set ps" "valid_page (l_kernel_end s) p" "\<forall>q\<in>set ps. valid_page (l_kernel_end s) q" "p \<noteq> 0"
  using assms by (auto simp: free_pages_def)

lemma valid_page_aligned: "valid_page ke p \<Longrightarrow> aligned 21 p"
  by (simp add: valid_page_def)

text \<open>The state before \<open>SetupKVM\<close>: the stack page is taken and filled.\<close>

lemma start_process_free:
  fixes s :: "'z kernel_scheme" and i :: nat
  assumes "free_pages s (k # ps)" "memory_ok s"
  defines "s' \<equiv> start_process i k (set_proc i ((proc s i)\<lparr>p_stack := k\<rparr>)
      (s\<lparr>s_free_memory_page_head := load64 (mem s) k\<rparr>))"
  shows "free_pages s' ps" "memory_ok s'" "kernel_pages s' = kernel_pages s"
    and "s' = s\<lparr>s_free_memory_page_head := load64 (mem s) k, s_pid_num := s_pid_num s + 1,
       s_process_manager := (s_process_manager s)(i := new_process s i k),
       mem := start_stack (l_TrapReturn s) k (mem s)\<rparr>"
proof -
  let ?s1 = "s\<lparr>s_free_memory_page_head := load64 (mem s) k\<rparr>"
  have np: "new_process ?s1 i k = new_process s i k" by (simp add: new_process_def)
  show eq: "s' = s\<lparr>s_free_memory_page_head := load64 (mem s) k, s_pid_num := s_pid_num s + 1,
       s_process_manager := (s_process_manager s)(i := new_process s i k),
       mem := start_stack (l_TrapReturn s) k (mem s)\<rparr>"
    using start_process_eq [of i k ?s1] unfolding s'_def np by simp
  show "free_pages s' ps"
  proof (rule free_pages_frame [OF kalloc_Cons(2) [OF assms(1)]])
    fix x p
    assume p: "p \<in> set ps" "x \<in> page_span p"
    then have "page_span p \<inter> page_span k = {}"
      using free_pagesD [OF assms(1)] by (intro valid_pages_disjoint) auto
    then have "x \<notin> page_span k" using p(2) by blast
    then show "mem s' x = mem ?s1 x" unfolding eq by (simp add: start_stack_other)
  qed (simp_all add: eq)
  show "memory_ok s'" "kernel_pages s' = kernel_pages s"
    using assms(2) by (simp_all add: eq memory_ok_def kernel_pages_def)
qed

lemma CreateNewProcess_ok:
  fixes s :: "'z kernel_scheme"
  assumes f: "free_pages s (k # r # a # b # ps)" and ok: "memory_ok s" and i: "FindFreeProcessSlot s = Some i"
  shows "\<exists>t. CreateNewProcess s = ret (Some i, t) \<and> created s i k r a b t
     \<and> space t r (kernel_tree (kernel_pages s) a b) ps"
proof -
  let ?s2 = "set_proc i ((proc s i)\<lparr>p_stack := k\<rparr>) (s\<lparr>s_free_memory_page_head := load64 (mem s) k\<rparr>)"
  let ?s3 = "start_process i k ?s2"
  note s3 = start_process_free [OF f ok, of i]
  from SetupKVM_ok [OF s3(1,2)] obtain s4 where s4: "SetupKVM ?s3 = ret (r, s4)"
    "space s4 r (kernel_tree (kernel_pages s) a b) ps" "touches {r, a, b} ?s3 s4"
    unfolding s3(3) by blast
  let ?t = "set_proc i ((proc s4 i)\<lparr>p_page_map := r\<rparr>) s4"
  have nz: "k \<noteq> 0" "r \<noteq> 0" using f by (auto simp: free_pages_def)
  have "CreateNewProcess s = ret (Some i, ?t)"
    using kalloc_Cons(1) [OF f] s4(1) i nz by (simp add: CreateNewProcess_def)
  moreover have "space ?t r (kernel_tree (kernel_pages s) a b) ps"
    by (rule space_other_fields [OF s4(2)]) (simp_all add: set_proc_def)
  moreover have "created s i k r a b ?t"
  proof -
    obtain m h where mh: "s4 = ?s3\<lparr>mem := m, s_free_memory_page_head := h\<rparr>"
      using s4(3) by (rule touches_shape)
    have shape: "?t = s\<lparr>mem := m, s_free_memory_page_head := h, s_pid_num := s_pid_num s + 1,
        s_process_manager := (s_process_manager s)(i := (new_process s i k)\<lparr>p_page_map := r\<rparr>)\<rparr>"
      unfolding mh s3(4) by (simp add: set_proc_def)
    have v: "valid_page (l_kernel_end s) p" if "p \<in> {k, r, a, b}" for p
      using that free_pagesD(2,3) [OF f] by auto
    have away: "mem s4 x = mem ?s3 x" if "\<forall>p\<in>{r, a, b}. x \<notin> page_span p" for x
      using touches_mem [OF s4(3)] that by blast
    have dis: "page_span k \<inter> page_span p = {}" if "p \<in> {r, a, b}" for p
      using that v free_pagesD(1) [OF f] by (intro valid_pages_disjoint) auto
    have "load64 (mem s4) (k + of_nat x) = start_word (l_TrapReturn s) x" if "x mod 8 = 0" "x < 2 ^ 21" for x
    proof -
      have "span (k + of_nat x) 8 \<subseteq> page_span k"
        using that unfolding page_span_def by (intro span_subset) (simp_all, presburger)
      then have "load64 (mem s4) (k + of_nat x) = load64 (mem ?s3) (k + of_nat x)"
        using dis by (intro load64_cong away) blast
      then show ?thesis using start_stack_load [OF that] by (simp add: s3(4))
    qed
    moreover have "mem s4 x = mem s x" if "\<forall>p\<in>{k, r, a, b}. x \<notin> page_span p" for x
      using away [of x] that by (simp add: s3(4) start_stack_other)
    ultimately show ?thesis unfolding created_def using shape by (auto simp: mh)
  qed
  ultimately show ?thesis by blast
qed

lemma CreateNewProcess_no_slot: "FindFreeProcessSlot s = None \<Longrightarrow> CreateNewProcess s = ret (None, s)"
  by (simp add: CreateNewProcess_def)

end
