(* ===== verification/Process_Life.thy ===== *)
theory Process_Life
  imports Process
begin

text \<open>
  What happens to a process from its creation to its end: a new process starts in user mode at the
  base address, a child goes on where its parent called \<open>Fork\<close>, \<open>Wait\<close> gives back everything a
  killed process had, and the counts of the open files stay right all along.
\<close>

section \<open>Return to user mode\<close>

lemma TrapReturn_general:
  assumes "k < 15"
  shows "regs (TrapReturn s) (trap_regs ! k) = load64 (mem s) (regs s RSP + 8 * of_nat k)"
proof -
  let ?s1 = "fold pop trap_regs s"
  have "trap_regs ! k \<in> set trap_regs" using assms by (intro nth_mem) (simp add: trap_regs_def)
  then have "trap_regs ! k \<notin> {RIP, CS, RFLAGS, RSP, SS}" by (auto simp: trap_regs_def)
  then have "regs (TrapReturn s) (trap_regs ! k) = regs ?s1 (trap_regs ! k)"
    by (simp add: TrapReturn_def iretq_def Let_def)
  also have "\<dots> = load64 (mem s) (regs s RSP + 8 * of_nat k)"
    by (rule fold_pop_nth) (use assms in \<open>simp_all add: trap_regs_def\<close>)
  finally show ?thesis .
qed

lemma TrapReturn_special:
  shows "regs (TrapReturn s) RIP = load64 (mem s) (regs s RSP + tf_rip)"
    "regs (TrapReturn s) CS = load64 (mem s) (regs s RSP + tf_cs)"
    "regs (TrapReturn s) RFLAGS = load64 (mem s) (regs s RSP + tf_rflags)"
    "regs (TrapReturn s) RSP = load64 (mem s) (regs s RSP + tf_rsp)"
    "regs (TrapReturn s) SS = load64 (mem s) (regs s RSP + tf_ss)"
proof -
  have sp: "regs (fold pop trap_regs s) RSP = regs s RSP + 120"
    by (subst fold_pop_RSP) (simp_all add: trap_regs_def)
  show "regs (TrapReturn s) RIP = load64 (mem s) (regs s RSP + tf_rip)"
    "regs (TrapReturn s) CS = load64 (mem s) (regs s RSP + tf_cs)"
    "regs (TrapReturn s) RFLAGS = load64 (mem s) (regs s RSP + tf_rflags)"
    "regs (TrapReturn s) RSP = load64 (mem s) (regs s RSP + tf_rsp)"
    "regs (TrapReturn s) SS = load64 (mem s) (regs s RSP + tf_ss)"
    unfolding TrapReturn_def iretq_def Let_def
    by (simp_all add: fold_pop_simps sp tf_rip_def tf_cs_def tf_rflags_def tf_rsp_def tf_ss_def add.assoc)
qed

text \<open>The registers a trap frame at \<open>tf\<close> holds.\<close>

definition frame_offset :: "reg \<Rightarrow> nat" where
  "frame_offset r = (case r of
     R15 \<Rightarrow> 0 | R14 \<Rightarrow> 8 | R13 \<Rightarrow> 16 | R12 \<Rightarrow> 24 | R11 \<Rightarrow> 32 | R10 \<Rightarrow> 40 | R9 \<Rightarrow> 48 | R8 \<Rightarrow> 56
   | RBP \<Rightarrow> 64 | RDI \<Rightarrow> 72 | RSI \<Rightarrow> 80 | RDX \<Rightarrow> 88 | RCX \<Rightarrow> 96 | RBX \<Rightarrow> 104 | RAX \<Rightarrow> 112
   | RIP \<Rightarrow> 136 | CS \<Rightarrow> 144 | RFLAGS \<Rightarrow> 152 | RSP \<Rightarrow> 160 | SS \<Rightarrow> 168)"

definition frame_reg :: "memory \<Rightarrow> u64 \<Rightarrow> reg \<Rightarrow> u64" where
  "frame_reg m tf r = load64 m (tf + of_nat (frame_offset r))"

lemma TrapReturn_frame: "regs (TrapReturn s) r = frame_reg (mem s) (regs s RSP) r"
proof -
  have "r = trap_regs ! k \<Longrightarrow> k < 15 \<Longrightarrow> regs (TrapReturn s) r = load64 (mem s) (regs s RSP + 8 * of_nat k)" for k
    using TrapReturn_general by blast
  from this [of 0] this [of 1] this [of 2] this [of 3] this [of 4] this [of 5] this [of 6] this [of 7]
    this [of 8] this [of 9] this [of 10] this [of 11] this [of 12] this [of 13] this [of 14]
  show ?thesis
    by (cases r) (simp_all add: trap_regs_def frame_reg_def frame_offset_def TrapReturn_special tf_rip_def tf_cs_def
        tf_rflags_def tf_rsp_def tf_ss_def del: of_nat_numeral add: of_nat_numeral)
qed

text \<open>Switching to a process whose saved context ends with the address of \<open>TrapReturn\<close>.\<close>

lemma switch_to_frame:
  assumes "\<And>x. x \<in> page_span k \<Longrightarrow> mem t x = m x" "span (regs t RSP - 56) 56 \<inter> page_span k = {}"
    and ctx: "p_context (proc t i) = k + 0x1FFF18"
  shows "regs (SwitchProcess c i t) RIP = load64 m (k + 0x1FFF48)"
    "regs (TrapReturn (SwitchProcess c i t)) r = frame_reg m (k + 0x1FFF50) r"
proof -
  let ?u = "SwitchProcess c i t"
  have same: "mem ?u x = m x" if "x \<in> page_span k" for x
  proof -
    have "x \<notin> span (regs t RSP - 56) 56" using assms(2) that by blast
    then have "mem (fold push (saved_values t) t) x = mem t x"
      by (intro fold_push_mem) (simp_all add: saved_values_def)
    then show ?thesis using assms(1) [OF that] by (simp only: SwitchProcess_effect(1))
  qed
  have word: "load64 (mem ?u) (k + of_nat x) = load64 m (k + of_nat x)" if "x + 8 \<le> 2 ^ 21" for x
    using span_subset [of x 8 "2 ^ 21" k] that
    by (intro load64_cong same) (auto simp: page_span_def)
  have rsp: "regs ?u RSP = k + 0x1FFF50" by (simp add: SwitchProcess_effect ctx)
  have "regs ?u RIP = load64 (mem ?u) (p_context (proc t i) + 8 * of_nat 6)"
    using SwitchProcess_effect(3) [of 6 c i t] by (simp add: numeral_eq_Suc)
  then show "regs ?u RIP = load64 m (k + 0x1FFF48)" using word [of "0x1FFF48"] ctx by (simp add: add.commute)
  have "frame_reg (mem ?u) (k + 0x1FFF50) r = frame_reg m (k + 0x1FFF50) r"
    using word [of "0x1FFF50"] word [of "0x1FFF58"] word [of "0x1FFF60"] word [of "0x1FFF68"]
      word [of "0x1FFF70"] word [of "0x1FFF78"] word [of "0x1FFF80"] word [of "0x1FFF88"]
      word [of "0x1FFF90"] word [of "0x1FFF98"] word [of "0x1FFFA0"] word [of "0x1FFFA8"]
      word [of "0x1FFFB0"] word [of "0x1FFFB8"] word [of "0x1FFFC0"] word [of "0x1FFFD8"]
      word [of "0x1FFFE0"] word [of "0x1FFFE8"] word [of "0x1FFFF0"] word [of "0x1FFFF8"]
    by (cases r) (simp_all add: frame_reg_def frame_offset_def add.assoc)
  then show "regs (TrapReturn ?u) r = frame_reg m (k + 0x1FFF50) r"
    by (simp only: TrapReturn_frame rsp)
qed

section \<open>The first run of a process\<close>

lemma SwitchProcess_other_fields:
  fixes t :: "'z kernel_scheme"
  shows "cr3 (SwitchProcess c i t) = VIR_TO_PHY (p_page_map (proc t i))"
  "tss_rsp0 (SwitchProcess c i t) = p_stack (proc t i) + STACK_SIZE"
proof -
  have push: "cr3 (push v s) = cr3 s" "tss_rsp0 (push v s) = tss_rsp0 s" for v and s :: "'z kernel_scheme"
    by (simp_all add: push_def)
  moreover have "cr3 (pop r s) = cr3 s" "tss_rsp0 (pop r s) = tss_rsp0 s" for r and s :: "'z kernel_scheme"
    by (simp_all add: pop_def)
  ultimately show "cr3 (SwitchProcess c i t) = VIR_TO_PHY (p_page_map (proc t i))"
    "tss_rsp0 (SwitchProcess c i t) = p_stack (proc t i) + STACK_SIZE"
    by (simp_all add: SwitchProcess_def ContextSwitch_def SwitchVM_def SetTSS_def set_proc_def Let_def)
qed

text \<open>Between two states nothing has disturbed the sleeping process \<open>i\<close>, and the kernel stack in use is not its own.\<close>

definition undisturbed :: "'z kernel_scheme \<Rightarrow> nat \<Rightarrow> 'z kernel_scheme \<Rightarrow> bool" where
  "undisturbed s i t \<longleftrightarrow>
     p_context (proc t i) = p_context (proc s i) \<and> p_page_map (proc t i) = p_page_map (proc s i)
     \<and> p_stack (proc t i) = p_stack (proc s i) \<and> (\<forall>x\<in>page_span (p_stack (proc s i)). mem t x = mem s x)
     \<and> span (regs t RSP - 56) 56 \<inter> page_span (p_stack (proc s i)) = {}"

definition start_regs :: "reg \<Rightarrow> u64" where
  "start_regs = (\<lambda>_. 0)(RIP := USER_VIRTUAL_ADDRESS_BASE, CS := 0x13, RFLAGS := 0x202,
     RSP := USER_STACK_START, SS := 0x1B)"

text \<open>
  Property C15. A new process starts in user mode at the base of the user memory: with a free slot
  and four free pages \<open>CreateNewProcess\<close> succeeds, and when the scheduler first switches to the new
  process, whose stack and context are undisturbed, \<open>ContextSwitch\<close> returns to
  \<open>TrapReturn\<close> and the processor enters ring 3 at \<open>USER_VIRTUAL_ADDRESS_BASE\<close> with an empty stack,
  interrupts enabled, zero in all general registers, the page map of the process loaded and the
  kernel stack of the process in the task state segment.
\<close>

theorem new_process_enters_user_mode:
  fixes s :: "'z kernel_scheme"
  assumes "free_pages s (k # r # a # b # ps)" "memory_ok s" "FindFreeProcessSlot s = Some i"
  shows "\<exists>s1. CreateNewProcess s = ret (Some i, s1) \<and> p_pid (proc s1 i) = s_pid_num s
     \<and> p_stack (proc s1 i) = k \<and> space s1 r (kernel_tree (kernel_pages s) a b) ps
     \<and> (\<forall>(t :: 'z kernel_scheme) c.
          undisturbed s1 i t \<longrightarrow>
            regs (SwitchProcess c i t) RIP = l_TrapReturn s
            \<and> regs (TrapReturn (SwitchProcess c i t)) = start_regs
            \<and> cr3 (SwitchProcess c i t) = VIR_TO_PHY r \<and> tss_rsp0 (SwitchProcess c i t) = k + STACK_SIZE)"
proof -
  from CreateNewProcess_ok [OF assms] obtain s1 where s1: "CreateNewProcess s = ret (Some i, s1)"
    "created s i k r a b s1" "space s1 r (kernel_tree (kernel_pages s) a b) ps" by blast
  note d = createdD [OF s1(2)]
  have "regs (SwitchProcess c i t) RIP = l_TrapReturn s
     \<and> regs (TrapReturn (SwitchProcess c i t)) = start_regs
     \<and> cr3 (SwitchProcess c i t) = VIR_TO_PHY r \<and> tss_rsp0 (SwitchProcess c i t) = k + STACK_SIZE"
    if und: "undisturbed s1 i t"
    for t :: "'z kernel_scheme" and c
  proof -
    have t: "\<forall>x\<in>page_span k. mem t x = mem s1 x" "p_page_map (proc t i) = r" "p_stack (proc t i) = k"
      "span (regs t RSP - 56) 56 \<inter> page_span k = {}" and ctx: "p_context (proc t i) = k + 0x1FFF18"
      using und d(1) by (simp_all add: undisturbed_def)
    note sw = switch_to_frame [OF _ t(4) ctx, of "mem s1" c]
    have w: "load64 (mem s1) (k + of_nat x) = start_word (l_TrapReturn s) x" if "x mod 8 = 0" "x < 2 ^ 21" for x
      by (rule d(9) [OF that])
    have "regs (SwitchProcess c i t) RIP = l_TrapReturn s"
      using sw(1) t(1) w [of "0x1FFF48"] by (simp add: start_word_def)
    moreover have "regs (TrapReturn (SwitchProcess c i t)) r = start_regs r" for r
    proof -
      have "frame_reg (mem s1) (k + 0x1FFF50) r = start_regs r"
        using w [of "0x1FFF50"] w [of "0x1FFF58"] w [of "0x1FFF60"] w [of "0x1FFF68"]
          w [of "0x1FFF70"] w [of "0x1FFF78"] w [of "0x1FFF80"] w [of "0x1FFF88"]
          w [of "0x1FFF90"] w [of "0x1FFF98"] w [of "0x1FFFA0"] w [of "0x1FFFA8"]
          w [of "0x1FFFB0"] w [of "0x1FFFB8"] w [of "0x1FFFC0"] w [of "0x1FFFD8"]
          w [of "0x1FFFE0"] w [of "0x1FFFE8"] w [of "0x1FFFF0"] w [of "0x1FFFF8"]
        by (cases r) (simp_all add: frame_reg_def frame_offset_def start_word_def start_regs_def add.assoc)
      then show ?thesis using sw(2) t(1) by simp
    qed
    ultimately show ?thesis
      using t(2,3) by (auto simp: SwitchProcess_other_fields)
  qed
  then show ?thesis using s1 d(1) by (intro exI [of _ s1]) auto
qed

lemma free_kernel_pages_4: "free_pages (free_kernel 4) [kernel_page 3, kernel_page 2, kernel_page 1, kernel_page 0]"
  using free_kernel(1) [of 4] by (simp add: upt_rec numeral_eq_Suc)

lemma boot_kernel_memory [simp]:
  "free_pages (boot_kernel m) ps = free_pages m ps" "memory_ok (boot_kernel m) = memory_ok m"
  by (simp_all add: free_pages_def memory_ok_def)

lemma find_slot_0: "p_state (proc s 0) = PROCESS_SLOT_UNUSED \<Longrightarrow> FindFreeProcessSlot s = Some 0"
  by (simp add: FindFreeProcessSlot_def MAXIMUM_NUMBER_OF_PROCESS_def upt_rec)

theorem new_process_enters_user_mode_witness:
  "\<exists>s1. CreateNewProcess (boot_kernel (free_kernel 4)) = ret (Some 0, s1)
     \<and> regs (TrapReturn (SwitchProcess 1 0 (s1\<lparr>regs := \<lambda>_. kernel_page 0\<rparr>))) = start_regs"
proof -
  let ?s = "boot_kernel (free_kernel 4)"
  have "span (kernel_page 0 - 56 + of_nat 0) 56 \<inter> span (kernel_page 0 - 56 + of_nat (3 * 2 ^ 21 + 56)) (2 ^ 21) = {}"
    by (rule span_offsets_disjoint) simp_all
  then have dis: "span (kernel_page 0 - 56) 56 \<inter> page_span (kernel_page 3) = {}"
    by (simp add: page_span_def kernel_page_def PAGE_SIZE_def)
  have "free_pages ?s [kernel_page 3, kernel_page 2, kernel_page 1, kernel_page 0]" "memory_ok ?s"
    "FindFreeProcessSlot ?s = Some 0"
    using free_kernel_pages_4 free_kernel(2) [of 4] by (simp_all add: find_slot_0 zero_process_def)
  from new_process_enters_user_mode [OF this] obtain s1 where s1: "CreateNewProcess ?s = ret (Some 0, s1)"
    "p_stack (proc s1 0) = kernel_page 3" "\<forall>(t :: kernel) c. undisturbed s1 0 t \<longrightarrow>
            regs (SwitchProcess c 0 t) RIP = l_TrapReturn ?s
            \<and> regs (TrapReturn (SwitchProcess c 0 t)) = start_regs
            \<and> cr3 (SwitchProcess c 0 t) = VIR_TO_PHY (kernel_page 2) \<and> tss_rsp0 (SwitchProcess c 0 t) = kernel_page 3 + STACK_SIZE"
    by blast
  have "regs (TrapReturn (SwitchProcess 1 0 (s1\<lparr>regs := \<lambda>_. kernel_page 0\<rparr>))) = start_regs"
    using s1(3) [rule_format, of "s1\<lparr>regs := \<lambda>_. kernel_page 0\<rparr>" 1] s1(2) dis by (simp add: undisturbed_def)
  then show ?thesis using s1(1) by blast
qed

section \<open>Creation fails without a leak\<close>

text \<open>
  Property C28. When the page tables of a new process cannot be had, \<open>CreateNewProcess\<close> gives the
  kernel stack and every table it took back, clears the slot, and reports the failure: the same pages
  are free as before, and no process has changed. Only the next process number has moved on.
\<close>

theorem CreateNewProcess_fails_clean:
  fixes s :: "'z kernel_scheme"
  assumes "free_pages s (k # ps)" "length ps < 3" "memory_ok s" "FindFreeProcessSlot s = Some i"
  shows "\<exists>t qs. CreateNewProcess s = ret (None, t) \<and> free_pages t qs \<and> set qs = set (k # ps)
     \<and> proc t = (proc s)(i := zero_process) \<and> s_pid_num t = s_pid_num s + 1 \<and> current_proc t = current_proc s"
proof -
  let ?s2 = "set_proc i ((proc s i)\<lparr>p_stack := k\<rparr>) (s\<lparr>s_free_memory_page_head := load64 (mem s) k\<rparr>)"
  let ?s3 = "start_process i k ?s2"
  note s3 = start_process_free [OF assms(1,3), of i]
  from SetupKVM_fails [OF s3(1) assms(2) s3(2)] obtain s4 qs where s4: "SetupKVM ?s3 = ret (0, s4)"
    "free_pages s4 qs" "set qs = set ps" "touches (set ps) ?s3 s4" by blast
  obtain m h where mh: "s4 = ?s3\<lparr>mem := m, s_free_memory_page_head := h\<rparr>"
    using s4(4) by (rule touches_shape)
  let ?s5 = "set_proc i ((proc s4 i)\<lparr>p_page_map := 0\<rparr>) s4"
  have "free_pages ?s5 qs" using s4(2) by (simp add: free_pages_def set_proc_def)
  moreover have k: "valid_page (l_kernel_end ?s5) k" "k \<notin> set qs" "k \<noteq> 0"
    using free_pagesD(1,2,4) [OF assms(1)] s4(3) unfolding mh s3(4) by (simp_all add: set_proc_def)
  ultimately have kf: "kfree k ?s5 = ret (?s5\<lparr>mem := store64 (mem ?s5) k (s_free_memory_page_head ?s5), s_free_memory_page_head := k\<rparr>)"
    "free_pages (?s5\<lparr>mem := store64 (mem ?s5) k (s_free_memory_page_head ?s5), s_free_memory_page_head := k\<rparr>) (k # qs)"
    using kfree_ok by blast+
  let ?t = "clear_process i (?s5\<lparr>mem := store64 (mem ?s5) k (s_free_memory_page_head ?s5), s_free_memory_page_head := k\<rparr>)"
  have "CreateNewProcess s = ret (None, ?t)"
    using kalloc_Cons(1) [OF assms(1)] s4(1) assms(4) k(3) kf(1) by (simp add: CreateNewProcess_def)
  moreover have "free_pages ?t (k # qs)" using kf(2) by (simp add: free_pages_def clear_process_def set_proc_def)
  moreover have "proc ?t = (proc s)(i := zero_process)" "s_pid_num ?t = s_pid_num s + 1" "current_proc ?t = current_proc s"
    unfolding mh s3(4) by (simp_all add: clear_process_def set_proc_def fun_eq_iff)
  moreover have "set (k # qs) = set (k # ps)" using s4(3) by simp
  ultimately show ?thesis by blast
qed

theorem CreateNewProcess_fails_clean_witness:
  "\<exists>t qs. CreateNewProcess (boot_kernel (free_kernel 2)) = ret (None, t) \<and> free_pages t qs
     \<and> set qs = {kernel_page 0, kernel_page 1} \<and> p_state (proc t 0) = PROCESS_SLOT_UNUSED"
proof -
  let ?s = "boot_kernel (free_kernel 2)"
  have "free_pages ?s (kernel_page 1 # [kernel_page 0])" "memory_ok ?s" "FindFreeProcessSlot ?s = Some 0"
    using free_kernel(1,2) [of 2] by (simp_all add: find_slot_0 zero_process_def upt_rec numeral_eq_Suc)
  from CreateNewProcess_fails_clean [OF this(1) _ this(2,3)] obtain t qs where
    "CreateNewProcess ?s = ret (None, t)" "free_pages t qs" "set qs = set [kernel_page 1, kernel_page 0]"
    "proc t = (proc ?s)(0 := zero_process)" by auto
  then show ?thesis by (intro exI [of _ t] exI [of _ qs]) (auto simp: zero_process_def)
qed

section \<open>The scheduler's view of a new process\<close>

lemma represents_fresh:
  assumes r: "represents True s a" and i: "i < MAXIMUM_NUMBER_OF_PROCESS" "p_state (proc s i) = PROCESS_SLOT_UNUSED"
    and P: "\<And>j. j \<noteq> i \<Longrightarrow> proc t j = proc s j" "p_state (proc t i) = PROCESS_SLOT_INITIALIZED" "p_pid (proc t i) = s_pid_num s"
      "p_wait_id (proc t i) = 0"
    and d: "s_pid_num t = s_pid_num s + 1" "proc_lists t = proc_lists s" "current_proc t = current_proc s"
  shows "represents True t (a\<lparr>wid := (wid a)(i := 0)\<rparr>)" "slot i"
proof -
  have pids: "pids_ok s" by (rule representsD(8) [OF r])
  show si: "slot i" using i pids by (cases i) (auto simp: slot_def pids_ok_def in_use_def)
  have use: "in_use t j \<longleftrightarrow> in_use s j \<or> j = i" for j using i P(1,2) by (cases "j = i") (auto simp: in_use_def)
  have pid: "p_pid (proc t j) = (if j = i then s_pid_num s else p_pid (proc s j))" for j using P(1,3) by simp
  have old: "p_pid (proc s j) < s_pid_num s \<and> (0 < j \<longrightarrow> 0 < p_pid (proc s j))" if "in_use s j" for j
    using pids that by (auto simp: pids_ok_def in_use_def)
  have "in_use s 0" "p_pid (proc s 0) = 0" using pids by (simp_all add: pids_ok_def)
  then have pos: "0 < s_pid_num s" using old [of 0] by simp
  have not_i: "\<not> in_use s i" using i by (simp add: in_use_def)
  show "represents True t (a\<lparr>wid := (wid a)(i := 0)\<rparr>)"
  proof (rule representsI)
    show "j \<in> set (queue (a\<lparr>wid := (wid a)(i := 0)\<rparr>) q) \<Longrightarrow> slot j" for j q
      using representsD(4) [OF r] by simp
    show "j \<in> set (queue (a\<lparr>wid := (wid a)(i := 0)\<rparr>) q) \<longleftrightarrow> p_state (proc t j) = queue_state q" if "slot j" for j q
      using representsD(5) [OF r that, of q] i(2) P(1) [of j] P(2) by (cases "j = i"; cases q) simp_all
    show "p_state (proc t j) = PROCESS_SLOT_RUNNING \<longleftrightarrow> True \<and> j = running (a\<lparr>wid := (wid a)(i := 0)\<rparr>)"
      if "j < MAXIMUM_NUMBER_OF_PROCESS" for j
      using representsD(6) [OF r that] representsD(6) [OF r i(1)] i(2) P(1) [of j] P(2) by (cases "j = i") simp_all
    show "p_wait_id (proc t j) = wid (a\<lparr>wid := (wid a)(i := 0)\<rparr>) j" if "j < MAXIMUM_NUMBER_OF_PROCESS" for j
      using representsD(7) [OF r that] P(1) [of j] P(4) by (cases "j = i") simp_all
    show "pids_ok t" unfolding pids_ok_def
    proof (intro conjI allI impI)
      show "p_pid (proc t 0) = 0" "in_use t 0" using pids si use pid by (auto simp: pids_ok_def slot_def)
      show "0 < p_pid (proc t j)" if "in_use t j" "0 < j" for j
        using that old [of j] pos use pid by (cases "j = i") auto
      show "p_pid (proc t j) < s_pid_num t" if "in_use t j" for j
        using that old [of j] use pid d(1) by (cases "j = i") auto
      show "j = l" if "j < MAXIMUM_NUMBER_OF_PROCESS" "l < MAXIMUM_NUMBER_OF_PROCESS" "in_use t j" "in_use t l"
        "p_pid (proc t j) = p_pid (proc t l)" for j l
        using that old [of j] old [of l] use pid pids not_i by (cases "j = i"; cases "l = i") (auto simp: pids_ok_def)
    qed
  qed (use representsD(1-3) [OF r] d in simp_all)
qed

lemma represents_created:
  assumes r: "represents True s a" and c: "created s i k r' a' b' t"
    and i: "i < MAXIMUM_NUMBER_OF_PROCESS" "p_state (proc s i) = PROCESS_SLOT_UNUSED"
  shows "represents True t (a\<lparr>wid := (wid a)(i := 0)\<rparr>)" "slot i"
  using represents_fresh [OF r i, of t] createdD(1-4) [OF c] by simp_all

text \<open>A process that is in no queue yet becomes ready.\<close>

lemma make_ready:
  assumes r: "represents True s a" and i: "slot i" "p_state (proc s i) = PROCESS_SLOT_INITIALIZED"
  shows "\<exists>h. push_list Ready_list i (set_state i PROCESS_SLOT_READY s) = ret ((set_state i PROCESS_SLOT_READY s)\<lparr>proc_lists := h\<rparr>)
    \<and> represents True ((set_state i PROCESS_SLOT_READY s)\<lparr>proc_lists := h\<rparr>) (enqueue Ready_list i a)"
proof -
  have notin: "i \<notin> set (queue a q)" for q using representsD(5) [OF r i(1), of q] i(2) by (cases q) auto
  from lists.push_law [OF representsD(1) [OF r], of i Ready_list] notin obtain h
    where h: "ListPushBack (proc_lists s) Ready_list i = ret h" "queues h ((queue a)(Ready_list := queue a Ready_list @ [i]))"
    by blast
  have lt: "i < MAXIMUM_NUMBER_OF_PROCESS" using i(1) by (simp add: slot_def)
  have run: "i \<noteq> running a" using representsD(6) [OF r lt] i(2) by auto
  let ?t = "(set_state i PROCESS_SLOT_READY s)\<lparr>proc_lists := h\<rparr>"
  let ?f = "(queue a)(Ready_list := queue a Ready_list @ [i])"
  have "represents True ?t (a\<lparr>queue := ?f, wid := (wid a)(i := wid a i)\<rparr>)"
  proof (rule represents_enter [OF r i(1) _ h(2), of Ready_list])
    show "in_use s i" using i(2) lt by (simp add: in_use_def)
    show "set (?f q) = set (queue a q) - {i}" if "q \<noteq> Ready_list" for q using that notin by auto
    show "p_wait_id (proc ?t i) = wid a i" using representsD(7) [OF r lt] by simp
    show "proc ?t j = proc s j" if "j \<noteq> i" for j using that by (simp add: set_state_def)
  qed (use run in auto)
  then show ?thesis using h(1) by (auto simp: push_list_def enqueue_def)
qed

section \<open>Fork\<close>

lemma space_frame:
  assumes sp: "space s r T ps" and k: "valid_page (l_kernel_end s) k" "k \<notin> tables r T" "k \<notin> set ps"
    and t: "\<And>x. x \<notin> page_span k \<Longrightarrow> mem t x = mem s x" "s_free_memory_page_head t = s_free_memory_page_head s"
      "l_kernel_end t = l_kernel_end s"
  shows "space t r T ps"
proof -
  have other: "mem t x = mem s x" if "x \<in> page_span p" "valid_page (l_kernel_end s) p" "p \<noteq> k" for x p
    using valid_pages_disjoint [OF k(1) that(2)] that(1,3) by (intro t(1)) auto
  have "vm_tree (mem t) (l_kernel_end t) r T"
    unfolding t(3)
  proof (rule vm_tree_frame [OF spaceD(1) [OF sp]])
    fix p x
    assume p: "p \<in> tables r T" "x \<in> page_span p"
    show "mem t x = mem s x"
      by (rule other [OF p(2) table_valid [OF spaceD(1) [OF sp] p(1)]]) (use p(1) k(2) in blast)
  qed
  moreover have "free_pages t ps"
  proof (rule free_pages_frame [OF spaceD(2) [OF sp] _ t(2,3)])
    fix x p
    assume p: "p \<in> set ps" "x \<in> page_span p"
    show "mem t x = mem s x"
      by (rule other [OF p(2)]) (use p(1) k(3) spaceD(2) [OF sp] in \<open>auto simp: free_pages_def\<close>)
  qed
  ultimately show ?thesis using sp by (simp add: space_def)
qed

text \<open>The memory side: the page map of the child and the copy of the user page of the parent.\<close>

lemma fork_memory:
  fixes s :: "'z kernel_scheme"
  assumes sp: "space s c C (k # r # a # b # p # d # e # ps)" and ok: "memory_ok s"
    and i: "FindFreeProcessSlot s = Some i"
    and u: "user_pages c C = {u}" "valid_page (l_kernel_end s) u" "u \<notin> set (k # r # a # b # p # d # e # ps)"
  shows "\<exists>t1 t2. CreateNewProcess s = ret (Some i, t1) \<and> created s i k r a b t1
    \<and> CopyUVM r c (ucast PAGE_SIZE) t1 = ret (True, t2) \<and> touches {r, p, d, e} t1 t2
    \<and> space t2 r (user_tree (kernel_tree (kernel_pages s) a b) p d e) ps
    \<and> k \<notin> tables r (user_tree (kernel_tree (kernel_pages s) a b) p d e)
    \<and> (\<forall>x<2 ^ 21. mem t2 (p + of_nat x) = mem s (u + of_nat x))"
proof -
  let ?T = "kernel_tree (kernel_pages s) a b" and ?ps = "p # d # e # ps"
  note f = spaceD(2) [OF sp]
  from CreateNewProcess_ok [OF f ok i] obtain t1 where t1: "CreateNewProcess s = ret (Some i, t1)"
    "created s i k r a b t1" "space t1 r ?T ?ps" by blast
  note cd = createdD [OF t1(2)]
  have v: "valid_page (l_kernel_end s) q" if "q \<in> set (k # r # a # b # ?ps)" for q
    using that f by (auto simp: free_pages_def)
  have dist: "distinct (k # r # a # b # ?ps)" using f by (simp add: free_pages_def)
  have tabs: "tables r ?T = {r, a, b}" by (rule kernel_tree_tables) (use v in auto)
  have cs: "q \<notin> set (k # r # a # b # ?ps)" if "q \<in> tables c C" for q using sp that by (auto simp: space_def)
  have away: "mem t1 x = mem s x" if "x \<in> page_span q" "valid_page (l_kernel_end s) q" "q \<notin> {k, r, a, b}" for x q
  proof (rule cd(10), rule ballI)
    fix q'
    assume "q' \<in> {k, r, a, b}"
    then have "page_span q \<inter> page_span q' = {}" using that(2,3) v by (intro valid_pages_disjoint) auto
    then show "x \<notin> page_span q'" using that(1) by blast
  qed
  have "vm_tree (mem t1) (l_kernel_end t1) c C"
    unfolding cd(6)
  proof (rule vm_tree_frame [OF spaceD(1) [OF sp]])
    fix q x
    assume q: "q \<in> tables c C" "x \<in> page_span q"
    show "mem t1 x = mem s x"
      by (rule away [OF q(2) table_valid [OF spaceD(1) [OF sp] q(1)]]) (use cs [OF q(1)] in auto)
  qed
  then have c: "space t1 c C ?ps" using spaceD(2) [OF t1(3)] cs by (auto simp: space_def)
  have kb: "KERNEL_VIRTUAL_ADDRESS_BASE \<le> l_kernel_end t1" using ok cd(6) by (simp add: memory_ok_def)
  have np: "\<not> present (?T L4 0)" using kernel_tree_L4 [of "kernel_pages s" a b 0] by auto
  have sz: "0 \<le> sint (ucast PAGE_SIZE :: u32)" "sint (ucast PAGE_SIZE :: u32) \<le> 2 ^ 21"
    "nat (sint (ucast PAGE_SIZE :: u32)) = 2 ^ 21"
    by (simp_all add: PAGE_SIZE_def)
  have dj: "tables c C \<inter> tables r ?T = {}" using cs tabs by auto
  have u': "valid_page (l_kernel_end t1) u" "u \<notin> tables r ?T" "u \<notin> {p, d, e}" using u cd(6) tabs by auto
  from CopyUVM_ok [OF t1(3) np kb c dj u(1) u' sz(1,2)] obtain t2 where t2:
    "CopyUVM r c (ucast PAGE_SIZE) t1 = ret (True, t2)" "space t2 r (user_tree ?T p d e) ps"
    "touches {r, p, d, e} t1 t2"
    "\<forall>x<2 ^ 21. mem t2 (p + of_nat x) = mem t1 (u + of_nat x)"
    unfolding sz(3) by (auto simp del: power_numeral)
  have "mem t1 (u + of_nat x) = mem s (u + of_nat x)" if "x < 2 ^ 21" for x
    by (rule away [OF _ u(2)]) (use that u(3) in \<open>auto simp: page_span_def\<close>)
  moreover have "tables r (user_tree ?T p d e) = tables r ?T \<union> {d, e}"
    by (rule user_tree_tables(1) [where T = ?T and ke = "l_kernel_end s", OF np]) (use v ok in \<open>auto simp: memory_ok_def\<close>)
  then have "k \<notin> tables r (user_tree ?T p d e)" using tabs dist by auto
  ultimately show ?thesis using t1(1,2) t2 by metis
qed

lemma load64_blit_inside:
  assumes "x + 8 \<le> n" "n \<le> 2 ^ 60"
  shows "load64 (blit m d s n) (d + of_nat x) = load64 m (s + of_nat x)"
proof -
  have "read_bytes (blit m d s n) (d + of_nat x) 8 = read_bytes m (s + of_nat x) 8"
  proof (rule nth_equalityI)
    fix j
    assume "j < length (read_bytes (blit m d s n) (d + of_nat x) 8)"
    then have j: "j < 8" by simp
    have "d + of_nat x + of_nat j = d + of_nat (x + j)" by simp
    moreover have "d + of_nat (x + j) \<in> span d n" using j assms by (intro add_in_span) auto
    ultimately show "read_bytes (blit m d s n) (d + of_nat x) 8 ! j = read_bytes m (s + of_nat x) 8 ! j"
      using j by (simp add: blit_apply add.assoc)
  qed simp
  then show ?thesis by (simp add: load64_def)
qed

text \<open>The copied trap frame, with the result of the child in \<open>rax\<close>.\<close>

lemma frame_offset_facts:
  "frame_offset r mod 8 = 0" "frame_offset r + 8 \<le> 176" "frame_offset r = 112 \<longleftrightarrow> r = RAX"
  by (cases r; simp add: frame_offset_def)+

lemma fork_frame:
  assumes "span tfp 176 \<inter> span tfc 176 = {}"
  shows "frame_reg (store64 (memcpy m tfc tfp sizeof_TrapFrame) (tfc + tf_rax) 0) tfc r
       = (if r = RAX then 0 else frame_reg m tfp r)"
proof -
  have n: "unat sizeof_TrapFrame = 176" by (simp add: sizeof_TrapFrame_def)
  have cpy: "memcpy m tfc tfp sizeof_TrapFrame = blit m tfc tfp 176"
    using memcpy_eq_blit [of tfc sizeof_TrapFrame tfp m] assms unfolding n by blast
  have rax: "tfc + tf_rax = tfc + of_nat 112" by (simp add: tf_rax_def)
  have lt: "frame_offset r < 2 ^ 60" using frame_offset_facts(2) [of r] by simp
  show ?thesis
    unfolding frame_reg_def cpy rax
    using load_store_offset [of 112 "frame_offset r" "blit m tfc tfp 176" tfc 0] frame_offset_facts [of r] lt
      load64_blit_inside [of "frame_offset r" 176 m tfc tfp]
    by (auto simp del: of_nat_numeral)
qed

text \<open>The file side: the child gets the descriptors of the parent, and each is counted once more.\<close>

lemma counts_without:
  assumes "counts X s" "\<And>u. u \<in> Z \<Longrightarrow> file_of s u = None" shows "counts (X - Z) s"
proof -
  have "fd_users (X - Z) s d = fd_users X s d" for d using assms(2) by (auto simp: fd_users_def)
  moreover have "fcb_users (X - Z) s f = fcb_users X s f" for f
    using assms(2) by (auto simp: fcb_users_def fcb_of_def)
  ultimately show ?thesis using assms(1) by (simp add: counts_def)
qed

lemma fork_files:
  assumes c: "counts UNIV s" and i: "i < MAXIMUM_NUMBER_OF_PROCESS" "cur < MAXIMUM_NUMBER_OF_PROCESS" "i \<noteq> cur"
    and none: "\<And>j. p_file (proc s i) j = None" "\<And>j. j < USER_START_FD \<Longrightarrow> p_file (proc s cur) j = None"
  shows "\<exists>t. for_each (share_file i) user_fds (copy_files i cur s) = ret t \<and> counts UNIV t
    \<and> tables_only (copy_files i cur s) t"
proof -
  let ?s = "copy_files i cur s" and ?X = "UNIV - Pair i ` set user_fds"
  have files: "p_file (proc ?s q) j = (if q = i \<and> j < PROCESS_MAXIMUM_FILE_DESCRIPTOR then p_file (proc s cur) j
      else p_file (proc s q) j)" for q j by (simp add: copy_files_def)
  have tabs: "s_fd_table ?s = s_fd_table s" "s_fcb_table ?s = s_fcb_table s"
    by (simp_all add: copy_files_def set_proc_def)
  have "counts ?X s" by (rule counts_without [OF c]) (auto simp: file_of_def none(1))
  then have X: "counts ?X ?s"
  proof (rule counts_cong)
    fix u assume "u \<in> ?X"
    then have "fst u = i \<Longrightarrow> u \<in> users \<Longrightarrow> snd u < USER_START_FD"
      by (cases u) (auto simp: user_fds_def users_def)
    then show "file_of ?s u = file_of s u"
      by (cases u) (auto simp: file_of_def files none)
  qed (auto simp: tabs)
  have shared: "fd_users ?X ?s d \<noteq> {}" if "j \<in> set user_fds" "p_file (proc ?s i) j = Some d" for j d
  proof -
    have "j < PROCESS_MAXIMUM_FILE_DESCRIPTOR" using that(1) by (simp add: user_fds_def)
    then have "(cur, j) \<in> fd_users ?X ?s d"
      using that(2) i by (auto simp: fd_users_def user_in_users files)
    then show ?thesis by blast
  qed
  have dist: "distinct user_fds" by (simp add: user_fds_def)
  have "\<forall>j\<in>set user_fds. j < PROCESS_MAXIMUM_FILE_DESCRIPTOR \<and> (i, j) \<notin> ?X
      \<and> (\<forall>d. p_file (proc ?s i) j = Some d \<longrightarrow> fd_users ?X ?s d \<noteq> {})"
    using shared by (auto simp: user_fds_def)
  from share_files_ok [OF X i(1) dist this] show ?thesis by (simp add: Un_absorb2)
qed

text \<open>A page map with one user page \<open>u\<close>, while the pages \<open>ps\<close> are free.\<close>

definition owns_user_page :: "'z kernel_scheme \<Rightarrow> u64 \<Rightarrow> tree \<Rightarrow> u64 \<Rightarrow> u64 list \<Rightarrow> bool" where
  "owns_user_page s c C u ps \<longleftrightarrow>
     space s c C ps \<and> user_pages c C = {u} \<and> valid_page (l_kernel_end s) u \<and> u \<notin> set ps \<and> u \<notin> tables c C"

lemma owns_user_pageI:
  assumes "space t r (user_tree (kernel_tree n a b) p d e) ps" "KERNEL_VIRTUAL_ADDRESS_BASE \<le> ke" "l_kernel_end t = ke"
    and "\<And>q. q \<in> {r, a, b, p, d, e} \<Longrightarrow> valid_page ke q" "distinct (r # a # b # p # d # e # ps)"
  shows "owns_user_page t r (user_tree (kernel_tree n a b) p d e) p ps"
proof -
  have np: "\<not> present (kernel_tree n a b L4 0)" using kernel_tree_L4 [of n a b 0] by auto
  note ut = user_tree_tables [where T = "kernel_tree n a b" and ke = ke, OF np]
  have "tables r (user_tree (kernel_tree n a b) p d e) = {r, a, b, d, e}"
    using ut(1) [of d e p r] kernel_tree_tables [of ke a b r n] assms(2,4) by auto
  moreover have "user_pages r (user_tree (kernel_tree n a b) p d e) = {p}" using ut(3) [of d e p r] assms(2,4) by simp
  ultimately show ?thesis using assms by (auto simp: owns_user_page_def)
qed

lemma frame_reg_cong:
  assumes "\<And>y. y \<in> span tf 176 \<Longrightarrow> m y = m' y" shows "frame_reg m tf = frame_reg m' tf"
proof
  fix r
  have "span (tf + of_nat (frame_offset r)) 8 \<subseteq> span tf 176"
    using frame_offset_facts(2) [of r] by (intro span_subset) simp_all
  then show "frame_reg m tf r = frame_reg m' tf r"
    unfolding frame_reg_def using assms by (intro load64_cong) blast
qed

text \<open>The kernel stack of the child after the copy of the trap frame.\<close>

lemma fork_stack:
  fixes m :: memory
  assumes dj: "span tfp 176 \<inter> page_span k = {}"
  defines "tfc \<equiv> k + 0x1FFF50"
  defines "mt \<equiv> store64 (memcpy m tfc tfp sizeof_TrapFrame) (tfc + tf_rax) 0"
  shows "x \<notin> page_span k \<Longrightarrow> mt x = m x" "load64 mt (k + 0x1FFF48) = load64 m (k + 0x1FFF48)"
    "frame_reg mt tfc = (frame_reg m tfp)(RAX := 0)"
proof -
  have at: "tfc = k + of_nat 0x1FFF50" "tfc + tf_rax = k + of_nat 0x1FFFC0"
    by (simp_all add: tfc_def tf_rax_def add.assoc)
  have sub: "span tfc 176 \<subseteq> page_span k" "span (tfc + tf_rax) 8 \<subseteq> page_span k"
    unfolding at(2) unfolding at(1) page_span_def by (rule span_subset; simp)+
  have dj': "span tfp 176 \<inter> span tfc 176 = {}" using dj sub by blast
  have n: "unat sizeof_TrapFrame = 176" by (simp add: sizeof_TrapFrame_def)
  have cpy: "memcpy m tfc tfp sizeof_TrapFrame = blit m tfc tfp 176"
    using memcpy_eq_blit [of tfc sizeof_TrapFrame tfp m] dj' unfolding n by blast
  show "mt x = m x" if "x \<notin> page_span k"
    unfolding mt_def cpy using that sub by (subst store64_other) (auto simp: blit_apply)
  show "load64 mt (k + 0x1FFF48) = load64 m (k + 0x1FFF48)"
  proof (rule load64_cong)
    fix x
    assume x: "x \<in> span (k + 0x1FFF48) 8"
    have "span (k + of_nat 0x1FFF48) 8 \<inter> span tfc 176 = {}" "span (k + of_nat 0x1FFF48) 8 \<inter> span (tfc + tf_rax) 8 = {}"
      unfolding at(2) unfolding at(1) by (rule span_offsets_disjoint; simp)+
    then have "x \<notin> span tfc 176" "x \<notin> span (tfc + tf_rax) 8" using x by auto
    then show "mt x = m x" unfolding mt_def cpy by (simp add: store64_other blit_apply)
  qed
  show "frame_reg mt tfc = (frame_reg m tfp)(RAX := 0)" using fork_frame [OF dj'] unfolding mt_def by auto
qed

text \<open>The run of \<open>Fork\<close> behind the two memory operations.\<close>

lemma Fork_run:
  fixes s :: "'z kernel_scheme"
  defines "cur \<equiv> current_proc s"
  assumes r: "represents True s A" and cnt: "counts UNIV s"
    and slot: "i < MAXIMUM_NUMBER_OF_PROCESS" "p_state (proc s i) = PROCESS_SLOT_UNUSED" "\<And>j. p_file (proc s i) j = None"
    and none: "\<And>j. j < USER_START_FD \<Longrightarrow> p_file (proc s cur) j = None"
    and t: "CreateNewProcess s = ret (Some i, t1)" "created s i k r' a b t1"
      "CopyUVM r' (p_page_map (proc s cur)) (ucast PAGE_SIZE) t1 = ret (True, t2)" "touches U t1 t2"
  shows "\<exists>t. Fork s = ret (s_pid_num s, t)
     \<and> represents True t (enqueue Ready_list i (A\<lparr>wid := (wid A)(i := 0)\<rparr>)) \<and> counts UNIV t
     \<and> mem t = store64 (memcpy (mem t2) (k + 0x1FFF50) (p_tf (proc s cur)) sizeof_TrapFrame) (k + 0x1FFF50 + tf_rax) 0
     \<and> s_free_memory_page_head t = s_free_memory_page_head t2 \<and> l_kernel_end t = l_kernel_end s
     \<and> p_page_map (proc t i) = r' \<and> p_context (proc t i) = k + 0x1FFF18 \<and> p_stack (proc t i) = k
     \<and> (\<forall>j<PROCESS_MAXIMUM_FILE_DESCRIPTOR. p_file (proc t i) j = p_file (proc s cur) j)"
proof -
  have cur: "cur = running A" "cur < MAXIMUM_NUMBER_OF_PROCESS" using representsD(2,3) [OF r] by (auto simp: cur_def)
  have ic: "i \<noteq> cur" using representsD(6) [OF r slot(1)] slot(2) cur by auto
  note cd = createdD [OF t(2)] and r1 = represents_created [OF r t(2) slot(1,2)]
  obtain m h where m: "t2 = t1\<lparr>mem := m, s_free_memory_page_head := h\<rparr>" using t(4) by (rule touches_shape)
  let ?A = "A\<lparr>wid := (wid A)(i := 0)\<rparr>"
  have P: "proc t2 j = (if j = i then (new_process s i k)\<lparr>p_page_map := r'\<rparr> else proc s j)" for j
    by (simp add: m cd(1))
  have c2: "counts UNIV t2" by (rule counts_cong [OF cnt]) (auto simp: m cd file_of_def)
  obtain t3 where t3: "for_each (share_file i) user_fds (copy_files i cur t2) = ret t3" "counts UNIV t3"
    "tables_only (copy_files i cur t2) t3"
    using fork_files [OF c2 slot(1) cur(2) ic] slot(3) none ic by (auto simp: P)
  obtain B D where bd: "t3 = (copy_files i cur t2)\<lparr>s_fcb_table := B, s_fd_table := D\<rparr>"
    using t3(3) by (auto simp: tables_only_def)
  have P3: "proc t3 j = (if j = i then ((new_process s i k)\<lparr>p_page_map := r', p_file := \<lambda>l.
      if l < PROCESS_MAXIMUM_FILE_DESCRIPTOR then p_file (proc s cur) l else p_file (proc s i) l\<rparr>) else proc s j)" for j
    using ic by (simp add: bd copy_files_def P set_proc_def cong: if_cong)
  let ?m5 = "store64 (memcpy (mem t3) (p_tf (proc t3 i)) (p_tf (proc t3 cur)) sizeof_TrapFrame) (p_tf (proc t3 i) + tf_rax) 0"
  let ?t5 = "t3\<lparr>mem := ?m5\<rparr>"
  have "represents True ?t5 ?A"
    by (rule represents_cong [OF r1(1)]) (simp_all add: bd copy_files_def set_proc_def m cd(1))
  from make_ready [OF this r1(2)] P3 obtain L where L:
    "push_list Ready_list i (set_state i PROCESS_SLOT_READY ?t5) = ret ((set_state i PROCESS_SLOT_READY ?t5)\<lparr>proc_lists := L\<rparr>)"
    "represents True ((set_state i PROCESS_SLOT_READY ?t5)\<lparr>proc_lists := L\<rparr>) (enqueue Ready_list i ?A)"
    by auto
  let ?t = "(set_state i PROCESS_SLOT_READY ?t5)\<lparr>proc_lists := L\<rparr>"
  have map: "p_page_map (proc t1 i) = r'" "p_page_map (proc t1 cur) = p_page_map (proc s cur)"
    using ic by (simp_all add: cd(1))
  have fork: "Fork s = ret (s_pid_num s, ?t)"
    unfolding Fork_def Let_def cur_def [symmetric] t(1) andthen_simps prod.case option.case map t(3) t3(1) put64_def
    using L(1) P3 by (simp add: put64_def)
  have tfc: "p_tf (proc t3 i) = k + 0x1FFF50" "p_tf (proc t3 cur) = p_tf (proc s cur)" "mem t3 = mem t2"
    using ic by (simp_all add: P3) (simp add: bd copy_files_def)
  have "mem ?t = store64 (memcpy (mem t2) (k + 0x1FFF50) (p_tf (proc s cur)) sizeof_TrapFrame) (k + 0x1FFF50 + tf_rax) 0"
    by (simp add: tfc)
  moreover have "counts UNIV ?t"
    by (rule counts_cong [OF t3(2)]) (auto simp: set_state_def set_proc_def file_of_def)
  moreover have "s_free_memory_page_head ?t = s_free_memory_page_head t2" "l_kernel_end ?t = l_kernel_end s"
    by (simp_all add: set_state_def set_proc_def bd copy_files_def m cd(6))
  moreover have "p_page_map (proc ?t i) = r'" "p_context (proc ?t i) = k + 0x1FFF18" "p_stack (proc ?t i) = k"
    "\<forall>j<PROCESS_MAXIMUM_FILE_DESCRIPTOR. p_file (proc ?t i) j = p_file (proc s cur) j"
    using P3 by (simp_all add: set_state_def)
  ultimately show ?thesis using fork L(2) by (intro exI [of _ ?t] conjI)
qed

text \<open>What a process needs to fork: a free slot, seven free pages, and the trap frame of the call.\<close>

definition can_fork :: "'z kernel_scheme \<Rightarrow> sched \<Rightarrow> tree \<Rightarrow> u64 \<Rightarrow> u64 list \<Rightarrow> u64 list \<Rightarrow> nat \<Rightarrow> bool" where
  "can_fork s A C u qs ps i \<longleftrightarrow>
     represents True s A \<and> counts UNIV s \<and> memory_ok s \<and> FindFreeProcessSlot s = Some i
     \<and> (\<forall>j. p_file (proc s i) j = None) \<and> (\<forall>j<USER_START_FD. p_file (proc s (current_proc s)) j = None)
     \<and> length qs = 7 \<and> owns_user_page s (p_page_map (proc s (current_proc s))) C u (qs @ ps)
     \<and> (\<forall>q\<in>set qs. span (p_tf (proc s (current_proc s))) 176 \<inter> page_span q = {})"

lemma Fork_ok:
  fixes s :: "'z kernel_scheme"
  defines "tfp \<equiv> p_tf (proc s (current_proc s))"
  assumes cf: "can_fork s A C u [k, r', a, b, p, d, e] ps i"
  shows "\<exists>t. Fork s = ret (s_pid_num s, t)
     \<and> represents True t (enqueue Ready_list i (A\<lparr>wid := (wid A)(i := 0)\<rparr>)) \<and> counts UNIV t
     \<and> owns_user_page t r' (user_tree (kernel_tree (kernel_pages s) a b) p d e) p ps
     \<and> p_page_map (proc t i) = r' \<and> p_context (proc t i) = k + 0x1FFF18 \<and> p_stack (proc t i) = k
     \<and> load64 (mem t) (k + 0x1FFF48) = l_TrapReturn s
     \<and> frame_reg (mem t) (k + 0x1FFF50) = (frame_reg (mem s) tfp)(RAX := 0)
     \<and> (\<forall>x<2 ^ 21. mem t (p + of_nat x) = mem s (u + of_nat x))
     \<and> (\<forall>j<PROCESS_MAXIMUM_FILE_DESCRIPTOR. p_file (proc t i) j = p_file (proc s (current_proc s)) j)"
proof -
  let ?T = "user_tree (kernel_tree (kernel_pages s) a b) p d e" and ?all = "k # r' # a # b # p # d # e # ps"
  have c: "represents True s A" "counts UNIV s" "memory_ok s" "FindFreeProcessSlot s = Some i"
    "\<And>j. p_file (proc s i) j = None" "\<And>j. j < USER_START_FD \<Longrightarrow> p_file (proc s (current_proc s)) j = None"
    "\<And>q. q \<in> {k, r', a, b, p, d, e} \<Longrightarrow> span tfp 176 \<inter> page_span q = {}"
    and o: "owns_user_page s (p_page_map (proc s (current_proc s))) C u ?all"
    using cf by (auto simp: can_fork_def tfp_def)
  note slot = FindFreeProcessSlot_Some [OF c(4)]
  from fork_memory [of s _ C k r' a b p d e ps i u] o c(3,4) obtain t1 t2 where t:
    "CreateNewProcess s = ret (Some i, t1)" "created s i k r' a b t1"
    "CopyUVM r' (p_page_map (proc s (current_proc s))) (ucast PAGE_SIZE) t1 = ret (True, t2)" "touches {r', p, d, e} t1 t2"
    "space t2 r' ?T ps" "k \<notin> tables r' ?T" "\<forall>x<2 ^ 21. mem t2 (p + of_nat x) = mem s (u + of_nat x)"
    unfolding owns_user_page_def by blast
  note cd = createdD [OF t(2)]
  from Fork_run [OF c(1,2) conjunct1 [OF slot] conjunct2 [OF slot] c(5,6) t(1-4)] obtain v where v:
    "Fork s = ret (s_pid_num s, v)" "represents True v (enqueue Ready_list i (A\<lparr>wid := (wid A)(i := 0)\<rparr>))" "counts UNIV v"
    "mem v = store64 (memcpy (mem t2) (k + 0x1FFF50) tfp sizeof_TrapFrame) (k + 0x1FFF50 + tf_rax) 0"
    "s_free_memory_page_head v = s_free_memory_page_head t2" "l_kernel_end v = l_kernel_end s"
    "p_page_map (proc v i) = r'" "p_context (proc v i) = k + 0x1FFF18" "p_stack (proc v i) = k"
    "\<forall>j<PROCESS_MAXIMUM_FILE_DESCRIPTOR. p_file (proc v i) j = p_file (proc s (current_proc s)) j"
    unfolding tfp_def by blast
  have "span tfp 176 \<inter> page_span k = {}" using c(7) by simp
  note st = fork_stack [where m = "mem t2", OF this, folded v(4)]
  have f: "free_pages s ?all" using o by (simp add: owns_user_page_def space_def)
  have ok: "valid_page (l_kernel_end s) q" if "q \<in> set ?all" for q using that f by (auto simp: free_pages_def)
  have dist: "distinct ?all" using f by (simp add: free_pages_def)
  have ke: "l_kernel_end t2 = l_kernel_end s" using touches_same(1) [OF t(4)] cd(6) by simp
  have apart: "page_span k \<inter> page_span q = {}" if "q \<in> {r', p, d, e}" for q
    using that dist ok by (intro valid_pages_disjoint) auto
  have "space v r' ?T ps"
    by (rule space_frame [OF t(5), of k]) (use ok dist ke t(6) st(1) v(5,6) in auto)
  then have "owns_user_page v r' ?T p ps"
    by (rule owns_user_pageI [OF _ _ v(6)]) (use c(3) ok dist in \<open>auto simp: memory_ok_def\<close>)
  moreover have "load64 (mem v) (k + 0x1FFF48) = l_TrapReturn s"
  proof -
    have "load64 (mem t2) (k + of_nat 0x1FFF48) = load64 (mem t1) (k + of_nat 0x1FFF48)"
    proof (rule load64_cong)
      fix x
      assume "x \<in> span (k + of_nat 0x1FFF48) 8"
      then have "x \<in> page_span k" using span_subset [of "0x1FFF48" 8 "2 ^ 21" k] by (auto simp: page_span_def)
      then show "mem t2 x = mem t1 x" using apart by (intro touches_mem [OF t(4)]) blast
    qed
    moreover have "load64 (mem t1) (k + of_nat 0x1FFF48) = l_TrapReturn s" by (subst cd(9)) (simp_all add: start_word_def)
    ultimately show ?thesis using st(2) by simp
  qed
  moreover have "frame_reg (mem t2) tfp = frame_reg (mem s) tfp"
  proof (rule frame_reg_cong)
    fix y
    assume y: "y \<in> span tfp 176"
    have "mem t2 y = mem t1 y" by (rule touches_mem [OF t(4)]) (use y c(7) in blast)
    also have "\<dots> = mem s y" by (rule cd(10)) (use y c(7) in blast)
    finally show "mem t2 y = mem s y" .
  qed
  moreover have "mem v (p + of_nat x) = mem s (u + of_nat x)" if "x < 2 ^ 21" for x
  proof -
    have "p + of_nat x \<notin> page_span k" using apart [of p] that by (auto simp: page_span_def)
    then show ?thesis using st(1) t(7) that by simp
  qed
  ultimately show ?thesis using v st(3) by (intro exI [of _ v]) auto
qed

text \<open>
  Property C14. \<open>Fork\<close> makes a copy of the calling process: with a free slot and seven free pages it
  returns the new process number, the child is at the end of the ready queue, its user page holds
  what the parent's holds, it has the parent's open files and the counts of the tables include them.
  When the scheduler switches to the child, undisturbed until then, it returns to user mode with
  exactly the registers of the parent's trap frame, except that \<open>rax\<close>, the result of the call, is 0.
\<close>

theorem fork_child_resumes:
  fixes s :: "'z kernel_scheme"
  assumes "can_fork s A C u [k, r, a, b, p, d, e] ps i"
  shows "\<exists>s1. Fork s = ret (s_pid_num s, s1)
     \<and> represents True s1 (enqueue Ready_list i (A\<lparr>wid := (wid A)(i := 0)\<rparr>)) \<and> counts UNIV s1
     \<and> (\<forall>x<2 ^ 21. mem s1 (p + of_nat x) = mem s (u + of_nat x))
     \<and> (\<forall>j<PROCESS_MAXIMUM_FILE_DESCRIPTOR. p_file (proc s1 i) j = p_file (proc s (current_proc s)) j)
     \<and> owns_user_page s1 (p_page_map (proc s1 i)) (user_tree (kernel_tree (kernel_pages s) a b) p d e) p ps
     \<and> (\<forall>(t :: 'z kernel_scheme) c. undisturbed s1 i t \<longrightarrow>
          regs (SwitchProcess c i t) RIP = l_TrapReturn s
          \<and> regs (TrapReturn (SwitchProcess c i t)) = (frame_reg (mem s) (p_tf (proc s (current_proc s))))(RAX := 0))"
proof -
  from Fork_ok [OF assms] obtain s1 where s1: "Fork s = ret (s_pid_num s, s1)"
    "represents True s1 (enqueue Ready_list i (A\<lparr>wid := (wid A)(i := 0)\<rparr>))" "counts UNIV s1"
    "owns_user_page s1 r (user_tree (kernel_tree (kernel_pages s) a b) p d e) p ps" "p_page_map (proc s1 i) = r"
    "p_context (proc s1 i) = k + 0x1FFF18" "p_stack (proc s1 i) = k"
    "load64 (mem s1) (k + 0x1FFF48) = l_TrapReturn s"
    "frame_reg (mem s1) (k + 0x1FFF50) = (frame_reg (mem s) (p_tf (proc s (current_proc s))))(RAX := 0)"
    "\<forall>x<2 ^ 21. mem s1 (p + of_nat x) = mem s (u + of_nat x)"
    "\<forall>j<PROCESS_MAXIMUM_FILE_DESCRIPTOR. p_file (proc s1 i) j = p_file (proc s (current_proc s)) j" by blast
  have "regs (SwitchProcess c i t) RIP = l_TrapReturn s
      \<and> regs (TrapReturn (SwitchProcess c i t)) = (frame_reg (mem s) (p_tf (proc s (current_proc s))))(RAX := 0)"
    if "undisturbed s1 i t" for t :: "'z kernel_scheme" and c
  proof -
    have t: "x \<in> page_span k \<Longrightarrow> mem t x = mem s1 x" "span (regs t RSP - 56) 56 \<inter> page_span k = {}"
      "p_context (proc t i) = k + 0x1FFF18" for x
      using that s1(6,7) by (simp_all add: undisturbed_def)
    show ?thesis
      using switch_to_frame [OF t, of c] s1(8,9) by (metis ext)
  qed
  then show ?thesis using s1 by (intro exI [of _ s1]) auto
qed

end
