(* ===== verification/Ports.thy ===== *)
theory Ports
  imports Scheduler
begin

text \<open>
  The devices behind the I/O ports: \<open>InByte\<close>, \<open>InWord\<close>, \<open>OutByte\<close>, \<open>EOI\<close> and \<open>ReadISR\<close> of
  \<open>kernel/trap.asm\<close>. The devices are not part of the program. Their state \<open>'d\<close> and what an access
  to a port does to it, a \<open>ports\<close> record, are parameters of every definition that uses a port.

  The second half is the frame of the scheduler: what a switch or a wake-up leaves alone, which is
  what the drivers need when they sleep or wake other processes.
\<close>

section \<open>Ports\<close>

record 'd ports =
  in_byte :: "u16 \<Rightarrow> 'd \<Rightarrow> u8 \<times> 'd"
  in_word :: "u16 \<Rightarrow> 'd \<Rightarrow> u16 \<times> 'd"
  out_byte :: "u16 \<Rightarrow> u8 \<Rightarrow> 'd \<Rightarrow> 'd"

record 'd io_kernel = kernel +
  dev :: 'd

definition InByte :: "'d ports \<Rightarrow> u16 \<Rightarrow> ('d, 'z) io_kernel_scheme \<Rightarrow> u8 \<times> ('d, 'z) io_kernel_scheme" where
  "InByte io port s = (let (v, d) = in_byte io port (dev s) in (v, s\<lparr>dev := d\<rparr>))"

definition InWord :: "'d ports \<Rightarrow> u16 \<Rightarrow> ('d, 'z) io_kernel_scheme \<Rightarrow> u16 \<times> ('d, 'z) io_kernel_scheme" where
  "InWord io port s = (let (v, d) = in_word io port (dev s) in (v, s\<lparr>dev := d\<rparr>))"

definition OutByte :: "'d ports \<Rightarrow> u16 \<Rightarrow> u8 \<Rightarrow> ('d, 'z) io_kernel_scheme \<Rightarrow> ('d, 'z) io_kernel_scheme" where
  "OutByte io port v s = s\<lparr>dev := out_byte io port v (dev s)\<rparr>"

text \<open>The interrupt controller.\<close>

definition EOI :: "'d ports \<Rightarrow> ('d, 'z) io_kernel_scheme \<Rightarrow> ('d, 'z) io_kernel_scheme" where
  "EOI io = OutByte io 0x20 0x20"

definition ReadISR :: "'d ports \<Rightarrow> ('d, 'z) io_kernel_scheme \<Rightarrow> u8 \<times> ('d, 'z) io_kernel_scheme" where
  "ReadISR io s = InByte io 0x20 (OutByte io 0x20 0x0B s)"

lemma dev_of_more: "kernel.more s = kernel.more t \<Longrightarrow> dev s = dev t"
  by (cases s; cases t) simp

section \<open>What the scheduler leaves alone\<close>

text \<open>
  A wake-up changes the processes and their lists only. A switch changes the memory also (two kernel
  stacks), the registers, the page map register and the TSS.
\<close>

definition keeps_drivers :: "'z kernel_scheme \<Rightarrow> 'z kernel_scheme \<Rightarrow> bool" where
  "keeps_drivers s t \<longleftrightarrow>
     s_keyboard_controller t = s_keyboard_controller s \<and> s_flag t = s_flag s
     \<and> s_system_ticks t = s_system_ticks s \<and> s_syscall_table t = s_syscall_table s
     \<and> s_BIOS_parameter_block t = s_BIOS_parameter_block s \<and> s_fcb_table t = s_fcb_table s
     \<and> s_fd_table t = s_fd_table s \<and> kernel.more t = kernel.more s
     \<and> s_free_memory_page_head t = s_free_memory_page_head s \<and> l_kernel_end t = l_kernel_end s
     \<and> s_free_memory_end_address t = s_free_memory_end_address s
     \<and> (\<forall>i. p_file (proc t i) = p_file (proc s i) \<and> p_stack (proc t i) = p_stack (proc s i)
            \<and> p_tf (proc t i) = p_tf (proc s i) \<and> p_page_map (proc t i) = p_page_map (proc s i))"

lemma keeps_drivers_refl [simp, intro]: "keeps_drivers s s"
  by (simp add: keeps_drivers_def)

lemma keeps_drivers_trans: "keeps_drivers s t \<Longrightarrow> keeps_drivers t u \<Longrightarrow> keeps_drivers s u"
  by (simp add: keeps_drivers_def)

lemma keeps_driversD:
  assumes "keeps_drivers s t"
  shows "s_keyboard_controller t = s_keyboard_controller s" "s_flag t = s_flag s"
    "s_system_ticks t = s_system_ticks s" "s_syscall_table t = s_syscall_table s"
    "s_BIOS_parameter_block t = s_BIOS_parameter_block s" "s_fcb_table t = s_fcb_table s"
    "s_fd_table t = s_fd_table s" "kernel.more t = kernel.more s"
    "p_file (proc t i) = p_file (proc s i)" "p_stack (proc t i) = p_stack (proc s i)"
    "p_tf (proc t i) = p_tf (proc s i)" "p_page_map (proc t i) = p_page_map (proc s i)"
    "s_free_memory_page_head t = s_free_memory_page_head s" "l_kernel_end t = l_kernel_end s"
    "s_free_memory_end_address t = s_free_memory_end_address s"
  using assms by (simp_all add: keeps_drivers_def)

lemma keeps_drivers_dev:
  fixes s t :: "('d, 'z) io_kernel_scheme"
  shows "keeps_drivers s t \<Longrightarrow> dev t = dev s"
  by (auto simp: keeps_drivers_def intro: dev_of_more)

lemma keeps_push_list: "push_list q i s = ret t \<Longrightarrow> keeps_drivers s t"
  by (auto simp: push_list_def keeps_drivers_def)

lemma keeps_set_state: "keeps_drivers s (set_state i st s)"
  by (simp add: set_state_def set_proc_def keeps_drivers_def)

lemma keeps_push: "keeps_drivers s (push v s)"
  by (simp add: push_def keeps_drivers_def)

lemma keeps_pop: "keeps_drivers s (pop r s)"
  by (simp add: pop_def keeps_drivers_def)

lemma keeps_fold: "(\<And>x u. keeps_drivers u (f x u)) \<Longrightarrow> keeps_drivers s (fold f xs s)"
  by (induction xs arbitrary: s) (auto intro: keeps_drivers_trans)

lemma keeps_switch: "keeps_drivers s (SwitchProcess p n s)"
proof -
  have pops: "keeps_drivers u (fold pop rs u)" for rs and u :: "'z kernel_scheme" by (rule keeps_fold) (rule keeps_pop)
  have pushes: "keeps_drivers u (fold (\<lambda>r u. push (regs u r) u) rs u)" for rs and u :: "'z kernel_scheme"
    by (rule keeps_fold) (rule keeps_push)
  have a: "keeps_drivers u v \<Longrightarrow> keeps_drivers u ((set_proc i ((proc v i)\<lparr>p_context := c\<rparr>) v)\<lparr>regs := r\<rparr>)" for i c r u and v :: "'z kernel_scheme"
    by (simp add: keeps_drivers_def set_proc_def)
  have cs: "keeps_drivers u (ContextSwitch old new u)" for old new and u :: "'z kernel_scheme"
    unfolding ContextSwitch_def Let_def
    by (rule keeps_drivers_trans [OF _ pops], rule a, rule pushes)
  have "keeps_drivers s (push v (SwitchVM m (SetTSS n s)))" for v m
    by (rule keeps_drivers_trans [OF _ keeps_push]) (simp add: SwitchVM_def SetTSS_def keeps_drivers_def)
  then show ?thesis unfolding SwitchProcess_def Let_def by (rule keeps_drivers_trans [OF _ cs])
qed

lemma keeps_Schedule: "Schedule s = ret t \<Longrightarrow> keeps_drivers s t"
proof -
  assume "Schedule s = ret t"
  obtain new s1 where s1: "keeps_drivers s s1"
    and t: "t = SwitchProcess (current_proc s) new ((set_state new PROCESS_SLOT_RUNNING s1)\<lparr>current_proc := new\<rparr>)"
  proof (cases "ListIsEmpty (proc_lists s) Ready_list")
    case True
    then show ?thesis using that [of s IDLE_PROCESS_PID] \<open>Schedule s = ret t\<close> by (simp add: Schedule_def)
  next
    case False
    obtain item h where pop: "ListPopFront (proc_lists s) Ready_list = (item, h)" by fastforce
    with False \<open>Schedule s = ret t\<close> obtain n where "item = Some n" by (auto simp: Schedule_def)
    then show ?thesis using that [of "s\<lparr>proc_lists := h\<rparr>" n] False pop \<open>Schedule s = ret t\<close>
      by (simp add: Schedule_def keeps_drivers_def)
  qed
  have "keeps_drivers s ((set_state new PROCESS_SLOT_RUNNING s1)\<lparr>current_proc := new\<rparr>)"
    using keeps_drivers_trans [OF s1 keeps_set_state] by (simp add: keeps_drivers_def)
  then show ?thesis unfolding t by (rule keeps_drivers_trans [OF _ keeps_switch])
qed

lemma keeps_Wakeup: "Wakeup w s = ret t \<Longrightarrow> keeps_drivers s t"
proof -
  have "keeps_drivers s (case r of Inl e \<Rightarrow> s | Inr u \<Rightarrow> u)" if "Wakeup w s = Some r" for r
  proof (rule Wakeup.raw_induct [OF _ that])
    fix W w s r
    assume IH: "\<And>w s r. W w s = Some r \<Longrightarrow> keeps_drivers s (case r of Inl e \<Rightarrow> s | Inr u \<Rightarrow> u)"
      and eq: "andthen (WaitListRemoveReadyProcess Wait_list w s) (\<lambda>(item, s1). case item of None \<Rightarrow> ret s1
        | Some n \<Rightarrow> andthen (push_list Ready_list n (set_state n PROCESS_SLOT_READY s1)) (W w)) = Some r"
    show "keeps_drivers s (case r of Inl e \<Rightarrow> s | Inr u \<Rightarrow> u)"
    proof (cases r)
      case (Inr t)
      then obtain item s1 where s1: "WaitListRemoveReadyProcess Wait_list w s = ret (item, s1)"
        and rest: "(case item of None \<Rightarrow> ret s1
          | Some n \<Rightarrow> andthen (push_list Ready_list n (set_state n PROCESS_SLOT_READY s1)) (W w)) = ret t"
        using eq by auto
      have k1: "keeps_drivers s s1" using s1 by (auto simp: WaitListRemoveReadyProcess_def keeps_drivers_def)
      show ?thesis
      proof (cases item)
        case None
        then show ?thesis using rest k1 Inr by simp
      next
        case (Some n)
        then obtain u where u: "push_list Ready_list n (set_state n PROCESS_SLOT_READY s1) = ret u" "W w u = ret t"
          using rest by auto
        from IH [OF u(2)] have "keeps_drivers u t" by simp
        then show ?thesis using keeps_push_list [OF u(1)] keeps_set_state k1 Inr
          by (metis keeps_drivers_trans sum.simps(6))
      qed
    qed simp
  qed
  then show "Wakeup w s = ret t \<Longrightarrow> keeps_drivers s t" by fastforce
qed

lemma keeps_Sleep: "Sleep w s = ret t \<Longrightarrow> keeps_drivers s t"
proof -
  assume "Sleep w s = ret t"
  then obtain u where u: "push_list Wait_list (current_proc s)
      (set_proc (current_proc s) ((proc s (current_proc s))\<lparr>p_state := PROCESS_SLOT_SLEEPING, p_wait_id := w\<rparr>) s) = ret u"
    "Schedule u = ret t" by (auto simp: Sleep_def Let_def)
  have "keeps_drivers s (set_proc (current_proc s) ((proc s (current_proc s))\<lparr>p_state := PROCESS_SLOT_SLEEPING, p_wait_id := w\<rparr>) s)"
    by (simp add: keeps_drivers_def set_proc_def)
  then show ?thesis using keeps_push_list [OF u(1)] keeps_Schedule [OF u(2)] by (meson keeps_drivers_trans)
qed

lemma keeps_queued:
  "push_list q i (set_state j st s) = ret u \<Longrightarrow> keeps_drivers s u"
  using keeps_push_list keeps_set_state keeps_drivers_trans by blast

lemma keeps_Yield: "Yield s = ret t \<Longrightarrow> keeps_drivers s t"
  using keeps_drivers_trans [OF keeps_queued keeps_Schedule] keeps_drivers_trans [OF keeps_set_state keeps_Schedule]
  by (auto simp: Yield_def Let_def split: if_splits) blast

lemma keeps_Exit:
  assumes "Exit s = ret t" shows "keeps_drivers s t"
proof -
  from assms obtain u v where u: "push_list Kill_list (current_proc s) (set_state (current_proc s) PROCESS_SLOT_KILLED s) = ret u"
    "Wakeup INIT_PROCESS_WAIT_ID u = ret v" "Schedule v = ret t" by (auto simp: Exit_def Let_def)
  show ?thesis
    using keeps_queued [OF u(1)] keeps_Wakeup [OF u(2)] keeps_Schedule [OF u(3)] keeps_drivers_trans by blast
qed

lemmas keeps_scheduler = keeps_Schedule keeps_Wakeup keeps_Sleep keeps_Yield keeps_Exit

end
