(* ===== verification/User_Memory.thy ===== *)
theory User_Memory
  imports Process_Life Ports
begin

text \<open>
  Memory accesses of the kernel through pointers a user program has passed. The kernel runs on the
  page map of the current process, so such a pointer goes through the translation of the processor:
  \<open>resolve\<close> gives the place in memory, or nothing, and then the access is a page fault in kernel mode,
  which stops the kernel. Addresses of the kernel half are their own place: every page map has the same identity
  map there, up to the noted end of memory, and above it the model does not show the page fault; \<open>KMain_boots\<close> proves that
  the kernel and all pages of the allocator lie below. The code never checks that a user pointer is in the user half.
\<close>

section \<open>Accesses\<close>

definition resolve :: "'z kmem_scheme \<Rightarrow> u64 \<Rightarrow> u64 option" where
  "resolve s v =
     (if KERNEL_VIRTUAL_ADDRESS_BASE \<le> v then Some v
      else map_option (\<lambda>(p, attr). PHY_TO_VIR p) (mmu (mem s) (PHY_TO_VIR (cr3 s)) v))"

definition peek8 :: "'z kmem_scheme \<Rightarrow> u64 \<Rightarrow> u8 kres" where
  "peek8 s v = (case resolve s v of None \<Rightarrow> fails Page_fault | Some a \<Rightarrow> ret (mem s a))"

definition poke8 :: "u64 \<Rightarrow> u8 \<Rightarrow> 'z kmem_scheme \<Rightarrow> 'z kmem_scheme kres" where
  "poke8 v b s = (case resolve s v of None \<Rightarrow> fails Page_fault | Some a \<Rightarrow> ret (s\<lparr>mem := (mem s)(a := b)\<rparr>))"

primrec peek_bytes :: "nat \<Rightarrow> u64 \<Rightarrow> 'z kmem_scheme \<Rightarrow> u8 list kres" where
  "peek_bytes 0 v s = ret []"
| "peek_bytes (Suc n) v s =
     andthen (peek8 s v) (\<lambda>b. andthen (peek_bytes n (v + 1) s) (\<lambda>bs. ret (b # bs)))"

primrec poke_bytes :: "u8 list \<Rightarrow> u64 \<Rightarrow> 'z kmem_scheme \<Rightarrow> 'z kmem_scheme kres" where
  "poke_bytes [] v s = ret s"
| "poke_bytes (b # bs) v s = andthen (poke8 v b s) (poke_bytes bs (v + 1))"

definition peek64 :: "'z kmem_scheme \<Rightarrow> u64 \<Rightarrow> u64 kres" where
  "peek64 s v = andthen (peek_bytes 8 v s) (\<lambda>bs. ret (of_nat (le_nat bs)))"

text \<open>The loops of \<open>memcpy\<close> and \<open>memset\<close> on virtual addresses.\<close>

primrec vcopy :: "nat \<Rightarrow> u64 \<Rightarrow> u64 \<Rightarrow> 'z kmem_scheme \<Rightarrow> 'z kmem_scheme kres" where
  "vcopy 0 dest src s = ret s"
| "vcopy (Suc n) dest src s =
     andthen (peek8 s src) (\<lambda>b. andthen (poke8 dest b s) (vcopy n (dest + 1) (src + 1)))"

primrec vset :: "nat \<Rightarrow> u64 \<Rightarrow> u8 \<Rightarrow> 'z kmem_scheme \<Rightarrow> 'z kmem_scheme kres" where
  "vset 0 dest c s = ret s"
| "vset (Suc n) dest c s = andthen (poke8 dest c s) (vset n (dest + 1) c)"

text \<open>Reads through an address of the kernel half.\<close>

lemma peek_bytes_kernel:
  "KERNEL_VIRTUAL_ADDRESS_BASE \<le> a \<Longrightarrow> unat a + n < 2 ^ 64 \<Longrightarrow> peek_bytes n a s = ret (read_bytes (mem s) a n)"
proof (induction n arbitrary: a)
  case 0
  then show ?case by (simp add: read_bytes_def)
next
  case (Suc n)
  have a: "unat (a + 1) = unat a + 1" using Suc.prems(2) by (subst unat_plus_le) simp_all
  then have "peek_bytes n (a + 1) s = ret (read_bytes (mem s) (a + 1) n)"
    using Suc.prems by (intro Suc.IH) (simp_all add: word_le_nat_alt)
  moreover have "read_bytes (mem s) a (Suc n) = mem s a # read_bytes (mem s) (a + 1) n"
    unfolding read_bytes_def upt_conv_Cons [OF zero_less_Suc] map_Suc_upt [symmetric] by (simp add: comp_def algebra_simps)
  ultimately show ?case using Suc.prems(1) by (simp add: peek8_def resolve_def)
qed

section \<open>The user page\<close>

text \<open>
  The loaded page map is a tree \<open>T\<close> whose user half is one page \<open>u\<close> at
  \<open>USER_VIRTUAL_ADDRESS_BASE\<close>; the pages \<open>ps\<close> are free.
\<close>

definition user_space :: "'z kmem_scheme \<Rightarrow> tree \<Rightarrow> u64 \<Rightarrow> u64 list \<Rightarrow> bool" where
  "user_space s T u ps \<longleftrightarrow>
     space s (PHY_TO_VIR (cr3 s)) T ps \<and> tree_ok T
     \<and> (\<forall>i<2 ^ 21. walk T (USER_VIRTUAL_ADDRESS_BASE + of_nat i) = Some (VIR_TO_PHY u + of_nat i, 6))
     \<and> valid_page (l_kernel_end s) u \<and> u \<notin> tables (PHY_TO_VIR (cr3 s)) T \<and> u \<notin> set ps
     \<and> KERNEL_VIRTUAL_ADDRESS_BASE \<le> l_kernel_end s"

lemma user_offset_low:
  assumes "i < 2 ^ 21" shows "\<not> KERNEL_VIRTUAL_ADDRESS_BASE \<le> USER_VIRTUAL_ADDRESS_BASE + of_nat i"
proof -
  have "unat (of_nat i :: u64) = i" using assms by (simp add: unat_of_nat)
  then have "unat (USER_VIRTUAL_ADDRESS_BASE + of_nat i) = unat USER_VIRTUAL_ADDRESS_BASE + i"
    using assms by (subst unat_plus_le) (simp_all add: USER_VIRTUAL_ADDRESS_BASE_def)
  then show ?thesis using assms
    by (simp add: word_le_nat_alt KERNEL_VIRTUAL_ADDRESS_BASE_def USER_VIRTUAL_ADDRESS_BASE_def)
qed

lemma resolve_user:
  assumes "user_space s T u ps" "i < 2 ^ 21"
  shows "resolve s (USER_VIRTUAL_ADDRESS_BASE + of_nat i) = Some (u + of_nat i)"
proof -
  have vm: "vm_tree (mem s) (l_kernel_end s) (PHY_TO_VIR (cr3 s)) T" "tree_ok T"
    using assms(1) spaceD(1) by (auto simp: user_space_def)
  have "mmu (mem s) (PHY_TO_VIR (cr3 s)) (USER_VIRTUAL_ADDRESS_BASE + of_nat i) = Some (VIR_TO_PHY u + of_nat i, 6)"
    using assms mmu_walk [OF vm] by (simp add: user_space_def)
  moreover have "PHY_TO_VIR (VIR_TO_PHY u + of_nat i) = u + of_nat i" by (simp add: PHY_TO_VIR_def VIR_TO_PHY_def)
  ultimately show ?thesis using user_offset_low [OF assms(2)] by (simp add: resolve_def)
qed

lemma resolve_kernel [simp]: "KERNEL_VIRTUAL_ADDRESS_BASE \<le> v \<Longrightarrow> resolve s v = Some v"
  by (simp add: resolve_def)

text \<open>Writes to the user page and to pages that are in no table and not free leave it as it is.\<close>

lemma user_space_touches:
  assumes us: "user_space s T u ps" and t: "touches U s t" "s_free_memory_page_head t = s_free_memory_page_head s"
    and U: "U \<inter> tables (PHY_TO_VIR (cr3 s)) T = {}" "U \<inter> set ps = {}" "\<forall>p\<in>U. valid_page (l_kernel_end s) p"
  shows "user_space t T u ps"
  using us space_touches [OF _ t U] touches_same [OF t(1)]
  by (auto simp: user_space_def)

lemma user_space_write:
  assumes us: "user_space s T u ps" and m: "\<And>x. x \<notin> page_span u \<Longrightarrow> m x = mem s x"
  shows "user_space (s\<lparr>mem := m\<rparr>) T u ps"
  by (rule user_space_touches [OF us touches_mem_only [of "{u}"]]) (use us m in \<open>auto simp: user_space_def\<close>)

lemma user_space_cong:
  assumes "user_space s T u ps" "mem t = mem s" "cr3 t = cr3 s" "l_kernel_end t = l_kernel_end s"
    "s_free_memory_page_head t = s_free_memory_page_head s"
  shows "user_space t T u ps"
  using assms space_other_fields [of s "PHY_TO_VIR (cr3 s)" T ps t] by (auto simp: user_space_def)

declare in_page [simp]


lemma poke8_user:
  assumes "user_space s T u ps" "i < 2 ^ 21"
  shows "poke8 (USER_VIRTUAL_ADDRESS_BASE + of_nat i) b s = ret (s\<lparr>mem := (mem s)(u + of_nat i := b)\<rparr>)"
    "user_space (s\<lparr>mem := (mem s)(u + of_nat i := b)\<rparr>) T u ps"
  using resolve_user [OF assms] in_page [OF assms(2), of u]
  by (simp add: poke8_def) (rule user_space_write [OF assms(1)], use in_page [OF assms(2), of u] in auto)

lemma Suc_offset: "v + of_nat i + 1 = v + of_nat (Suc i)" for v :: "'w::len word"
  by simp

lemma poke_bytes_user:
  "user_space s T u ps \<Longrightarrow> i + length bs \<le> 2 ^ 21 \<Longrightarrow>
   poke_bytes bs (USER_VIRTUAL_ADDRESS_BASE + of_nat i) s = ret (s\<lparr>mem := write_bytes (mem s) (u + of_nat i) bs\<rparr>)"
proof (induction bs arbitrary: i s)
  case Nil
  then show ?case by simp
next
  case (Cons b bs)
  then have i: "i < 2 ^ 21" by simp
  note p = poke8_user [OF Cons.prems(1) i, of b]
  from Cons.IH [OF p(2), of "Suc i"] Cons.prems(2) show ?case unfolding poke_bytes.simps p(1) andthen_simps Suc_offset
    by (simp add: fun_upd_def ac_simps)
qed

lemma peek_bytes_user:
  "user_space s T u ps \<Longrightarrow> i + n \<le> 2 ^ 21 \<Longrightarrow>
   peek_bytes n (USER_VIRTUAL_ADDRESS_BASE + of_nat i) s = ret (read_bytes (mem s) (u + of_nat i) n)"
proof (induction n arbitrary: i)
  case 0
  then show ?case by (simp add: read_bytes_def)
next
  case (Suc n)
  then have i: "i < 2 ^ 21" by simp
  have e: "read_bytes (mem s) (u + of_nat i) (Suc n) = mem s (u + of_nat i) # read_bytes (mem s) (u + of_nat (Suc i)) n"
    unfolding read_bytes_def upt_conv_Cons [OF zero_less_Suc] map_Suc_upt [symmetric]
    by (simp add: add.assoc comp_def algebra_simps)
  show ?case using Suc.IH [OF Suc.prems(1), of "Suc i"] Suc.prems(2) resolve_user [OF Suc.prems(1) i]
    unfolding peek_bytes.simps Suc_offset e by (simp add: peek8_def)
qed

lemma vcopy_user:
  "user_space s T u ps \<Longrightarrow> i + n \<le> 2 ^ 21 \<Longrightarrow> KERNEL_VIRTUAL_ADDRESS_BASE \<le> src \<Longrightarrow> unat src + n < 2 ^ 64 \<Longrightarrow>
   vcopy n (USER_VIRTUAL_ADDRESS_BASE + of_nat i) src s = ret (s\<lparr>mem := memcpy_loop (mem s) (u + of_nat i) src n\<rparr>)"
proof (induction n arbitrary: i s src)
  case 0
  then show ?case by simp
next
  case (Suc n)
  then have i: "i < 2 ^ 21" by simp
  have src: "unat (src + 1) = unat src + 1" using Suc.prems(4) by (subst unat_plus_le) simp_all
  then have "KERNEL_VIRTUAL_ADDRESS_BASE \<le> src + 1" using Suc.prems(3) by (simp add: word_le_nat_alt)
  note p = poke8_user [OF Suc.prems(1) i, of "mem s src"]
  have read: "peek8 s src = ret (mem s src)" using Suc.prems(3) by (simp add: peek8_def)
  from Suc.IH [OF p(2) _ \<open>KERNEL_VIRTUAL_ADDRESS_BASE \<le> src + 1\<close>, of "Suc i"] Suc.prems(2,4) src
  show ?case unfolding vcopy.simps read p(1) andthen_simps Suc_offset by (simp add: fun_upd_def ac_simps)
qed

lemma vset_user:
  "user_space s T u ps \<Longrightarrow> i + n \<le> 2 ^ 21 \<Longrightarrow>
   vset n (USER_VIRTUAL_ADDRESS_BASE + of_nat i) c s = ret (s\<lparr>mem := fill (mem s) (u + of_nat i) c n\<rparr>)"
proof (induction n arbitrary: i s)
  case 0
  then show ?case by simp
next
  case (Suc n)
  then have i: "i < 2 ^ 21" by simp
  note p = poke8_user [OF Suc.prems(1) i, of c]
  have "fill ((mem s)(u + of_nat i := c)) (u + of_nat i + 1) c n = fill (mem s) (u + of_nat i) c (Suc n)"
    using Suc.prems(2) by (intro fill_Suc) simp
  then show ?case using Suc.IH [OF p(2), of "Suc i"] Suc.prems(2)
    unfolding vset.simps p(1) andthen_simps Suc_offset by (simp add: fun_upd_def ac_simps)
qed

end
