(* ===== verification/Keyboard.thy ===== *)
theory Keyboard
  imports Ports
begin

text \<open>
  The keyboard driver, \<open>kernel/keyboard.c\<close>: the translation of scan codes to characters with its
  three modifier flags, and the ring of 500 characters between the interrupt handler and the readers.

  \<open>ReadKeyBuffer\<close> sleeps in the middle when the ring is empty. Its model then answers \<open>None\<close>, in the
  state in which another process goes on; \<open>take_key\<close> is the rest of the function, which the caller
  runs when it is dispatched again, with the index it has read before. The specification has the
  modifiers as booleans and the ring as a queue of at most 499 characters; the proof that the driver
  implements it interprets the locale \<open>simulation\<close>. A run of the driver consists of interrupts, of readers
  that start, of readers that go on behind \<open>Sleep\<close>, and of what the other processes do to the scheduler. The
  driver is right as long as nobody starts to read while another reader sleeps; two sleeping readers break it.
\<close>

section \<open>Scan codes\<close>

definition WAITING_KEYBOARD_PROCESS_WAIT_ID :: int where
  "WAITING_KEYBOARD_PROCESS_WAIT_ID = -2"

definition E0_SIGN :: u32 where "E0_SIGN = 1"
definition SHIFT :: u32 where "SHIFT = 2"
definition CAPS_LOCK :: u32 where "CAPS_LOCK = 4"

definition SENT_SCAN_CODE_PORT :: u16 where
  "SENT_SCAN_CODE_PORT = 0x60"

definition s_shift_code :: "u8 \<Rightarrow> u8" where
  "s_shift_code c = (if c \<in> {0x2A, 0x36, 0xAA, 0xB6} then ucast SHIFT else 0)"

definition s_lock_code :: "u8 \<Rightarrow> u8" where
  "s_lock_code c = (if c = 0x3A then ucast CAPS_LOCK else 0)"

text \<open>The tables as they are initialised; the entries behind are zero.\<close>

definition key_table :: "u8 list" where
  "key_table =
     [0, 0] @ bytes_of ''1234567890-='' @ [8, 0] @ bytes_of ''qwertyuiop[]'' @ [10, 0]
     @ bytes_of ''asdfghjkl;'' @ [39] @ bytes_of ''`'' @ [0, 92] @ bytes_of ''zxcvbnm,./'' @ [0] @ bytes_of ''*'' @ [0] @ bytes_of '' ''"

definition shift_key_table :: "u8 list" where
  "shift_key_table =
     [0, 1] @ bytes_of ''!@#$%^&*()_+'' @ [8, 9] @ bytes_of ''QWERTYUIOP{}'' @ [10, 0]
     @ bytes_of ''ASDFGHJKL:'' @ [34] @ bytes_of ''~'' @ [0] @ bytes_of ''|ZXCVBNM<>?'' @ [0] @ bytes_of ''*'' @ [0] @ bytes_of '' ''"

definition s_key_map :: "u8 \<Rightarrow> u8" where
  "s_key_map c = (if unat c < length key_table then key_table ! unat c else 0)"

definition s_shift_key_map :: "u8 \<Rightarrow> u8" where
  "s_shift_key_map c = (if unat c < length shift_key_table then shift_key_table ! unat c else 0)"

text \<open>The tables have a lower case letter where the other has the capital.\<close>

definition swap_case :: "u8 \<Rightarrow> u8" where
  "swap_case c =
     (if 97 \<le> sint c \<and> sint c \<le> 122 then c - 32
      else if 65 \<le> sint c \<and> sint c \<le> 90 then c + 32 else c)"

definition set_flag :: "u32 \<Rightarrow> 'z kernel_scheme \<Rightarrow> 'z kernel_scheme" where
  "set_flag f s = s\<lparr>s_flag := f\<rparr>"

definition ReadCharacter :: "'d ports \<Rightarrow> ('d, 'z) io_kernel_scheme \<Rightarrow> u8 \<times> ('d, 'z) io_kernel_scheme" where
  "ReadCharacter io s0 =
     (let (scan_code, s) = InByte io SENT_SCAN_CODE_PORT s0; flag = s_flag s in
      if scan_code = 0xE0 then (0, set_flag (flag OR E0_SIGN) s)
      else if flag AND E0_SIGN \<noteq> 0 then (0, set_flag (flag AND NOT E0_SIGN) s)
      else if scan_code AND 0x80 \<noteq> 0 then (0, set_flag (flag AND NOT (ucast (s_shift_code scan_code))) s)
      else
        let flag1 = (flag OR ucast (s_shift_code scan_code)) XOR ucast (s_lock_code scan_code);
            c = if flag1 AND SHIFT \<noteq> 0 then s_shift_key_map scan_code else s_key_map scan_code;
            c = if flag1 AND CAPS_LOCK \<noteq> 0 then swap_case c else c
        in (c, set_flag flag1 s))"

section \<open>The ring\<close>

definition set_ring :: "KeyboardBuffer \<Rightarrow> 'z kernel_scheme \<Rightarrow> 'z kernel_scheme" where
  "set_ring k s = s\<lparr>s_keyboard_controller := k\<rparr>"

definition WriteKeyBuffer :: "u8 \<Rightarrow> 'z kernel_scheme \<Rightarrow> 'z kernel_scheme" where
  "WriteKeyBuffer ch s =
     (let k = s_keyboard_controller s; front = k_front k; e = k_end k; size = k_size k
      in if (e + 1) mod size = front then s
         else set_ring (k\<lparr>k_buffer := (k_buffer k)(e := ch), k_end := (e + 1) mod size\<rparr>) s)"

definition KeyboardHandler :: "'d ports \<Rightarrow> ('d, 'z) io_kernel_scheme \<Rightarrow> ('d, 'z) io_kernel_scheme kres" where
  "KeyboardHandler io s =
     (let (ch, s1) = ReadCharacter io s
      in if sint ch > 0 then Wakeup WAITING_KEYBOARD_PROCESS_WAIT_ID (WriteKeyBuffer ch s1) else ret s1)"

text \<open>The rest of \<open>ReadKeyBuffer\<close> behind the test, with its local variable \<open>front\<close>.\<close>

definition take_key :: "nat \<Rightarrow> 'z kernel_scheme \<Rightarrow> u8 \<times> 'z kernel_scheme" where
  "take_key front s =
     (let k = s_keyboard_controller s;
          s1 = set_ring (k\<lparr>k_front := (k_front k + 1) mod k_size k\<rparr>) s
      in (k_buffer (s_keyboard_controller s1) front, s1))"

definition ReadKeyBuffer :: "'z kernel_scheme \<Rightarrow> (u8 option \<times> 'z kernel_scheme) kres" where
  "ReadKeyBuffer s =
     (let front = k_front (s_keyboard_controller s) in
      if front = k_end (s_keyboard_controller s)
      then andthen (Sleep WAITING_KEYBOARD_PROCESS_WAIT_ID s) (\<lambda>s1. ret (None, s1))
      else let (c, s1) = take_key front s in ret (Some c, s1))"

section \<open>Specification\<close>

record keys =
  k_ext :: bool
  k_shift :: bool
  k_caps :: bool

definition flag_of :: "keys \<Rightarrow> u32" where
  "flag_of k = (if k_ext k then E0_SIGN else 0) OR (if k_shift k then SHIFT else 0)
     OR (if k_caps k then CAPS_LOCK else 0)"

text \<open>One scan code: the character it stands for, 0 for none, and the modifiers behind it.\<close>

definition key_spec :: "u8 \<Rightarrow> keys \<Rightarrow> u8 \<times> keys" where
  "key_spec sc k =
     (if sc = 0xE0 then (0, k\<lparr>k_ext := True\<rparr>)
      else if k_ext k then (0, k\<lparr>k_ext := False\<rparr>)
      else if 0x80 \<le> sc then (0, k\<lparr>k_shift := (k_shift k \<and> sc \<notin> {0xAA, 0xB6})\<rparr>)
      else
        let sh = k_shift k \<or> sc \<in> {0x2A, 0x36}; caps = (k_caps k \<noteq> (sc = 0x3A));
            c = if sh then s_shift_key_map sc else s_key_map sc
        in (if caps then swap_case c else c, k\<lparr>k_shift := sh, k_caps := caps\<rparr>))"

definition holds :: "KeyboardBuffer \<Rightarrow> u8 list \<Rightarrow> bool" where
  "holds k cs \<longleftrightarrow>
     k_size k = 500 \<and> k_front k < 500 \<and> length cs < 500 \<and> k_end k = (k_front k + length cs) mod 500
     \<and> (\<forall>i<length cs. k_buffer k ((k_front k + i) mod 500) = cs ! i)"

lemma ring_index: "f < n \<Longrightarrow> i < n \<Longrightarrow> (f + i) mod n = (if f + i < n then f + i else f + i - n)" for f :: nat
  by (simp add: le_mod_geq)

lemma ring_index_eq: "f < n \<Longrightarrow> i < n \<Longrightarrow> j < n \<Longrightarrow> (f + i) mod n = (f + j) mod n \<longleftrightarrow> i = j" for f :: nat
  by (auto simp: ring_index split: if_splits)

lemma ring_index_self: "f < n \<Longrightarrow> i < n \<Longrightarrow> (f + i) mod n = f \<longleftrightarrow> i = 0" for f :: nat
  using ring_index_eq [of f n i 0] by simp

lemma holds_empty: "holds k cs \<Longrightarrow> k_front k = k_end k \<longleftrightarrow> cs = []"
proof -
  assume h: "holds k cs"
  then have "k_front k < 500" "length cs < 500" "k_end k = (k_front k + length cs) mod 500" by (auto simp: holds_def)
  then have "k_front k = k_end k \<longleftrightarrow> length cs = 0" using ring_index_self by metis
  then show ?thesis by simp
qed

lemma holds_write:
  assumes "holds (s_keyboard_controller s) cs"
  shows "holds (s_keyboard_controller (WriteKeyBuffer c s)) (if length cs < 499 then cs @ [c] else cs)"
proof -
  let ?k = "s_keyboard_controller s" let ?f = "k_front ?k"
  have k: "k_size ?k = 500" "?f < 500" "length cs < 500" "k_end ?k = (?f + length cs) mod 500"
    "\<And>i. i < length cs \<Longrightarrow> k_buffer ?k ((?f + i) mod 500) = cs ! i"
    using assms by (auto simp: holds_def)
  have nxt: "(k_end ?k + 1) mod 500 = (?f + Suc (length cs)) mod 500" unfolding k(4) by (simp add: mod_Suc_eq)
  show ?thesis
  proof (cases "length cs < 499")
    case True
    have "(?f + Suc (length cs)) mod 500 \<noteq> ?f" using True k(2) ring_index_self [of ?f 500 "Suc (length cs)"] by simp
    moreover have "(?f + i) mod 500 \<noteq> (?f + length cs) mod 500" if "i < length cs" for i
      using that k(2,3) ring_index_eq [of ?f 500 i "length cs"] by simp
    ultimately show ?thesis using True k nxt
      by (auto simp: WriteKeyBuffer_def Let_def holds_def set_ring_def nth_append less_Suc_eq)
  next
    case False
    then have "length cs = 499" using k(3) by simp
    then have "(?f + Suc (length cs)) mod 500 = ?f" using k(2) by simp
    then show ?thesis using False assms nxt k(1) by (simp add: WriteKeyBuffer_def Let_def)
  qed
qed

lemma holds_take:
  assumes "holds (s_keyboard_controller s) (c # cs)"
  shows "take_key (k_front (s_keyboard_controller s)) s
      = (c, set_ring ((s_keyboard_controller s)\<lparr>k_front := (k_front (s_keyboard_controller s) + 1) mod 500\<rparr>) s)"
    "holds ((s_keyboard_controller s)\<lparr>k_front := (k_front (s_keyboard_controller s) + 1) mod 500\<rparr>) cs"
proof -
  let ?k = "s_keyboard_controller s" let ?f = "k_front ?k"
  have k: "k_size ?k = 500" "?f < 500" "length cs < 499" "k_end ?k = (?f + Suc (length cs)) mod 500"
    and nth: "\<And>i. i < Suc (length cs) \<Longrightarrow> k_buffer ?k ((?f + i) mod 500) = (c # cs) ! i"
    using assms by (auto simp: holds_def)
  have "k_buffer ?k ?f = c" using nth [of 0] k(2) by simp
  then show "take_key ?f s = (c, set_ring (?k\<lparr>k_front := (?f + 1) mod 500\<rparr>) s)"
    using k(1) by (simp add: take_key_def Let_def set_ring_def)
  have "((?f + 1) mod 500 + i) mod 500 = (?f + Suc i) mod 500" for i by (simp add: mod_Suc_eq mod_add_left_eq)
  then show "holds (?k\<lparr>k_front := (?f + 1) mod 500\<rparr>) cs"
    using k nth [of "Suc _"] by (auto simp: holds_def)
qed

section \<open>The driver implements the specification\<close>

lemma in_byte_high_bit: "(sc :: u8) AND 0x80 \<noteq> 0 \<longleftrightarrow> 0x80 \<le> sc"
proof -
  have "(sc AND 0x80 \<noteq> 0) = bit sc 7"
    using and_exp_eq_0_iff_not_bit [of sc 7] by simp
  also have "\<dots> = (128 \<le> unat sc)"
  proof -
    have "unat sc < 256" using unat_lt2p [of sc] by simp
    moreover have "bit sc 7 = bit (unat sc) 7" by (simp add: bit_unsigned_iff)
    moreover have "bit (unat sc) 7 = odd (unat sc div 128)" by (simp add: bit_iff_odd)
    moreover have "unat sc div 128 < 2" using calculation(1) by (intro less_mult_imp_div_less) simp
    moreover have "unat sc div 128 = 0 \<longleftrightarrow> unat sc < 128" by (simp add: div_eq_0_iff)
    ultimately show ?thesis by (cases "unat sc div 128 = 0") (auto simp: less_2_cases_iff)
  qed
  finally show ?thesis by (simp add: word_le_nat_alt)
qed

lemma ReadCharacter_ok:
  assumes "s_flag s = flag_of k" "in_byte io SENT_SCAN_CODE_PORT (dev s) = (sc, d)"
  shows "ReadCharacter io s = (fst (key_spec sc k), set_flag (flag_of (snd (key_spec sc k))) (s\<lparr>dev := d\<rparr>))"
proof -
  obtain e sh cl where k: "k = \<lparr>k_ext = e, k_shift = sh, k_caps = cl\<rparr>" by (cases k) simp
  have test: "flag_of k AND E0_SIGN \<noteq> 0 \<longleftrightarrow> k_ext k" "flag_of k AND SHIFT \<noteq> 0 \<longleftrightarrow> k_shift k"
    "flag_of k AND CAPS_LOCK \<noteq> 0 \<longleftrightarrow> k_caps k" for k
    by (cases "k_ext k"; cases "k_shift k"; cases "k_caps k"; simp add: flag_of_def E0_SIGN_def SHIFT_def CAPS_LOCK_def)+
  have ext: "flag_of k OR E0_SIGN = flag_of (k\<lparr>k_ext := True\<rparr>)" "flag_of k AND NOT E0_SIGN = flag_of (k\<lparr>k_ext := False\<rparr>)"
    unfolding k by (cases e; cases sh; cases cl; simp add: flag_of_def E0_SIGN_def SHIFT_def CAPS_LOCK_def)+
  have up: "flag_of k AND NOT (ucast (s_shift_code sc)) = flag_of (k\<lparr>k_shift := (sh \<and> sc \<notin> {0xAA, 0xB6})\<rparr>)" if "0x80 \<le> sc"
  proof -
    have "sc \<noteq> 0x2A" "sc \<noteq> 0x36" using that by auto
    then show ?thesis unfolding k
      by (cases e; cases sh; cases cl; simp add: flag_of_def E0_SIGN_def SHIFT_def CAPS_LOCK_def s_shift_code_def)
  qed
  have down: "(flag_of k OR ucast (s_shift_code sc)) XOR ucast (s_lock_code sc)
      = flag_of (k\<lparr>k_shift := (sh \<or> sc \<in> {0x2A, 0x36}), k_caps := (cl \<noteq> (sc = 0x3A))\<rparr>)" if "\<not> 0x80 \<le> sc"
  proof -
    have "sc \<noteq> 0xAA" "sc \<noteq> 0xB6" using that by auto
    then show ?thesis unfolding k
      by (cases e; cases sh; cases cl; auto simp: flag_of_def E0_SIGN_def SHIFT_def CAPS_LOCK_def s_shift_code_def s_lock_code_def)
  qed
  let ?s = "s\<lparr>dev := d\<rparr>"
  have i: "InByte io SENT_SCAN_CODE_PORT s = (sc, ?s)" using assms(2) by (simp add: InByte_def)
  have f: "s_flag ?s = flag_of k" using assms(1) by simp
  show ?thesis
  proof (cases "sc = 0xE0 \<or> k_ext k")
    case True
    then show ?thesis by (auto simp: ReadCharacter_def Let_def i f test ext key_spec_def)
  next
    case F: False
    show ?thesis
    proof (cases "0x80 \<le> sc")
      case True
      then show ?thesis using F by (simp add: ReadCharacter_def Let_def i f test in_byte_high_bit up key_spec_def) (simp add: k)
    next
      case False
      then show ?thesis using F
        by (simp add: ReadCharacter_def Let_def i f test in_byte_high_bit down key_spec_def) (simp add: k)
    qed
  qed
qed

text \<open>The state of the specification: modifiers, characters, devices, processes.\<close>

record 'd keyboard =
  km :: keys
  kq :: "u8 list"
  kd :: 'd
  ks :: sched

datatype key_op = Key_interrupt | Read_key | Go_on | Other sched_op

text \<open>
  The code keeps, for each process that sleeps in \<open>ReadKeyBuffer\<close>, its local variable \<open>front\<close>. The answer is the character a
  reader returns, if one does, and the process that runs afterwards.
\<close>

type_synonym fronts = "nat \<Rightarrow> nat option"

definition key_code :: "'d ports \<Rightarrow> key_op \<Rightarrow> ('d, 'z) io_kernel_scheme \<times> fronts
    \<Rightarrow> ((u8 option \<times> nat) \<times> ('d, 'z) io_kernel_scheme \<times> fronts) kres" where
  "key_code io x = (\<lambda>(s, F).
     case x of
       Key_interrupt \<Rightarrow> andthen (KeyboardHandler io s) (\<lambda>t. ret ((None, current_proc t), t, F))
     | Read_key \<Rightarrow> andthen (ReadKeyBuffer s) (\<lambda>(c, t). ret ((c, current_proc t), t,
         if c = None then F(current_proc s := Some (k_front (s_keyboard_controller s))) else F))
     | Go_on \<Rightarrow> (let (c, t) = take_key (the (F (current_proc s))) s
         in ret ((Some c, current_proc t), t, F(current_proc s := None)))
     | Other y \<Rightarrow> andthen (sched_code y s) (\<lambda>t. ret ((None, current_proc t), t, F)))"

fun key_step :: "'d ports \<Rightarrow> key_op \<Rightarrow> 'd keyboard \<Rightarrow> u8 option \<times> 'd keyboard" where
  "key_step io Key_interrupt a =
     (let (sc, d) = in_byte io SENT_SCAN_CODE_PORT (kd a); (c, k) = key_spec sc (km a); b = a\<lparr>km := k, kd := d\<rparr>
      in (None, if sint c > 0
                then b\<lparr>kq := if length (kq a) < 499 then kq a @ [c] else kq a, ks := rouse WAITING_KEYBOARD_PROCESS_WAIT_ID (ks a)\<rparr>
                else b))"
| "key_step io Read_key a =
     (case kq a of
        [] \<Rightarrow> (None, a\<lparr>ks := sched_spec (Do_sleep WAITING_KEYBOARD_PROCESS_WAIT_ID) (ks a)\<rparr>)
      | c # cs \<Rightarrow> (Some c, a\<lparr>kq := cs\<rparr>))"
| "key_step io Go_on a = (Some (hd (kq a)), a\<lparr>kq := tl (kq a)\<rparr>)"
| "key_step io (Other y) a = (None, a\<lparr>ks := sched_spec y (ks a)\<rparr>)"

text \<open>The specification remembers which process sleeps in a read.\<close>

definition reader :: "key_op \<Rightarrow> 'd keyboard \<Rightarrow> nat option \<Rightarrow> nat option" where
  "reader x a w = (if x = Read_key \<and> kq a = [] then Some (running (ks a)) else if x = Go_on then None else w)"

definition key_answer :: "'d ports \<Rightarrow> key_op \<Rightarrow> 'd keyboard \<times> nat option \<Rightarrow> (u8 option \<times> nat) \<times> 'd keyboard \<times> nat option" where
  "key_answer io x = (\<lambda>(a, w). let (c, b) = key_step io x a in ((c, running (ks b)), b, reader x a w))"

text \<open>
  What may happen: a process other than the idle one starts to read when no reader sleeps; the reader goes on when it
  is dispatched again; the other processes use the scheduler in any way, except that the event of the
  keyboard is signalled by the interrupt only.
\<close>

fun key_enabled :: "key_op \<Rightarrow> 'd keyboard \<times> nat option \<Rightarrow> bool" where
  "key_enabled Key_interrupt (a, w) \<longleftrightarrow> True"
| "key_enabled Read_key (a, w) \<longleftrightarrow> running (ks a) \<noteq> 0 \<and> w = None"
| "key_enabled Go_on (a, w) \<longleftrightarrow> w = Some (running (ks a))"
| "key_enabled (Other y) (a, w) \<longleftrightarrow> sched_enabled y (ks a) \<and> w \<noteq> Some (running (ks a)) \<and> y \<noteq> Do_wakeup WAITING_KEYBOARD_PROCESS_WAIT_ID"

definition keyboard_rel :: "('d, 'z) io_kernel_scheme \<Rightarrow> 'd keyboard \<Rightarrow> bool" where
  "keyboard_rel s a \<longleftrightarrow>
     s_flag s = flag_of (km a) \<and> holds (s_keyboard_controller s) (kq a) \<and> dev s = kd a \<and> represents True s (ks a)"

lemma keyboard_rel_frame:
  assumes "keyboard_rel s a" "keeps_drivers s t" "represents True t b"
  shows "keyboard_rel t (a\<lparr>ks := b\<rparr>)"
  using assms keeps_driversD(1,2) [OF assms(2)] keeps_drivers_dev [OF assms(2)] by (simp add: keyboard_rel_def)

lemma KeyboardHandler_ok:
  assumes r: "keyboard_rel s a"
  shows "\<exists>t. KeyboardHandler io s = ret t \<and> keyboard_rel t (snd (key_step io Key_interrupt a))"
proof -
  obtain sc d where io: "in_byte io SENT_SCAN_CODE_PORT (dev s) = (sc, d)" by fastforce
  obtain c k where spec: "key_spec sc (km a) = (c, k)" by fastforce
  let ?s1 = "set_flag (flag_of k) (s\<lparr>dev := d\<rparr>)"
  have read: "ReadCharacter io s = (c, ?s1)"
    using ReadCharacter_ok [OF _ io, of "km a"] r spec by (simp add: keyboard_rel_def)
  have r1: "keyboard_rel ?s1 (a\<lparr>km := k, kd := d\<rparr>)"
    using r represents_cong [of True s "ks a" ?s1] by (simp add: keyboard_rel_def set_flag_def)
  show ?thesis
  proof (cases "sint c > 0")
    case False
    then show ?thesis using r r1 io spec read by (auto simp: KeyboardHandler_def keyboard_rel_def)
  next
    case True
    let ?s2 = "WriteKeyBuffer c ?s1"
    have "holds (s_keyboard_controller ?s2) (if length (kq a) < 499 then kq a @ [c] else kq a)"
      using holds_write [of ?s1 "kq a" c] r1 by (simp add: keyboard_rel_def)
    moreover have "represents True ?s2 (ks a)" "s_flag ?s2 = flag_of k" "dev ?s2 = d"
      using r1 represents_cong [of True ?s1 "ks a" ?s2]
      by (simp_all add: keyboard_rel_def WriteKeyBuffer_def Let_def set_ring_def set_flag_def)
    ultimately have r2: "keyboard_rel ?s2 (a\<lparr>km := k, kd := d, kq := if length (kq a) < 499 then kq a @ [c] else kq a\<rparr>)"
      by (simp add: keyboard_rel_def)
    obtain t where t: "Wakeup WAITING_KEYBOARD_PROCESS_WAIT_ID ?s2 = ret t"
      "represents True t (rouse WAITING_KEYBOARD_PROCESS_WAIT_ID (ks a))"
      using Wakeup_ok [OF \<open>represents True ?s2 (ks a)\<close>] by blast
    from keyboard_rel_frame [OF r2 keeps_Wakeup [OF t(1)] t(2)] show ?thesis
      using True t(1) r io spec read by (simp add: KeyboardHandler_def keyboard_rel_def)
  qed
qed

lemma ReadKeyBuffer_ok:
  assumes r: "keyboard_rel s a" and run: "running (ks a) \<noteq> 0"
  shows "\<exists>t. ReadKeyBuffer s = ret (fst (key_step io Read_key a), t) \<and> keyboard_rel t (snd (key_step io Read_key a))"
proof (cases "kq a")
  case Nil
  have "k_front (s_keyboard_controller s) = k_end (s_keyboard_controller s)"
    using r holds_empty Nil by (auto simp: keyboard_rel_def)
  moreover obtain t where t: "Sleep WAITING_KEYBOARD_PROCESS_WAIT_ID s = ret t"
    "represents True t (sched_spec (Do_sleep WAITING_KEYBOARD_PROCESS_WAIT_ID) (ks a))"
    using Sleep_ok [OF _ run] r unfolding keyboard_rel_def by blast
  ultimately show ?thesis using keyboard_rel_frame [OF r keeps_Sleep [OF t(1)] t(2)] t(1) Nil
    by (simp add: ReadKeyBuffer_def)
next
  case (Cons c cs)
  have h: "holds (s_keyboard_controller s) (c # cs)" using r Cons by (simp add: keyboard_rel_def)
  have ne: "k_front (s_keyboard_controller s) \<noteq> k_end (s_keyboard_controller s)" using holds_empty [OF h] by simp
  let ?t = "set_ring ((s_keyboard_controller s)\<lparr>k_front := (k_front (s_keyboard_controller s) + 1) mod 500\<rparr>) s"
  have "keyboard_rel ?t (a\<lparr>kq := cs\<rparr>)"
    using r holds_take(2) [OF h] represents_cong [of True s "ks a" ?t] by (simp add: keyboard_rel_def set_ring_def)
  then show ?thesis using ne holds_take(1) [OF h] Cons by (simp add: ReadKeyBuffer_def)
qed

text \<open>
  The sleeping reader has noted the front of the ring, and as long as nobody else takes a character this is still the front
  when it goes on. It does so after its event only, and then there is a character.
\<close>

definition driver_rel :: "('d, 'z) io_kernel_scheme \<times> fronts \<Rightarrow> 'd keyboard \<times> nat option \<Rightarrow> bool" where
  "driver_rel = (\<lambda>(s, F) (a, w). keyboard_rel s a
     \<and> (case w of None \<Rightarrow> F = (\<lambda>_. None)
        | Some p \<Rightarrow> F = (\<lambda>_. None)(p := Some (k_front (s_keyboard_controller s)))
            \<and> (kq a = [] \<longrightarrow> asleep p WAITING_KEYBOARD_PROCESS_WAIT_ID (ks a))))"

lemma driver_relI:
  assumes "keyboard_rel t b" "w = None \<Longrightarrow> F = (\<lambda>_. None)"
    and "\<And>p. w = Some p \<Longrightarrow> F = (\<lambda>_. None)(p := Some (k_front (s_keyboard_controller t)))"
    and "\<And>p. w = Some p \<Longrightarrow> kq b = [] \<Longrightarrow> asleep p WAITING_KEYBOARD_PROCESS_WAIT_ID (ks b)"
  shows "driver_rel (t, F) (b, w)"
  using assms by (auto simp: driver_rel_def split: option.split)

lemma driver_relD:
  assumes "driver_rel (s, F) (a, w)"
  shows "keyboard_rel s a" "w = None \<Longrightarrow> F = (\<lambda>_. None)"
    "w = Some p \<Longrightarrow> F = (\<lambda>_. None)(p := Some (k_front (s_keyboard_controller s)))"
    "w = Some p \<Longrightarrow> kq a = [] \<Longrightarrow> asleep p WAITING_KEYBOARD_PROCESS_WAIT_ID (ks a)"
  using assms by (auto simp: driver_rel_def)

lemma ReadCharacter_ring: "s_keyboard_controller (snd (ReadCharacter io s)) = s_keyboard_controller s"
  by (auto simp: ReadCharacter_def InByte_def split_def Let_def set_flag_def)

lemma KeyboardHandler_front:
  assumes "KeyboardHandler io s = ret t" shows "k_front (s_keyboard_controller t) = k_front (s_keyboard_controller s)"
proof -
  obtain c s1 where s1: "ReadCharacter io s = (c, s1)" by fastforce
  have ring: "s_keyboard_controller s1 = s_keyboard_controller s" using ReadCharacter_ring [of io s] s1 by simp
  show ?thesis
  proof (cases "sint c > 0")
    case True
    then have "Wakeup WAITING_KEYBOARD_PROCESS_WAIT_ID (WriteKeyBuffer c s1) = ret t" using assms s1 by (simp add: KeyboardHandler_def)
    from keeps_driversD(1) [OF keeps_Wakeup [OF this]] show ?thesis
      by (simp add: WriteKeyBuffer_def Let_def set_ring_def ring)
  qed (use assms s1 ring in \<open>simp add: KeyboardHandler_def\<close>)
qed

lemma interrupt_queue:
  assumes "kq (snd (key_step io Key_interrupt a)) = []" shows "kq a = []" "ks (snd (key_step io Key_interrupt a)) = ks a"
proof -
  obtain sc d c k where "in_byte io SENT_SCAN_CODE_PORT (kd a) = (sc, d)" "key_spec sc (km a) = (c, k)" by fastforce
  then show "kq a = []" "ks (snd (key_step io Key_interrupt a)) = ks a" using assms by (auto simp: Let_def split: if_splits)
qed

lemma sched_code_ok:
  fixes s :: "('d, 'z) io_kernel_scheme"
  assumes "keyboard_rel s a" "sched_enabled y (ks a)"
  shows "\<exists>t. sched_code y s = ret t \<and> keyboard_rel t (a\<lparr>ks := sched_spec y (ks a)\<rparr>)
     \<and> s_keyboard_controller t = s_keyboard_controller s"
proof -
  have r: "represents True s (ks a)" using assms(1) by (simp add: keyboard_rel_def)
  obtain t where t: "sched_code y s = ret t" "represents True t (sched_spec y (ks a))"
    using Yield_ok [OF r] Sleep_ok [OF r] Wakeup_ok [OF r] Exit_ok [OF r] assms(2) by (cases y) auto
  then have k: "keeps_drivers s t" by (cases y) (auto intro: keeps_scheduler)
  show ?thesis using t(1) keyboard_rel_frame [OF assms(1) k t(2)] keeps_driversD(1) [OF k] by blast
qed

lemma reader_asleep:
  assumes "keyboard_rel s a" "running (ks a) \<noteq> 0" "kq a = []"
  shows "asleep (running (ks a)) WAITING_KEYBOARD_PROCESS_WAIT_ID (ks (snd (key_step io Read_key a)))"
proof -
  have wf: "sched_wf (ks a)" using assms(1) represents_wf by (auto simp: keyboard_rel_def)
  show ?thesis using assms(2,3) wf by (auto intro!: asleep_dispatch simp: enqueue_def sched_wf_def)
qed

lemma current_running: "keyboard_rel s a \<Longrightarrow> current_proc s = running (ks a)"
  using representsD(2) by (auto simp: keyboard_rel_def)

lemma read_step:
  fixes s :: "('d, 'z) io_kernel_scheme"
  assumes r: "driver_rel (s, F) (a, None)" and run: "running (ks a) \<noteq> 0"
  shows "\<exists>t. key_code io Read_key (s, F) = ret (fst (key_answer io Read_key (a, None)), t) \<and> driver_rel t (snd (key_answer io Read_key (a, None)))"
proof -
  note k = driver_relD(1) [OF r] and F = driver_relD(2) [OF r refl]
  obtain t where t: "ReadKeyBuffer s = ret (fst (key_step io Read_key a), t)" "keyboard_rel t (snd (key_step io Read_key a))"
    using ReadKeyBuffer_ok [OF k run, of io] by blast
  note cur = current_running [OF k] current_running [OF t(2)]
  show ?thesis
  proof (cases "kq a")
    case Nil
    have "k_front (s_keyboard_controller s) = k_end (s_keyboard_controller s)"
      using k holds_empty Nil by (auto simp: keyboard_rel_def)
    then have "Sleep WAITING_KEYBOARD_PROCESS_WAIT_ID s = ret t" using t(1) Nil by (simp add: ReadKeyBuffer_def)
    from keeps_driversD(1) [OF keeps_Sleep [OF this]] have front: "s_keyboard_controller t = s_keyboard_controller s" .
    have "driver_rel (t, F(current_proc s := Some (k_front (s_keyboard_controller s)))) (snd (key_step io Read_key a), Some (running (ks a)))"
      using reader_asleep [OF k run Nil, of io] by (intro driver_relI [OF t(2)]) (simp_all add: F cur(1) front)
    then show ?thesis using t(1) cur(2) Nil by (simp add: key_code_def key_answer_def reader_def)
  next
    case (Cons c cs)
    have "driver_rel (t, F) (snd (key_step io Read_key a), None)" by (intro driver_relI [OF t(2)]) (simp_all add: F)
    then show ?thesis using t(1) cur(2) Cons by (simp add: key_code_def key_answer_def reader_def)
  qed
qed

lemma go_on_step:
  fixes s :: "('d, 'z) io_kernel_scheme"
  assumes r: "driver_rel (s, F) (a, Some (running (ks a)))"
  shows "\<exists>t. key_code io Go_on (s, F) = ret (fst (key_answer io Go_on (a, Some (running (ks a)))), t)
     \<and> driver_rel t (snd (key_answer io Go_on (a, Some (running (ks a)))))"
proof -
  note k = driver_relD(1) [OF r] and F = driver_relD(3) [OF r refl]
  have "kq a \<noteq> []" using driver_relD(4) [OF r refl] by (auto simp: asleep_def)
  then obtain c cs where q: "kq a = c # cs" by (cases "kq a") auto
  have h: "holds (s_keyboard_controller s) (c # cs)" using k q by (simp add: keyboard_rel_def)
  let ?t = "set_ring ((s_keyboard_controller s)\<lparr>k_front := (k_front (s_keyboard_controller s) + 1) mod 500\<rparr>) s"
  have t: "keyboard_rel ?t (a\<lparr>kq := cs\<rparr>)"
    using k holds_take(2) [OF h] represents_cong [of True s "ks a" ?t] by (simp add: keyboard_rel_def set_ring_def)
  have "F(current_proc s := None) = (\<lambda>_. None)" unfolding F current_running [OF k] by auto
  then have "driver_rel (?t, F(current_proc s := None)) (a\<lparr>kq := cs\<rparr>, None)" by (intro driver_relI [OF t]) simp_all
  moreover have "the (F (current_proc s)) = k_front (s_keyboard_controller s)" unfolding F current_running [OF k] by simp
  ultimately show ?thesis using holds_take(1) [OF h] current_running [OF t] q
    by (simp add: key_code_def key_answer_def reader_def)
qed

interpretation keyboard_driver: simulation driver_rel "key_code io" "key_answer io" key_enabled for io :: "'d ports"
proof
  fix c :: "('d, 'z) io_kernel_scheme \<times> fronts" and b :: "'d keyboard \<times> nat option" and x
  assume r: "driver_rel c b" and en: "key_enabled x b"
  obtain s F a w where c: "c = (s, F)" and b: "b = (a, w)" by (cases c; cases b)
  note rel = r [unfolded c b] note k = driver_relD(1) [OF rel]
  show "\<exists>t. key_code io x c = ret (fst (key_answer io x b), t) \<and> driver_rel t (snd (key_answer io x b))"
  proof (cases x)
    case Key_interrupt
    obtain t where t: "KeyboardHandler io s = ret t" "keyboard_rel t (snd (key_step io Key_interrupt a))"
      using KeyboardHandler_ok [OF k] by blast
    have "driver_rel (t, F) (snd (key_step io Key_interrupt a), w)"
    proof (rule driver_relI [OF t(2)])
      show "F = (\<lambda>_. None)(p := Some (k_front (s_keyboard_controller t)))" if "w = Some p" for p
        using driver_relD(3) [OF rel that] KeyboardHandler_front [OF t(1)] by simp
      show "asleep p WAITING_KEYBOARD_PROCESS_WAIT_ID (ks (snd (key_step io Key_interrupt a)))"
        if "w = Some p" "kq (snd (key_step io Key_interrupt a)) = []" for p
        using driver_relD(4) [OF rel that(1)] interrupt_queue [OF that(2)] by simp
    qed (rule driver_relD(2) [OF rel])
    moreover have "fst (key_step io Key_interrupt a) = None" by (simp add: split_def Let_def)
    ultimately show ?thesis using t(1) current_running [OF t(2)]
      by (simp add: c b Key_interrupt key_code_def key_answer_def reader_def split_def Let_def del: key_step.simps)
  next
    case Read_key
    then show ?thesis using read_step [of s F a io] rel en by (simp add: c b)
  next
    case Go_on
    then show ?thesis using go_on_step [of s F a io] rel en by (simp add: c b)
  next
    case (Other y)
    then have y: "sched_enabled y (ks a)" "\<not> rouses WAITING_KEYBOARD_PROCESS_WAIT_ID y"
      using en by (auto simp: b rouses_def WAITING_KEYBOARD_PROCESS_WAIT_ID_def INIT_PROCESS_WAIT_ID_def)
    obtain t where t: "sched_code y s = ret t" "keyboard_rel t (a\<lparr>ks := sched_spec y (ks a)\<rparr>)" "s_keyboard_controller t = s_keyboard_controller s"
      using sched_code_ok [OF k y(1)] by blast
    have "driver_rel (t, F) (a\<lparr>ks := sched_spec y (ks a)\<rparr>, w)"
      using driver_relD(2-4) [OF rel] asleep_spec [OF _ y(2)] by (intro driver_relI [OF t(2)]) (simp_all add: t(3))
    then show ?thesis using t(1) current_running [OF t(2)] by (simp add: c b Other key_code_def key_answer_def reader_def)
  qed
qed

section \<open>Properties\<close>

text \<open>A device that delivers a list of scan codes, and the three processes above with it.\<close>

definition typing :: "u8 list ports" where
  "typing = \<lparr>in_byte = \<lambda>p d. (case d of [] \<Rightarrow> (0, []) | c # cs \<Rightarrow> (c, cs)), in_word = \<lambda>p d. (0, d), out_byte = \<lambda>p v d. d\<rparr>"

definition with_dev :: "'d \<Rightarrow> kernel \<Rightarrow> 'd io_kernel" where
  "with_dev d s = kernel.extend s (io_kernel.fields d)"

lemma with_dev_simps [simp]:
  "dev (with_dev d s) = d" "s_keyboard_controller (with_dev d s) = s_keyboard_controller s"
  "s_flag (with_dev d s) = s_flag s" "proc_lists (with_dev d s) = proc_lists s" "current_proc (with_dev d s) = current_proc s"
  "s_pid_num (with_dev d s) = s_pid_num s" "proc (with_dev d s) i = proc s i" "s_system_ticks (with_dev d s) = s_system_ticks s"
  "s_syscall_table (with_dev d s) = s_syscall_table s" "mem (with_dev d s) = mem s" "cr3 (with_dev d s) = cr3 s"
  "s_fcb_table (with_dev d s) = s_fcb_table s" "s_fd_table (with_dev d s) = s_fd_table s"
  "s_BIOS_parameter_block (with_dev d s) = s_BIOS_parameter_block s" "regs (with_dev d s) = regs s"
  "s_free_memory_page_head (with_dev d s) = s_free_memory_page_head s" "l_kernel_end (with_dev d s) = l_kernel_end s"
  "s_free_memory_end_address (with_dev d s) = s_free_memory_end_address s"
  by (cases s; simp add: with_dev_def kernel.defs io_kernel.defs)+

definition no_keys :: keys where
  "no_keys = \<lparr>k_ext = False, k_shift = False, k_caps = False\<rparr>"

definition typist :: "u8 list \<Rightarrow> u8 list io_kernel" where
  "typist d = with_dev d three_processes"

definition typist_spec :: "u8 list \<Rightarrow> u8 list keyboard" where
  "typist_spec d = \<lparr>km = no_keys, kq = [], kd = d, ks = three_spec\<rparr>"

lemma typist: "keyboard_rel (typist d) (typist_spec d)"
proof -
  have "represents True (typist d) three_spec"
    by (rule represents_cong [OF three_processes]) (simp_all add: typist_def)
  then show ?thesis
    by (simp add: keyboard_rel_def typist_def typist_spec_def holds_def flag_of_def no_keys_def three_processes_def)
qed

lemma key_values [simp]:
  "s_key_map 0x1E = 97" "s_key_map 0x1F = 115" "s_key_map 0x2A = 0" "s_shift_key_map 0x1E = 65" "s_shift_key_map 0x1F = 83"
  "s_shift_key_map 0x2A = 0" "swap_case 65 = 97" "swap_case 97 = 65"
  by (simp_all add: s_key_map_def s_shift_key_map_def key_table_def shift_key_table_def bytes_of_def swap_case_def)

text \<open>
  Property C29. The keyboard driver implements its specification, as long as no process starts to read while another one
  sleeps in a read. Whatever scan codes arrive, whenever, and whatever the other processes do to the
  scheduler: the handler keeps the modifiers, puts the character of each key in a queue that drops what does not fit behind 499,
  and wakes the waiting reader; a reader gets the oldest character at once, or sleeps if there is none, and then gets the
  oldest one when it goes on behind \<open>Sleep\<close>. The scheduler's queues stay correct throughout.
\<close>

theorem keyboard_refines:
  assumes "driver_rel c b" "all_enabled key_enabled (key_answer io) xs b"
  shows "\<exists>d. answers (key_code io) xs c = ret (fst (spec_answers (key_answer io) xs b), d)
             \<and> driver_rel d (snd (spec_answers (key_answer io) xs b))"
  by (rule keyboard_driver.run_refines [OF assms])

text \<open>
  Process 1 sleeps in a read, a key wakes it and process 3, and three processes run before it goes on; then it reads two
  more characters.
\<close>

theorem keyboard_refines_witness:
  "\<exists>d. answers (key_code typing) [Read_key, Key_interrupt, Other Do_yield, Key_interrupt, Other Do_yield, Other Do_yield, Go_on,
          Key_interrupt, Key_interrupt, Read_key, Read_key]
         (typist [0x1E, 0x1F, 0x2A, 0x1E], \<lambda>_. None)
       = ret ([(None, 2), (None, 2), (None, 4), (None, 4), (None, 3), (None, 1), (Some 97, 1), (None, 1), (None, 1), (Some 115, 1), (Some 65, 1)], d)"
proof -
  let ?xs = "[Read_key, Key_interrupt, Other Do_yield, Key_interrupt, Other Do_yield, Other Do_yield, Go_on,
    Key_interrupt, Key_interrupt, Read_key, Read_key]"
  let ?b = "(typist_spec [0x1E, 0x1F, 0x2A, 0x1E], None) :: u8 list keyboard \<times> nat option"
  have "all_enabled key_enabled (key_answer typing) ?xs ?b"
    "fst (spec_answers (key_answer typing) ?xs ?b)
      = [(None, 2), (None, 2), (None, 4), (None, 4), (None, 3), (None, 1), (Some 97, 1), (None, 1), (None, 1), (Some 115, 1), (Some 65, 1)]"
    by (simp_all add: typist_spec_def key_answer_def reader_def typing_def key_spec_def no_keys_def three_spec_def
        rouse_def dispatch_def enqueue_def WAITING_KEYBOARD_PROCESS_WAIT_ID_def)
  moreover have "driver_rel (typist [0x1E, 0x1F, 0x2A, 0x1E], \<lambda>_. None) ?b" by (intro driver_relI typist) simp_all
  ultimately show ?thesis using keyboard_refines [of _ ?b typing ?xs] by metis
qed

text \<open>
  A letter key gives the capital exactly when one of shift and caps lock is on, and
  leaves the modifiers alone.
\<close>

theorem letter_case:
  assumes "s_flag s = flag_of k" "\<not> k_ext k" "in_byte io SENT_SCAN_CODE_PORT (dev s) = (sc, d)"
    and "97 \<le> s_key_map sc" "s_key_map sc \<le> 122"
  shows "ReadCharacter io s
    = (if k_shift k \<noteq> k_caps k then s_key_map sc - 32 else s_key_map sc, s\<lparr>dev := d\<rparr>)"
proof -
  have len: "length key_table = 58" "length shift_key_table = 58"
    by (simp_all add: key_table_def shift_key_table_def bytes_of_def)
  have tables: "\<forall>(a, b)\<in>set (zip key_table shift_key_table). 97 \<le> a \<and> a \<le> 122 \<longrightarrow>
      b = a - 32 \<and> swap_case a = a - 32 \<and> swap_case b = a"
    by (simp add: key_table_def shift_key_table_def bytes_of_def swap_case_def)
  have sc: "unat sc < 58" using assms(4) len by (auto simp: s_key_map_def split: if_splits)
  then have "(s_key_map sc, s_shift_key_map sc) \<in> set (zip key_table shift_key_table)"
    using len by (auto simp: s_key_map_def s_shift_key_map_def in_set_zip)
  then have c: "s_shift_key_map sc = s_key_map sc - 32" "swap_case (s_key_map sc) = s_key_map sc - 32"
    "swap_case (s_key_map sc - 32) = s_key_map sc"
    using tables assms(4,5) by auto
  have "s_key_map 0x2A = 0" "s_key_map 0x36 = 0" "s_key_map 0x3A = 0"
    by (simp_all add: s_key_map_def key_table_def bytes_of_def)
  then have ne: "sc \<noteq> 0x2A" "sc \<noteq> 0x36" "sc \<noteq> 0x3A" "\<not> 0x80 \<le> sc" "sc \<noteq> 0xE0"
    using assms(4) sc by (auto simp: word_le_nat_alt)
  then have "key_spec sc k = (if k_shift k \<noteq> k_caps k then s_key_map sc - 32 else s_key_map sc, k)"
    using assms(2) c by (auto simp: key_spec_def Let_def)
  then show ?thesis using ReadCharacter_ok [OF assms(1,3)] assms(1) by (simp add: set_flag_def)
qed

theorem letter_case_witness:
  "fst (ReadCharacter typing (typist [0x1E])) = 97"
  using letter_case [of "typist [0x1E]" no_keys typing "0x1E" "[]"]
  by (simp add: typist_def three_processes_def flag_of_def no_keys_def typing_def)

lemma waiting_reader:
  assumes "keyboard_rel s a" "kq a = []" "running (ks a) \<noteq> 0"
  obtains s1 where "ReadKeyBuffer s = ret (None, s1)" "keyboard_rel s1 (snd (key_step io Read_key a))"
    "s_keyboard_controller s1 = s_keyboard_controller s" "dev s1 = dev s"
proof -
  obtain s1 where s1: "ReadKeyBuffer s = ret (None, s1)" "keyboard_rel s1 (snd (key_step io Read_key a))"
    using ReadKeyBuffer_ok [OF assms(1,3), of io] assms(2) by auto
  have "k_front (s_keyboard_controller s) = k_end (s_keyboard_controller s)"
    using assms(1,2) holds_empty by (auto simp: keyboard_rel_def)
  then have "Sleep WAITING_KEYBOARD_PROCESS_WAIT_ID s = ret s1" using s1(1) by (simp add: ReadKeyBuffer_def)
  from keeps_driversD(1) [OF keeps_Sleep [OF this]] keeps_drivers_dev [OF keeps_Sleep [OF this]] that s1
  show ?thesis by blast
qed

lemma key_arrives:
  assumes "keyboard_rel s a" "kq a = []" "in_byte io SENT_SCAN_CODE_PORT (dev s) = (sc, d)"
    "key_spec sc (km a) = (c, k)" "sint c > 0"
  obtains t where "KeyboardHandler io s = ret t" "holds (s_keyboard_controller t) [c]"
    "k_front (s_keyboard_controller t) = k_front (s_keyboard_controller s)"
    "represents True t (rouse WAITING_KEYBOARD_PROCESS_WAIT_ID (ks a))"
proof -
  from KeyboardHandler_ok [OF assms(1), of io] obtain t where t: "KeyboardHandler io s = ret t"
    "keyboard_rel t (snd (key_step io Key_interrupt a))" by blast
  have "snd (key_step io Key_interrupt a) = a\<lparr>km := k, kd := d, kq := [c], ks := rouse WAITING_KEYBOARD_PROCESS_WAIT_ID (ks a)\<rparr>"
    using assms by (simp add: keyboard_rel_def)
  then have h: "holds (s_keyboard_controller t) [c]" "represents True t (rouse WAITING_KEYBOARD_PROCESS_WAIT_ID (ks a))"
    using t(2) by (simp_all add: keyboard_rel_def)
  have read: "ReadCharacter io s = (c, set_flag (flag_of k) (s\<lparr>dev := d\<rparr>))"
    using ReadCharacter_ok [of s "km a", OF _ assms(3)] assms(1,4) by (simp add: keyboard_rel_def)
  have "Wakeup WAITING_KEYBOARD_PROCESS_WAIT_ID (WriteKeyBuffer c (set_flag (flag_of k) (s\<lparr>dev := d\<rparr>))) = ret t"
    using t(1) assms(5) by (simp add: KeyboardHandler_def read)
  from keeps_driversD(1) [OF keeps_Wakeup [OF this]]
  have "k_front (s_keyboard_controller t) = k_front (s_keyboard_controller s)"
    by (simp add: WriteKeyBuffer_def Let_def set_ring_def set_flag_def)
  with that t(1) h show ?thesis by blast
qed

text \<open>
  Property C30. A process that waits for a key gets the next one: it sleeps when the ring is empty, the
  next interrupt that brings a character makes it ready, and when it goes on behind \<open>Sleep\<close> it returns
  that character and leaves the ring empty.
\<close>

theorem waiting_reader_gets_key:
  assumes "keyboard_rel s a" "kq a = []" "running (ks a) \<noteq> 0"
    and "in_byte io SENT_SCAN_CODE_PORT (dev s) = (sc, d)" "key_spec sc (km a) = (c, k)" "sint c > 0"
  shows "\<exists>s1 t b. ReadKeyBuffer s = ret (None, s1) \<and> KeyboardHandler io s1 = ret t
     \<and> represents True t b \<and> current_proc s \<in> set (queue b Ready_list)
     \<and> fst (take_key (k_front (s_keyboard_controller s)) t) = c
     \<and> holds (s_keyboard_controller (snd (take_key (k_front (s_keyboard_controller s)) t))) []"
proof -
  from waiting_reader [OF assms(1-3), of io] obtain s1 where s1: "ReadKeyBuffer s = ret (None, s1)"
    "keyboard_rel s1 (snd (key_step io Read_key a))"
    "s_keyboard_controller s1 = s_keyboard_controller s" "dev s1 = dev s" by metis
  let ?b = "snd (key_step io Read_key a)"
  have b: "?b = a\<lparr>ks := sched_spec (Do_sleep WAITING_KEYBOARD_PROCESS_WAIT_ID) (ks a)\<rparr>" using assms(2) by simp
  from key_arrives [OF s1(2), of io sc d c k] obtain t where t: "KeyboardHandler io s1 = ret t"
    "holds (s_keyboard_controller t) [c]" "k_front (s_keyboard_controller t) = k_front (s_keyboard_controller s1)"
    "represents True t (rouse WAITING_KEYBOARD_PROCESS_WAIT_ID (ks ?b))"
    using assms(2,4-6) s1(4) unfolding b by auto
  have "current_proc s = running (ks a)" using assms(1) representsD(2) by (auto simp: keyboard_rel_def)
  then have "current_proc s \<in> set (queue (rouse WAITING_KEYBOARD_PROCESS_WAIT_ID (ks ?b)) Ready_list)"
    unfolding b by (simp add: rouse_def dispatch_def enqueue_def split: list.splits)
  moreover note holds_take [OF t(2)]
  ultimately show ?thesis using s1(1,3) t by (auto simp: set_ring_def)
qed

theorem waiting_reader_gets_key_witness:
  "\<exists>s1 t b. ReadKeyBuffer (typist [0x1E]) = ret (None, s1) \<and> KeyboardHandler typing s1 = ret t
     \<and> represents True t b \<and> 1 \<in> set (queue b Ready_list) \<and> fst (take_key 0 t) = 97"
proof -
  have "current_proc (typist [0x1E]) = 1" "k_front (s_keyboard_controller (typist [0x1E])) = 0"
    by (simp_all add: typist_def three_processes_def)
  then show ?thesis
    using waiting_reader_gets_key [OF typist [of "[0x1E]"], of typing "0x1E" "[]" 97 no_keys]
    by (auto simp: typist_spec_def three_spec_def typing_def typist_def key_spec_def no_keys_def)
qed

text \<open>
  Property C31. Two processes that wait for a key at the same time both get it, and the ring is broken
  afterwards: each has read the same index before it slept, neither tests again, and both advance the
  front, which overtakes the end. The empty ring now counts 499 stale characters, so that readers
  get them and new keys are dropped.
\<close>

theorem two_readers_break_ring:
  assumes "keyboard_rel s a" "kq a = []" "running (ks a) \<noteq> 0"
    and "running (sched_spec (Do_sleep WAITING_KEYBOARD_PROCESS_WAIT_ID) (ks a)) \<noteq> 0"
    and "in_byte io SENT_SCAN_CODE_PORT (dev s) = (sc, d)" "key_spec sc (km a) = (c, k)" "sint c > 0"
  shows "\<exists>s1 s2 t cs. ReadKeyBuffer s = ret (None, s1) \<and> ReadKeyBuffer s1 = ret (None, s2) \<and> KeyboardHandler io s2 = ret t
     \<and> (let front = k_front (s_keyboard_controller s); (c1, t1) = take_key front t; (c2, t2) = take_key front t1
         in c1 = c \<and> c2 = c \<and> holds (s_keyboard_controller t2) cs \<and> length cs = 499)"
proof -
  let ?w = WAITING_KEYBOARD_PROCESS_WAIT_ID let ?f = "k_front (s_keyboard_controller s)"
  let ?a1 = "a\<lparr>ks := sched_spec (Do_sleep ?w) (ks a)\<rparr>"
  from waiting_reader [OF assms(1-3), of io] obtain s1 where s1: "ReadKeyBuffer s = ret (None, s1)"
    "keyboard_rel s1 ?a1" "s_keyboard_controller s1 = s_keyboard_controller s" "dev s1 = dev s" using assms(2) by auto
  from waiting_reader [OF s1(2), of io] obtain s2 where s2: "ReadKeyBuffer s1 = ret (None, s2)"
    "keyboard_rel s2 (snd (key_step io Read_key ?a1))" "s_keyboard_controller s2 = s_keyboard_controller s1" "dev s2 = dev s1"
    using assms(2,4) by (simp del: sched_spec.simps) metis
  from key_arrives [OF s2(2), of io sc d c k] obtain t where t: "KeyboardHandler io s2 = ret t"
    "holds (s_keyboard_controller t) [c]" "k_front (s_keyboard_controller t) = ?f"
    using assms(2,5-7) s1(3,4) s2(3,4) by (auto simp del: sched_spec.simps)
  let ?k = "s_keyboard_controller t"
  let ?t1 = "set_ring (?k\<lparr>k_front := (?f + 1) mod 500\<rparr>) t"
  have take1: "take_key ?f t = (c, ?t1)" using holds_take(1) [OF t(2)] t(3) by simp
  have k: "k_size ?k = 500" "?f < 500" "k_end ?k = (?f + 1) mod 500" "k_buffer ?k ?f = c"
    using t(2,3) by (auto simp: holds_def)
  let ?k2 = "?k\<lparr>k_front := (?f + 2) mod 500\<rparr>"
  have "(Suc ((?f + 1) mod 500)) mod 500 = (?f + 2) mod 500" by (simp add: mod_Suc_eq)
  then have take2: "take_key ?f ?t1 = (c, set_ring ?k2 ?t1)"
    using k by (simp add: take_key_def Let_def set_ring_def)
  let ?cs = "map (\<lambda>i. k_buffer ?k (((?f + 2) mod 500 + i) mod 500)) [0..<499]"
  have "((?f + 2) mod 500 + 499) mod 500 = (?f + 1) mod 500"
  proof -
    have "((?f + 2) mod 500 + 499) mod 500 = (?f + 1 + 500) mod 500" by (simp only: mod_add_left_eq) simp
    then show ?thesis by (simp only: mod_add_self2)
  qed
  then have "holds ?k2 ?cs" using k(1,3) by (simp add: holds_def)
  then have "holds (s_keyboard_controller (set_ring ?k2 ?t1)) ?cs" by (simp add: set_ring_def)
  then show ?thesis using s1(1) s2(1) t(1) take1 take2
    by (intro exI [of _ s1] exI [of _ s2] exI [of _ t] exI [of _ ?cs]) simp
qed

theorem two_readers_break_ring_witness:
  "\<exists>s1 s2 t cs. ReadKeyBuffer (typist [0x1E]) = ret (None, s1) \<and> ReadKeyBuffer s1 = ret (None, s2)
     \<and> KeyboardHandler typing s2 = ret t
     \<and> (let (c1, t1) = take_key 0 t; (c2, t2) = take_key 0 t1
         in c1 = 97 \<and> c2 = 97 \<and> holds (s_keyboard_controller t2) cs \<and> length cs = 499)"
proof -
  have "k_front (s_keyboard_controller (typist [0x1E])) = 0" by (simp add: typist_def three_processes_def)
  then show ?thesis
    using two_readers_break_ring [OF typist [of "[0x1E]"], of typing "0x1E" "[]" 97 no_keys]
    by (simp add: typist_spec_def three_spec_def typing_def typist_def key_spec_def no_keys_def dispatch_def enqueue_def)
qed

end
