(* ===== verification/Disk.thy ===== *)
theory Disk
  imports Keyboard
begin

text \<open>
  The disk driver, \<open>kernel/disk.c\<close>. The drive is a parameter, like every device; what the driver
  relies on is \<open>ata_drive\<close>, the programmed-input part of the ATA protocol: the task file registers
  keep what is written to them, \<open>READ SECTORS\<close> in LBA mode prepares the words of the addressed
  sectors (256 of them for the count 0), a drive that still has words raises DRQ after finitely many
  status reads, and while DRQ is set the data port gives the words in order, DRQ lasting to the end of
  the sector.
\<close>

section \<open>DiskReadSectors\<close>

partial_function (option) wait_data :: "'d ports \<Rightarrow> ('d, 'z) io_kernel_scheme \<Rightarrow> ('d, 'z) io_kernel_scheme kres" where
  "wait_data io s = (let (byte, s1) = InByte io 0x1F7 s in if byte AND 0x08 \<noteq> 0 then ret s1 else wait_data io s1)"

primrec read_words :: "'d ports \<Rightarrow> nat \<Rightarrow> u64 \<times> ('d, 'z) io_kernel_scheme \<Rightarrow> u64 \<times> ('d, 'z) io_kernel_scheme" where
  "read_words io 0 c = c"
| "read_words io (Suc n) c =
     (let (ptr, s) = c; (w, s1) = InWord io 0x1F0 s
      in read_words io n (ptr + 2, s1\<lparr>mem := store16 (mem s1) ptr w\<rparr>))"

primrec read_sectors :: "'d ports \<Rightarrow> nat \<Rightarrow> u64 \<times> ('d, 'z) io_kernel_scheme \<Rightarrow> (u64 \<times> ('d, 'z) io_kernel_scheme) kres" where
  "read_sectors io 0 c = ret c"
| "read_sectors io (Suc n) c =
     (let (ptr, s) = c in andthen (wait_data io s) (\<lambda>s1. read_sectors io n (read_words io 256 (ptr, s1))))"

text \<open>\<open>lba >> 24\<close> is an arithmetic shift of an int, cut to a byte; it always returns 0.\<close>

definition DiskReadSectors :: "'d ports \<Rightarrow> u32 \<Rightarrow> u32 \<Rightarrow> u64 \<Rightarrow> ('d, 'z) io_kernel_scheme \<Rightarrow> (u32 \<times> ('d, 'z) io_kernel_scheme) kres" where
  "DiskReadSectors io lba sectors buf s =
     (let s1 = OutByte io 0x1F6 (ucast (signed_drop_bit 24 lba) OR 0xE0) s;
          s2 = OutByte io 0x1F2 (ucast sectors) s1;
          s3 = OutByte io 0x1F3 (ucast (lba AND 0xFF)) s2;
          s4 = OutByte io 0x1F4 (ucast (signed_drop_bit 8 lba)) s3;
          s5 = OutByte io 0x1F5 (ucast (signed_drop_bit 16 lba)) s4;
          s6 = OutByte io 0x1F7 0x20 s5
      in andthen (read_sectors io (nat (sint sectors)) (buf, s6)) (\<lambda>(ptr, t). ret (0, t)))"

section \<open>The drive\<close>

record ata =
  a_reg :: "u16 \<Rightarrow> u8"
  a_words :: "u16 list"
  a_drq :: bool
  a_lag :: nat

definition command_count :: "ata \<Rightarrow> nat" where
  "command_count a = (if a_reg a 0x1F2 = 0 then 256 else unat (a_reg a 0x1F2))"

definition command_lba :: "ata \<Rightarrow> nat" where
  "command_lba a = unat (a_reg a 0x1F3) + 2 ^ 8 * unat (a_reg a 0x1F4) + 2 ^ 16 * unat (a_reg a 0x1F5)
     + 2 ^ 24 * (unat (a_reg a 0x1F6) mod 16)"

definition ata_drive :: "'d ports \<Rightarrow> ('d \<Rightarrow> ata) \<Rightarrow> (nat \<Rightarrow> u16 list) \<Rightarrow> nat \<Rightarrow> bool" where
  "ata_drive io view sector capacity \<longleftrightarrow>
     (\<forall>k<capacity. length (sector k) = 256) \<and> capacity \<le> 2 ^ 28
     \<and> (\<forall>d v. \<forall>p\<in>{0x1F2, 0x1F3, 0x1F4, 0x1F5, 0x1F6}.
          view (out_byte io p v d) = (view d)\<lparr>a_reg := (a_reg (view d))(p := v)\<rparr>)
     \<and> (\<forall>d. a_reg (view d) 0x1F6 AND 0xE0 = 0xE0 \<longrightarrow> a_words (view d) = []
          \<longrightarrow> command_lba (view d) + command_count (view d) \<le> capacity
          \<longrightarrow> a_words (view (out_byte io 0x1F7 0x20 d))
              = concat (map sector [command_lba (view d)..<command_lba (view d) + command_count (view d)]))
     \<and> (\<forall>d. let (status, d') = in_byte io 0x1F7 d in
          a_words (view d') = a_words (view d)
          \<and> (status AND 0x08 \<noteq> 0 \<longrightarrow> a_drq (view d'))
          \<and> (status AND 0x08 = 0 \<longrightarrow> a_words (view d) \<noteq> [] \<longrightarrow> a_lag (view d') < a_lag (view d)))
     \<and> (\<forall>d w ws. a_drq (view d) \<longrightarrow> a_words (view d) = w # ws
          \<longrightarrow> (let (v, d') = in_word io 0x1F0 d in
               v = w \<and> a_words (view d') = ws \<and> (length ws mod 256 \<noteq> 0 \<longrightarrow> a_drq (view d'))))"

lemma ata_driveD:
  assumes "ata_drive io view sector capacity"
  shows "k < capacity \<Longrightarrow> length (sector k) = 256" "capacity \<le> 2 ^ 28"
    "p \<in> {0x1F2, 0x1F3, 0x1F4, 0x1F5, 0x1F6} \<Longrightarrow> view (out_byte io p v d) = (view d)\<lparr>a_reg := (a_reg (view d))(p := v)\<rparr>"
    "a_reg (view d) 0x1F6 AND 0xE0 = 0xE0 \<Longrightarrow> a_words (view d) = [] \<Longrightarrow>
      command_lba (view d) + command_count (view d) \<le> capacity \<Longrightarrow>
      a_words (view (out_byte io 0x1F7 0x20 d))
        = concat (map sector [command_lba (view d)..<command_lba (view d) + command_count (view d)])"
    "in_byte io 0x1F7 d = (st, d') \<Longrightarrow> a_words (view d') = a_words (view d)
      \<and> (st AND 0x08 \<noteq> 0 \<longrightarrow> a_drq (view d')) \<and> (st AND 0x08 = 0 \<longrightarrow> a_words (view d) \<noteq> [] \<longrightarrow> a_lag (view d') < a_lag (view d))"
    "a_drq (view d) \<Longrightarrow> a_words (view d) = w # ws \<Longrightarrow> in_word io 0x1F0 d = (x, d') \<Longrightarrow>
      x = w \<and> a_words (view d') = ws \<and> (length ws mod 256 \<noteq> 0 \<longrightarrow> a_drq (view d'))"
proof -
  note A = assms [unfolded ata_drive_def Let_def split_def]
  show "k < capacity \<Longrightarrow> length (sector k) = 256" "capacity \<le> 2 ^ 28"
    "p \<in> {0x1F2, 0x1F3, 0x1F4, 0x1F5, 0x1F6} \<Longrightarrow> view (out_byte io p v d) = (view d)\<lparr>a_reg := (a_reg (view d))(p := v)\<rparr>"
    "a_reg (view d) 0x1F6 AND 0xE0 = 0xE0 \<Longrightarrow> a_words (view d) = [] \<Longrightarrow>
      command_lba (view d) + command_count (view d) \<le> capacity \<Longrightarrow>
      a_words (view (out_byte io 0x1F7 0x20 d))
        = concat (map sector [command_lba (view d)..<command_lba (view d) + command_count (view d)])"
    using A by blast+
  show "a_words (view d') = a_words (view d) \<and> (st AND 0x08 \<noteq> 0 \<longrightarrow> a_drq (view d'))
      \<and> (st AND 0x08 = 0 \<longrightarrow> a_words (view d) \<noteq> [] \<longrightarrow> a_lag (view d') < a_lag (view d))"
    if "in_byte io 0x1F7 d = (st, d')"
    using A that by (metis fst_conv snd_conv)
  show "x = w \<and> a_words (view d') = ws \<and> (length ws mod 256 \<noteq> 0 \<longrightarrow> a_drq (view d'))"
    if "a_drq (view d)" "a_words (view d) = w # ws" "in_word io 0x1F0 d = (x, d')"
    using A that by (metis fst_conv snd_conv)
qed

text \<open>The bytes of words, and of a run of sectors.\<close>

definition word_bytes :: "u16 list \<Rightarrow> u8 list" where
  "word_bytes ws = concat (map (\<lambda>w. le_bytes 2 (unat w)) ws)"

definition disk_bytes :: "(nat \<Rightarrow> u16 list) \<Rightarrow> nat \<Rightarrow> nat \<Rightarrow> u8 list" where
  "disk_bytes sector k n = word_bytes (concat (map sector [k..<k + n]))"

lemma word_bytes_simps [simp]:
  "word_bytes [] = []" "word_bytes (w # ws) = le_bytes 2 (unat w) @ word_bytes ws"
  "word_bytes (us @ vs) = word_bytes us @ word_bytes vs"
  by (simp_all add: word_bytes_def)

lemma length_word_bytes [simp]: "length (word_bytes ws) = 2 * length ws"
  by (induction ws) simp_all

lemma write_bytes_append: "write_bytes m a (us @ vs) = write_bytes (write_bytes m a us) (a + of_nat (length us)) vs"
  by (induction us arbitrary: m a) (simp_all add: ac_simps)

section \<open>The driver reads what the drive holds\<close>

text \<open>The driver changes the memory and the drive only.\<close>

definition put_io :: "memory \<Rightarrow> 'd \<Rightarrow> ('d, 'z) io_kernel_scheme \<Rightarrow> ('d, 'z) io_kernel_scheme" where
  "put_io m d s = s\<lparr>mem := m, dev := d\<rparr>"

lemma put_io_simps [simp]:
  "mem (put_io m d s) = m" "dev (put_io m d s) = d" "put_io m' d' (put_io m d s) = put_io m' d' s"
  "put_io (mem s) (dev s) s = s" "(put_io m d s)\<lparr>mem := m'\<rparr> = put_io m' d s" "(put_io m d s)\<lparr>dev := d'\<rparr> = put_io m d' s"
  by (cases s; simp add: put_io_def)+

lemma put_io_intro: "s\<lparr>dev := d\<rparr> = put_io (mem s) d s"
  by (cases s) (simp add: put_io_def)

lemma wait_data_ok:
  assumes D: "ata_drive io view sector cap"
  shows "a_words (view (dev s)) \<noteq> [] \<Longrightarrow>
    \<exists>d. wait_data io s = ret (put_io (mem s) d s) \<and> a_words (view d) = a_words (view (dev s)) \<and> a_drq (view d)"
proof (induction "a_lag (view (dev s))" arbitrary: s rule: less_induct)
  case less
  obtain st d where i: "in_byte io 0x1F7 (dev s) = (st, d)" by fastforce
  note law = ata_driveD(5) [OF D i]
  show ?case
  proof (cases "st AND 0x08 = 0")
    case False
    then show ?thesis using law i by (subst wait_data.simps) (auto simp: InByte_def put_io_intro)
  next
    case True
    then have "a_lag (view (dev (put_io (mem s) d s))) < a_lag (view (dev s))" using law less.prems by simp
    from less.hyps [OF this] law less.prems obtain e where
      "wait_data io (put_io (mem s) d s) = ret (put_io (mem s) e s)" "a_words (view e) = a_words (view (dev s))" "a_drq (view e)"
      by auto
    then show ?thesis using True i by (subst wait_data.simps) (auto simp: InByte_def put_io_intro)
  qed
qed

lemma read_words_ok:
  assumes D: "ata_drive io view sector cap"
  shows "a_drq (view (dev s)) \<Longrightarrow> a_words (view (dev s)) = us @ vs \<Longrightarrow> length us \<le> 256 \<Longrightarrow> length vs mod 256 = 0 \<Longrightarrow>
    \<exists>d. read_words io (length us) (ptr, s) = (ptr + of_nat (2 * length us), put_io (write_bytes (mem s) ptr (word_bytes us)) d s)
      \<and> a_words (view d) = vs"
proof (induction us arbitrary: s ptr)
  case Nil
  then show ?case by (auto intro: exI [of _ "dev s"])
next
  case (Cons u us)
  obtain x d where i: "in_word io 0x1F0 (dev s) = (x, d)" by fastforce
  have law: "x = u" "a_words (view d) = us @ vs" "length (us @ vs) mod 256 \<noteq> 0 \<longrightarrow> a_drq (view d)"
    using ata_driveD(6) [OF D Cons.prems(1) _ i] Cons.prems(2) by auto
  let ?s = "put_io (store16 (mem s) ptr u) d s"
  have step: "read_words io (length (u # us)) (ptr, s) = read_words io (length us) (ptr + 2, ?s)"
    using i law(1) by (simp add: InWord_def put_io_intro)
  have m: "write_bytes (store16 (mem s) ptr u) (ptr + 2) bs = write_bytes (mem s) ptr (le_bytes 2 (unat u) @ bs)" for bs
    by (simp add: store16_def write_bytes_append del: le_bytes.simps)
  show ?case
  proof (cases us)
    case Nil
    then show ?thesis using step law(2) m [of "[]"] by (auto simp del: le_bytes.simps)
  next
    case (Cons w ws)
    have "length us < 256" using Cons.prems(3) by simp
    moreover have "0 < length us" using Cons by simp
    ultimately have "length (us @ vs) mod 256 = length us"
      using Cons.prems(4) by (metis length_append mod_add_right_eq add.right_neutral mod_less)
    then have "a_drq (view (dev ?s))" using law(3) Cons by simp
    from Cons.IH [OF this, of "ptr + 2"] law(2) Cons.prems(3,4) obtain e where
      "read_words io (length us) (ptr + 2, ?s) = (ptr + 2 + of_nat (2 * length us),
         put_io (write_bytes (store16 (mem s) ptr u) (ptr + 2) (word_bytes us)) e s)" "a_words (view e) = vs" by auto
    then show ?thesis using step m [of "word_bytes us"] by (auto simp: ac_simps simp del: le_bytes.simps)
  qed
qed

lemma read_sectors_ok:
  assumes D: "ata_drive io view sector cap"
  shows "a_words (view (dev s)) = concat (map sector [k..<k + n]) \<Longrightarrow> k + n \<le> cap \<Longrightarrow>
    \<exists>d. read_sectors io n (ptr, s) = ret (ptr + of_nat (512 * n), put_io (write_bytes (mem s) ptr (disk_bytes sector k n)) d s)
      \<and> a_words (view d) = []"
proof (induction n arbitrary: s ptr k)
  case 0
  then show ?case by (auto simp: disk_bytes_def intro: exI [of _ "dev s"])
next
  case (Suc n)
  let ?us = "sector k" and ?vs = "concat (map sector [Suc k..<Suc k + n])"
  have len: "length (sector j) = 256" if "j < k + Suc n" for j using that Suc.prems(2) ata_driveD(1) [OF D] by simp
  have us: "length ?us = 256" using len [of k] by simp
  have w: "a_words (view (dev s)) = ?us @ ?vs" using Suc.prems(1) by (simp add: upt_conv_Cons del: upt_Suc)
  have ne: "?us \<noteq> []" using us by (metis list.size(3) zero_neq_numeral)
  from wait_data_ok [OF D, of s] w ne obtain d where d: "wait_data io s = ret (put_io (mem s) d s)"
    "a_words (view d) = ?us @ ?vs" "a_drq (view d)" by auto
  have "sum_list (map (length \<circ> sector) [Suc k..<Suc k + n]) = 256 * n"
    using len by (subst map_cong [OF refl, where g = "\<lambda>_. 256"]) (auto simp: sum_list_triv)
  then have "length ?vs mod 256 = 0" by (simp add: length_concat del: upt_Suc)
  with read_words_ok [OF D, of "put_io (mem s) d s" ?us ?vs ptr] d us obtain e where
    e: "read_words io 256 (ptr, put_io (mem s) d s) = (ptr + 512, put_io (write_bytes (mem s) ptr (word_bytes ?us)) e s)"
      "a_words (view e) = ?vs" by (auto simp del: read_words.simps)
  let ?s = "put_io (write_bytes (mem s) ptr (word_bytes ?us)) e s"
  have "a_words (view (dev ?s)) = ?vs" "Suc k + n \<le> cap" using e(2) Suc.prems(2) by simp_all
  from Suc.IH [OF this, of "ptr + 512"] obtain f where
    f: "read_sectors io n (ptr + 512, ?s) = ret (ptr + 512 + of_nat (512 * n),
       put_io (write_bytes (mem ?s) (ptr + 512) (disk_bytes sector (Suc k) n)) f s)" "a_words (view f) = []" by auto
  have "disk_bytes sector k (Suc n) = word_bytes ?us @ disk_bytes sector (Suc k) n"
    by (simp add: disk_bytes_def upt_conv_Cons del: upt_Suc)
  then have "write_bytes (mem s) ptr (disk_bytes sector k (Suc n)) = write_bytes (mem ?s) (ptr + 512) (disk_bytes sector (Suc k) n)"
    using us by (simp add: write_bytes_append)
  then show ?case using d(1) e(1) f by (auto simp: ac_simps simp del: read_words.simps)
qed

lemma signed_shift:
  "lba < 2 ^ 31 \<Longrightarrow> signed_drop_bit k (of_nat lba :: u32) = of_nat (lba div 2 ^ k)"
proof -
  assume lba: "lba < 2 ^ 31"
  then have s: "sint (of_nat lba :: u32) = int lba" by (simp add: signed_of_nat signed_take_bit_int_eq_self)
  have "lba div 2 ^ k < 2 ^ 31" using lba by (meson div_le_dividend order_le_less_trans)
  then have t: "sint (of_nat (lba div 2 ^ k) :: u32) = int (lba div 2 ^ k)" by (simp add: signed_of_nat signed_take_bit_int_eq_self)
  have "sint (signed_drop_bit k (of_nat lba :: u32)) = drop_bit k (int lba)" by (simp only: sint_signed_drop_bit_eq s)
  also have "\<dots> = sint (of_nat (lba div 2 ^ k) :: u32)" unfolding t drop_bit_eq_div by (simp add: zdiv_int)
  finally show ?thesis by (simp only: signed_word_eqI)
qed

lemma ucast_of_nat: "ucast (of_nat x :: u32) = (of_nat x :: u8)"
  by transfer simp

lemma four_bytes:
  "lba = lba mod 256 + 256 * (lba div 256 mod 256) + 65536 * (lba div 65536 mod 256) + 16777216 * (lba div 16777216)"
  for lba :: nat
proof -
  have sum: "l = a + 256 * b + 65536 * c + 16777216 * q3" if "q1 * 256 + a = l" "q2 * 256 + b = q1" "q3 * 256 + c = q2"
    for l a b c q1 q2 q3 :: nat
    using that by linarith
  have "lba div 65536 = lba div 256 div 256" "lba div 16777216 = lba div 256 div 256 div 256"
    by (simp_all add: div_mult2_eq [symmetric])
  then show ?thesis by (metis sum div_mult_mod_eq)
qed

lemma command_registers:
  assumes "lba < 2 ^ 28"
  shows "unat (ucast ((of_nat lba :: u32) AND 0xFF) :: u8) = lba mod 256"
    "unat (ucast (signed_drop_bit 8 (of_nat lba :: u32)) :: u8) = lba div 2 ^ 8 mod 256"
    "unat (ucast (signed_drop_bit 16 (of_nat lba :: u32)) :: u8) = lba div 2 ^ 16 mod 256"
    "unat ((ucast (signed_drop_bit 24 (of_nat lba :: u32)) :: u8) OR 0xE0) mod 16 = lba div 2 ^ 24"
    "((ucast (signed_drop_bit 24 (of_nat lba :: u32)) :: u8) OR 0xE0) AND 0xE0 = 0xE0"
proof -
  have lt: "lba < 2 ^ 31" using assms by simp
  have low: "ucast (of_nat x :: u32) = (of_nat x :: u8)" for x by (rule ucast_of_nat)
  show "unat (ucast (signed_drop_bit 8 (of_nat lba :: u32)) :: u8) = lba div 2 ^ 8 mod 256"
    "unat (ucast (signed_drop_bit 16 (of_nat lba :: u32)) :: u8) = lba div 2 ^ 16 mod 256"
    unfolding signed_shift [OF lt] low by (simp_all add: unat_of_nat)
  have "(of_nat lba :: u32) AND 0xFF = take_bit 8 (of_nat lba)" by (simp add: take_bit_eq_mask mask_eq_exp_minus_1)
  then show "unat (ucast ((of_nat lba :: u32) AND 0xFF) :: u8) = lba mod 256"
    by (simp add: unsigned_ucast_eq unsigned_take_bit_eq unat_of_nat take_bit_eq_mod mod_mod_cancel unat_mod)
  have q: "lba div 2 ^ 24 < 16" using assms by (simp add: less_mult_imp_div_less)
  have "unat ((of_nat (lba div 2 ^ 24) :: u8) OR 0xE0) mod 16 = unat (take_bit 4 ((of_nat (lba div 2 ^ 24) :: u8) OR 0xE0))"
    by (subst unsigned_take_bit_eq) (simp add: take_bit_nat_def)
  also have "\<dots> = unat (take_bit 4 (of_nat (lba div 2 ^ 24) :: u8))" by (simp add: take_bit_or)
  also have "\<dots> = lba div 2 ^ 24" using q by (subst unsigned_take_bit_eq) (simp add: take_bit_nat_def unat_of_nat)
  finally show "unat ((ucast (signed_drop_bit 24 (of_nat lba :: u32)) :: u8) OR 0xE0) mod 16 = lba div 2 ^ 24"
    unfolding signed_shift [OF lt] low .
  show "((ucast (signed_drop_bit 24 (of_nat lba :: u32)) :: u8) OR 0xE0) AND 0xE0 = 0xE0"
    by (simp add: bit.conj_disj_distrib2)
qed

lemma DiskReadSectors_ok:
  assumes D: "ata_drive io view sector cap" and w: "a_words (view (dev s)) = []"
    and n: "0 < n" "n \<le> 256" "lba + n \<le> cap"
  shows "\<exists>d. DiskReadSectors io (of_nat lba) (of_nat n) buf s
      = ret (0, put_io (write_bytes (mem s) buf (disk_bytes sector lba n)) d s) \<and> a_words (view d) = []"
proof -
  have lba: "lba < 2 ^ 28" using ata_driveD(2) [OF D] n by simp
  note reg = command_registers [OF lba]
  let ?r6 = "ucast (signed_drop_bit 24 (of_nat lba :: u32)) OR 0xE0 :: u8" and ?r2 = "ucast (of_nat n :: u32) :: u8"
  let ?d = "out_byte io 0x1F5 (ucast (signed_drop_bit 16 (of_nat lba :: u32))) (out_byte io 0x1F4 (ucast (signed_drop_bit 8 (of_nat lba :: u32)))
    (out_byte io 0x1F3 (ucast ((of_nat lba :: u32) AND 0xFF)) (out_byte io 0x1F2 ?r2 (out_byte io 0x1F6 ?r6 (dev s)))))"
  have v: "a_words (view ?d) = []" "a_reg (view ?d) 0x1F6 = ?r6" "a_reg (view ?d) 0x1F2 = ?r2"
    "a_reg (view ?d) 0x1F3 = ucast ((of_nat lba :: u32) AND 0xFF)" "a_reg (view ?d) 0x1F4 = ucast (signed_drop_bit 8 (of_nat lba :: u32))"
    "a_reg (view ?d) 0x1F5 = ucast (signed_drop_bit 16 (of_nat lba :: u32))"
    using w by (simp_all add: ata_driveD(3) [OF D])
  have "lba = lba mod 256 + 2 ^ 8 * (lba div 2 ^ 8 mod 256) + 2 ^ 16 * (lba div 2 ^ 16 mod 256) + 2 ^ 24 * (lba div 2 ^ 24)"
    using four_bytes [of lba] by simp
  then have L: "command_lba (view ?d) = lba" unfolding command_lba_def v reg by simp
  have r2: "?r2 = of_nat n" by (rule ucast_of_nat)
  have C: "command_count (view ?d) = n"
  proof (cases "n = 256")
    case True
    then show ?thesis unfolding command_count_def v unfolding r2 by simp
  next
    case False
    then have "unat (of_nat n :: u8) = n" using n(2) by (simp add: unat_of_nat)
    then show ?thesis unfolding command_count_def v unfolding r2 using n(1) by (metis unat_0 less_numeral_extra(3))
  qed
  have "a_words (view (out_byte io 0x1F7 0x20 ?d)) = concat (map sector [lba..<lba + n])"
    using ata_driveD(4) [OF D, of ?d] v reg(5) n(3) unfolding L C by simp
  with read_sectors_ok [OF D, of "put_io (mem s) (out_byte io 0x1F7 0x20 ?d) s" lba n buf] n(3) obtain d where
    d: "read_sectors io n (buf, put_io (mem s) (out_byte io 0x1F7 0x20 ?d) s)
        = ret (buf + of_nat (512 * n), put_io (write_bytes (mem s) buf (disk_bytes sector lba n)) d s)" "a_words (view d) = []"
    by auto
  have "nat (sint (of_nat n :: u32)) = n" using n(2) by (simp add: signed_of_nat signed_take_bit_int_eq_self)
  then show ?thesis using d by (auto simp: DiskReadSectors_def Let_def OutByte_def put_io_intro)
qed

lemma length_disk_bytes:
  "(\<And>k. k < a + n \<Longrightarrow> length (sector k) = 256) \<Longrightarrow> length (disk_bytes sector a n) = 512 * n"
proof -
  assume len: "\<And>k. k < a + n \<Longrightarrow> length (sector k) = 256"
  have "sum_list (map (length \<circ> sector) [a..<a + n]) = 256 * n"
    using len by (subst map_cong [OF refl, where g = "\<lambda>_. 256"]) (auto simp: sum_list_triv)
  then show ?thesis by (simp add: disk_bytes_def length_concat)
qed

section \<open>A drive\<close>

text \<open>
  A drive that meets the contract: it is busy for two status reads after a command, and for one
  between two sectors.
\<close>

definition simple_drive :: "(nat \<Rightarrow> u16 list) \<Rightarrow> ata ports" where
  "simple_drive sector =
     \<lparr>in_byte = \<lambda>p d. if a_lag d = 0 then (0x58, d\<lparr>a_drq := True\<rparr>) else (0x80, d\<lparr>a_lag := a_lag d - 1\<rparr>),
      in_word = \<lambda>p d. (case a_words d of [] \<Rightarrow> (0, d)
        | w # ws \<Rightarrow> (w, d\<lparr>a_words := ws, a_drq := (length ws mod 256 \<noteq> 0), a_lag := 1\<rparr>)),
      out_byte = \<lambda>p v d. if p = 0x1F7
        then d\<lparr>a_words := concat (map sector [command_lba d..<command_lba d + command_count d]), a_drq := False, a_lag := 2\<rparr>
        else d\<lparr>a_reg := (a_reg d)(p := v)\<rparr>\<rparr>"

definition idle_drive :: ata where
  "idle_drive = \<lparr>a_reg = \<lambda>_. 0, a_words = [], a_drq = False, a_lag = 0\<rparr>"

lemma simple_drive: "(\<And>k. length (sector k) = 256) \<Longrightarrow> cap \<le> 2 ^ 28 \<Longrightarrow> ata_drive (simple_drive sector) (\<lambda>d. d) sector cap"
  by (auto simp: ata_drive_def simple_drive_def Let_def split: list.splits)

section \<open>Properties\<close>

text \<open>
  Property C32. \<open>DiskReadSectors\<close> reads the disk: for 1 to 256 sectors inside the drive, whatever the
  drive's delays, it returns, the buffer holds exactly the bytes of these sectors, in order and little
  endian, nothing else in memory changes, and the drive is ready for the next command.
\<close>

theorem DiskReadSectors_reads:
  assumes "ata_drive io view sector cap" "a_words (view (dev s)) = []" "0 < n" "n \<le> 256" "lba + n \<le> cap"
  shows "\<exists>t. DiskReadSectors io (of_nat lba) (of_nat n) buf s = ret (0, t) \<and> a_words (view (dev t)) = []
     \<and> read_bytes (mem t) buf (512 * n) = disk_bytes sector lba n
     \<and> (\<forall>x. x \<notin> span buf (512 * n) \<longrightarrow> mem t x = mem s x) \<and> t = s\<lparr>mem := mem t, dev := dev t\<rparr>"
proof -
  have len: "length (disk_bytes sector lba n) = 512 * n"
    using ata_driveD(1) [OF assms(1)] assms(5) by (intro length_disk_bytes) simp
  then have "read_bytes (write_bytes m buf (disk_bytes sector lba n)) buf (512 * n) = disk_bytes sector lba n" for m
    using read_write_same [of "disk_bytes sector lba n" m buf] assms(4) by simp
  moreover have "x \<notin> span buf (512 * n) \<Longrightarrow> write_bytes (mem s) buf (disk_bytes sector lba n) x = mem s x" for x
    using len assms(4) by (simp add: write_bytes_apply)
  ultimately show ?thesis using DiskReadSectors_ok [OF assms, of buf] by (auto simp: put_io_def)
qed

definition test_disk :: "nat \<Rightarrow> u16 list" where
  "test_disk k = of_nat k # replicate 255 0x5A5A"

theorem DiskReadSectors_reads_witness:
  "\<exists>t. DiskReadSectors (simple_drive test_disk) 7 2 0x8000 (with_dev idle_drive three_processes) = ret (0, t)
     \<and> read_bytes (mem t) 0x8000 1024 = disk_bytes test_disk 7 2"
proof -
  have "ata_drive (simple_drive test_disk) (\<lambda>d. d) test_disk 100"
    by (rule simple_drive) (simp_all add: test_disk_def)
  from DiskReadSectors_reads [OF this, of "with_dev idle_drive three_processes" 2 7 "0x8000"] show ?thesis
    by (auto simp: idle_drive_def)
qed

end
