(* ===== verification/File_System.thy ===== *)
theory File_System
  imports User_Memory Disk
begin

text \<open>
  The FAT16 file system, \<open>kernel/file.c\<close>: the BIOS parameter block and what is computed from it, the
  search of the root directory, \<open>Open\<close>, \<open>Read\<close> and \<open>Lstat\<close>. File names come from user programs and
  are read through the page map; sectors are read into a page of the allocator.

  The two tables of open files are allocated in pages by \<open>InitFileSystem\<close>; their entries are the
  fields \<open>s_fcb_table\<close> and \<open>s_fd_table\<close> of the state, and the two pages belong to nobody else. A
  directory entry in a local variable is a record of the fields the code reads.
\<close>

section \<open>Geometry\<close>

definition ENOENT :: int where "ENOENT = 2"
definition EAGAIN :: int where "EAGAIN = 11"
definition EINVAL :: int where "EINVAL = 22"
definition EMFILE :: int where "EMFILE = 24"

definition ENTRY_EMPTY :: u8 where "ENTRY_EMPTY = 0"
definition ENTRY_DELETED :: u8 where "ENTRY_DELETED = 0xE5"
definition START_CLUSTER_INDEX :: nat where "START_CLUSTER_INDEX = 2"

definition load_BPB :: "memory \<Rightarrow> u64 \<Rightarrow> BPB" where
  "load_BPB m a = \<lparr>bytes_per_sector = load16 m (a + 11), sectors_per_cluster = m (a + 13),
     reserved_sectors = load16 m (a + 14), fat_copies = m (a + 16), root_dir_entries = load16 m (a + 17),
     sectors_per_fat = load16 m (a + 22), b_signature = m (a + 38)\<rparr>"

text \<open>None of these ints can overflow: the fields are 8 and 16 bits wide.\<close>

definition GetRootDirectoryStartSector :: "BPB \<Rightarrow> nat" where
  "GetRootDirectoryStartSector b = unat (fat_copies b) * unat (sectors_per_fat b) + unat (reserved_sectors b)"

definition GetRootDirectorySectorSize :: "BPB \<Rightarrow> nat kres" where
  "GetRootDirectorySectorSize b =
     andthen (demand (bytes_per_sector b \<noteq> 0) Divide_error)
       (\<lambda>_. ret (unat (root_dir_entries b) * 32 div unat (bytes_per_sector b)))"

definition GetDataRegionStartSector :: "BPB \<Rightarrow> nat kres" where
  "GetDataRegionStartSector b =
     andthen (GetRootDirectorySectorSize b) (\<lambda>n. ret (GetRootDirectoryStartSector b + n))"

definition GetBytesPerSector :: "BPB \<Rightarrow> nat" where
  "GetBytesPerSector b = unat (bytes_per_sector b)"

definition GetSectorsPerCluster :: "BPB \<Rightarrow> nat" where
  "GetSectorsPerCluster b = unat (sectors_per_cluster b)"

definition GetBytesPerCluster :: "BPB \<Rightarrow> nat" where
  "GetBytesPerCluster b = GetSectorsPerCluster b * GetBytesPerSector b"

text \<open>C division of a signed number by a positive one rounds to zero.\<close>

definition GetNumberOfClustersStoringFileData :: "BPB \<Rightarrow> u32 \<Rightarrow> int kres" where
  "GetNumberOfClustersStoringFileData b file_size =
     (let n = sint file_size; c = int (GetBytesPerCluster b) in
      andthen (demand (c \<noteq> 0) Divide_error) (\<lambda>_.
        ret (sgn n * (\<bar>n\<bar> div c) + (if \<bar>n\<bar> mod c \<noteq> 0 then 1 else 0))))"

definition GetMaxEntriesOfFDTable :: nat where
  "GetMaxEntriesOfFDTable = 2 ^ 21 div 16"

section \<open>Directory entries\<close>

record DirEntry =
  e_name :: "u8 list"
  e_ext :: "u8 list"
  e_attributes :: u8
  e_cluster_index :: u16
  e_file_size :: u32

definition zero_DirEntry :: DirEntry where
  "zero_DirEntry = \<lparr>e_name = replicate 8 0, e_ext = replicate 3 0, e_attributes = 0, e_cluster_index = 0, e_file_size = 0\<rparr>"

definition load_DirEntry :: "memory \<Rightarrow> u64 \<Rightarrow> DirEntry" where
  "load_DirEntry m a = \<lparr>e_name = read_bytes m a 8, e_ext = read_bytes m (a + 8) 3, e_attributes = m (a + 11),
     e_cluster_index = load16 m (a + 26), e_file_size = load32 m (a + 28)\<rparr>"

text \<open>One of the two loops of \<open>GetRelativeFileName\<close>: copy a field up to a zero, a blank or its end.\<close>

fun copy_name :: "u8 list \<Rightarrow> u8 list" where
  "copy_name [] = []"
| "copy_name (c # cs) = (if c \<noteq> 0 \<and> c \<noteq> 32 then c # copy_name cs else [])"

definition GetRelativeFileName :: "DirEntry \<Rightarrow> u8 list" where
  "GetRelativeFileName e = copy_name (e_name e) @ [46] @ copy_name (e_ext e) @ [0]"

text \<open>The entries both searches skip: unused, deleted, or part of a long name.\<close>

definition skipped :: "DirEntry \<Rightarrow> bool" where
  "skipped e \<longleftrightarrow> e_name e ! 0 = ENTRY_EMPTY \<or> e_name e ! 0 = ENTRY_DELETED \<or> e_attributes e = 0xF"

text \<open>\<open>strcasecmp\<close> of a string of the user and a local array.\<close>

primrec strcasecmp_user :: "'z kmem_scheme \<Rightarrow> u64 \<Rightarrow> u8 list \<Rightarrow> u32 kres" where
  "strcasecmp_user s p [] = fails Out_of_bounds"
| "strcasecmp_user s p (b # bs) =
     andthen (peek8 s p) (\<lambda>c.
       let result = tolower (scast c) - tolower (scast b)
       in if result \<noteq> 0 \<or> c = 0 then ret result else strcasecmp_user s (p + 1) bs)"

section \<open>The root directory\<close>

text \<open>The inner loop of \<open>FindFileInRootDir\<close>, from entry \<open>j\<close> on.\<close>

primrec find_entry :: "'z kmem_scheme \<Rightarrow> u64 \<Rightarrow> u64 \<Rightarrow> nat \<Rightarrow> nat \<Rightarrow> (nat \<times> DirEntry) option kres" where
  "find_entry s filename sector_data j 0 = ret None"
| "find_entry s filename sector_data j (Suc n) =
     (let e = load_DirEntry (mem s) (sector_data + of_nat (32 * j)) in
      if skipped e then find_entry s filename sector_data (Suc j) n
      else andthen (strcasecmp_user s filename (GetRelativeFileName e)) (\<lambda>r.
             if r = 0 then ret (Some (j, e)) else find_entry s filename sector_data (Suc j) n))"

text \<open>One sector of the directory, and the outer loop from sector \<open>i\<close> on.\<close>

definition read_dir_sector :: "'d ports \<Rightarrow> u64 \<Rightarrow> nat \<Rightarrow> ('d, 'z) io_kernel_scheme \<Rightarrow> ('d, 'z) io_kernel_scheme kres" where
  "read_dir_sector io sector_data i s =
     (let b = s_BIOS_parameter_block s in
      andthen (demand (sector_data \<noteq> 0) Null_dereference) (\<lambda>_.
      andthen (DiskReadSectors io (of_nat (GetRootDirectoryStartSector b + i)) 1 sector_data
                 (s\<lparr>mem := memset (mem s) sector_data 0 (ucast (bytes_per_sector b))\<rparr>)) (\<lambda>(_, s1). ret s1)))"

definition entries_per_sector :: "BPB \<Rightarrow> nat" where
  "entries_per_sector b = unat (bytes_per_sector b) div 32"

primrec find_sector :: "'d ports \<Rightarrow> u64 \<Rightarrow> u64 \<Rightarrow> nat \<Rightarrow> nat \<Rightarrow> ('d, 'z) io_kernel_scheme
    \<Rightarrow> ((nat \<times> DirEntry) option \<times> ('d, 'z) io_kernel_scheme) kres" where
  "find_sector io filename sector_data i 0 s = ret (None, s)"
| "find_sector io filename sector_data i (Suc n) s =
     (let eps = entries_per_sector (s_BIOS_parameter_block s) in
      andthen (read_dir_sector io sector_data i s) (\<lambda>s1.
      andthen (find_entry s1 filename sector_data 0 eps) (\<lambda>found.
      case found of
        None \<Rightarrow> find_sector io filename sector_data (Suc i) n s1
      | Some (j, e) \<Rightarrow> ret (Some (i * eps + j, e), s1))))"

definition FindFileInRootDir :: "'d ports \<Rightarrow> u64 \<Rightarrow> DirEntry \<Rightarrow> ('d, 'z) io_kernel_scheme
    \<Rightarrow> ((int \<times> DirEntry) \<times> ('d, 'z) io_kernel_scheme) kres" where
  "FindFileInRootDir io filename entry s =
     andthen (kalloc s) (\<lambda>(sector_data, s1).
     andthen (GetRootDirectorySectorSize (s_BIOS_parameter_block s1)) (\<lambda>n.
     andthen (find_sector io filename sector_data 0 (n mod 2 ^ 16) s1) (\<lambda>(found, s2).
     andthen (kfree sector_data s2) (\<lambda>s3.
     case found of
       None \<Rightarrow> ret ((- ENOENT, entry), s3)
     | Some (k, e) \<Rightarrow> ret ((int k, e), s3)))))"

section \<open>Initialisation\<close>

definition InitFileControlBLock :: "'z kernel_scheme \<Rightarrow> 'z kernel_scheme kres" where
  "InitFileControlBLock s =
     andthen (kalloc s) (\<lambda>(page, s1).
     andthen (ASSERT (page \<noteq> 0) ''file.c'' 430) (\<lambda>_.
     ret (s1\<lparr>mem := memset (mem s1) page 0 PAGE_SIZE, s_fcb_table := \<lambda>_. zero_FCB\<rparr>)))"

definition InitFileDescriptorTable :: "'z kernel_scheme \<Rightarrow> 'z kernel_scheme kres" where
  "InitFileDescriptorTable s =
     andthen (kalloc s) (\<lambda>(page, s1).
     andthen (ASSERT (page \<noteq> 0) ''file.c'' 438) (\<lambda>_.
     ret (s1\<lparr>mem := memset (mem s1) page 0 PAGE_SIZE, s_fd_table := \<lambda>_. zero_FD\<rparr>)))"

text \<open>A product of two ints; \<open>GetRootDirectoryStartSector\<close> times \<open>GetBytesPerSector\<close> can leave the type.\<close>

definition int_product :: "nat \<Rightarrow> nat \<Rightarrow> nat kres" where
  "int_product a b = andthen (demand (a * b < 2 ^ 31) Signed_overflow) (\<lambda>_. ret (a * b))"

definition InitFileSystem :: "'d ports \<Rightarrow> ('d, 'z) io_kernel_scheme \<Rightarrow> ('d, 'z) io_kernel_scheme kres" where
  "InitFileSystem io s =
     andthen (kalloc s) (\<lambda>(bpb, s1).
     andthen (ASSERT (bpb \<noteq> 0) ''file.c'' 114) (\<lambda>_.
     andthen (DiskReadSectors io 0 1 bpb s1) (\<lambda>(_, s2).
     let s3 = s2\<lparr>s_BIOS_parameter_block := load_BPB (mem s2) bpb\<rparr>; b = s_BIOS_parameter_block s3;
         boot_signature = push_bit 8 (ucast (mem s3 (bpb + 510))) OR ucast (mem s3 (bpb + 511)) :: u16
     in
     andthen (print (kline ''Boot signature: %x'') [KInt (ucast boot_signature)] s3) (\<lambda>s4.
     andthen (print (kline ''FAT16 signature: %x'') [KInt (ucast (b_signature b))] s4) (\<lambda>s5.
     andthen (ASSERT (boot_signature = 0x55AA) ''file.c'' 127) (\<lambda>_.
     andthen (ASSERT (b_signature b = 0x29) ''file.c'' 128) (\<lambda>_.
     andthen (kfree bpb s5) (\<lambda>s6.
     andthen (int_product (GetRootDirectoryStartSector b) (GetBytesPerSector b)) (\<lambda>root.
     andthen (print (kline ''FAT16 Root Directory base address: %x'') [KInt (of_nat root)] s6) (\<lambda>s7.
     andthen (GetDataRegionStartSector b) (\<lambda>d.
     andthen (int_product d (GetBytesPerSector b)) (\<lambda>data.
     andthen (print (kline ''FAT16 DATA region base address: %x'') [KInt (of_nat data)] s7) (\<lambda>s8.
     andthen (InitFileControlBLock s8) (\<lambda>s9.
     andthen (InitFileDescriptorTable s9) (\<lambda>s10.
     print (kline ''Initialized FAT 16 file system.'') [] s10)))))))))))))))"

section \<open>Open\<close>

text \<open>What \<open>Open\<close> does to the tables once the file is found.\<close>

definition link_file :: "nat \<Rightarrow> nat \<Rightarrow> nat \<Rightarrow> nat \<Rightarrow> DirEntry \<Rightarrow> 'z kernel_scheme \<Rightarrow> 'z kernel_scheme" where
  "link_file p fd d f e s =
     (let b = s_fcb_table s f;
          b1 = (if f_open_count b = 0
                then b\<lparr>f_dir_entry := of_nat f, f_file_size := e_file_size e, f_start_cluster := ucast (e_cluster_index e),
                       f_name := e_name e, f_ext := e_ext e\<rparr> else b)
      in set_file p fd (Some d)
           (s\<lparr>s_fcb_table := (s_fcb_table s)(f := b1\<lparr>f_open_count := f_open_count b1 + 1\<rparr>),
              s_fd_table := (s_fd_table s)(d := \<lparr>d_fcb = Some f, d_position = 0, d_open_count = 1\<rparr>)\<rparr>))"

definition free_fd :: "nat \<Rightarrow> 'z kernel_scheme \<Rightarrow> nat option" where
  "free_fd p s = find (\<lambda>i. p_file (proc s p) i = None) user_fds"

definition free_descriptor :: "'z kernel_scheme \<Rightarrow> nat option" where
  "free_descriptor s = find (\<lambda>i. d_fcb (s_fd_table s i) = None) [0..<GetMaxEntriesOfFDTable]"

definition Open :: "'d ports \<Rightarrow> nat \<Rightarrow> u64 \<Rightarrow> ('d, 'z) io_kernel_scheme \<Rightarrow> (int \<times> ('d, 'z) io_kernel_scheme) kres" where
  "Open io p file_name s =
     (case free_fd p s of
        None \<Rightarrow> ret (- EMFILE, s)
      | Some fd \<Rightarrow>
          (case free_descriptor s of
             None \<Rightarrow> ret (- ENOMEM, s)
           | Some d \<Rightarrow>
               andthen (FindFileInRootDir io file_name zero_DirEntry s) (\<lambda>((entry_index, e), s1).
               if entry_index < 0 then ret (- ENOENT, s1)
               else if unat (e_cluster_index e) < START_CLUSTER_INDEX then ret (- EAGAIN, s1)
               else ret (int fd, link_file p fd d (nat entry_index) e s1))))"

section \<open>Read\<close>

definition ReadFileData :: "'d ports \<Rightarrow> nat \<Rightarrow> nat \<Rightarrow> u64 \<Rightarrow> ('d, 'z) io_kernel_scheme \<Rightarrow> ('d, 'z) io_kernel_scheme kres" where
  "ReadFileData io start_cluster len buf s =
     (let b = s_BIOS_parameter_block s in
      andthen (ASSERT (start_cluster \<ge> START_CLUSTER_INDEX) ''file.c'' 414) (\<lambda>_.
      andthen (GetDataRegionStartSector b) (\<lambda>data.
      let file_data_start_sector = (start_cluster - START_CLUSTER_INDEX) * GetSectorsPerCluster b + data;
          number_of_sector_need_to_read = (len * GetSectorsPerCluster b) mod 2 ^ 16
      in andthen (DiskReadSectors io (of_nat file_data_start_sector) (of_nat number_of_sector_need_to_read) buf s)
           (\<lambda>(_, s1). ret s1))))"

text \<open>The buffer of \<open>ReadRawData\<close> is not tested; storing to a null buffer stops the kernel.\<close>

definition ReadRawData :: "'d ports \<Rightarrow> u32 \<Rightarrow> u64 \<Rightarrow> u32 \<Rightarrow> u32 \<Rightarrow> ('d, 'z) io_kernel_scheme \<Rightarrow> (u32 \<times> ('d, 'z) io_kernel_scheme) kres" where
  "ReadRawData io cluster_index buf pos sz s =
     (let b = s_BIOS_parameter_block s; c = GetBytesPerCluster b in
      andthen (GetNumberOfClustersStoringFileData b sz) (\<lambda>n.
      let number_of_clusters = nat (n mod 2 ^ 16);
          start_cluster = (unat cluster_index + unat pos div c) mod 2 ^ 16;
          start_pos = (unat pos mod c) mod 2 ^ 16
      in
      andthen (kalloc s) (\<lambda>(buffer, s1).
      andthen (demand (buffer \<noteq> 0) Null_dereference) (\<lambda>_.
      andthen (ReadFileData io start_cluster number_of_clusters buffer s1) (\<lambda>s2.
      andthen (vcopy (unat sz) buf (buffer + of_nat start_pos) s2) (\<lambda>s3.
      andthen (kfree buffer s3) (\<lambda>s4.
      ret (sz, s4))))))))"

text \<open>The two unsigned comparisons wrap, as in the code.\<close>

definition Read :: "'d ports \<Rightarrow> nat \<Rightarrow> int \<Rightarrow> u64 \<Rightarrow> u32 \<Rightarrow> ('d, 'z) io_kernel_scheme \<Rightarrow> (int \<times> ('d, 'z) io_kernel_scheme) kres" where
  "Read io p fd buffer sz s =
     andthen (file_at p fd s) (\<lambda>f.
     case f of
       None \<Rightarrow> ret (- EBADF, s)
     | Some d \<Rightarrow>
         andthen (deref (d_fcb (s_fd_table s d))) (\<lambda>b.
         let position = d_position (s_fd_table s d);
             file_size = f_file_size (s_fcb_table s b);
             sz1 = (if position + sz > file_size then file_size - position else sz)
         in andthen (ReadRawData io (f_start_cluster (s_fcb_table s b)) buffer position sz1 s) (\<lambda>(read_size, s1).
            ret (sint read_size, s1\<lparr>s_fd_table := (s_fd_table s1)(d := (s_fd_table s1 d)\<lparr>
                   d_position := d_position (s_fd_table s1 d) + read_size\<rparr>)\<rparr>))))"

section \<open>Lstat\<close>

text \<open>The inner loop: every entry of the sector that is not skipped goes to the user.\<close>

primrec list_entries :: "u64 \<Rightarrow> u64 \<Rightarrow> nat \<Rightarrow> nat \<Rightarrow> nat \<times> 'z kmem_scheme \<Rightarrow> (nat \<times> 'z kmem_scheme) kres" where
  "list_entries statbuf sector_data j 0 c = ret c"
| "list_entries statbuf sector_data j (Suc n) c =
     (let (total, s) = c; a = sector_data + of_nat (32 * j) in
      if skipped (load_DirEntry (mem s) a) then list_entries statbuf sector_data (Suc j) n c
      else andthen (vcopy 32 (statbuf + of_nat (32 * total)) a s) (\<lambda>s1.
             list_entries statbuf sector_data (Suc j) n (total + 1, s1)))"

primrec list_sectors :: "'d ports \<Rightarrow> u64 \<Rightarrow> u64 \<Rightarrow> nat \<Rightarrow> nat \<Rightarrow> nat \<times> ('d, 'z) io_kernel_scheme \<Rightarrow> (nat \<times> ('d, 'z) io_kernel_scheme) kres" where
  "list_sectors io statbuf sector_data i 0 c = ret c"
| "list_sectors io statbuf sector_data i (Suc n) c =
     (let (total, s) = c in
      andthen (read_dir_sector io sector_data i s) (\<lambda>s1.
      andthen (list_entries statbuf sector_data 0 (entries_per_sector (s_BIOS_parameter_block s1)) (total, s1))
        (list_sectors io statbuf sector_data (Suc i) n)))"

definition Lstat :: "'d ports \<Rightarrow> u64 \<Rightarrow> u64 \<Rightarrow> ('d, 'z) io_kernel_scheme \<Rightarrow> (int \<times> ('d, 'z) io_kernel_scheme) kres" where
  "Lstat io pathname statbuf s =
     andthen (kalloc s) (\<lambda>(sector_data, s1).
     if sector_data = 0 then ret (- ENOMEM, s1)
     else
       andthen (GetRootDirectorySectorSize (s_BIOS_parameter_block s1)) (\<lambda>n.
       andthen (list_sectors io statbuf sector_data 0 (n mod 2 ^ 16) (0, s1)) (\<lambda>(total, s2).
       andthen (kfree sector_data s2) (\<lambda>s3. ret (int total, s3)))))"

end
