(* ===== verification/Directory.thy ===== *)
theory Directory
  imports File_System
begin

text \<open>
  What the search of the root directory and \<open>Open\<close> achieve. \<open>directory\<close> is the list of entries on the
  disk, and \<open>lookup\<close> the first one with the name, ignoring case; \<open>FindFileInRootDir\<close> implements it
  for a drive that meets its contract and 512-byte sectors, and uses one page, which it gives back.
\<close>

section \<open>The directory on the disk\<close>

definition parse_entry :: "u8 list \<Rightarrow> DirEntry" where
  "parse_entry bs = \<lparr>e_name = take 8 bs, e_ext = take 3 (drop 8 bs), e_attributes = bs ! 11,
     e_cluster_index = of_nat (le_nat (take 2 (drop 26 bs))), e_file_size = of_nat (le_nat (take 4 (drop 28 bs)))\<rparr>"

definition sector_entries :: "(nat \<Rightarrow> u16 list) \<Rightarrow> nat \<Rightarrow> DirEntry list" where
  "sector_entries sector k = map (\<lambda>j. parse_entry (take 32 (drop (32 * j) (disk_bytes sector k 1)))) [0..<16]"

definition directory :: "(nat \<Rightarrow> u16 list) \<Rightarrow> BPB \<Rightarrow> DirEntry list" where
  "directory sector b =
     concat (map (\<lambda>i. sector_entries sector (GetRootDirectoryStartSector b + i)) [0..<unat (root_dir_entries b) * 32 div 512])"

definition matches :: "u8 list \<Rightarrow> DirEntry \<Rightarrow> bool" where
  "matches name e \<longleftrightarrow> \<not> skipped e
     \<and> map lower_byte name = map lower_byte (copy_name (e_name e) @ [46] @ copy_name (e_ext e))"

fun lookup_from :: "u8 list \<Rightarrow> nat \<Rightarrow> DirEntry list \<Rightarrow> (nat \<times> DirEntry) option" where
  "lookup_from name k [] = None"
| "lookup_from name k (e # es) = (if matches name e then Some (k, e) else lookup_from name (Suc k) es)"

lemma lookup_from_append:
  "lookup_from name k (es @ fs) =
     (case lookup_from name k es of None \<Rightarrow> lookup_from name (k + length es) fs | Some r \<Rightarrow> Some r)"
  by (induction es arbitrary: k) (auto split: option.split)

lemma lookup_from_Some:
  "lookup_from name k es = Some (i, e) \<Longrightarrow>
   k \<le> i \<and> i < k + length es \<and> es ! (i - k) = e \<and> matches name e \<and> (\<forall>j. k \<le> j \<longrightarrow> j < i \<longrightarrow> \<not> matches name (es ! (j - k)))"
proof (induction es arbitrary: k)
  case Nil
  then show ?case by simp
next
  case (Cons x xs)
  show ?case
  proof (cases "matches name x")
    case True
    then show ?thesis using Cons.prems by auto
  next
    case False
    then have "lookup_from name (Suc k) xs = Some (i, e)" using Cons.prems by simp
    note IH = Cons.IH [OF this]
    have "\<not> matches name ((x # xs) ! (j - k))" if "k \<le> j" "j < i" for j
      using that False IH by (cases "j = k") (auto simp: nth_Cons' Suc_diff_Suc [symmetric] dest: spec [of _ j])
    then show ?thesis using IH by (auto simp: nth_Cons' Suc_diff_Suc [symmetric])
  qed
qed

lemma lookup_from_None: "lookup_from name k es = None \<longleftrightarrow> (\<forall>e\<in>set es. \<not> matches name e)"
  by (induction es arbitrary: k) (auto split: option.split)

section \<open>Reading names and entries\<close>

lemma read_bytes_split:
  "a + n \<le> l \<Longrightarrow> read_bytes m (p + of_nat a) n = take n (drop a (read_bytes m p l))"
  by (rule nth_equalityI) (auto simp: add.assoc)

lemma load_DirEntry_parse: "load_DirEntry m a = parse_entry (read_bytes m a 32)"
proof -
  note split = read_bytes_split [where l = 32 and p = a and m = m]
  show ?thesis
    using split [of 0 8] split [of 8 3] split [of 26 2] split [of 28 4]
    by (simp add: load_DirEntry_def parse_entry_def load16_def load32_def)
qed

lemma copy_name_nonzero: "0 \<notin> set (copy_name cs)"
  by (induction cs) auto

lemma strcasecmp_user_ok:
  assumes us: "user_space s T u ps"
  shows "off + length name < 2 ^ 21 \<Longrightarrow> read_bytes (mem s) (u + of_nat off) (Suc (length name)) = name @ [0] \<Longrightarrow>
    0 \<notin> set name \<Longrightarrow> 0 \<notin> set bs \<Longrightarrow>
    \<exists>r. strcasecmp_user s (USER_VIRTUAL_ADDRESS_BASE + of_nat off) (bs @ [0]) = ret r
      \<and> (r = 0 \<longleftrightarrow> map lower_byte name = map lower_byte bs)"
proof (induction bs arbitrary: off name)
  case Nil
  have peek: "peek8 s (USER_VIRTUAL_ADDRESS_BASE + of_nat off) = ret (mem s (u + of_nat off))"
    using Nil.prems(1) resolve_user [OF us, of off] by (simp add: peek8_def)
  have hd: "mem s (u + of_nat off) = (name @ [0]) ! 0" using arg_cong [OF Nil.prems(2), of "\<lambda>l. l ! 0"] by simp
  show ?case using Nil.prems(3)
    by (cases name) (simp_all add: peek hd tolower_scast scast_u8_zero_iff lower_byte_zero_iff)
next
  case (Cons b bs)
  have peek: "peek8 s (USER_VIRTUAL_ADDRESS_BASE + of_nat off) = ret (mem s (u + of_nat off))"
    using Cons.prems(1) resolve_user [OF us, of off] by (simp add: peek8_def)
  have hd: "mem s (u + of_nat off) = (name @ [0]) ! 0" using arg_cong [OF Cons.prems(2), of "\<lambda>l. l ! 0"] by simp
  show ?case
  proof (cases "name \<noteq> [] \<and> lower_byte (hd name) = lower_byte b")
    case False
    then have "lower_byte (mem s (u + of_nat off)) \<noteq> lower_byte b"
      using hd Cons.prems(4) by (cases name) (auto simp: lower_byte_zero_iff)
    then show ?thesis using False by (cases name) (auto simp: peek tolower_scast scast_u8_eq_iff)
  next
    case True
    then obtain c cs where n: "name = c # cs" "lower_byte c = lower_byte b" by (cases name) auto
    have c: "mem s (u + of_nat off) = c" "c \<noteq> 0" using hd n Cons.prems(3) by auto
    have "read_bytes (mem s) (u + of_nat (Suc off)) (Suc (length cs)) = cs @ [0]"
      using read_bytes_split [of 1 "Suc (length cs)" "Suc (length name)" "mem s" "u + of_nat off"] Cons.prems(2) n
      by (simp add: ac_simps)
    from Cons.IH [OF _ this] n Cons.prems(1,3,4) obtain r where
      "strcasecmp_user s (USER_VIRTUAL_ADDRESS_BASE + of_nat (Suc off)) (bs @ [0]) = ret r"
      "r = 0 \<longleftrightarrow> map lower_byte cs = map lower_byte bs" by auto
    then show ?thesis using n c by (simp add: peek tolower_scast ac_simps)
  qed
qed

text \<open>The name a user program has passed: a string of its page.\<close>

definition user_string :: "'z kmem_scheme \<Rightarrow> u64 \<Rightarrow> nat \<Rightarrow> u8 list \<Rightarrow> bool" where
  "user_string s u off name \<longleftrightarrow> off + length name < 2 ^ 21 \<and> 0 \<notin> set name
     \<and> read_bytes (mem s) (u + of_nat off) (Suc (length name)) = name @ [0]"

lemma find_entry_ok:
  assumes us: "user_space s T u ps" and str: "user_string s u off name"
  shows "(\<And>i. i < n \<Longrightarrow> load_DirEntry (mem s) (a + of_nat (32 * (j + i))) = es ! i) \<Longrightarrow> length es = n \<Longrightarrow>
    find_entry s (USER_VIRTUAL_ADDRESS_BASE + of_nat off) a j n = ret (lookup_from name j es)"
proof (induction n arbitrary: j es)
  case 0
  then show ?case by simp
next
  case (Suc n)
  then obtain e rest where es: "es = e # rest" by (cases es) auto
  have e: "load_DirEntry (mem s) (a + of_nat (32 * j)) = e" using Suc.prems(1) [of 0] es by simp
  have "load_DirEntry (mem s) (a + of_nat (32 * (Suc j + i))) = rest ! i" if "i < n" for i
    using Suc.prems(1) [of "Suc i"] that es by (simp add: ac_simps)
  then have IH: "find_entry s (USER_VIRTUAL_ADDRESS_BASE + of_nat off) a (Suc j) n = ret (lookup_from name (Suc j) rest)"
    using Suc.prems(2) es by (intro Suc.IH) simp_all
  have "0 \<notin> set (copy_name (e_name e) @ [46] @ copy_name (e_ext e))" using copy_name_nonzero by auto
  from strcasecmp_user_ok [OF us _ _ _ this] str obtain r where
    "strcasecmp_user s (USER_VIRTUAL_ADDRESS_BASE + of_nat off) (GetRelativeFileName e) = ret r"
    "r = 0 \<longleftrightarrow> map lower_byte name = map lower_byte (copy_name (e_name e) @ [46] @ copy_name (e_ext e))"
    unfolding user_string_def GetRelativeFileName_def by (metis append.assoc)
  then show ?case using IH e es by (auto simp: matches_def Let_def)
qed

section \<open>The search\<close>

text \<open>
  The assumptions on a state in which the kernel reads the disk for a process: its user page \<open>u\<close> is
  mapped, the page \<open>q\<close> is the scratch page, the drive \<open>io\<close> is idle and has \<open>cap\<close> sectors.
\<close>

definition disk_ready :: "'d ports \<Rightarrow> ('d \<Rightarrow> ata) \<Rightarrow> (nat \<Rightarrow> u16 list) \<Rightarrow> nat \<Rightarrow> ('d, 'z) io_kernel_scheme \<Rightarrow> bool" where
  "disk_ready io view sector cap s \<longleftrightarrow>
     ata_drive io view sector cap \<and> a_words (view (dev s)) = [] \<and> bytes_per_sector (s_BIOS_parameter_block s) = 512
     \<and> GetRootDirectoryStartSector (s_BIOS_parameter_block s)
         + unat (root_dir_entries (s_BIOS_parameter_block s)) * 32 div 512 \<le> cap"

definition scratch_page :: "'z kmem_scheme \<Rightarrow> tree \<Rightarrow> u64 \<Rightarrow> u64 list \<Rightarrow> u64 \<Rightarrow> bool" where
  "scratch_page s T u ps q \<longleftrightarrow>
     valid_page (l_kernel_end s) q \<and> q \<noteq> u \<and> q \<notin> set ps \<and> q \<notin> tables (PHY_TO_VIR (cr3 s)) T"

text \<open>What a step on the scratch page leaves: memory elsewhere, and everything but the drive.\<close>

definition scratched :: "u64 \<Rightarrow> ('d \<Rightarrow> ata) \<Rightarrow> ('d, 'z) io_kernel_scheme \<Rightarrow> ('d, 'z) io_kernel_scheme \<Rightarrow> bool" where
  "scratched q view s t \<longleftrightarrow>
     (\<exists>m d. t = put_io m d s \<and> (\<forall>x. x \<notin> page_span q \<longrightarrow> m x = mem s x) \<and> a_words (view d) = [])"

lemma put_io_other [simp]:
  "s_BIOS_parameter_block (put_io m d s) = s_BIOS_parameter_block s" "cr3 (put_io m d s) = cr3 s"
  "l_kernel_end (put_io m d s) = l_kernel_end s" "s_free_memory_page_head (put_io m d s) = s_free_memory_page_head s"
  "s_fcb_table (put_io m d s) = s_fcb_table s" "s_fd_table (put_io m d s) = s_fd_table s" "proc (put_io m d s) i = proc s i"
  "current_proc (put_io m d s) = current_proc s" "proc_lists (put_io m d s) = proc_lists s" "s_pid_num (put_io m d s) = s_pid_num s"
  "put_io m d (s\<lparr>mem := m'\<rparr>) = put_io m d s" "s_process_manager (put_io m d s) = s_process_manager s"
  by (simp_all add: put_io_def)

lemma scratched_trans: "scratched q view s t \<Longrightarrow> scratched q view t v \<Longrightarrow> scratched q view s v"
  unfolding scratched_def by fastforce

lemma scratched_other:
  assumes "scratched q view s t"
  shows "s_BIOS_parameter_block t = s_BIOS_parameter_block s" "a_words (view (dev t)) = []" "cr3 t = cr3 s"
    "l_kernel_end t = l_kernel_end s" "s_free_memory_page_head t = s_free_memory_page_head s"
    "x \<notin> page_span q \<Longrightarrow> mem t x = mem s x"
  using assms by (auto simp: scratched_def)

lemma scratched_user_space:
  assumes us: "user_space s T u ps" and q: "scratch_page s T u ps q" and t: "scratched q view s t"
  shows "user_space t T u ps" "scratch_page t T u ps q"
    "user_string s u off name \<Longrightarrow> user_string t u off name" "disk_ready io view sector cap s \<Longrightarrow> disk_ready io view sector cap t"
proof -
  from t obtain m d where m: "t = put_io m d s" "\<And>x. x \<notin> page_span q \<Longrightarrow> m x = mem s x" "a_words (view d) = []"
    by (auto simp: scratched_def)
  have "touches {q} s (s\<lparr>mem := m\<rparr>)" using m(2) by (intro touches_mem_only) auto
  from user_space_touches [OF us this] have "user_space (s\<lparr>mem := m\<rparr>) T u ps" using q by (simp add: scratch_page_def)
  then show "user_space t T u ps" by (rule user_space_cong) (simp_all add: m(1))
  show "scratch_page t T u ps q" using q by (simp add: scratch_page_def m(1))
  have dj: "page_span u \<inter> page_span q = {}"
    using us q by (intro valid_pages_disjoint [of "l_kernel_end s"]) (auto simp: user_space_def scratch_page_def)
  show "user_string t u off name" if str: "user_string s u off name"
  proof -
    have "span (u + of_nat off) (Suc (length name)) \<subseteq> page_span u"
      using str unfolding page_span_def by (intro span_subset) (auto simp: user_string_def)
    then have "read_bytes m (u + of_nat off) (Suc (length name)) = read_bytes (mem s) (u + of_nat off) (Suc (length name))"
      using dj m(2) str by (intro read_bytes_cong) (auto simp: user_string_def)
    then show ?thesis using str by (simp add: user_string_def m(1))
  qed
  show "disk_ready io view sector cap s \<Longrightarrow> disk_ready io view sector cap t"
    by (simp add: disk_ready_def m(1,3))
qed

lemma read_dir_sector_ok:
  assumes D: "disk_ready io view sector cap s" and q: "q \<noteq> 0"
    and i: "i < unat (root_dir_entries (s_BIOS_parameter_block s)) * 32 div 512"
  shows "\<exists>t. read_dir_sector io q i s = ret t \<and> scratched q view s t
     \<and> read_bytes (mem t) q 512 = disk_bytes sector (GetRootDirectoryStartSector (s_BIOS_parameter_block s) + i) 1"
proof -
  let ?k = "GetRootDirectoryStartSector (s_BIOS_parameter_block s) + i"
  have k: "?k + 1 \<le> cap" "ata_drive io view sector cap" "a_words (view (dev s)) = []"
    "bytes_per_sector (s_BIOS_parameter_block s) = 512"
    using D i by (auto simp: disk_ready_def)
  have z: "memset (mem s) q 0 512 = fill (mem s) q 0 512" by (subst memset_eq_fill) simp_all
  from DiskReadSectors_ok [OF k(2), of "s\<lparr>mem := memset (mem s) q 0 512\<rparr>" 1 ?k q] k(1,3) obtain d where
    d: "DiskReadSectors io (of_nat ?k) 1 q (s\<lparr>mem := memset (mem s) q 0 512\<rparr>)
        = ret (0, put_io (write_bytes (memset (mem s) q 0 512) q (disk_bytes sector ?k 1)) d s)" "a_words (view d) = []" by auto
  have len: "length (disk_bytes sector ?k 1) = 512"
    using length_disk_bytes [of ?k 1 sector] ata_driveD(1) [OF k(2)] k(1) by simp
  have sub: "x \<notin> page_span q \<Longrightarrow> x \<notin> span q 512" for x by (auto simp: page_span_def mem_span)
  have "scratched q view s (put_io (write_bytes (memset (mem s) q 0 512) q (disk_bytes sector ?k 1)) d s)"
    unfolding scratched_def
    by (intro exI [of _ "write_bytes (memset (mem s) q 0 512) q (disk_bytes sector ?k 1)"] exI [of _ d])
      (use sub d(2) len in \<open>simp add: write_bytes_apply z fill_apply\<close>)
  moreover have "read_bytes (write_bytes m q (disk_bytes sector ?k 1)) q 512 = disk_bytes sector ?k 1" for m
    using read_write_same [of "disk_bytes sector ?k 1" m q] unfolding len by simp
  ultimately show ?thesis using d(1) k(4) q by (simp add: read_dir_sector_def Let_def)
qed

lemma find_sector_ok:
  "user_space s T u ps \<Longrightarrow> scratch_page s T u ps q \<Longrightarrow> user_string s u off name \<Longrightarrow> disk_ready io view sector cap s \<Longrightarrow>
   i + n \<le> unat (root_dir_entries (s_BIOS_parameter_block s)) * 32 div 512 \<Longrightarrow>
   \<exists>t. find_sector io (USER_VIRTUAL_ADDRESS_BASE + of_nat off) q i n s
     = ret (lookup_from name (i * 16) (concat (map (\<lambda>i. sector_entries sector
         (GetRootDirectoryStartSector (s_BIOS_parameter_block s) + i)) [i..<i + n])), t) \<and> scratched q view s t"
proof (induction n arbitrary: i s)
  case 0
  have "scratched q view s s" using 0 unfolding scratched_def
    by (intro exI [of _ "mem s"] exI [of _ "dev s"]) (simp add: disk_ready_def)
  then show ?case by auto
next
  case (Suc n)
  let ?b = "s_BIOS_parameter_block s" let ?k = "GetRootDirectoryStartSector ?b + i"
  let ?es = "sector_entries sector ?k"
  let ?rest = "concat (map (\<lambda>i. sector_entries sector (GetRootDirectoryStartSector ?b + i)) [Suc i..<Suc i + n])"
  have q: "q \<noteq> 0" using Suc.prems(1,2) valid_page_neq_0 [of "l_kernel_end s" q]
    by (auto simp: scratch_page_def user_space_def KERNEL_VIRTUAL_ADDRESS_BASE_def word_less_nat_alt word_le_nat_alt)
  from read_dir_sector_ok [OF Suc.prems(4) q, of i] Suc.prems(5) obtain t where
    t: "read_dir_sector io q i s = ret t" "scratched q view s t" "read_bytes (mem t) q 512 = disk_bytes sector ?k 1" by auto
  note f = scratched_user_space [OF Suc.prems(1,2) t(2)]
  have es: "load_DirEntry (mem t) (q + of_nat (32 * (0 + j))) = ?es ! j" if "j < 16" for j
    using read_bytes_split [of "32 * j" 32 512 "mem t" q] that t(3)
    by (simp add: sector_entries_def load_DirEntry_parse)
  have eps: "entries_per_sector ?b = 16" using Suc.prems(4) by (simp add: entries_per_sector_def disk_ready_def)
  have len: "length ?es = 16" by (simp add: sector_entries_def)
  have find: "find_entry t (USER_VIRTUAL_ADDRESS_BASE + of_nat off) q 0 16 = ret (lookup_from name 0 ?es)"
    by (rule find_entry_ok [OF f(1) f(3) [OF Suc.prems(3)]]) (use es len in simp_all)
  have shift: "lookup_from name (i * 16) es = map_option (\<lambda>(j, e). (i * 16 + j, e)) (lookup_from name 0 es)" for es
  proof -
    have "lookup_from name (c + l) es = map_option (\<lambda>(j, e). (c + j, e)) (lookup_from name l es)" for c l es
      by (induction es arbitrary: l) (auto simp flip: add_Suc_right)
    from this [of "i * 16" 0] show ?thesis by simp
  qed
  have app: "lookup_from name (i * 16) (concat (map (\<lambda>i. sector_entries sector (GetRootDirectoryStartSector ?b + i)) [i..<i + Suc n]))
      = (case lookup_from name (i * 16) ?es of None \<Rightarrow> lookup_from name (Suc i * 16) ?rest | Some r \<Rightarrow> Some r)"
  proof -
    have "[i..<i + Suc n] = i # [Suc i..<Suc i + n]" by (simp add: upt_conv_Cons del: upt_Suc)
    then show ?thesis
      by (simp only: list.map concat.simps lookup_from_append len mult_Suc add.commute [of 16 "i * 16"])
  qed
  show ?case
  proof (cases "lookup_from name 0 ?es")
    case (Some r)
    then show ?thesis using t(1,2) find eps unfolding app unfolding shift by (auto simp: Let_def split: prod.splits)
  next
    case None
    have b: "s_BIOS_parameter_block t = ?b" using scratched_other(1) [OF t(2)] .
    from Suc.IH [OF f(1,2) f(3) [OF Suc.prems(3)] f(4) [OF Suc.prems(4)], of "Suc i"] Suc.prems(5) obtain v where
      v: "find_sector io (USER_VIRTUAL_ADDRESS_BASE + of_nat off) q (Suc i) n t = ret (lookup_from name (Suc i * 16) ?rest, v)"
        "scratched q view t v" unfolding b by auto
    then show ?thesis using t(1) find eps None scratched_trans [OF t(2) v(2)] unfolding app unfolding shift
      by (auto simp: Let_def)
  qed
qed

text \<open>Taking the first free page as scratch page, and giving it back.\<close>

lemma take_scratch_page:
  assumes us: "user_space s T u (q # ps)"
  defines "s1 \<equiv> s\<lparr>s_free_memory_page_head := load64 (mem s) q\<rparr>"
  shows "kalloc s = ret (q, s1)" "user_space s1 T u ps" "scratch_page s1 T u ps q" "s_free_memory_page_head s = q" "q \<noteq> 0"
proof -
  have sp: "space s (PHY_TO_VIR (cr3 s)) T (q # ps)" "KERNEL_VIRTUAL_ADDRESS_BASE \<le> l_kernel_end s"
    using us by (simp_all add: user_space_def)
  have f: "free_pages s (q # ps)" using spaceD(2) [OF sp(1)] .
  show "kalloc s = ret (q, s1)" unfolding s1_def by (rule kalloc_Cons [OF f])
  have "space s1 (PHY_TO_VIR (cr3 s)) T ps"
    using sp(1) kalloc_Cons(2) [OF f] by (auto simp: space_def s1_def)
  then show "user_space s1 T u ps" using us by (simp add: user_space_def s1_def)
  have "valid_page (l_kernel_end s) q" "q \<notin> set ps" using f by (auto simp: free_pages_def)
  then show "scratch_page s1 T u ps q" using us sp(1) by (auto simp: scratch_page_def user_space_def space_def s1_def)
  show "s_free_memory_page_head s = q" using f by (simp add: free_pages_def)
  show "q \<noteq> 0" using \<open>valid_page (l_kernel_end s) q\<close> sp(2) valid_page_neq_0 [of "l_kernel_end s" q]
    by (auto simp: KERNEL_VIRTUAL_ADDRESS_BASE_def word_less_nat_alt word_le_nat_alt)
qed

lemma return_scratch_page:
  assumes us: "user_space s T u (q # ps)" and t: "scratched q view (s\<lparr>s_free_memory_page_head := load64 (mem s) q\<rparr>) t"
    and us1: "user_space t T u ps" "scratch_page t T u ps q"
  shows "\<exists>v. kfree q t = ret v \<and> scratched q view s v \<and> user_space v T u (q # ps) \<and> mem v = store64 (mem t) q (s_free_memory_page_head t)"
proof -
  have k: "valid_page (l_kernel_end t) q" "q \<notin> set ps" "q \<notin> tables (PHY_TO_VIR (cr3 t)) T" "q \<noteq> u"
    using us1(2) by (auto simp: scratch_page_def)
  have sp: "space t (PHY_TO_VIR (cr3 t)) T ps" using us1(1) by (simp add: user_space_def)
  let ?v = "t\<lparr>mem := store64 (mem t) q (s_free_memory_page_head t), s_free_memory_page_head := q\<rparr>"
  have kf: "kfree q t = ret ?v" using kfree_ok(1) [OF spaceD(2) [OF sp] k(1,2)] .
  from space_kfree [OF sp k(1-3)] kf have sv: "space ?v (PHY_TO_VIR (cr3 t)) T (q # ps)" by auto
  have "user_space ?v T u (q # ps)" using us1(1) sv k(4) by (auto simp: user_space_def)
  moreover have "scratched q view s ?v"
  proof -
    obtain m d where m: "t = put_io m d (s\<lparr>s_free_memory_page_head := load64 (mem s) q\<rparr>)"
      "\<And>x. x \<notin> page_span q \<Longrightarrow> m x = mem s x" "a_words (view d) = []" using t by (auto simp: scratched_def)
    have "s_free_memory_page_head s = q" by (rule take_scratch_page(4) [OF us])
    then have "?v = put_io (store64 m q (s_free_memory_page_head t)) d s"
      unfolding m(1) by (cases s) (simp add: put_io_def)
    moreover have "x \<notin> page_span q \<Longrightarrow> x \<notin> span q 8" for x by (auto simp: page_span_def mem_span)
    ultimately show ?thesis unfolding scratched_def using m(2,3)
      by (intro exI [of _ "store64 m q (s_free_memory_page_head t)"] exI [of _ d]) (simp add: store64_other)
  qed
  ultimately show ?thesis using kf by auto
qed

lemma FindFileInRootDir_ok:
  assumes us: "user_space s T u (q # ps)" and str: "user_string s u off name" and D: "disk_ready io view sector cap s"
  shows "\<exists>t. FindFileInRootDir io (USER_VIRTUAL_ADDRESS_BASE + of_nat off) entry s
      = ret (case lookup_from name 0 (directory sector (s_BIOS_parameter_block s)) of
               None \<Rightarrow> (- ENOENT, entry) | Some (k, e) \<Rightarrow> (int k, e), t)
    \<and> scratched q view s t \<and> user_space t T u (q # ps) \<and> disk_ready io view sector cap t"
proof -
  let ?b = "s_BIOS_parameter_block s" let ?n = "unat (root_dir_entries ?b) * 32 div 512"
  let ?s1 = "s\<lparr>s_free_memory_page_head := load64 (mem s) q\<rparr>"
  note k = take_scratch_page [OF us]
  have str1: "user_string ?s1 u off name" using str by (simp add: user_string_def)
  have D1: "disk_ready io view sector cap ?s1" using D by (simp add: disk_ready_def)
  from find_sector_ok [OF k(2,3) str1 D1, of 0 ?n] obtain t where
    t: "find_sector io (USER_VIRTUAL_ADDRESS_BASE + of_nat off) q 0 ?n ?s1 = ret (lookup_from name 0 (directory sector ?b), t)"
      "scratched q view ?s1 t" by (auto simp: directory_def)
  note f = scratched_user_space [OF k(2,3) t(2)]
  from return_scratch_page [OF us t(2) f(1,2)] obtain v where
    v: "kfree q t = ret v" "scratched q view s v" "user_space v T u (q # ps)" by blast
  have "disk_ready io view sector cap v"
    using D v(2) by (auto simp: disk_ready_def scratched_def)
  moreover have "GetRootDirectorySectorSize ?b = ret ?n"
    using D by (simp add: GetRootDirectorySectorSize_def disk_ready_def)
  moreover have "?n mod 2 ^ 16 = ?n"
    using unat_lt2p [of "root_dir_entries ?b"] by (intro mod_less) (simp add: div_less_iff_less_mult)
  ultimately show ?thesis using k(1) t(1) v by (auto simp: FindFileInRootDir_def split: option.split)
qed

section \<open>Open\<close>

lemma scratched_file_tables:
  assumes "scratched q view s t"
  shows "s_fcb_table t = s_fcb_table s" "s_fd_table t = s_fd_table s" "proc t i = proc s i" "file_of t w = file_of s w"
    "counts X s \<Longrightarrow> counts X t"
proof -
  show e: "s_fcb_table t = s_fcb_table s" "s_fd_table t = s_fd_table s" "proc t i = proc s i" for i
    using assms by (auto simp: scratched_def)
  show "file_of t w = file_of s w" using e(3) by (simp add: file_of_def)
  show "counts X s \<Longrightarrow> counts X t"
    by (erule counts_cong) (use e in \<open>auto simp: file_of_def\<close>)
qed

lemma link_file_counts:
  assumes c: "counts UNIV s" and p: "p < MAXIMUM_NUMBER_OF_PROCESS" "fd < PROCESS_MAXIMUM_FILE_DESCRIPTOR"
    and free: "p_file (proc s p) fd = None" "d_fcb (s_fd_table s d) = None"
  shows "counts UNIV (link_file p fd d f e s)"
    "file_of (link_file p fd d f e s) v = (if v = (p, fd) then Some d else file_of s v)"
proof -
  let ?t = "link_file p fd d f e s" let ?u = "(p, fd)"
  have u: "?u \<in> users" using p by (simp add: users_def)
  have fl: "file_of ?t v = (if v = ?u then Some d else file_of s v)" for v
    using u by (cases v) (auto simp: link_file_def Let_def file_of_def set_file_def)
  then show "file_of ?t v = (if v = ?u then Some d else file_of s v)" .
  have none: "file_of s ?u = None" using free(1) by (simp add: file_of_def)
  have unused: "fd_users UNIV s d = {}" using c free(2) by (simp add: counts_def)
  then have notd: "file_of s v \<noteq> Some d" for v by (cases v) (auto simp: fd_users_def)
  have tabs: "s_fd_table ?t x = (if x = d then \<lparr>d_fcb = Some f, d_position = 0, d_open_count = 1\<rparr> else s_fd_table s x)"
    "f_open_count (s_fcb_table ?t g) = f_open_count (s_fcb_table s g) + (if g = f then 1 else 0)" for x g
    by (simp_all add: link_file_def Let_def set_file_def set_proc_def)
  have fd: "fd_users UNIV ?t x = (if x = d then {?u} else fd_users UNIV s x)" for x
    using fl none notd by (auto simp: fd_users_def)
  have fcb: "fcb_of ?t v = (if v = ?u then Some f else fcb_of s v)" for v
    using fl [of v] tabs(1) notd [of v] by (cases "file_of s v") (auto simp: fcb_of_def)
  have "fcb_of s ?u = None" using none by (simp add: fcb_of_def)
  then have fu: "fcb_users UNIV ?t g = (if g = f then insert ?u (fcb_users UNIV s g) else fcb_users UNIV s g)" for g
    using fcb by (auto simp: fcb_users_def)
  have "?u \<notin> fcb_users UNIV s g" for g using \<open>fcb_of s ?u = None\<close> by (simp add: fcb_users_def)
  then show "counts UNIV ?t" using c unfolding counts_def fd fu tabs by (auto simp: card_insert_if)
qed

lemma free_fdD:
  assumes "free_fd p s = Some fd"
  shows "USER_START_FD \<le> fd" "fd < PROCESS_MAXIMUM_FILE_DESCRIPTOR" "p_file (proc s p) fd = None"
    "i \<in> set user_fds \<Longrightarrow> i < fd \<Longrightarrow> p_file (proc s p) i \<noteq> None"
proof -
  from assms obtain k where k: "k < length user_fds" "user_fds ! k = fd" "p_file (proc s p) fd = None"
    "\<And>j. j < k \<Longrightarrow> p_file (proc s p) (user_fds ! j) \<noteq> None" by (auto simp: free_fd_def find_Some_iff)
  have "fd \<in> set user_fds" using k(1,2) by auto
  then show "USER_START_FD \<le> fd" "fd < PROCESS_MAXIMUM_FILE_DESCRIPTOR" "p_file (proc s p) fd = None"
    using k(3) by (auto simp: user_fds_def)
  show "p_file (proc s p) i \<noteq> None" if "i \<in> set user_fds" "i < fd"
  proof -
    have "i - USER_START_FD < k" "user_fds ! (i - USER_START_FD) = i" using that k(1,2) by (auto simp: user_fds_def)
    then show ?thesis using k(4) by metis
  qed
qed

lemma free_fd_exists:
  assumes "3 \<le> i" "i < PROCESS_MAXIMUM_FILE_DESCRIPTOR" "p_file (proc s p) i = None" obtains fd where "free_fd p s = Some fd"
proof (cases "free_fd p s")
  case None
  then have "\<forall>i\<in>set user_fds. p_file (proc s p) i \<noteq> None" by (auto simp: free_fd_def find_None_iff)
  moreover have "i \<in> set user_fds" using assms(1,2) by (simp add: user_fds_def USER_START_FD_def)
  ultimately show ?thesis using assms(3) by blast
qed

lemma free_descriptor_exists:
  assumes "j < GetMaxEntriesOfFDTable" "d_fcb (s_fd_table s j) = None"
  obtains d where "free_descriptor s = Some d"
  using assms by (cases "free_descriptor s") (auto simp: free_descriptor_def find_None_iff)

lemma free_descriptorD:
  assumes "free_descriptor s = Some d"
  shows "d < GetMaxEntriesOfFDTable" "d_fcb (s_fd_table s d) = None" "j < d \<Longrightarrow> d_fcb (s_fd_table s j) \<noteq> None"
  using assms by (auto simp: free_descriptor_def find_Some_iff)

text \<open>The tables of open files, as the caller of \<open>Open\<close> sees them.\<close>

lemma Open_run:
  assumes us: "user_space s T u (q # ps)" and str: "user_string s u off name" and D: "disk_ready io view sector cap s"
    and free: "free_fd p s = Some fd" "free_descriptor s = Some d"
  shows "\<exists>t. scratched q view s t \<and> user_space t T u (q # ps) \<and> disk_ready io view sector cap t
     \<and> Open io p (USER_VIRTUAL_ADDRESS_BASE + of_nat off) s
       = (case lookup_from name 0 (directory sector (s_BIOS_parameter_block s)) of
            None \<Rightarrow> ret (- ENOENT, t)
          | Some (k, e) \<Rightarrow> if unat (e_cluster_index e) < START_CLUSTER_INDEX then ret (- EAGAIN, t)
                          else ret (int fd, link_file p fd d k e t))"
proof -
  from FindFileInRootDir_ok [OF us str D, of zero_DirEntry] obtain t where t: "scratched q view s t"
    "user_space t T u (q # ps)" "disk_ready io view sector cap t"
    "FindFileInRootDir io (USER_VIRTUAL_ADDRESS_BASE + of_nat off) zero_DirEntry s
      = ret (case lookup_from name 0 (directory sector (s_BIOS_parameter_block s)) of
               None \<Rightarrow> (- ENOENT, zero_DirEntry) | Some (k, e) \<Rightarrow> (int k, e), t)" by blast
  then show ?thesis using free
    by (intro exI [of _ t]) (auto simp: Open_def ENOENT_def split: option.split)
qed

section \<open>Properties\<close>

text \<open>
  Property C22. \<open>FindFileInRootDir\<close> implements the search of the directory on the disk. For a name in
  the user page and a drive that meets its contract, it returns the index and the contents of the
  first entry that is in use, is no part of a long name and whose name, with the dot, is the given one
  up to case; if there is none it returns \<open>-ENOENT\<close> and leaves the entry of the caller alone. The page
  it takes is given back, and no other memory changes.
\<close>

theorem FindFileInRootDir_finds:
  assumes "user_space s T u (q # ps)" "user_string s u off name" "disk_ready io view sector cap s"
  defines "dir \<equiv> directory sector (s_BIOS_parameter_block s)"
  shows "\<exists>k e t. FindFileInRootDir io (USER_VIRTUAL_ADDRESS_BASE + of_nat off) entry s = ret ((k, e), t)
     \<and> (if \<exists>e\<in>set dir. matches name e
        then 0 \<le> k \<and> nat k < length dir \<and> e = dir ! nat k \<and> matches name e \<and> (\<forall>j<nat k. \<not> matches name (dir ! j))
        else k = - ENOENT \<and> e = entry)
     \<and> free_pages t (q # ps) \<and> (\<forall>x. x \<notin> page_span q \<longrightarrow> mem t x = mem s x)"
proof -
  from FindFileInRootDir_ok [OF assms(1-3), of entry] obtain t where
    t: "FindFileInRootDir io (USER_VIRTUAL_ADDRESS_BASE + of_nat off) entry s
        = ret (case lookup_from name 0 dir of None \<Rightarrow> (- ENOENT, entry) | Some (k, e) \<Rightarrow> (int k, e), t)"
      "scratched q view s t" "user_space t T u (q # ps)" unfolding dir_def by blast
  have "free_pages t (q # ps)" using t(3) by (auto simp: user_space_def dest: spaceD(2))
  moreover have "\<forall>x. x \<notin> page_span q \<longrightarrow> mem t x = mem s x" using scratched_other(6) [OF t(2)] by blast
  ultimately show ?thesis
  proof (cases "lookup_from name 0 dir")
    case None
    then have "\<forall>e\<in>set dir. \<not> matches name e" by (simp add: lookup_from_None)
    moreover have "FindFileInRootDir io (USER_VIRTUAL_ADDRESS_BASE + of_nat off) entry s = ret ((- ENOENT, entry), t)"
      using t(1) None by simp
    ultimately show ?thesis using \<open>free_pages t (q # ps)\<close> \<open>\<forall>x. x \<notin> page_span q \<longrightarrow> mem t x = mem s x\<close>
      by (intro exI [of _ "- ENOENT"] exI [of _ entry] exI [of _ t]) simp
  next
    case (Some r)
    then obtain k e where ke: "lookup_from name 0 dir = Some (k, e)" by (cases r) auto
    note l = lookup_from_Some [OF ke]
    then have "\<exists>e\<in>set dir. matches name e" by (metis add_0 diff_zero nth_mem)
    then show ?thesis using t(1) ke l \<open>free_pages t (q # ps)\<close> \<open>\<forall>x. x \<notin> page_span q \<longrightarrow> mem t x = mem s x\<close>
      by auto
  qed
qed

text \<open>
  Property C21. \<open>Open\<close> of a file that exists, in a process that has a file descriptor left, with an entry left in the
  descriptor table: the result is the lowest free file descriptor from 3 on, all below it being in use;
  it refers to the first unused entry of the descriptor table, at position 0, which refers to the control block
  of the file; the block holds the size and the first cluster from the directory if nobody had the file
  open, and what it held otherwise. Every other descriptor of every process still refers to what it
  referred to, and the open counts are again the numbers of users.
\<close>

theorem Open_opens_file:
  assumes "user_space s T u (q # ps)" "user_string s u off name" "disk_ready io view sector cap s"
    and "3 \<le> i" "i < PROCESS_MAXIMUM_FILE_DESCRIPTOR" "file_of s (p, i) = None"
    and "j < GetMaxEntriesOfFDTable" "d_fcb (s_fd_table s j) = None" "counts UNIV s" "p < MAXIMUM_NUMBER_OF_PROCESS"
    and "lookup_from name 0 (directory sector (s_BIOS_parameter_block s)) = Some (k, e)" "2 \<le> unat (e_cluster_index e)"
  shows "\<exists>fd d t. Open io p (USER_VIRTUAL_ADDRESS_BASE + of_nat off) s = ret (int fd, t) \<and> counts UNIV t
     \<and> 3 \<le> fd \<and> fd < PROCESS_MAXIMUM_FILE_DESCRIPTOR \<and> file_of s (p, fd) = None \<and> (\<forall>n. 3 \<le> n \<and> n < fd \<longrightarrow> file_of s (p, n) \<noteq> None)
     \<and> d < GetMaxEntriesOfFDTable \<and> d_fcb (s_fd_table s d) = None \<and> (\<forall>n<d. d_fcb (s_fd_table s n) \<noteq> None)
     \<and> file_of t (p, fd) = Some d \<and> d_fcb (s_fd_table t d) = Some k \<and> d_position (s_fd_table t d) = 0
     \<and> (f_open_count (s_fcb_table s k) = 0 \<longrightarrow>
          f_file_size (s_fcb_table t k) = e_file_size e \<and> f_start_cluster (s_fcb_table t k) = ucast (e_cluster_index e))
     \<and> (f_open_count (s_fcb_table s k) \<noteq> 0 \<longrightarrow>
          f_file_size (s_fcb_table t k) = f_file_size (s_fcb_table s k)
          \<and> f_start_cluster (s_fcb_table t k) = f_start_cluster (s_fcb_table s k))
     \<and> (\<forall>v. v \<noteq> (p, fd) \<longrightarrow> file_of t v = file_of s v)"
proof -
  have same: "file_of s (p, n) = p_file (proc s p) n" if "n < PROCESS_MAXIMUM_FILE_DESCRIPTOR" for n
    using that assms(10) by (simp add: file_of_def users_def)
  have "p_file (proc s p) i = None" using assms(6) same [OF assms(5)] by simp
  then obtain fd where fd: "free_fd p s = Some fd" using free_fd_exists [OF assms(4,5)] by blast
  obtain d where d: "free_descriptor s = Some d" by (rule free_descriptor_exists [OF assms(7,8)])
  note fdD = free_fdD [OF fd] and dD = free_descriptorD [OF d]
  from Open_run [OF assms(1-3) fd d] assms(11,12) obtain v where v: "scratched q view s v"
    "Open io p (USER_VIRTUAL_ADDRESS_BASE + of_nat off) s = ret (int fd, link_file p fd d k e v)"
    by (auto simp: START_CLUSTER_INDEX_def)
  note tabs = scratched_file_tables [OF v(1)]
  have "counts UNIV v" using tabs(5) assms(9) by blast
  from link_file_counts [OF this assms(10) fdD(2), of d] fdD(3) dD(2) tabs
  have "counts UNIV (link_file p fd d k e v)"
    "\<And>w. file_of (link_file p fd d k e v) w = (if w = (p, fd) then Some d else file_of s w)" by simp_all
  moreover have "file_of s (p, n) \<noteq> None" if "3 \<le> n" "n < fd" for n
    using that fdD(2) fdD(4) [of n] same [of n] by (simp add: user_fds_def USER_START_FD_def)
  ultimately show ?thesis using v(2) fdD(1-3) dD tabs(1) same [OF fdD(2)]
    by (intro exI [of _ fd] exI [of _ d] exI [of _ "link_file p fd d k e v"])
      (simp add: link_file_def Let_def set_file_def set_proc_def USER_START_FD_def)
qed

text \<open>
  The ways \<open>Open\<close> fails: \<open>-EMFILE\<close> when the process has no free descriptor, \<open>-ENOMEM\<close> when
  the descriptor table is full, \<open>-ENOENT\<close> when the directory has no such file, \<open>-EAGAIN\<close> when the file
  has no cluster yet. In each case the files of all processes and both tables are as before, and the
  scratch page is free again.
\<close>

theorem Open_fails:
  assumes "user_space s T u (q # ps)" "user_string s u off name" "disk_ready io view sector cap s"
  defines "found \<equiv> lookup_from name 0 (directory sector (s_BIOS_parameter_block s))"
  assumes "err = (if free_fd p s = None then - EMFILE else if free_descriptor s = None then - ENOMEM
     else case found of None \<Rightarrow> - ENOENT | Some (k, e) \<Rightarrow> if unat (e_cluster_index e) < 2 then - EAGAIN else 0)"
    and "err \<noteq> 0"
  shows "\<exists>t. Open io p (USER_VIRTUAL_ADDRESS_BASE + of_nat off) s = ret (err, t)
     \<and> s_fcb_table t = s_fcb_table s \<and> s_fd_table t = s_fd_table s \<and> s_process_manager t = s_process_manager s
     \<and> free_pages t (q # ps)"
proof (cases "free_fd p s = None \<or> free_descriptor s = None")
  case True
  moreover have "free_pages s (q # ps)" using assms(1) by (auto simp: user_space_def dest: spaceD(2))
  ultimately show ?thesis using assms(5) by (auto simp: Open_def split: option.split)
next
  case False
  then obtain fd d where f: "free_fd p s = Some fd" "free_descriptor s = Some d" by auto
  from Open_run [OF assms(1-3) f] obtain v where v: "scratched q view s v" "user_space v T u (q # ps)"
    "Open io p (USER_VIRTUAL_ADDRESS_BASE + of_nat off) s = (case found of None \<Rightarrow> ret (- ENOENT, v)
      | Some (k, e) \<Rightarrow> if unat (e_cluster_index e) < START_CLUSTER_INDEX then ret (- EAGAIN, v)
                       else ret (int fd, link_file p fd d k e v))" unfolding found_def by blast
  have "free_pages v (q # ps)" using v(2) by (auto simp: user_space_def dest: spaceD(2))
  moreover have "s_fcb_table v = s_fcb_table s" "s_fd_table v = s_fd_table s" "s_process_manager v = s_process_manager s"
    using v(1) by (auto simp: scratched_def)
  moreover have "Open io p (USER_VIRTUAL_ADDRESS_BASE + of_nat off) s = ret (err, v)"
    using v(3) assms(5,6) f by (auto simp: START_CLUSTER_INDEX_def split: option.splits if_splits)
  ultimately show ?thesis by blast
qed

end
