(* ===== verification/File_Read.thy ===== *)
theory File_Read
  imports Directory
begin

text \<open>
  What \<open>Read\<close> gives the user. The code reads the sectors of a run of clusters from the cluster of the
  position on, without following the FAT, into a page of the allocator, and copies the requested part.
  It reads as many clusters as the size needs by itself: a request that starts inside a cluster can
  need one more, and then the user gets what was in the page before.
\<close>

section \<open>One read\<close>

text \<open>The request: position, size, first cluster; \<open>read_first\<close> and \<open>read_count\<close> are the sectors read.\<close>

definition read_clusters :: "BPB \<Rightarrow> nat \<Rightarrow> nat" where
  "read_clusters b n = n div GetBytesPerCluster b + (if n mod GetBytesPerCluster b = 0 then 0 else 1)"

definition data_start :: "BPB \<Rightarrow> nat" where
  "data_start b = GetRootDirectoryStartSector b + unat (root_dir_entries b) * 32 div unat (bytes_per_sector b)"

definition cluster_sector :: "BPB \<Rightarrow> nat \<Rightarrow> nat" where
  "cluster_sector b c = data_start b + (c - 2) * GetSectorsPerCluster b"

text \<open>A request the code can handle: inside the drive, at most 256 sectors, a non-empty user buffer.\<close>

definition readable :: "BPB \<Rightarrow> nat \<Rightarrow> nat \<Rightarrow> nat \<Rightarrow> nat \<Rightarrow> bool" where
  "readable b cap c pos n \<longleftrightarrow>
     bytes_per_sector b = 512 \<and> 0 < GetSectorsPerCluster b \<and> GetSectorsPerCluster b \<le> 128
     \<and> 0 < n \<and> n < 2 ^ 31 \<and> 2 \<le> c \<and> c + pos div GetBytesPerCluster b < 2 ^ 16
     \<and> read_clusters b n * GetSectorsPerCluster b \<le> 256
     \<and> cluster_sector b (c + pos div GetBytesPerCluster b) + read_clusters b n * GetSectorsPerCluster b \<le> cap"

lemma readableD:
  assumes "readable b cap c pos n"
  shows "GetBytesPerCluster b = 512 * GetSectorsPerCluster b" "0 < GetBytesPerCluster b" "GetBytesPerCluster b \<le> 2 ^ 16"
    "0 < read_clusters b n" "n \<le> read_clusters b n * GetBytesPerCluster b" "read_clusters b n \<le> 256" "n \<le> 2 ^ 17"
proof -
  have r: "bytes_per_sector b = 512" "0 < GetSectorsPerCluster b" "GetSectorsPerCluster b \<le> 128" "0 < n"
    "read_clusters b n * GetSectorsPerCluster b \<le> 256" using assms by (auto simp: readable_def)
  show c: "GetBytesPerCluster b = 512 * GetSectorsPerCluster b"
    using r(1) by (simp add: GetBytesPerCluster_def GetBytesPerSector_def)
  then show pos: "0 < GetBytesPerCluster b" "GetBytesPerCluster b \<le> 2 ^ 16" using r(2,3) by simp_all
  let ?c = "GetBytesPerCluster b"
  have split: "n = n div ?c * ?c + n mod ?c" by simp
  have "n mod ?c < ?c" using pos(1) by simp
  show le: "n \<le> read_clusters b n * ?c"
  proof (cases "n mod ?c = 0")
    case True
    then show ?thesis using split by (simp add: read_clusters_def)
  next
    case False
    have "n \<le> n div ?c * ?c + ?c" using split \<open>n mod ?c < ?c\<close> by linarith
    then show ?thesis using False by (simp add: read_clusters_def add_mult_distrib)
  qed
  then show "0 < read_clusters b n" using r(4) by (cases "read_clusters b n") simp_all
  have "read_clusters b n * 1 \<le> read_clusters b n * GetSectorsPerCluster b" using r(2) by (intro mult_le_mono2) simp
  then show "read_clusters b n \<le> 256" using r(5) by (metis mult.right_neutral order_trans)
  have "read_clusters b n * ?c = 512 * (read_clusters b n * GetSectorsPerCluster b)" unfolding c by simp
  also have "\<dots> \<le> 512 * 256" using r(5) by (rule mult_le_mono2)
  finally show "n \<le> 2 ^ 17" using le by simp
qed

lemma clusters_needed:
  assumes "readable b cap c pos n"
  shows "GetNumberOfClustersStoringFileData b (of_nat n) = ret (int (read_clusters b n))"
proof -
  have n: "sint (of_nat n :: u32) = int n"
    using assms by (simp add: readable_def signed_of_nat signed_take_bit_int_eq_self)
  have "sgn (int n) * (\<bar>int n\<bar> div int k) = int (n div k)" for k
    using assms by (cases n) (simp_all add: readable_def zdiv_int)
  moreover have "\<bar>int n\<bar> mod int k \<noteq> 0 \<longleftrightarrow> n mod k \<noteq> 0" for k by (simp flip: zmod_int)
  ultimately show ?thesis using readableD(2) [OF assms]
    by (simp add: GetNumberOfClustersStoringFileData_def Let_def n read_clusters_def)
qed

text \<open>The bytes the user gets: from the disk as far as the sectors reach, then from the scratch page.\<close>

definition read_result :: "(nat \<Rightarrow> u16 list) \<Rightarrow> BPB \<Rightarrow> nat \<Rightarrow> nat \<Rightarrow> nat \<Rightarrow> memory \<Rightarrow> u64 \<Rightarrow> nat \<Rightarrow> u8" where
  "read_result sector b c pos n m q i =
     (let j = pos mod GetBytesPerCluster b + i;
          bs = disk_bytes sector (cluster_sector b (c + pos div GetBytesPerCluster b))
                 (read_clusters b n * GetSectorsPerCluster b)
      in if j < length bs then bs ! j else m (q + of_nat j))"

lemma memcpy_loop_blit:
  assumes "n < 2 ^ 64" "span d n \<inter> span a n = {}" shows "memcpy_loop m d a n = blit m d a n"
proof -
  have "unat (of_nat n :: u64) = n" using assms(1) by (simp add: unat_of_nat)
  then show ?thesis using memcpy_eq_blit [of d "of_nat n" a m] assms(2) by (simp add: memcpy_def)
qed

lemma ReadRawData_ok:
  fixes s :: "('d, 'z) io_kernel_scheme"
  assumes us: "user_space s T u (q # ps)" and D: "disk_ready io view sector cap s"
    and r: "readable (s_BIOS_parameter_block s) cap (unat c) (unat pos) n" and off: "off + n \<le> 2 ^ 21"
  shows "\<exists>t m d. ReadRawData io c (USER_VIRTUAL_ADDRESS_BASE + of_nat off) pos (of_nat n) s = ret (of_nat n, t)
     \<and> t = put_io m d s \<and> a_words (view d) = [] \<and> user_space t T u (q # ps)
     \<and> (\<forall>i<n. m (u + of_nat off + of_nat i) = read_result sector (s_BIOS_parameter_block s) (unat c) (unat pos) n (mem s) q i)
     \<and> (\<forall>x. x \<notin> page_span q \<longrightarrow> x \<notin> span (u + of_nat off) n \<longrightarrow> m x = mem s x)"
proof -
  let ?b = "s_BIOS_parameter_block s" let ?s1 = "s\<lparr>s_free_memory_page_head := load64 (mem s) q\<rparr>"
  let ?spc = "GetSectorsPerCluster ?b" let ?C = "GetBytesPerCluster ?b"
  let ?k = "read_clusters ?b n * ?spc" let ?cl = "unat c + unat pos div ?C" let ?L = "cluster_sector ?b ?cl"
  let ?bs = "disk_bytes sector ?L ?k" let ?sp = "unat pos mod ?C"
  note rd = readableD [OF r]
  have r1: "bytes_per_sector ?b = 512" "2 \<le> unat c" "?cl < 2 ^ 16" "?k \<le> 256" "?L + ?k \<le> cap" "n < 2 ^ 31" "0 < n" "0 < ?spc" "?spc \<le> 128"
    using r by (auto simp: readable_def)
  have ata: "ata_drive io view sector cap" "a_words (view (dev s)) = []" using D by (auto simp: disk_ready_def)
  note k = take_scratch_page [OF us]
  have kpos: "0 < ?k" using rd(4) r1(8) by simp
  have "?sp < ?C" using rd(2) by simp
  with rd(3,7) have sp: "?sp < 2 ^ 16" "?sp + n \<le> 2 ^ 21" by simp_all
  have data: "GetDataRegionStartSector ?b = ret (data_start ?b)"
    using r1(1) by (simp add: GetDataRegionStartSector_def GetRootDirectorySectorSize_def data_start_def)
  from DiskReadSectors_ok [OF ata(1), of ?s1 ?k ?L q] ata(2) kpos r1(4,5) obtain d where
    d: "DiskReadSectors io (of_nat ?L) (of_nat ?k) q ?s1 = ret (0, put_io (write_bytes (mem s) q ?bs) d ?s1)" "a_words (view d) = []"
    by auto
  let ?s2 = "put_io (write_bytes (mem s) q ?bs) d ?s1"
  have "?k mod 2 ^ 16 = ?k" "?L = (?cl - START_CLUSTER_INDEX) * ?spc + data_start ?b"
    using r1(4) by (simp_all add: cluster_sector_def START_CLUSTER_INDEX_def)
  then have sectors: "ReadFileData io ?cl (read_clusters ?b n) q ?s1 = ret ?s2"
    using d(1) data r1(2) by (simp add: ReadFileData_def Let_def START_CLUSTER_INDEX_def)
  have len: "length ?bs = 512 * ?k" using length_disk_bytes [of ?L ?k sector] ata_driveD(1) [OF ata(1)] r1(5) by simp
  then have sub: "x \<in> span q (length ?bs) \<Longrightarrow> x \<in> page_span q" for x using r1(4) by (auto simp: page_span_def mem_span)
  have m2: "write_bytes (mem s) q ?bs x = (if x \<in> span q (length ?bs) then ?bs ! unat (x - q) else mem s x)" for x
    using len r1(4) by (intro write_bytes_apply) (simp add: mult.commute)
  have "scratched q view ?s1 ?s2" unfolding scratched_def
    by (intro exI [of _ "write_bytes (mem s) q ?bs"] exI [of _ d]) (use sub m2 d(2) in auto)
  note f = scratched_user_space [OF k(2,3) this]
  have q: "valid_page (l_kernel_end s) q" "KERNEL_VIRTUAL_ADDRESS_BASE \<le> l_kernel_end s"
    using k(3) us by (auto simp: scratch_page_def user_space_def)
  then have qa: "aligned 21 q" "KERNEL_VIRTUAL_ADDRESS_BASE \<le> q" by (auto simp: valid_page_def)
  obtain z where z: "unat q = 2 ^ 21 * z" using qa(1) by (auto simp: aligned_def)
  have "unat q < 2 ^ 21 * 2 ^ 43" using unat_lt2p [of q] by simp
  then have "z + 1 \<le> 2 ^ 43" using z by simp
  then have qtop: "unat q + 2 ^ 21 \<le> 2 ^ 64" using z by simp
  have qs: "unat (q + of_nat ?sp) = unat q + ?sp"
    using qtop sp(1) by (subst unat_plus_le) (simp_all add: unat_of_nat)
  then have src: "KERNEL_VIRTUAL_ADDRESS_BASE \<le> q + of_nat ?sp" "unat (q + of_nat ?sp) + n < 2 ^ 64"
    using qa(2) qtop sp rd(7) by (simp_all add: word_le_nat_alt)
  have copy: "vcopy n (USER_VIRTUAL_ADDRESS_BASE + of_nat off) (q + of_nat ?sp) ?s2
      = ret (?s2\<lparr>mem := memcpy_loop (write_bytes (mem s) q ?bs) (u + of_nat off) (q + of_nat ?sp) n\<rparr>)"
    using vcopy_user [OF f(1) off src] by simp
  have dst: "span (u + of_nat off) n \<subseteq> page_span u" "span (q + of_nat ?sp) n \<subseteq> page_span q"
    using off sp(2) unfolding page_span_def by (intro span_subset; simp)+
  have dj: "page_span u \<inter> page_span q = {}"
    using us k(3) by (intro valid_pages_disjoint [of "l_kernel_end s"]) (auto simp: user_space_def scratch_page_def)
  let ?m2 = "write_bytes (mem s) q ?bs"
  let ?m3 = "memcpy_loop ?m2 (u + of_nat off) (q + of_nat ?sp) n" let ?s3 = "?s2\<lparr>mem := ?m3\<rparr>"
  have m3: "?m3 = blit ?m2 (u + of_nat off) (q + of_nat ?sp) n"
    using dst dj r1(6) by (intro memcpy_loop_blit) auto
  have us3: "user_space ?s3 T u ps" using dst(1) by (intro user_space_write [OF f(1)]) (auto simp: m3 blit_apply)
  have spq: "space ?s3 (PHY_TO_VIR (cr3 s)) T ps" "q \<notin> set ps" "q \<notin> tables (PHY_TO_VIR (cr3 s)) T" "valid_page (l_kernel_end ?s3) q"
    using us3 k(3) q(1) by (auto simp: user_space_def scratch_page_def)
  let ?v = "?s3\<lparr>mem := store64 (mem ?s3) q (s_free_memory_page_head ?s3), s_free_memory_page_head := q\<rparr>"
  have free: "kfree q ?s3 = ret ?v" using kfree_ok(1) [OF spaceD(2) [OF spq(1)] spq(4,2)] .
  from space_kfree [OF spq(1,4,2,3)] free have "space ?v (PHY_TO_VIR (cr3 s)) T (q # ps)" by auto
  then have usv: "user_space ?v T u (q # ps)" using us3 k(3) by (auto simp: user_space_def scratch_page_def)
  let ?m = "store64 ?m3 q (s_free_memory_page_head ?s3)"
  have v: "?v = put_io ?m d s" using k(4) by (cases s) (simp add: put_io_def)
  have low: "x \<in> span q 8 \<Longrightarrow> x \<in> page_span q" for x by (auto simp: page_span_def mem_span)
  have "?m (u + of_nat off + of_nat i) = read_result sector ?b (unat c) (unat pos) n (mem s) q i" if i: "i < n" for i
  proof -
    have in_u: "u + of_nat off + of_nat i \<in> span (u + of_nat off) n" using i r1(6) by simp
    then have "?m (u + of_nat off + of_nat i) = ?m2 (q + of_nat ?sp + of_nat i)"
      using dst(1) dj low by (subst store64_other) (auto simp: m3 blit_apply)
    also have "\<dots> = write_bytes (mem s) q ?bs (q + of_nat (?sp + i))" by (simp add: ac_simps)
    also have "\<dots> = read_result sector ?b (unat c) (unat pos) n (mem s) q i"
      using i sp(2) by (simp add: m2 read_result_def Let_def mem_span unat_of_nat del: of_nat_add)
    finally show ?thesis .
  qed
  moreover have "?m x = mem s x" if "x \<notin> page_span q" "x \<notin> span (u + of_nat off) n" for x
    using that low sub by (subst store64_other) (auto simp: m3 blit_apply m2)
  moreover have "ReadRawData io c (USER_VIRTUAL_ADDRESS_BASE + of_nat off) pos (of_nat n) s = ret (of_nat n, ?v)"
  proof -
    have "nat (int (read_clusters ?b n) mod 2 ^ 16) = read_clusters ?b n" using rd(6) by simp
    moreover have "?cl mod 2 ^ 16 = ?cl" "?sp mod 2 ^ 16 = ?sp" using r1(3) sp(1) by simp_all
    moreover have "unat (of_nat n :: u32) = n" using r1(6) by (simp add: unat_of_nat)
    ultimately show ?thesis
      unfolding ReadRawData_def Let_def clusters_needed [OF r] k(1) andthen_simps prod.case
      using k(5) sectors copy free by simp
  qed
  ultimately show ?thesis using usv d(2) unfolding v by blast
qed

section \<open>Read\<close>

lemma Read_run:
  fixes s :: "('d, 'z) io_kernel_scheme"
  assumes us: "user_space s T u (q # ps)" and D: "disk_ready io view sector cap s"
    and fd: "0 \<le> fd" "fd < int PROCESS_MAXIMUM_FILE_DESCRIPTOR" "p_file (proc s p) (nat fd) = Some d" "d_fcb (s_fd_table s d) = Some f"
    and n: "n = min (unat sz) (unat (f_file_size (s_fcb_table s f)) - unat pos)" "pos = d_position (s_fd_table s d)"
      "unat pos + unat sz < 2 ^ 32"
    and r: "readable (s_BIOS_parameter_block s) cap (unat (f_start_cluster (s_fcb_table s f))) (unat pos) n" and off: "off + n \<le> 2 ^ 21"
  shows "\<exists>t. Read io p fd (USER_VIRTUAL_ADDRESS_BASE + of_nat off) sz s = ret (int n, t)
     \<and> (\<forall>i<n. mem t (u + of_nat off + of_nat i)
          = read_result sector (s_BIOS_parameter_block s) (unat (f_start_cluster (s_fcb_table s f))) (unat pos) n (mem s) q i)
     \<and> (\<forall>x. x \<notin> page_span q \<longrightarrow> x \<notin> span (u + of_nat off) n \<longrightarrow> mem t x = mem s x)
     \<and> s_fd_table t = (s_fd_table s)(d := (s_fd_table s d)\<lparr>d_position := pos + of_nat n\<rparr>) \<and> user_space t T u (q # ps)
     \<and> s_fcb_table t = s_fcb_table s \<and> s_process_manager t = s_process_manager s"
proof -
  let ?fs = "f_file_size (s_fcb_table s f)"
  have nn: "0 < n" "n < 2 ^ 31" using r by (auto simp: readable_def)
  then have lt: "unat pos < unat ?fs" using n(1) by simp
  have sum: "unat (pos + sz) = unat pos + unat sz" using n(3) by (subst unat_plus_le) simp_all
  have diff: "unat (?fs - pos) = unat ?fs - unat pos" using lt by (simp add: unat_sub word_le_nat_alt)
  have "unat (of_nat n :: u32) = n" using nn(2) by (simp add: unat_of_nat)
  then have "unat (if pos + sz > ?fs then ?fs - pos else sz) = unat (of_nat n :: u32)"
    using n(1) lt by (simp add: word_less_nat_alt sum diff)
  then have sz1: "(if pos + sz > ?fs then ?fs - pos else sz) = of_nat n" by (simp only: word_unat_eq_iff)
  obtain t m e where t: "ReadRawData io (f_start_cluster (s_fcb_table s f)) (USER_VIRTUAL_ADDRESS_BASE + of_nat off) pos (of_nat n) s = ret (of_nat n, t)"
    "t = put_io m e s" "user_space t T u (q # ps)"
    "\<forall>i<n. m (u + of_nat off + of_nat i)
        = read_result sector (s_BIOS_parameter_block s) (unat (f_start_cluster (s_fcb_table s f))) (unat pos) n (mem s) q i"
    "\<forall>x. x \<notin> page_span q \<longrightarrow> x \<notin> span (u + of_nat off) n \<longrightarrow> m x = mem s x"
    using ReadRawData_ok [OF us D r off] by blast
  have si: "sint (of_nat n :: u32) = int n" using nn(2) by (simp add: signed_of_nat signed_take_bit_int_eq_self)
  have at: "file_at p fd s = ret (Some d)" using fd by (simp add: file_at_def)
  let ?t = "t\<lparr>s_fd_table := (s_fd_table t)(d := (s_fd_table t d)\<lparr>d_position := pos + of_nat n\<rparr>)\<rparr>"
  have "d_position (s_fd_table t d) = pos" using n(2) by (simp add: t(2))
  then have "Read io p fd (USER_VIRTUAL_ADDRESS_BASE + of_nat off) sz s = ret (int n, ?t)"
    unfolding Read_def Let_def at andthen_simps option.case fd(4) deref_simps n(2) [symmetric] sz1 t(1) prod.case si by simp
  moreover have "user_space ?t T u (q # ps)" by (rule user_space_cong [OF t(3)]) simp_all
  moreover have "mem ?t = m" "s_fcb_table ?t = s_fcb_table s" "s_process_manager ?t = s_process_manager s"
    "s_fd_table ?t = (s_fd_table s)(d := (s_fd_table s d)\<lparr>d_position := pos + of_nat n\<rparr>)" by (simp_all add: t(2))
  ultimately show ?thesis using t(4,5) by (intro exI [of _ ?t]) simp
qed

text \<open>The bytes of a file that is stored in one run of clusters.\<close>

definition file_bytes :: "(nat \<Rightarrow> u16 list) \<Rightarrow> BPB \<Rightarrow> nat \<Rightarrow> nat \<Rightarrow> u8 list" where
  "file_bytes sector b c n = disk_bytes sector (cluster_sector b c) (n * GetSectorsPerCluster b)"

lemma disk_bytes_append: "disk_bytes sector k (a + b) = disk_bytes sector k a @ disk_bytes sector (k + a) b"
proof -
  have "[k..<k + (a + b)] = [k..<k + a] @ [k + a..<k + a + b]" using upt_add_eq_append [of k "k + a" b] by (simp add: add.assoc)
  then show ?thesis by (simp add: disk_bytes_def)
qed

lemma read_result_file:
  assumes D: "ata_drive io view sector cap" and r: "readable b cap c pos n"
    and i: "pos mod GetBytesPerCluster b + i < read_clusters b n * GetBytesPerCluster b"
  shows "read_result sector b c pos n m q i = file_bytes sector b c (pos div GetBytesPerCluster b + read_clusters b n) ! (pos + i)"
proof -
  let ?spc = "GetSectorsPerCluster b" let ?C = "GetBytesPerCluster b" let ?x = "pos div ?C" let ?r = "read_clusters b n"
  let ?L = "cluster_sector b c"
  note rd = readableD [OF r]
  have r1: "2 \<le> c" "cluster_sector b (c + ?x) + ?r * ?spc \<le> cap" using r by (auto simp: readable_def)
  have L: "cluster_sector b (c + ?x) = ?L + ?x * ?spc"
  proof -
    obtain k where "c = 2 + k" using r1(1) le_Suc_ex by blast
    then show ?thesis by (simp add: cluster_sector_def add_mult_distrib)
  qed
  have len: "length (disk_bytes sector k j) = 512 * j" if "k + j \<le> cap" for k j
    using ata_driveD(1) [OF D] that by (intro length_disk_bytes) simp
  have len1: "length (disk_bytes sector ?L (?x * ?spc)) = ?x * ?C" "length (disk_bytes sector (?L + ?x * ?spc) (?r * ?spc)) = ?r * ?C"
  proof -
    have C: "x * ?C = 512 * (x * ?spc)" for x using rd(1) by simp
    have "?L + ?x * ?spc + ?r * ?spc \<le> cap" using r1(2) L by simp
    then show "length (disk_bytes sector ?L (?x * ?spc)) = ?x * ?C"
      "length (disk_bytes sector (?L + ?x * ?spc) (?r * ?spc)) = ?r * ?C" unfolding C by (intro len; linarith)+
  qed
  have fb: "file_bytes sector b c (?x + ?r) = disk_bytes sector ?L (?x * ?spc) @ disk_bytes sector (?L + ?x * ?spc) (?r * ?spc)"
    by (simp add: file_bytes_def add_mult_distrib disk_bytes_append)
  have pos: "pos + i = ?x * ?C + (pos mod ?C + i)" by simp
  have "file_bytes sector b c (?x + ?r) ! (pos + i) = disk_bytes sector (?L + ?x * ?spc) (?r * ?spc) ! (pos mod ?C + i)"
    using nth_append_length_plus [of "disk_bytes sector ?L (?x * ?spc)"] unfolding fb len1 by (metis pos)
  then show ?thesis using i unfolding read_result_def Let_def L len1 by simp
qed

section \<open>Properties\<close>

text \<open>
  Property C23. \<open>Read\<close> gives the user the file. For an open file in consecutive clusters, a request
  whose clusters cover it and a buffer in the user page, it returns the number of bytes that are left
  of the file, at most the size asked for; the buffer then holds these bytes of the file from the
  position on, the position has moved behind them, nothing else in memory has changed except the
  scratch page, and that page is free again.
\<close>

theorem Read_gives_file:
  assumes "user_space s T u (q # ps)" "disk_ready io view sector cap s"
    and "0 \<le> fd" "fd < int PROCESS_MAXIMUM_FILE_DESCRIPTOR" "p_file (proc s p) (nat fd) = Some d" "d_fcb (s_fd_table s d) = Some f"
    and "n = min (unat sz) (unat (f_file_size (s_fcb_table s f)) - unat pos)" "pos = d_position (s_fd_table s d)"
      "unat pos + unat sz < 2 ^ 32"
    and "readable (s_BIOS_parameter_block s) cap (unat (f_start_cluster (s_fcb_table s f))) (unat pos) n" "off + n \<le> 2 ^ 21"
  defines "b \<equiv> s_BIOS_parameter_block s"
  assumes "unat pos mod GetBytesPerCluster b + n \<le> read_clusters b n * GetBytesPerCluster b"
  shows "\<exists>t. Read io p fd (USER_VIRTUAL_ADDRESS_BASE + of_nat off) sz s = ret (int n, t)
     \<and> (\<forall>i<n. mem t (u + of_nat off + of_nat i)
          = file_bytes sector b (unat (f_start_cluster (s_fcb_table s f))) (unat pos div GetBytesPerCluster b + read_clusters b n) ! (unat pos + i))
     \<and> d_position (s_fd_table t d) = pos + of_nat n
     \<and> (\<forall>x. x \<notin> page_span q \<longrightarrow> x \<notin> span (u + of_nat off) n \<longrightarrow> mem t x = mem s x) \<and> free_pages t (q # ps)"
proof -
  have "ata_drive io view sector cap" using assms(2) by (simp add: disk_ready_def)
  note res = read_result_file [OF this assms(10)]
  from Read_run [OF assms(1-11)] obtain t where t: "Read io p fd (USER_VIRTUAL_ADDRESS_BASE + of_nat off) sz s = ret (int n, t)"
    "\<forall>i<n. mem t (u + of_nat off + of_nat i) = read_result sector b (unat (f_start_cluster (s_fcb_table s f))) (unat pos) n (mem s) q i"
    "\<forall>x. x \<notin> page_span q \<longrightarrow> x \<notin> span (u + of_nat off) n \<longrightarrow> mem t x = mem s x"
    "s_fd_table t = (s_fd_table s)(d := (s_fd_table s d)\<lparr>d_position := pos + of_nat n\<rparr>)" "user_space t T u (q # ps)"
    unfolding b_def by blast
  have "free_pages t (q # ps)" using t(5) by (auto simp: user_space_def dest: spaceD(2))
  then show ?thesis using t(1-4) res assms(13) unfolding b_def by (intro exI [of _ t]) simp
qed

text \<open>
  Property C24. \<open>Read\<close> can give the user memory of the kernel instead of the file: when a request starts
  inside a cluster and reaches behind the clusters its size needs by itself, the bytes behind them are
  what the scratch page held before, in its part that the disk did not overwrite.
\<close>

theorem Read_leaks_page:
  assumes "user_space s T u (q # ps)" "disk_ready io view sector cap s"
    and "0 \<le> fd" "fd < int PROCESS_MAXIMUM_FILE_DESCRIPTOR" "p_file (proc s p) (nat fd) = Some d" "d_fcb (s_fd_table s d) = Some f"
    and "n = min (unat sz) (unat (f_file_size (s_fcb_table s f)) - unat pos)" "pos = d_position (s_fd_table s d)"
      "unat pos + unat sz < 2 ^ 32"
    and "readable (s_BIOS_parameter_block s) cap (unat (f_start_cluster (s_fcb_table s f))) (unat pos) n" "off + n \<le> 2 ^ 21"
    and "i < n" "read_clusters (s_BIOS_parameter_block s) n * GetBytesPerCluster (s_BIOS_parameter_block s)
                 \<le> unat pos mod GetBytesPerCluster (s_BIOS_parameter_block s) + i"
  shows "\<exists>t. Read io p fd (USER_VIRTUAL_ADDRESS_BASE + of_nat off) sz s = ret (int n, t)
     \<and> mem t (u + of_nat (off + i)) = mem s (q + of_nat (unat pos mod GetBytesPerCluster (s_BIOS_parameter_block s) + i))"
proof -
  let ?b = "s_BIOS_parameter_block s" and ?c = "unat (f_start_cluster (s_fcb_table s f))"
  have ata: "ata_drive io view sector cap" using assms(2) by (simp add: disk_ready_def)
  have cap: "cluster_sector ?b (?c + unat pos div GetBytesPerCluster ?b) + read_clusters ?b n * GetSectorsPerCluster ?b \<le> cap"
    using assms(10) by (simp add: readable_def)
  have len: "length (disk_bytes sector (cluster_sector ?b (?c + unat pos div GetBytesPerCluster ?b)) (read_clusters ?b n * GetSectorsPerCluster ?b))
      = read_clusters ?b n * GetBytesPerCluster ?b"
    using ata_driveD(1) [OF ata] cap unfolding readableD(1) [OF assms(10)] by (subst length_disk_bytes) simp_all
  have "read_result sector ?b ?c (unat pos) n (mem s) q i = mem s (q + of_nat (unat pos mod GetBytesPerCluster ?b + i))"
    using assms(13) unfolding read_result_def Let_def len by simp
  moreover have "u + of_nat (off + i) = u + of_nat off + of_nat i" by (simp add: add.assoc)
  ultimately show ?thesis using Read_run [OF assms(1-11)] assms(12) by (metis (no_types, lifting))
qed

end
