(* ===== verification/Exec.thy ===== *)
theory Exec
  imports File_Read
begin

text \<open>
  \<open>Exec\<close> of \<open>kernel/process.c\<close>: replace the program of the current process by a file. It clears the
  user page, reads the file to the start of it and sets the trap frame to the start of a program, so
  that the return from the system call enters the new program. When the file cannot be opened or read
  it calls \<open>Exit\<close>, which does not come back: the result is then \<open>None\<close>, in the state in which another
  process goes on.
\<close>

section \<open>Exec\<close>

definition Exec :: "'d ports \<Rightarrow> nat \<Rightarrow> u64 \<Rightarrow> ('d, 'z) io_kernel_scheme \<Rightarrow> (int option \<times> ('d, 'z) io_kernel_scheme) kres" where
  "Exec io p filename s =
     andthen (Open io p filename s) (\<lambda>(fd, s1).
     if fd < 0 then
       andthen (print (kline ''DEBUG: Cannot open file.'') [] s1) (\<lambda>s2.
       andthen (Exit s2) (\<lambda>s3. ret (None, s3)))
     else
       andthen (vset (unat PAGE_SIZE) USER_VIRTUAL_ADDRESS_BASE 0 s1) (\<lambda>s2.
       andthen (GetFileSize p fd s2) (\<lambda>program_size.
       andthen (Read io p fd USER_VIRTUAL_ADDRESS_BASE (of_int program_size) s2) (\<lambda>(program_size, s3).
       if program_size < 0 then andthen (Exit s3) (\<lambda>s4. ret (None, s4))
       else
         andthen (Close p fd s3) (\<lambda>s4.
         let tf = p_tf (proc s4 p)
         in ret (Some 0, set_start_frame tf (s4\<lparr>mem := memset (mem s4) tf 0 sizeof_TrapFrame\<rparr>)))))))"

section \<open>The trap frame of the new program\<close>

lemma start_frame_mem:
  "mem (set_start_frame tf (s\<lparr>mem := m\<rparr>)) =
     store64 (store64 (store64 (store64 (store64 m (tf + of_nat 144) 0x13) (tf + of_nat 136) USER_VIRTUAL_ADDRESS_BASE)
       (tf + of_nat 168) 0x1B) (tf + of_nat 160) USER_STACK_START) (tf + of_nat 152) 0x202"
  by (simp add: set_start_frame_def put64_def tf_cs_def tf_rip_def tf_ss_def tf_rsp_def tf_rflags_def)

lemma start_frame:
  fixes m :: memory
  assumes m: "mem t = mem (set_start_frame tf (s\<lparr>mem := memset m tf 0 sizeof_TrapFrame\<rparr>))"
  shows "frame_reg (mem t) tf = start_regs" "x \<notin> span tf 176 \<Longrightarrow> mem t x = m x"
proof -
  let ?z = "memset m tf 0 sizeof_TrapFrame"
  have z: "?z = fill m tf 0 176" by (subst memset_eq_fill) (simp_all add: sizeof_TrapFrame_def)
  have "load64 ?z (tf + of_nat (frame_offset r)) = 0" for r
    unfolding z using frame_offset_facts(2) [of r] by (intro load64_fill_zero span_subset) simp_all
  moreover have "frame_offset r mod 8 = 0" "frame_offset r < 2 ^ 60" for r
    using frame_offset_facts(1,2) [of r] by simp_all
  ultimately have "frame_reg (mem t) tf r = (if frame_offset r = 152 then 0x202 else if frame_offset r = 160 then USER_STACK_START
      else if frame_offset r = 168 then 0x1B else if frame_offset r = 136 then USER_VIRTUAL_ADDRESS_BASE
      else if frame_offset r = 144 then 0x13 else 0)" for r
    unfolding frame_reg_def m start_frame_mem by (simp add: load_store_offset del: of_nat_numeral)
  then show "frame_reg (mem t) tf = start_regs"
    by (intro ext) (simp add: start_regs_def frame_offset_def split: reg.split)
  show "mem t x = m x" if x: "x \<notin> span tf 176"
  proof -
    have "x \<notin> span (tf + of_nat k) 8" if "k + 8 \<le> 176" for k using x span_subset [of k 8 176 tf] that by auto
    then show ?thesis using x unfolding m start_frame_mem by (simp add: store64_other z fill_apply del: of_nat_numeral)
  qed
qed

lemma set_start_frame_other [simp]:
  "proc (set_start_frame tf s) i = proc s i" "s_fd_table (set_start_frame tf s) = s_fd_table s"
  "s_fcb_table (set_start_frame tf s) = s_fcb_table s" "cr3 (set_start_frame tf s) = cr3 s"
  "s_free_memory_page_head (set_start_frame tf s) = s_free_memory_page_head s" "l_kernel_end (set_start_frame tf s) = l_kernel_end s"
  "current_proc (set_start_frame tf s) = current_proc s" "proc_lists (set_start_frame tf s) = proc_lists s"
  "s_pid_num (set_start_frame tf s) = s_pid_num s"
  by (simp_all add: set_start_frame_def put64_def)

text \<open>\<open>Close\<close> changes the tables and one file descriptor only.\<close>

lemma Close_frame:
  "Close p fd s = ret t \<Longrightarrow> mem t = mem s \<and> cr3 t = cr3 s \<and> l_kernel_end t = l_kernel_end s
     \<and> s_free_memory_page_head t = s_free_memory_page_head s
     \<and> p_tf (proc t i) = p_tf (proc s i) \<and> p_state (proc t i) = p_state (proc s i) \<and> p_pid (proc t i) = p_pid (proc s i)
     \<and> p_wait_id (proc t i) = p_wait_id (proc s i) \<and> p_page_map (proc t i) = p_page_map (proc s i) \<and> p_stack (proc t i) = p_stack (proc s i)
     \<and> current_proc t = current_proc s \<and> proc_lists t = proc_lists s \<and> s_pid_num t = s_pid_num s"
  by (auto simp: Close_def file_at_def add_opens_def unlink_unused_def set_file_def set_proc_def split: option.splits if_splits)

section \<open>Property\<close>

text \<open>
  Property C20. \<open>Exec\<close> starts the program in the file: for a file that nobody has open, of at most one
  page in consecutive clusters, it returns 0, the user page holds the file and zeros behind it, and the
  trap frame of the process is that of a program that starts, so that the return from the system call
  enters ring 3 at the beginning of the file with an empty stack. The descriptor it opened is closed
  again, the open counts are right, and the scratch page is free.
\<close>

theorem Exec_starts_program:
  fixes s :: "('d, 'z) io_kernel_scheme"
  assumes us: "user_space s T u (q # ps)" and str: "user_string s u off name" and D: "disk_ready io view sector cap s"
    and free: "free_fd p s = Some fd" "free_descriptor s = Some d" and c: "counts UNIV s" and p: "p < MAXIMUM_NUMBER_OF_PROCESS"
    and found: "lookup_from name 0 (directory sector (s_BIOS_parameter_block s)) = Some (k, e)"
    and closed: "f_open_count (s_fcb_table s k) = 0"
  defines "n \<equiv> unat (e_file_size e)" and "b \<equiv> s_BIOS_parameter_block s" and "tf \<equiv> p_tf (proc s p)"
  assumes r: "readable b cap (unat (e_cluster_index e)) 0 n" and n: "n \<le> 2 ^ 21"
    and dj: "\<forall>y\<in>set (u # q # ps). span tf 176 \<inter> page_span y = {}"
  shows "\<exists>t. Exec io p (USER_VIRTUAL_ADDRESS_BASE + of_nat off) s = ret (Some 0, t)
     \<and> (\<forall>i<2 ^ 21. mem t (u + of_nat i)
          = (if i < n then file_bytes sector b (unat (e_cluster_index e)) (read_clusters b n) ! i else 0))
     \<and> frame_reg (mem t) tf = start_regs \<and> counts UNIV t \<and> (\<forall>v. file_of t v = file_of s v) \<and> free_pages t (q # ps)"
proof -
  have cl: "\<not> unat (e_cluster_index e) < START_CLUSTER_INDEX" using r by (simp add: readable_def START_CLUSTER_INDEX_def)
  from Open_run [OF us str D free] found cl obtain v where v: "scratched q view s v" "user_space v T u (q # ps)"
    "disk_ready io view sector cap v" "Open io p (USER_VIRTUAL_ADDRESS_BASE + of_nat off) s = ret (int fd, link_file p fd d k e v)"
    by auto
  let ?s1 = "link_file p fd d k e v"
  note tabs = scratched_file_tables [OF v(1)]
  note fdD = free_fdD [OF free(1)]
  have dfree: "d_fcb (s_fd_table s d) = None" using free(2) by (auto simp: free_descriptor_def find_Some_iff)
  have "counts UNIV v" using tabs(5) c by blast
  from link_file_counts [OF this p fdD(2), of d] fdD(3) dfree tabs
  have c1: "counts UNIV ?s1" "\<And>w. file_of ?s1 w = (if w = (p, fd) then Some d else file_of s w)" by simp_all
  have l: "s_fd_table ?s1 d = \<lparr>d_fcb = Some k, d_position = 0, d_open_count = 1\<rparr>" "f_file_size (s_fcb_table ?s1 k) = e_file_size e"
    "f_start_cluster (s_fcb_table ?s1 k) = ucast (e_cluster_index e)" "p_file (proc ?s1 p) fd = Some d"
    "p_tf (proc ?s1 p) = tf"
    using closed tabs(1,3) by (simp_all add: link_file_def Let_def set_file_def set_proc_def tf_def)
  have keep1: "mem ?s1 = mem v" "cr3 ?s1 = cr3 v" "l_kernel_end ?s1 = l_kernel_end v" "dev ?s1 = dev v"
    "s_free_memory_page_head ?s1 = s_free_memory_page_head v" "s_BIOS_parameter_block ?s1 = b"
    using scratched_other(1) [OF v(1)] by (simp_all add: link_file_def Let_def set_file_def set_proc_def b_def)
  have us1: "user_space ?s1 T u (q # ps)" by (rule user_space_cong [OF v(2)]) (simp_all add: keep1)
  let ?s2 = "?s1\<lparr>mem := fill (mem ?s1) u 0 (2 ^ 21)\<rparr>"
  have set: "vset (unat PAGE_SIZE) USER_VIRTUAL_ADDRESS_BASE 0 ?s1 = ret ?s2"
    using vset_user [OF us1, of 0 "2 ^ 21" 0] by (simp add: PAGE_SIZE_def)
  have us2: "user_space ?s2 T u (q # ps)" by (rule user_space_write [OF us1]) (simp add: fill_apply page_span_def)
  have D2: "disk_ready io view sector cap ?s2"
    using v(3) keep1 scratched_other(1) [OF v(1)] by (simp add: disk_ready_def b_def)
  have b2: "s_BIOS_parameter_block ?s2 = b" using keep1 by simp
  have fds: "0 \<le> int fd" "int fd < int PROCESS_MAXIMUM_FILE_DESCRIPTOR" using fdD(2) by simp_all
  have size: "GetFileSize p (int fd) ?s2 = ret (sint (e_file_size e))"
    using fds l by (simp add: GetFileSize_def file_at_def)
  have nlt: "n < 2 ^ 31" using r by (simp add: readable_def)
  have cl2: "unat (f_start_cluster (s_fcb_table ?s2 k)) = unat (e_cluster_index e)"
  proof -
    have "unat (ucast (e_cluster_index e) :: u32) = unat (e_cluster_index e)"
      using unat_lt2p [of "e_cluster_index e"] by (simp add: unsigned_ucast_eq take_bit_nat_eq_self)
    then show ?thesis using l(3) by simp
  qed
  have r2: "readable (s_BIOS_parameter_block ?s2) cap (unat (f_start_cluster (s_fcb_table ?s2 k))) (unat (0 :: u32)) n"
    using r unfolding b2 cl2 by simp
  have pos0: "(0 :: u32) = d_position (s_fd_table ?s2 d)" using l(1) by simp
  have n1: "n = min (unat (e_file_size e)) (unat (f_file_size (s_fcb_table ?s2 k)) - unat (0 :: u32))" using l(2) by (simp add: n_def)
  have "unat (0 :: u32) + unat (e_file_size e) < 2 ^ 32" using nlt by (simp add: n_def)
  from Read_run [OF us2 D2 fds _ _ n1 pos0 this r2, where off = 0 and p = p] n l(1,4) obtain t where
    t: "Read io p (int fd) USER_VIRTUAL_ADDRESS_BASE (e_file_size e) ?s2 = ret (int n, t)"
      "\<forall>i<n. mem t (u + of_nat i) = read_result sector b (unat (e_cluster_index e)) 0 n (mem ?s2) q i"
      "\<forall>x. x \<notin> page_span q \<longrightarrow> x \<notin> span u n \<longrightarrow> mem t x = mem ?s2 x"
      "s_fd_table t = (s_fd_table ?s2)(d := (s_fd_table ?s2 d)\<lparr>d_position := of_nat n\<rparr>)" "user_space t T u (q # ps)"
      "s_fcb_table t = s_fcb_table ?s2" "s_process_manager t = s_process_manager ?s2"
    unfolding b2 cl2 by auto
  have ft: "file_of t w = file_of ?s1 w" for w using t(7) by (simp add: file_of_def)
  have ct: "counts UNIV t"
  proof -
    have "d_fcb (s_fd_table t x) = d_fcb (s_fd_table ?s1 x)" "d_open_count (s_fd_table t x) = d_open_count (s_fd_table ?s1 x)" for x
      using t(4) by simp_all
    then show ?thesis using c1(1) ft t(6) by (simp add: counts_def fd_users_def fcb_users_def fcb_of_def)
  qed
  from Close_ok [OF ct p fds] obtain w where w: "Close p (int fd) t = ret w" "counts UNIV w" "file_of w (p, fd) = None"
    "\<And>x. x \<noteq> (p, fd) \<Longrightarrow> file_of w x = file_of t x" by auto
  note cf = Close_frame [OF w(1)]
  let ?t = "set_start_frame tf (w\<lparr>mem := memset (mem w) tf 0 sizeof_TrapFrame\<rparr>)"
  have tfw: "p_tf (proc w p) = tf" using cf [of p] t(7) l(5) by simp
  have run: "Exec io p (USER_VIRTUAL_ADDRESS_BASE + of_nat off) s = ret (Some 0, ?t)"
    using v(4) set size t(1) w(1) tfw by (simp add: Exec_def Let_def)
  note sf = start_frame [where t = ?t and tf = tf and s = w and m = "mem w", OF refl]
  have ata: "ata_drive io view sector cap" using D by (simp add: disk_ready_def)
  have page: "mem ?t (u + of_nat i) = (if i < n then file_bytes sector b (unat (e_cluster_index e)) (read_clusters b n) ! i else 0)"
    if i: "i < 2 ^ 21" for i
  proof -
    have "u + of_nat i \<notin> span tf 176" using dj in_page [OF i, of u] by auto
    then have "mem ?t (u + of_nat i) = mem t (u + of_nat i)" using sf(2) cf by simp
    also have "\<dots> = (if i < n then file_bytes sector b (unat (e_cluster_index e)) (read_clusters b n) ! i else 0)"
    proof (cases "i < n")
      case True
      then show ?thesis using t(2) read_result_file [OF ata r, of i] readableD(5) [OF r] by simp
    next
      case False
      have "page_span u \<inter> page_span q = {}"
        using us take_scratch_page(3) [OF us]
        by (intro valid_pages_disjoint [of "l_kernel_end s"]) (auto simp: user_space_def scratch_page_def)
      then have "u + of_nat i \<notin> page_span q" using in_page [OF i, of u] by blast
      moreover have "u + of_nat i \<notin> span u n" using False i by (simp add: mem_span unat_of_nat)
      ultimately have "mem t (u + of_nat i) = mem ?s2 (u + of_nat i)" using t(3) by blast
      also have "\<dots> = 0" using in_page [OF i, of u] by (simp add: fill_apply page_span_def)
      finally show ?thesis using False by simp
    qed
    finally show ?thesis .
  qed
  have same: "file_of ?t x = file_of s x" for x
  proof -
    have none: "file_of s (p, fd) = None" using fdD(3) by (simp add: file_of_def)
    have "file_of ?t x = file_of w x" by (simp add: file_of_def)
    then show ?thesis using w(3,4) ft c1(2) none by (cases "x = (p, fd)") simp_all
  qed
  have "counts UNIV ?t" by (rule counts_cong [OF w(2)]) (auto simp: file_of_def)
  moreover have "free_pages ?t (q # ps)"
  proof -
    have f: "free_pages t (q # ps)" using t(5) by (auto simp: user_space_def dest: spaceD(2))
    have "mem ?t x = mem t x" if "x \<in> page_span y" "y \<in> set (q # ps)" for x y
    proof -
      have "x \<notin> span tf 176" using that dj by auto
      then show ?thesis using sf(2) cf by simp
    qed
    then show ?thesis using cf by (intro free_pages_frame [OF f]) simp_all
  qed
  ultimately show ?thesis using run page sf(1) same by blast
qed

end
