(* ===== verification/Process_Wait.thy ===== *)
theory Process_Wait
  imports Process_Life
begin

text \<open>
  The end of a process, \<open>Wait\<close> of \<open>kernel/process.c\<close>, and the start of the first two processes,
  \<open>InitProcess\<close>.
\<close>

section \<open>A slot is cleared\<close>

lemma queues_detach:
  assumes "queues h f" "\<And>q. n \<notin> set (f q)"
  shows "queues (h\<lparr>lnext := (lnext h)(Node n := None)\<rparr>) f"
proof -
  have "hseg ((lnext h)(Node n := None)) q (f q) None" for q
    using queuesD(1) [OF assms(1), of q] assms(2) by (subst hseg_upd) auto
  then show ?thesis using assms(1) by (simp add: queues_def)
qed

text \<open>The killed process \<open>i\<close> leaves the kill list and its slot is unused again.\<close>

definition bury :: "nat \<Rightarrow> int \<Rightarrow> ('z kernel_scheme) \<Rightarrow> sched \<Rightarrow> sched" where
  "bury i pid s a = a\<lparr>queue := (queue a)(Kill_list := delete_first (\<lambda>n. p_pid (proc s n) = pid) (queue a Kill_list)),
     wid := (wid a)(i := 0)\<rparr>"

lemma represents_clear:
  assumes r: "represents True s a" and i: "find (\<lambda>n. p_pid (proc s n) = pid) (queue a Kill_list) = Some i"
    and h: "queues h ((queue a)(Kill_list := delete_first (\<lambda>n. p_pid (proc s n) = pid) (queue a Kill_list)))"
    and t: "proc_lists t = h\<lparr>lnext := (lnext h)(Node i := None)\<rparr>" "current_proc t = current_proc s"
      "s_pid_num t = s_pid_num s" "proc t i = zero_process" "\<And>j. j \<noteq> i \<Longrightarrow> proc t j = proc s j"
  shows "represents True t (bury i pid s a)"
proof -
  let ?kill = "delete_first (\<lambda>n. p_pid (proc s n) = pid) (queue a Kill_list)"
  have ik: "i \<in> set (queue a Kill_list)" using i by (auto simp: find_Some_iff)
  note q = representsD(1) [OF r]
  have si: "slot i" and st: "p_state (proc s i) = PROCESS_SLOT_KILLED"
    using representsD(4,5) [OF r] ik by fastforce+
  have kill: "set ?kill = set (queue a Kill_list) - {i}"
    using lists.repr_distinct [OF q] i by (rule set_delete_first)
  have other: "i \<notin> set (queue a p)" if "p \<noteq> Kill_list" for p using lists.repr_disjoint [OF q that] ik by auto
  have sets: "set (queue (bury i pid s a) p) = set (queue a p) - {i}" for p
    using kill other by (auto simp: bury_def)
  have run: "i \<noteq> running a" using representsD(6) [OF r, of i] st si by (auto simp: slot_def)
  have use: "in_use t j \<longleftrightarrow> in_use s j \<and> j \<noteq> i" for j
    using t(4,5) by (cases "j = i") (auto simp: in_use_def zero_process_def)
  show ?thesis
  proof (rule representsI)
    show "queues (proc_lists t) (queue (bury i pid s a))"
      unfolding t(1) by (rule queues_detach) (use h sets in \<open>auto simp: bury_def\<close>)
    show "slot j" if "j \<in> set (queue (bury i pid s a) p)" for j p using that sets representsD(4) [OF r] by auto
    show "j \<in> set (queue (bury i pid s a) p) \<longleftrightarrow> p_state (proc t j) = queue_state p" if "slot j" for j p
      using representsD(5) [OF r that] t(4,5) sets by (cases "j = i") (auto simp: zero_process_def)
    show "p_state (proc t j) = PROCESS_SLOT_RUNNING \<longleftrightarrow> True \<and> j = running (bury i pid s a)"
      if "j < MAXIMUM_NUMBER_OF_PROCESS" for j
      using representsD(6) [OF r that] t(4,5) run by (cases "j = i") (auto simp: zero_process_def bury_def)
    show "p_wait_id (proc t j) = wid (bury i pid s a) j" if "j < MAXIMUM_NUMBER_OF_PROCESS" for j
      using representsD(7) [OF r that] t(4,5) by (cases "j = i") (auto simp: zero_process_def bury_def)
    have "proc t j = proc s j" if "in_use t j" for j using that use t(5) by auto
    then show "pids_ok t" using representsD(8) [OF r] use si t(3,5) by (auto simp: pids_ok_def slot_def)
  qed (use representsD(2,3) [OF r] t(2) in \<open>simp_all add: bury_def\<close>)
qed

section \<open>The clean-up of a killed process\<close>

definition files_below_start :: "'z kernel_scheme \<Rightarrow> bool" where
  "files_below_start s \<longleftrightarrow> (\<forall>i<MAXIMUM_NUMBER_OF_PROCESS. \<forall>j<USER_START_FD. p_file (proc s i) j = None)"

text \<open>The memory of process \<open>i\<close>: its kernel stack and its page map with the user page \<open>u\<close>.\<close>

definition owns_memory :: "'z kernel_scheme \<Rightarrow> nat \<Rightarrow> tree \<Rightarrow> u64 \<Rightarrow> u64 list \<Rightarrow> bool" where
  "owns_memory s i C u ps \<longleftrightarrow>
     owns_user_page s (p_page_map (proc s i)) C u ps \<and> valid_page (l_kernel_end s) (p_stack (proc s i))
     \<and> p_stack (proc s i) \<notin> insert u (set ps \<union> tables (p_page_map (proc s i)) C)"

lemma reap_memory:
  assumes "owns_memory s i C u ps"
  shows "\<exists>s1 s2 qs U. kfree (p_stack (proc s i)) s = ret s1 \<and> FreeVM (p_page_map (proc s i)) s1 = ret s2
     \<and> free_pages s2 qs \<and> touches U s s1 \<and> touches U s s2
     \<and> set qs = insert (p_stack (proc s i)) (insert u (set ps \<union> tables (p_page_map (proc s i)) C))"
proof -
  let ?k = "p_stack (proc s i)" and ?c = "p_page_map (proc s i)"
  have o: "space s ?c C ps" "user_pages ?c C = {u}" "valid_page (l_kernel_end s) u" "u \<notin> set ps" "u \<notin> tables ?c C"
    "valid_page (l_kernel_end s) ?k" "?k \<noteq> u" "?k \<notin> set ps" "?k \<notin> tables ?c C"
    using assms by (auto simp: owns_memory_def owns_user_page_def)
  from space_kfree [OF o(1,6,8,9)] obtain s1 where s1: "kfree ?k s = ret s1" "space s1 ?c C (?k # ps)" "touches {?k} s s1"
    by blast
  have "\<forall>v\<in>user_pages ?c C. valid_page (l_kernel_end s1) v \<and> v \<notin> set (?k # ps) \<and> v \<notin> tables ?c C"
    using o touches_same(1) [OF s1(3)] by auto
  from FreeVM_ok [OF s1(2) this] obtain s2 qs where s2: "FreeVM ?c s1 = ret s2" "free_pages s2 qs"
    "set qs = set (?k # ps) \<union> tables ?c C \<union> user_pages ?c C" "touches (tables ?c C \<union> user_pages ?c C) s1 s2" by blast
  let ?U = "insert ?k (tables ?c C \<union> user_pages ?c C)"
  have "touches ?U s s1" using s1(3) by (rule touches_mono) blast
  moreover have "touches ?U s1 s2" using s2(4) by (rule touches_mono) blast
  ultimately have "touches ?U s s2" by (rule touches_trans)
  moreover have "set qs = insert ?k (insert u (set ps \<union> tables ?c C))" unfolding s2(3) o(2) by auto
  ultimately show ?thesis using s1(1) s2(1,2) \<open>touches ?U s s1\<close> by blast
qed

text \<open>The end of \<open>reap\<close>: the files and the slot.\<close>

lemma clear_files:
  assumes c: "counts UNIV s" "files_below_start s" and i: "i < MAXIMUM_NUMBER_OF_PROCESS"
  shows "\<exists>u. for_each (drop_file i) user_fds s = ret u \<and> tables_only s u \<and> counts UNIV (clear_process i u)
    \<and> proc (clear_process i u) = (proc s)(i := zero_process) \<and> current_proc (clear_process i u) = current_proc s
    \<and> s_pid_num (clear_process i u) = s_pid_num s
    \<and> proc_lists (clear_process i u) = (proc_lists s)\<lparr>lnext := (lnext (proc_lists s))(Node i := None)\<rparr>"
proof -
  have "distinct user_fds" "\<forall>j\<in>set user_fds. j < PROCESS_MAXIMUM_FILE_DESCRIPTOR \<and> (i, j) \<in> (UNIV :: (nat \<times> nat) set)"
    by (auto simp: user_fds_def)
  from drop_files_ok [OF c(1) i this] obtain u where u: "for_each (drop_file i) user_fds s = ret u"
    "counts (UNIV - Pair i ` set user_fds) u" "tables_only s u" by blast
  note d = tables_onlyD [OF u(3)]
  let ?t = "clear_process i u"
  have P: "proc ?t j = (if j = i then zero_process else proc s j)" for j by (simp add: clear_process_def d)
  have none: "file_of ?t v = None" if "fst v = i" for v
    using that by (simp add: file_of_def P) (simp add: zero_process_def)
  have "counts UNIV ?t"
  proof (rule counts_cong [OF u(2)])
    fix v
    assume v: "v \<in> UNIV - Pair i ` set user_fds"
    show "file_of ?t v = file_of u v"
    proof (cases "fst v = i \<and> v \<in> users")
      case True
      then have "snd v < USER_START_FD" using v by (cases v) (auto simp: user_fds_def users_def)
      then have "file_of u v = None" using True c(2) i by (simp add: file_of_def d files_below_start_def)
      then show ?thesis using none True by simp
    next
      case False
      then show ?thesis using P [of "fst v"] by (auto simp: file_of_def d)
    qed
  next
    show "file_of ?t v = None" if "v \<notin> UNIV - Pair i ` set user_fds" for v by (rule none) (use that in auto)
  qed (simp_all add: clear_process_def set_proc_def)
  moreover have "proc ?t = (proc s)(i := zero_process)" using P by (simp add: fun_eq_iff)
  ultimately show ?thesis using u(1,3) by (auto simp: clear_process_def d)
qed

lemma reap_ok:
  fixes s :: "'z kernel_scheme"
  assumes k: "p_state (proc s i) = PROCESS_SLOT_KILLED" "i < MAXIMUM_NUMBER_OF_PROCESS"
    and m: "owns_memory s i C u ps" and c: "counts UNIV s" "files_below_start s"
  shows "\<exists>t qs. reap i s = ret t \<and> free_pages t qs
     \<and> set qs = insert (p_stack (proc s i)) (insert u (set ps \<union> tables (p_page_map (proc s i)) C))
     \<and> counts UNIV t \<and> proc t = (proc s)(i := zero_process) \<and> current_proc t = current_proc s
     \<and> s_pid_num t = s_pid_num s
     \<and> proc_lists t = (proc_lists s)\<lparr>lnext := (lnext (proc_lists s))(Node i := None)\<rparr>"
proof -
  from reap_memory [OF m] obtain s1 s2 qs U where s: "kfree (p_stack (proc s i)) s = ret s1"
    "FreeVM (p_page_map (proc s i)) s1 = ret s2" "free_pages s2 qs" "touches U s s1" "touches U s s2"
    "set qs = insert (p_stack (proc s i)) (insert u (set ps \<union> tables (p_page_map (proc s i)) C))" by blast
  obtain m1 h1 where m1: "s1 = s\<lparr>mem := m1, s_free_memory_page_head := h1\<rparr>" using s(4) by (rule touches_shape)
  obtain m2 h2 where m2: "s2 = s\<lparr>mem := m2, s_free_memory_page_head := h2\<rparr>" using s(5) by (rule touches_shape)
  have "counts UNIV s2" by (rule counts_cong [OF c(1)]) (auto simp: m2 file_of_def)
  moreover have "files_below_start s2" using c(2) by (simp add: m2 files_below_start_def)
  ultimately obtain v where v: "for_each (drop_file i) user_fds s2 = ret v" "tables_only s2 v" "counts UNIV (clear_process i v)"
    "proc (clear_process i v) = (proc s2)(i := zero_process)" "current_proc (clear_process i v) = current_proc s2"
    "s_pid_num (clear_process i v) = s_pid_num s2"
    "proc_lists (clear_process i v) = (proc_lists s2)\<lparr>lnext := (lnext (proc_lists s2))(Node i := None)\<rparr>"
    using clear_files k(2) by blast
  have "reap i s = ret (clear_process i v)"
    unfolding reap_def using k(1) s(1,2) v(1) by (simp add: m1)
  moreover have "free_pages (clear_process i v) qs"
    using s(3) v(2) by (auto simp: free_pages_def clear_process_def set_proc_def tables_only_def)
  ultimately show ?thesis using v(3-7) s(6) by (intro exI [of _ "clear_process i v"] exI [of _ qs]) (simp add: m2 fun_eq_iff)
qed

section \<open>Wait\<close>

definition kill_match :: "int \<Rightarrow> 'z kernel_scheme \<Rightarrow> sched \<Rightarrow> nat option" where
  "kill_match pid s a = find (\<lambda>n. p_pid (proc s n) = pid) (queue a Kill_list)"

lemma kill_match_facts:
  assumes "represents True s a" "kill_match pid s a = Some i"
  shows "i < MAXIMUM_NUMBER_OF_PROCESS" "p_state (proc s i) = PROCESS_SLOT_KILLED" "p_pid (proc s i) = pid"
    "queue a Kill_list \<noteq> []" "i \<in> set (queue a Kill_list)"
proof -
  have i: "i \<in> set (queue a Kill_list)" "p_pid (proc s i) = pid"
    using assms(2) by (auto simp: kill_match_def find_Some_iff)
  then show "p_pid (proc s i) = pid" "i \<in> set (queue a Kill_list)" "queue a Kill_list \<noteq> []" by auto
  show "i < MAXIMUM_NUMBER_OF_PROCESS" using representsD(4) [OF assms(1) i(1)] by (simp add: slot_def)
  show "p_state (proc s i) = PROCESS_SLOT_KILLED"
    using representsD(5) [OF assms(1) representsD(4) [OF assms(1) i(1)], of Kill_list] i(1) by simp
qed

text \<open>
  Property C16. \<open>Wait\<close> takes a killed process back completely: it returns, the kernel stack, the user
  page and every page table of the process are free and no other page is, the slot can be used again
  and has left the kill list, every file of the process is closed and the counts of the file tables
  are those of the remaining processes.
\<close>

theorem Wait_takes_everything_back:
  fixes s :: "'z kernel_scheme"
  assumes "represents True s a" "kill_match pid s a = Some i"
    and "owns_memory s i C u ps" "counts UNIV s" "files_below_start s"
  shows "\<exists>t qs. Wait pid s = ret (True, t) \<and> free_pages t qs
     \<and> set qs = set ps \<union> tables (p_page_map (proc s i)) C \<union> {u, p_stack (proc s i)}
     \<and> represents True t (bury i pid s a) \<and> counts UNIV t
     \<and> p_state (proc t i) = PROCESS_SLOT_UNUSED \<and> (\<forall>j. file_of t (i, j) = None)"
proof -
  note k = kill_match_facts [OF assms(1,2)]
  from lists.remove_law [OF representsD(1) [OF assms(1)], of "\<lambda>n. p_pid (proc s n) = pid" Kill_list] assms(2)
  obtain h where h: "remove_first (\<lambda>n. p_pid (proc s n) = pid) (proc_lists s) Kill_list = Some (Some i, h)"
    "queues h ((queue a)(Kill_list := delete_first (\<lambda>n. p_pid (proc s n) = pid) (queue a Kill_list)))"
    by (auto simp: kill_match_def)
  let ?s1 = "s\<lparr>proc_lists := h\<rparr>"
  have "owns_memory ?s1 i C u ps" using assms(3) by (simp add: owns_memory_def owns_user_page_def space_def free_pages_def)
  moreover have "counts UNIV ?s1" by (rule counts_cong [OF assms(4)]) (auto simp: file_of_def)
  moreover have "files_below_start ?s1" using assms(5) by (simp add: files_below_start_def)
  ultimately obtain t qs where t: "reap i ?s1 = ret t" "free_pages t qs"
    "set qs = insert (p_stack (proc s i)) (insert u (set ps \<union> tables (p_page_map (proc s i)) C))"
    "counts UNIV t" "proc t = (proc s)(i := zero_process)" "current_proc t = current_proc s" "s_pid_num t = s_pid_num s"
    "proc_lists t = h\<lparr>lnext := (lnext h)(Node i := None)\<rparr>"
    using reap_ok [of ?s1 i C u ps] k(1,2) by auto
  have "represents True t (bury i pid s a)"
    by (rule represents_clear [OF assms(1) assms(2) [unfolded kill_match_def] h(2)]) (simp_all add: t(5-8))
  moreover have "Wait pid s = ret (True, t)"
    using lists.isempty_iff [OF representsD(1) [OF assms(1)], of Kill_list] k(4) h(1) t(1)
    by (subst Wait.simps) (simp add: RemoveProcessWithPID_def)
  moreover have "p_state (proc t i) = PROCESS_SLOT_UNUSED" "\<forall>j. file_of t (i, j) = None"
    using t(5) by (simp_all add: zero_process_def file_of_def)
  moreover have "set qs = set ps \<union> tables (p_page_map (proc s i)) C \<union> {u, p_stack (proc s i)}"
    using t(3) by auto
  ultimately show ?thesis using t(2,4) by blast
qed

text \<open>
  With no killed process at all, \<open>Wait\<close> puts the caller to sleep on the wait identifier
  of the init process, so that the next \<open>Exit\<close> wakes it; it then starts over.
\<close>

theorem Wait_sleeps:
  assumes "represents True s a" "running a \<noteq> 0" "queue a Kill_list = []"
  shows "\<exists>t. Wait pid s = ret (False, t) \<and> represents True t (sched_spec (Do_sleep INIT_PROCESS_WAIT_ID) a)
             \<and> current_proc s \<in> set (queue (rouse INIT_PROCESS_WAIT_ID (sched_spec (Do_sleep INIT_PROCESS_WAIT_ID) a)) Ready_list)"
proof -
  obtain t where t: "Sleep INIT_PROCESS_WAIT_ID s = ret t"
    "represents True t (sched_spec (Do_sleep INIT_PROCESS_WAIT_ID) a)" using Sleep_ok [OF assms(1,2)] by blast
  have "ListIsEmpty (proc_lists s) Kill_list"
    using lists.isempty_iff [OF representsD(1) [OF assms(1)], of Kill_list] assms(3) by simp
  then have "Wait pid s = ret (False, t)" using t(1) by (subst Wait.simps) simp
  moreover have "current_proc s \<in> set (queue (rouse INIT_PROCESS_WAIT_ID (sched_spec (Do_sleep INIT_PROCESS_WAIT_ID) a)) Ready_list)"
    using representsD(2) [OF assms(1)]
    by (auto simp: rouse_def dispatch_def enqueue_def split: list.splits)
  ultimately show ?thesis using t(2) by blast
qed

lemma Wait_diverges:
  assumes "represents True s a" "queue a Kill_list \<noteq> []" "kill_match pid s a = None"
  shows "Wait pid s = diverges"
proof -
  let ?bad = "\<lambda>pid (s :: 'a kernel_scheme). \<exists>a. represents True s a \<and> queue a Kill_list \<noteq> [] \<and> kill_match pid s a = None"
  have "\<not> ?bad pid s" if "Wait pid s = Some y" for pid s y
  proof (rule Wait.raw_induct [OF _ that])
    fix f pid y and s :: "'a kernel_scheme"
    assume IH: "\<And>pid s y. f pid s = Some y \<Longrightarrow> \<not> ?bad pid s"
      and body: "(if \<not> ListIsEmpty (proc_lists s) Kill_list
         then andthen (RemoveProcessWithPID Kill_list pid s) (\<lambda>(item, s1).
           case item of None \<Rightarrow> f pid s1 | Some i \<Rightarrow> andthen (reap i s1) (\<lambda>s2. ret (True, s2)))
         else andthen (Sleep INIT_PROCESS_WAIT_ID s) (\<lambda>s1. ret (False, s1))) = Some y"
    show "\<not> ?bad pid s"
    proof
      assume "?bad pid s"
      then obtain a where a: "represents True s a" "queue a Kill_list \<noteq> []" "kill_match pid s a = None" by blast
      have "\<forall>n\<in>set (queue a Kill_list). \<not> p_pid (proc s n) = pid" using a(3) by (simp add: kill_match_def find_None_iff)
      from lists.remove_None_law [OF representsD(1) [OF a(1)] this] obtain h where
        h: "remove_first (\<lambda>n. p_pid (proc s n) = pid) (proc_lists s) Kill_list = Some (None, h)" "queues h (queue a)" by blast
      let ?s = "s\<lparr>proc_lists := h\<rparr>"
      have "represents True ?s a" using a(1) h(2) unfolding represents_def pids_ok_def in_use_def by simp
      then have "?bad pid ?s" using a(2,3) by (intro exI [of _ a]) (simp add: kill_match_def)
      moreover have "f pid ?s = Some y"
        using body a(2) h(1) lists.isempty_iff [OF representsD(1) [OF a(1)], of Kill_list]
        by (simp add: RemoveProcessWithPID_def)
      ultimately show False using IH by blast
    qed
  qed
  then show ?thesis using assms by (metis not_None_eq)
qed

text \<open>
  \<open>Wait\<close> for a process that is not among the killed ones never returns while some other
  process is: the loop neither sleeps nor makes progress, and interrupts are off in a system call.
\<close>

theorem Wait_spins:
  assumes "represents True s a" "queue a Kill_list \<noteq> []" "kill_match pid s a = None"
  shows "Wait pid s = diverges"
  by (rule Wait_diverges [OF assms])

end
