(* ===== verification/System_Calls.thy ===== *)
theory System_Calls
  imports Exec Process_Wait
begin

text \<open>
  The system calls, \<open>kernel/syscall.c\<close>: the table, \<open>SystemCall\<close> and the functions in the table. Their
  arguments are an array of the user program, read through the page map.

  A system call that sleeps ends in the state in which another process goes on. What is left to do for
  the caller is a \<open>continuation\<close>, the local variables its kernel stack holds at the call of \<open>Sleep\<close>;
  \<open>resume\<close> is the rest of the call, from there on. \<open>Exited\<close> is the end of a call that does not come back.
\<close>

section \<open>Outcomes\<close>

datatype continuation =
    In_SysSleep u64 u64
  | In_SysWait int
  | In_SysRead u64 int int nat

datatype 'r outcome = Done 'r | Exited | Blocked continuation

definition MAXIMUM_SYSTEM_CALLS :: int where
  "MAXIMUM_SYSTEM_CALLS = 20"

definition NORMAL_PROCESS_WAIT_ID :: int where
  "NORMAL_PROCESS_WAIT_ID = -1"

definition STANDARD_INPUT :: int where
  "STANDARD_INPUT = 0"

text \<open>\<open>arg[i]\<close>, and its conversions to \<open>int16_t\<close> and \<open>int32_t\<close>.\<close>

definition arg_at :: "u64 \<Rightarrow> nat \<Rightarrow> 'z kmem_scheme \<Rightarrow> u64 kres" where
  "arg_at arg i s = peek64 s (arg + of_nat (8 * i))"

definition int16 :: "u64 \<Rightarrow> int" where
  "int16 x = sint (ucast x :: u16)"

definition int32 :: "u64 \<Rightarrow> int" where
  "int32 x = sint (ucast x :: u32)"

section \<open>The functions\<close>

text \<open>The string \<open>printk\<close> reads from the user program.\<close>

partial_function (option) load_string :: "u64 \<Rightarrow> 'z kmem_scheme \<Rightarrow> u8 list kres" where
  "load_string v s =
     andthen (peek8 s v) (\<lambda>c. if c = 0 then ret [] else andthen (load_string (v + 1) s) (\<lambda>cs. ret (c # cs)))"

definition SysWrite :: "u64 \<Rightarrow> 'z kernel_scheme \<Rightarrow> (int outcome \<times> 'z kernel_scheme) kres" where
  "SysWrite arg s =
     andthen (arg_at arg 0 s) (\<lambda>file_descriptor.
     andthen (arg_at arg 1 s) (\<lambda>buffer.
     andthen (arg_at arg 2 s) (\<lambda>len.
     andthen (load_string buffer s) (\<lambda>str.
     andthen (print str [] s) (\<lambda>s1. ret (Done (int32 len), s1))))))"

text \<open>The loop of \<open>SysSleep\<close>; each \<open>Sleep\<close> in it ends the stretch.\<close>

definition sleep_loop :: "u64 \<Rightarrow> u64 \<Rightarrow> 'z kernel_scheme \<Rightarrow> (int outcome \<times> 'z kernel_scheme) kres" where
  "sleep_loop old_ticks sleep_ticks s =
     (if s_system_ticks s - old_ticks < sleep_ticks
      then andthen (Sleep NORMAL_PROCESS_WAIT_ID s) (\<lambda>s1. ret (Blocked (In_SysSleep old_ticks sleep_ticks), s1))
      else ret (Done 0, s))"

definition SysSleep :: "u64 \<Rightarrow> 'z kernel_scheme \<Rightarrow> (int outcome \<times> 'z kernel_scheme) kres" where
  "SysSleep arg s = andthen (arg_at arg 0 s) (\<lambda>sleep_ticks. sleep_loop (s_system_ticks s) sleep_ticks s)"

definition SysExit :: "u64 \<Rightarrow> 'z kernel_scheme \<Rightarrow> (int outcome \<times> 'z kernel_scheme) kres" where
  "SysExit arg s = andthen (Exit s) (\<lambda>s1. ret (Exited, s1))"

definition wait_loop :: "int \<Rightarrow> 'z kernel_scheme \<Rightarrow> (int outcome \<times> 'z kernel_scheme) kres" where
  "wait_loop pid s =
     andthen (Wait pid s) (\<lambda>(finished, s1). ret (if finished then Done 0 else Blocked (In_SysWait pid), s1))"

definition SysWait :: "u64 \<Rightarrow> 'z kernel_scheme \<Rightarrow> (int outcome \<times> 'z kernel_scheme) kres" where
  "SysWait arg s = andthen (arg_at arg 0 s) (\<lambda>pid. wait_loop (int32 pid) s)"

text \<open>The loop of \<open>SysRead\<close> over the keyboard, from index \<open>i\<close> on; \<open>n\<close> is the number of rounds left.\<close>

primrec read_keys :: "u64 \<Rightarrow> int \<Rightarrow> nat \<Rightarrow> 'z kernel_scheme \<Rightarrow> (int outcome \<times> 'z kernel_scheme) kres" where
  "read_keys buffer len 0 s = ret (Done len, s)"
| "read_keys buffer len (Suc n) s =
     (let i = len - int (Suc n); front = k_front (s_keyboard_controller s) in
      andthen (ReadKeyBuffer s) (\<lambda>(c, s1).
      case c of
        None \<Rightarrow> ret (Blocked (In_SysRead buffer len i front), s1)
      | Some ch \<Rightarrow> andthen (poke8 (buffer + of_int i) ch s1) (read_keys buffer len n)))"

definition SysRead :: "'d ports \<Rightarrow> u64 \<Rightarrow> ('d, 'z) io_kernel_scheme \<Rightarrow> (int outcome \<times> ('d, 'z) io_kernel_scheme) kres" where
  "SysRead io arg s =
     andthen (arg_at arg 0 s) (\<lambda>file_descriptor.
     andthen (arg_at arg 1 s) (\<lambda>buffer.
     andthen (arg_at arg 2 s) (\<lambda>len.
     if int16 file_descriptor = STANDARD_INPUT then read_keys buffer (int32 len) (nat (int32 len)) s
     else andthen (Read io (current_proc s) (int16 file_descriptor) buffer (ucast len) s) (\<lambda>(n, s1). ret (Done n, s1)))))"

definition SysMemInfo :: "u64 \<Rightarrow> 'z kernel_scheme \<Rightarrow> (int outcome \<times> 'z kernel_scheme) kres" where
  "SysMemInfo arg s = ret (Done (int32 (GetTotalMem s)), s)"

definition SysOpen :: "'d ports \<Rightarrow> u64 \<Rightarrow> ('d, 'z) io_kernel_scheme \<Rightarrow> (int outcome \<times> ('d, 'z) io_kernel_scheme) kres" where
  "SysOpen io arg s =
     andthen (arg_at arg 0 s) (\<lambda>file_name.
     andthen (Open io (current_proc s) file_name s) (\<lambda>(fd, s1). ret (Done fd, s1)))"

definition SysClose :: "u64 \<Rightarrow> 'z kernel_scheme \<Rightarrow> (int outcome \<times> 'z kernel_scheme) kres" where
  "SysClose arg s =
     andthen (arg_at arg 0 s) (\<lambda>file_descriptor.
     andthen (Close (current_proc s) (int16 file_descriptor) s) (\<lambda>s1. ret (Done 0, s1)))"

definition SysFork :: "u64 \<Rightarrow> 'z kernel_scheme \<Rightarrow> (int outcome \<times> 'z kernel_scheme) kres" where
  "SysFork arg s = andthen (Fork s) (\<lambda>(pid, s1). ret (Done pid, s1))"

definition SysExec :: "'d ports \<Rightarrow> u64 \<Rightarrow> ('d, 'z) io_kernel_scheme \<Rightarrow> (int outcome \<times> ('d, 'z) io_kernel_scheme) kres" where
  "SysExec io arg s =
     andthen (arg_at arg 0 s) (\<lambda>file_name.
     andthen (Exec io (current_proc s) file_name s) (\<lambda>(r, s1).
     ret (case r of None \<Rightarrow> Exited | Some v \<Rightarrow> Done v, s1)))"

definition SysLstat :: "'d ports \<Rightarrow> u64 \<Rightarrow> ('d, 'z) io_kernel_scheme \<Rightarrow> (int outcome \<times> ('d, 'z) io_kernel_scheme) kres" where
  "SysLstat io arg s =
     andthen (arg_at arg 0 s) (\<lambda>path.
     andthen (arg_at arg 1 s) (\<lambda>statbuf.
     andthen (Lstat io path statbuf s) (\<lambda>(n, s1). ret (Done n, s1))))"

definition SysClrSrc :: "u64 \<Rightarrow> 'z kernel_scheme \<Rightarrow> (int outcome \<times> 'z kernel_scheme) kres" where
  "SysClrSrc arg s = ret (Done 0, ClrSrc s)"

text \<open>Going on behind \<open>Sleep\<close>. The reader stores the character and goes on with the loop.\<close>

definition resume :: "continuation \<Rightarrow> 'z kernel_scheme \<Rightarrow> (int outcome \<times> 'z kernel_scheme) kres" where
  "resume c s =
     (case c of
        In_SysSleep old_ticks sleep_ticks \<Rightarrow> sleep_loop old_ticks sleep_ticks s
      | In_SysWait pid \<Rightarrow> wait_loop pid s
      | In_SysRead buffer len i front \<Rightarrow>
          (let (ch, s1) = take_key front s in
           andthen (poke8 (buffer + of_int i) ch s1) (read_keys buffer len (nat (len - i - 1)))))"

section \<open>The table\<close>

definition call_function :: "'d ports \<Rightarrow> SYSTEM_CALL \<Rightarrow> u64 \<Rightarrow> ('d, 'z) io_kernel_scheme \<Rightarrow> (int outcome \<times> ('d, 'z) io_kernel_scheme) kres" where
  "call_function io f arg s =
     (case f of
        Call_SysWrite \<Rightarrow> SysWrite arg s | Call_SysSleep \<Rightarrow> SysSleep arg s | Call_SysExit \<Rightarrow> SysExit arg s
      | Call_SysWait \<Rightarrow> SysWait arg s | Call_SysRead \<Rightarrow> SysRead io arg s | Call_SysMemInfo \<Rightarrow> SysMemInfo arg s
      | Call_SysOpen \<Rightarrow> SysOpen io arg s | Call_SysClose \<Rightarrow> SysClose arg s | Call_SysFork \<Rightarrow> SysFork arg s
      | Call_SysExec \<Rightarrow> SysExec io arg s | Call_SysLstat \<Rightarrow> SysLstat io arg s | Call_SysClrSrc \<Rightarrow> SysClrSrc arg s)"

definition RegisterSystemCall :: "u16 \<Rightarrow> SYSTEM_CALL \<Rightarrow> 'z kernel_scheme \<Rightarrow> 'z kernel_scheme kres" where
  "RegisterSystemCall num f s =
     andthen (ASSERT (int (unat num) < MAXIMUM_SYSTEM_CALLS) ''syscall.c'' 76) (\<lambda>_.
     andthen (ASSERT (s_syscall_table s (unat num) = None) ''syscall.c'' 77) (\<lambda>_.
     ret (s\<lparr>s_syscall_table := (s_syscall_table s)(unat num := Some f)\<rparr>)))"

definition system_calls :: "(u16 \<times> SYSTEM_CALL) list" where
  "system_calls =
     [(0, Call_SysWrite), (1, Call_SysSleep), (2, Call_SysExit), (3, Call_SysWait), (4, Call_SysRead), (5, Call_SysMemInfo),
      (6, Call_SysOpen), (7, Call_SysClose), (8, Call_SysFork), (9, Call_SysExec), (10, Call_SysLstat), (11, Call_SysClrSrc)]"

definition InitSystemCall :: "'z kernel_scheme \<Rightarrow> 'z kernel_scheme kres" where
  "InitSystemCall = for_each (\<lambda>(num, f). RegisterSystemCall num f) system_calls"

text \<open>\<open>tf->rax = \<dots>\<close>: the result of a call goes to the trap frame when the call is done.\<close>

definition store_result :: "u64 \<Rightarrow> int outcome \<times> 'z kernel_scheme \<Rightarrow> (unit outcome \<times> 'z kernel_scheme) kres" where
  "store_result tf r =
     (case r of
        (Done v, s) \<Rightarrow> ret (Done (), put64 (tf + tf_rax) (of_int v) s)
      | (Exited, s) \<Rightarrow> ret (Exited, s)
      | (Blocked c, s) \<Rightarrow> ret (Blocked c, s))"

definition SystemCall :: "'d ports \<Rightarrow> u64 \<Rightarrow> ('d, 'z) io_kernel_scheme \<Rightarrow> (unit outcome \<times> ('d, 'z) io_kernel_scheme) kres" where
  "SystemCall io tf s =
     (let syscall_number = sint (load64 (mem s) (tf + tf_rax));
          param_count = sint (load64 (mem s) (tf + tf_rdi));
          arg = load64 (mem s) (tf + tf_rsi)
      in if param_count < 0 \<or> syscall_number > MAXIMUM_SYSTEM_CALLS
         then ret (Done (), put64 (tf + tf_rax) (of_int (- EINVAL)) s)
         else
           andthen (demand (0 \<le> syscall_number \<and> syscall_number < MAXIMUM_SYSTEM_CALLS) Out_of_bounds) (\<lambda>_.
           andthen (ASSERT (s_syscall_table s (nat syscall_number) \<noteq> None) ''syscall.c'' 69) (\<lambda>_.
           andthen (deref (s_syscall_table s (nat syscall_number))) (\<lambda>f.
           andthen (call_function io f arg s) (store_result tf)))))"

end
