(* ===== verification/Trap.thy ===== *)
theory Trap
  imports System_Calls
begin

text \<open>
  Interrupts, \<open>kernel/trap.c\<close> and \<open>kernel/main.c\<close>: the interrupt descriptor table, the handler, and the
  start of the kernel. The addresses of the entry points \<open>Vector0\<close> to \<open>Vector39\<close> and \<open>Syscall\<close> of
  \<open>kernel/trap.asm\<close> and the value of CR2, the address of the last page fault, are parameters.

  The entry points push the trap number (and a zero where the processor pushes no error code), the
  general registers, and call \<open>InterruptHandler\<close> with the address of this frame on the kernel stack of
  the process.
\<close>

section \<open>The descriptor table\<close>

record IDTEntry =
  i_low :: u16
  i_selector :: u16
  i_res0 :: u8
  i_attr :: u8
  i_mid :: u16
  i_high :: u32
  i_res1 :: u32

definition zero_IDTEntry :: IDTEntry where
  "zero_IDTEntry = \<lparr>i_low = 0, i_selector = 0, i_res0 = 0, i_attr = 0, i_mid = 0, i_high = 0, i_res1 = 0\<rparr>"

definition SYSTEM_CALL_INTERRUPT_NUMBER :: nat where
  "SYSTEM_CALL_INTERRUPT_NUMBER = 0x80"

definition KERNEL_CODE_SEGMENT_SELECTOR :: u16 where
  "KERNEL_CODE_SEGMENT_SELECTOR = 0x08"

definition InitIDTEntry :: "u64 \<Rightarrow> u8 \<Rightarrow> IDTEntry \<Rightarrow> IDTEntry" where
  "InitIDTEntry address attribute entry =
     entry\<lparr>i_low := ucast address, i_selector := KERNEL_CODE_SEGMENT_SELECTOR, i_attr := attribute,
       i_mid := ucast (drop_bit 16 address), i_high := ucast (drop_bit 32 address)\<rparr>"

definition vectors :: "nat list" where
  "vectors = [0, 1, 2, 3, 4, 5, 6, 7, 8, 10, 11, 12, 13, 14, 16, 17, 18, 19, 32, 33, 39]"

text \<open>\<open>vector n\<close> is the address of \<open>Vector\<close>\<open>n\<close>. The result is the table that \<open>LoadIDT\<close> loads.\<close>

definition InitIDT :: "(nat \<Rightarrow> u64) \<Rightarrow> u64 \<Rightarrow> nat \<Rightarrow> IDTEntry" where
  "InitIDT vector syscall =
     (let t = fold (\<lambda>n t. t(n := InitIDTEntry (vector n) 0x8E (t n))) vectors (\<lambda>_. zero_IDTEntry)
      in t(SYSTEM_CALL_INTERRUPT_NUMBER := InitIDTEntry syscall 0xEE (t SYSTEM_CALL_INTERRUPT_NUMBER)))"

section \<open>The handler\<close>

definition GetTicks :: "'z kernel_scheme \<Rightarrow> u64" where
  "GetTicks s = s_system_ticks s"

definition tick :: "'d ports \<Rightarrow> ('d, 'z) io_kernel_scheme \<Rightarrow> ('d, 'z) io_kernel_scheme kres" where
  "tick io s =
     andthen (Wakeup NORMAL_PROCESS_WAIT_ID (s\<lparr>s_system_ticks := s_system_ticks s + 1\<rparr>)) (\<lambda>s1. Yield (EOI io s1))"

text \<open>The message of an exception in kernel mode; \<open>panic\<close> shows it and spins for ever.\<close>

definition kernel_exception :: "u64 \<Rightarrow> u64 \<Rightarrow> ('d, 'z) io_kernel_scheme \<Rightarrow> (unit outcome \<times> ('d, 'z) io_kernel_scheme) kres" where
  "kernel_exception cr2 tf s =
     (let f = \<lambda>offset. load64 (mem s) (tf + offset) in
      andthen (format_loop (bytes_of ''[Error %d at ring: %d] %d:%x %x'')
                 [KInt (f tf_trapno), KInt (f tf_cs AND 3), KInt (f tf_error_code), KInt cr2, KInt (f tf_rip)] []) (\<lambda>msg.
      andthen (demand (length msg + 1 < 70) Out_of_bounds) (\<lambda>_.
      andthen (panic msg s) (\<lambda>_. fails (Kernel_exception (unat (f tf_trapno)))))))"

definition InterruptHandler :: "'d ports \<Rightarrow> u64 \<Rightarrow> u64 \<Rightarrow> ('d, 'z) io_kernel_scheme \<Rightarrow> (unit outcome \<times> ('d, 'z) io_kernel_scheme) kres" where
  "InterruptHandler io cr2 tf s =
     (let f = \<lambda>offset. load64 (mem s) (tf + offset); trapno = f tf_trapno in
      if trapno = 32 then andthen (tick io s) (\<lambda>s1. ret (Done (), s1))
      else if trapno = 33 then andthen (KeyboardHandler io s) (\<lambda>s1. ret (Done (), EOI io s1))
      else if trapno = 39 then
        let (isr_value, s1) = ReadISR io s
        in ret (Done (), if isr_value AND 0x80 \<noteq> 0 then EOI io s1 else s1)
      else if trapno = of_nat SYSTEM_CALL_INTERRUPT_NUMBER then SystemCall io tf s
      else if f tf_cs AND 3 = 3 then
        andthen (print (kline ''[Exception: %d][%x:%x]: Terminating process.'') [KInt trapno, KInt cr2, KInt (f tf_rip)] s) (\<lambda>s1.
        andthen (Exit s1) (\<lambda>s2. ret (Exited, s2)))
      else kernel_exception cr2 tf s)"

section \<open>The start of the kernel\<close>

text \<open>The result is the table \<open>LoadIDT\<close> gets, and the state when the boot code goes on as process 0.\<close>

definition KMain :: "(nat \<Rightarrow> u64) \<Rightarrow> u64 \<Rightarrow> 'd ports \<Rightarrow> ('d, 'z) io_kernel_scheme
    \<Rightarrow> ((nat \<Rightarrow> IDTEntry) \<times> ('d, 'z) io_kernel_scheme) kres" where
  "KMain vector syscall io s =
     (let idt = InitIDT vector syscall in
      andthen (print (kline ''Retrieve memory map:'') [] s) (\<lambda>s1.
      andthen (RetrieveMemoryInfo s1) (\<lambda>s2.
      andthen (InitMemory s2) (\<lambda>s3.
      andthen (InitFileSystem io s3) (\<lambda>s4.
      andthen (InitSystemCall s4) (\<lambda>s5.
      andthen (InitProcess s5) (\<lambda>s6.
      andthen (print (kline ''Finished kernel initialization. Welcome to LARVA-OS.'') [] s6) (\<lambda>s7.
      ret (idt, s7)))))))))"

end
