(* ===== verification/Process_Init.thy ===== *)
theory Process_Init
  imports Process_Wait
begin

text \<open>
  The start of the first two processes, \<open>InitProcess\<close> of \<open>kernel/process.c\<close>, on a kernel whose static
  variables are as the C code initialises them. The state it reaches shows that the hypotheses of
  the properties of \<open>Fork\<close> and \<open>Wait\<close> hold in the running system.
\<close>

section \<open>The idle process\<close>

definition fresh :: "'z kernel_scheme \<Rightarrow> bool" where
  "fresh s \<longleftrightarrow> (\<forall>i. proc s i = zero_process) \<and> queues (proc_lists s) (\<lambda>_. []) \<and> s_pid_num s = 1 \<and> counts UNIV s"

definition idle_spec :: sched where
  "idle_spec = \<lparr>running = 0, queue = \<lambda>_. [], wid = \<lambda>_. 0\<rparr>"

lemma InitIDLEProcess_ok:
  fixes s :: "'z kernel_scheme"
  assumes "fresh s"
  shows "\<exists>P. InitIDLEProcess s = ret (s\<lparr>s_process_manager := P, current_proc := 0\<rparr>)
     \<and> P 0 = zero_process\<lparr>p_page_map := PHY_TO_VIR (cr3 s), p_state := PROCESS_SLOT_RUNNING\<rparr>
     \<and> (\<forall>i. 0 < i \<longrightarrow> P i = zero_process)
     \<and> represents True (s\<lparr>s_process_manager := P, current_proc := 0\<rparr>) idle_spec"
proof -
  let ?p = "(proc s 0)\<lparr>p_pid := int IDLE_PROCESS_PID, p_page_map := PHY_TO_VIR (cr3 s), p_state := PROCESS_SLOT_RUNNING\<rparr>"
  let ?P = "(s_process_manager s)(0 := ?p)"
  let ?t = "s\<lparr>s_process_manager := ?P, current_proc := 0\<rparr>"
  have z: "proc s i = zero_process" for i using assms by (simp add: fresh_def)
  have "FindFreeProcessSlot s = Some 0" by (rule find_slot_0) (simp add: z zero_process_def)
  then have "InitIDLEProcess s = ret ?t" by (simp add: InitIDLEProcess_def set_proc_def)
  moreover have p0: "?P 0 = zero_process\<lparr>p_page_map := PHY_TO_VIR (cr3 s), p_state := PROCESS_SLOT_RUNNING\<rparr>"
    by (simp add: z zero_process_def IDLE_PROCESS_PID_def)
  moreover have "represents True ?t idle_spec"
  proof (rule representsI)
    show "queues (proc_lists ?t) (queue idle_spec)" using assms by (simp add: fresh_def idle_spec_def)
    show "i \<in> set (queue idle_spec q) \<longleftrightarrow> p_state (proc ?t i) = queue_state q" if "slot i" for i q
      using that by (cases q) (auto simp: idle_spec_def z zero_process_def slot_def)
    have use: "in_use ?t i \<longleftrightarrow> i = 0" for i
      by (auto simp: in_use_def z zero_process_def MAXIMUM_NUMBER_OF_PROCESS_def)
    show "pids_ok ?t" unfolding pids_ok_def use using assms by (auto simp: fresh_def IDLE_PROCESS_PID_def)
  qed (auto simp: idle_spec_def z zero_process_def MAXIMUM_NUMBER_OF_PROCESS_def)
  ultimately show ?thesis using z by (intro exI [of _ ?P]) auto
qed

section \<open>The init process\<close>

lemma find_slot_1:
  "p_state (proc s 0) \<noteq> PROCESS_SLOT_UNUSED \<Longrightarrow> p_state (proc s 1) = PROCESS_SLOT_UNUSED \<Longrightarrow> FindFreeProcessSlot s = Some 1"
  by (simp add: FindFreeProcessSlot_def MAXIMUM_NUMBER_OF_PROCESS_def upt_rec)

text \<open>The memory a process gets from \<open>CreateNewProcess\<close> and \<open>SetupUVM\<close>.\<close>

lemma create_load_ok:
  fixes s :: "'z kernel_scheme"
  assumes f: "free_pages s (k # r # a # b # p # d # e # ps)" and ok: "memory_ok s"
    and i: "FindFreeProcessSlot s = Some i"
    and img: "\<forall>q\<in>{k, r, a, b, p, d, e}. span img (nat (sint sz)) \<inter> page_span q = {}"
    and sz: "0 \<le> sint sz" "sint sz \<le> 2 ^ 21"
  shows "\<exists>t1 t2. CreateNewProcess s = ret (Some i, t1) \<and> created s i k r a b t1
     \<and> SetupUVM r img sz t1 = ret (True, t2) \<and> touches {r, p, d, e} t1 t2
     \<and> owns_user_page t2 r (user_tree (kernel_tree (kernel_pages s) a b) p d e) p ps
     \<and> k \<notin> insert p (set ps \<union> tables r (user_tree (kernel_tree (kernel_pages s) a b) p d e)) \<and> valid_page (l_kernel_end s) k
     \<and> (\<forall>x<2 ^ 21. mem t2 (p + of_nat x) = (if x < nat (sint sz) then mem s (img + of_nat x) else 0))"
proof -
  let ?T = "kernel_tree (kernel_pages s) a b" and ?all = "k # r # a # b # p # d # e # ps"
  let ?UT = "user_tree ?T p d e"
  from CreateNewProcess_ok [OF f ok i] obtain t1 where t1: "CreateNewProcess s = ret (Some i, t1)"
    "created s i k r a b t1" "space t1 r ?T (p # d # e # ps)" by blast
  note cd = createdD [OF t1(2)]
  have v: "valid_page (l_kernel_end s) q" if "q \<in> set ?all" for q using that f by (auto simp: free_pages_def)
  have dist: "distinct ?all" using f by (simp add: free_pages_def)
  have np: "\<not> present (?T L4 0)" using kernel_tree_L4 [of "kernel_pages s" a b 0] by auto
  have ke: "l_kernel_end t1 = l_kernel_end s" "KERNEL_VIRTUAL_ADDRESS_BASE \<le> l_kernel_end t1"
    using ok cd(6) by (simp_all add: memory_ok_def)
  have dis: "\<forall>q\<in>{r, p, d, e}. span img (nat (sint sz)) \<inter> page_span q = {}" using img by blast
  from SetupUVM_ok [OF t1(3) np ke(2) sz dis] obtain t2 where t2: "SetupUVM r img sz t1 = ret (True, t2)"
    "space t2 r ?UT ps" "touches {r, p, d, e} t1 t2"
    "\<forall>x<2 ^ 21. mem t2 (p + of_nat x) = (if x < nat (sint sz) then mem t1 (img + of_nat x) else 0)" by blast
  have ke2: "l_kernel_end t2 = l_kernel_end s" using touches_same(1) [OF t2(3)] ke by simp
  have "owns_user_page t2 r ?UT p ps"
    by (rule owns_user_pageI [OF t2(2) _ ke2]) (use v dist ke in auto)
  moreover have "tables r ?UT = {r, a, b, d, e}"
    using user_tree_tables(1) [where T = ?T and ke = "l_kernel_end s", OF np, of d e p r] v ke
      kernel_tree_tables [of "l_kernel_end s" a b r "kernel_pages s"] by auto
  then have "k \<notin> insert p (set ps \<union> tables r ?UT)" using dist by simp
  moreover have "mem t1 (img + of_nat x) = mem s (img + of_nat x)" if "x < nat (sint sz)" for x
  proof (rule cd(10))
    have "nat (sint sz) \<le> 2 ^ 64" using sz(2) by simp
    then have "img + of_nat x \<in> span img (nat (sint sz))" using that by simp
    then show "\<forall>q\<in>{k, r, a, b}. img + of_nat x \<notin> page_span q" using img by blast
  qed
  then have "\<forall>x<2 ^ 21. mem t2 (p + of_nat x) = (if x < nat (sint sz) then mem s (img + of_nat x) else 0)"
    using t2(4) by simp
  ultimately show ?thesis using t1(1,2) t2(1,3) v [of k] by (intro exI [of _ t1] exI [of _ t2]) auto
qed

lemma InitShellProcess_ok:
  fixes s :: "'z kernel_scheme"
  assumes f: "free_pages s (k # r # a # b # p # d # e # ps)" "memory_ok s" "FindFreeProcessSlot s = Some i"
    and img: "\<forall>q\<in>{k, r, a, b, p, d, e}. span (PHY_TO_VIR USER_INIT_PROCESS_ADDRESS_BASE) 10240 \<inter> page_span q = {}"
    and rep: "represents True s A" and cnt: "counts UNIV s"
  shows "\<exists>t. InitShellProcess s = ret t \<and> represents True t (enqueue Ready_list i (A\<lparr>wid := (wid A)(i := 0)\<rparr>)) \<and> counts UNIV t
     \<and> proc t = (proc s)(i := (new_process s i k)\<lparr>p_page_map := r, p_state := PROCESS_SLOT_READY\<rparr>)
     \<and> owns_memory t i (user_tree (kernel_tree (kernel_pages s) a b) p d e) p ps
     \<and> memory_ok t \<and> s_pid_num t = s_pid_num s + 1
     \<and> (\<forall>x<2 ^ 21. mem t (p + of_nat x) =
           (if x < 10240 then mem s (PHY_TO_VIR USER_INIT_PROCESS_ADDRESS_BASE + of_nat x) else 0))
     \<and> cr3 t = cr3 s \<and> screen_ok t = screen_ok s \<and> s_total_mem t = s_total_mem s
     \<and> s_free_memory_end_address t = s_free_memory_end_address s \<and> l_kernel_end t = l_kernel_end s
     \<and> (\<forall>x. (\<forall>q\<in>{k, r, a, b, p, d, e}. x \<notin> page_span q) \<longrightarrow> mem t x = mem s x)"
proof -
  let ?img = "PHY_TO_VIR USER_INIT_PROCESS_ADDRESS_BASE"
  let ?UT = "user_tree (kernel_tree (kernel_pages s) a b) p d e"
  have sz: "0 \<le> sint SIZE_OF_INIT_PROCCESS" "sint SIZE_OF_INIT_PROCCESS \<le> 2 ^ 21" "nat (sint SIZE_OF_INIT_PROCCESS) = 10240"
    by (simp_all add: SIZE_OF_INIT_PROCCESS_def)
  from create_load_ok [OF f _ sz(1,2), of ?img] img obtain t1 t2 where t: "CreateNewProcess s = ret (Some i, t1)"
    "created s i k r a b t1" "SetupUVM r ?img SIZE_OF_INIT_PROCCESS t1 = ret (True, t2)" "touches {r, p, d, e} t1 t2"
    "owns_user_page t2 r ?UT p ps" "k \<notin> insert p (set ps \<union> tables r ?UT)" "valid_page (l_kernel_end s) k"
    "\<forall>x<2 ^ 21. mem t2 (p + of_nat x) = (if x < 10240 then mem s (?img + of_nat x) else 0)" unfolding sz(3) by blast
  note cd = createdD [OF t(2)]
  obtain m h where m: "t2 = t1\<lparr>mem := m, s_free_memory_page_head := h\<rparr>" using t(4) by (rule touches_shape)
  have si: "i < MAXIMUM_NUMBER_OF_PROCESS" "p_state (proc s i) = PROCESS_SLOT_UNUSED"
    using FindFreeProcessSlot_Some [OF f(3)] by auto
  note r1 = represents_created [OF rep t(2) si]
  have "represents True t2 (A\<lparr>wid := (wid A)(i := 0)\<rparr>)"
    by (rule represents_cong [OF r1(1)]) (simp_all add: m)
  from make_ready [OF this r1(2)] obtain L where L:
    "push_list Ready_list i (set_state i PROCESS_SLOT_READY t2) = ret ((set_state i PROCESS_SLOT_READY t2)\<lparr>proc_lists := L\<rparr>)"
    "represents True ((set_state i PROCESS_SLOT_READY t2)\<lparr>proc_lists := L\<rparr>) (enqueue Ready_list i (A\<lparr>wid := (wid A)(i := 0)\<rparr>))"
    by (auto simp: m cd(1))
  let ?t = "(set_state i PROCESS_SLOT_READY t2)\<lparr>proc_lists := L\<rparr>"
  have run: "InitShellProcess s = ret ?t"
    using t(3) L(1) by (simp add: InitShellProcess_def t(1) cd(1))
  have proc: "proc ?t j = (if j = i then (new_process s i k)\<lparr>p_page_map := r, p_state := PROCESS_SLOT_READY\<rparr> else proc s j)" for j
    by (simp add: set_state_def m cd(1))
  have same: "l_kernel_end ?t = l_kernel_end s" "mem ?t = mem t2" "s_free_memory_page_head ?t = s_free_memory_page_head t2"
    "l_kernel_end t2 = l_kernel_end s" "s_free_memory_end_address ?t = s_free_memory_end_address t2" "s_pid_num ?t = s_pid_num t2"
    by (simp_all add: set_state_def set_proc_def m cd(6))
  have ends: "s_free_memory_end_address t2 = s_free_memory_end_address s"
    using t(2) by (auto simp: m created_def)
  have own: "p_page_map (proc ?t i) = r" "p_stack (proc ?t i) = k" unfolding proc by simp_all
  have "space t2 r ?UT ps" using t(5) unfolding owns_user_page_def by (rule conjunct1)
  then have "space ?t r ?UT ps" by (rule space_other_fields [OF _ same(2,3)]) (simp only: same)
  then have "owns_memory ?t i ?UT p ps"
    unfolding owns_memory_def owns_user_page_def own same using t(5-7) by (simp add: owns_user_page_def same)
  moreover have "counts UNIV ?t"
  proof (rule counts_cong [OF cnt])
    have "p_file (proc ?t q) j = p_file (proc s q) j" for q j unfolding proc by simp
    then show "file_of ?t u = file_of s u" for u by (simp add: file_of_def)
  qed (simp_all add: set_state_def set_proc_def m cd)
  moreover have "memory_ok ?t" using f(2) by (simp add: memory_ok_def same ends)
  moreover have "s_pid_num ?t = s_pid_num s + 1" by (simp add: m cd(2))
  moreover have "proc ?t = (proc s)(i := (new_process s i k)\<lparr>p_page_map := r, p_state := PROCESS_SLOT_READY\<rparr>)"
    using proc by (simp add: fun_eq_iff)
  moreover have "\<forall>x<2 ^ 21. mem ?t (p + of_nat x) = (if x < 10240 then mem s (?img + of_nat x) else 0)"
    using t(8) same by simp
  moreover have "cr3 ?t = cr3 s" using touches_same(2) [OF t(4)] t(2) by (auto simp: set_state_def set_proc_def created_def)
  moreover have "screen_ok ?t = screen_ok s" "s_total_mem ?t = s_total_mem s"
    using t(2) by (auto simp: set_state_def set_proc_def created_def screen_ok_def m)
  moreover note same(1) ends [folded same(5)]
  moreover have "mem ?t x = mem s x" if "\<forall>q\<in>{k, r, a, b, p, d, e}. x \<notin> page_span q" for x
    using touches_mem [OF t(4), of x] cd(10) [of x] that same(2) by auto
  ultimately show ?thesis using run L(2) by blast
qed

definition init_spec :: sched where
  "init_spec = enqueue Ready_list 1 (idle_spec\<lparr>wid := (wid idle_spec)(1 := 0)\<rparr>)"

lemma InitProcess_ok:
  fixes s :: "'z kernel_scheme"
  assumes "fresh s" "free_pages s (k # r # a # b # p # d # e # ps)" "memory_ok s"
    and "\<forall>q\<in>{k, r, a, b, p, d, e}. span (PHY_TO_VIR USER_INIT_PROCESS_ADDRESS_BASE) 10240 \<inter> page_span q = {}"
  shows "\<exists>t. InitProcess s = ret t \<and> represents True t init_spec \<and> counts UNIV t
     \<and> proc t 0 = zero_process\<lparr>p_page_map := PHY_TO_VIR (cr3 s), p_state := PROCESS_SLOT_RUNNING\<rparr>
     \<and> p_tf (proc t 1) = k + 0x1FFF50 \<and> p_stack (proc t 1) = k \<and> (\<forall>i. 1 < i \<longrightarrow> proc t i = zero_process)
     \<and> p_pid (proc t 1) = 1 \<and> owns_memory t 1 (user_tree (kernel_tree (kernel_pages s) a b) p d e) p ps
     \<and> (\<forall>i j. p_file (proc t i) j = None) \<and> memory_ok t
     \<and> (\<forall>x<2 ^ 21. mem t (p + of_nat x) =
           (if x < 10240 then mem s (PHY_TO_VIR USER_INIT_PROCESS_ADDRESS_BASE + of_nat x) else 0))
     \<and> cr3 t = cr3 s \<and> screen_ok t = screen_ok s \<and> s_total_mem t = s_total_mem s
     \<and> s_free_memory_end_address t = s_free_memory_end_address s \<and> l_kernel_end t = l_kernel_end s
     \<and> (\<forall>x. (\<forall>q\<in>{k, r, a, b, p, d, e}. x \<notin> page_span q) \<longrightarrow> mem t x = mem s x)"
proof -
  from InitIDLEProcess_ok [OF assms(1)] obtain P where P: "InitIDLEProcess s = ret (s\<lparr>s_process_manager := P, current_proc := 0\<rparr>)"
    "P 0 = zero_process\<lparr>p_page_map := PHY_TO_VIR (cr3 s), p_state := PROCESS_SLOT_RUNNING\<rparr>"
    "\<forall>i. 0 < i \<longrightarrow> P i = zero_process"
    "represents True (s\<lparr>s_process_manager := P, current_proc := 0\<rparr>) idle_spec" by blast
  let ?s1 = "s\<lparr>s_process_manager := P, current_proc := 0\<rparr>"
  have f: "free_pages ?s1 (k # r # a # b # p # d # e # ps)" "memory_ok ?s1" "kernel_pages ?s1 = kernel_pages s" "screen_ok ?s1 = screen_ok s"
    using assms(2,3) by (simp_all add: free_pages_def memory_ok_def kernel_pages_def screen_ok_def)
  have slot: "FindFreeProcessSlot ?s1 = Some 1" by (rule find_slot_1) (simp_all add: P(2,3) zero_process_def)
  have z: "p_file (P i) j = None" for i j using P(2,3) by (cases "i = 0") (simp_all add: zero_process_def)
  have cnt: "counts UNIV ?s1"
  proof (rule counts_cong)
    show "counts UNIV s" using assms(1) by (simp add: fresh_def)
    show "file_of ?s1 u = file_of s u" for u
      using assms(1) z by (simp add: file_of_def fresh_def) (simp add: zero_process_def)
  qed simp_all
  from InitShellProcess_ok [OF f(1,2) slot assms(4) P(4) cnt] obtain t where t: "InitShellProcess ?s1 = ret t"
    "represents True t init_spec" "counts UNIV t"
    "proc t = P(1 := (new_process ?s1 1 k)\<lparr>p_page_map := r, p_state := PROCESS_SLOT_READY\<rparr>)"
    "owns_memory t 1 (user_tree (kernel_tree (kernel_pages s) a b) p d e) p ps" "memory_ok t"
    "\<forall>x<2 ^ 21. mem t (p + of_nat x) =
       (if x < 10240 then mem s (PHY_TO_VIR USER_INIT_PROCESS_ADDRESS_BASE + of_nat x) else 0)"
    "cr3 t = cr3 s" "screen_ok t = screen_ok s" "s_total_mem t = s_total_mem s"
    "s_free_memory_end_address t = s_free_memory_end_address s" "l_kernel_end t = l_kernel_end s" "\<forall>x. (\<forall>q\<in>{k, r, a, b, p, d, e}. x \<notin> page_span q) \<longrightarrow> mem t x = mem s x"
    unfolding f(3,4) init_spec_def by auto
  have "InitProcess s = ret t" using P(1) t(1) by (simp add: InitProcess_def)
  moreover have "proc t 0 = zero_process\<lparr>p_page_map := PHY_TO_VIR (cr3 s), p_state := PROCESS_SLOT_RUNNING\<rparr>"
    "p_tf (proc t 1) = k + 0x1FFF50" "p_stack (proc t 1) = k" "\<forall>i. 1 < i \<longrightarrow> proc t i = zero_process"
    using t(4) P(2,3) by simp_all
  moreover have "p_pid (proc t 1) = 1" using assms(1) t(4) by (simp add: fresh_def)
  moreover have "p_file (proc t i) j = None" for i j using t(4) z by (cases "i = 1") simp_all
  ultimately show ?thesis using t by blast
qed

text \<open>
  The kernel reaches its first process: from the initial static variables, seven free
  pages and the program image in memory, \<open>InitProcess\<close> returns; the idle process runs, the init
  process is alone in the ready queue with process number 1, its user page holds the image and zeros
  behind it, it owns its kernel stack, its page and its page tables, no file is open, and the
  invariants of the scheduler and of the file tables hold.
\<close>

theorem InitProcess_starts_init:
  fixes s :: "'z kernel_scheme"
  assumes "fresh s" "free_pages s (k # r # a # b # p # d # e # ps)" "memory_ok s"
    and "\<forall>q\<in>{k, r, a, b, p, d, e}. span (PHY_TO_VIR USER_INIT_PROCESS_ADDRESS_BASE) 10240 \<inter> page_span q = {}"
  shows "\<exists>t. InitProcess s = ret t \<and> represents True t init_spec \<and> counts UNIV t
     \<and> p_pid (proc t 1) = 1 \<and> owns_memory t 1 (user_tree (kernel_tree (kernel_pages s) a b) p d e) p ps
     \<and> (\<forall>i j. p_file (proc t i) j = None) \<and> memory_ok t
     \<and> (\<forall>x<2 ^ 21. mem t (p + of_nat x) =
           (if x < 10240 then mem s (PHY_TO_VIR USER_INIT_PROCESS_ADDRESS_BASE + of_nat x) else 0))"
  using InitProcess_ok [OF assms] by blast

section \<open>The running system meets the hypotheses\<close>

definition booted :: kernel where
  "booted = boot_kernel (free_kernel 14)"

lemma booted:
  "fresh booted" "memory_ok booted"
  "free_pages booted (map kernel_page [13, 12, 11, 10, 9, 8, 7, 6, 5, 4, 3, 2, 1, 0])"
  "n < 14 \<Longrightarrow> span (PHY_TO_VIR USER_INIT_PROCESS_ADDRESS_BASE) 10240 \<inter> page_span (kernel_page n) = {}"
proof -
  have "file_of booted u = None" for u by (simp add: file_of_def booted_def zero_process_def)
  then have "counts UNIV booted"
    by (simp add: counts_def fd_users_def fcb_users_def fcb_of_def booted_def zero_FD_def zero_FCB_def)
  then show "fresh booted" using queues_empty by (simp add: fresh_def booted_def empty_links_def)
  show "memory_ok booted" using free_kernel(2) [of 14] by (simp add: booted_def)
  have f: "free_pages (free_kernel 14) (rev (map kernel_page [0..<14]))" by (rule free_kernel(1)) simp_all
  then show "free_pages booted (map kernel_page [13, 12, 11, 10, 9, 8, 7, 6, 5, 4, 3, 2, 1, 0])"
    by (simp add: booted_def upt_rec numeral_eq_Suc)
  assume "n < 14"
  then have v: "valid_page 0xFFFF800000200000 (kernel_page n)" using f by (simp add: free_pages_def free_kernel(3))
  have "span (PHY_TO_VIR USER_INIT_PROCESS_ADDRESS_BASE) 10240 \<subseteq> page_span 0xFFFF800000000000"
    using span_subset [of "0x20000" 10240 "2 ^ 21" "0xFFFF800000000000"]
    by (simp add: page_span_def PHY_TO_VIR_def USER_INIT_PROCESS_ADDRESS_BASE_def KERNEL_VIRTUAL_ADDRESS_BASE_def)
  moreover have "page_span 0xFFFF800000000000 \<inter> page_span (kernel_page n) = {}"
    using v by (intro page_spans_disjoint) (auto simp: valid_page_def aligned_def)
  ultimately show "span (PHY_TO_VIR USER_INIT_PROCESS_ADDRESS_BASE) 10240 \<inter> page_span (kernel_page n) = {}" by blast
qed

abbreviation init_tree :: tree where
  "init_tree \<equiv> user_tree (kernel_tree (kernel_pages booted) (kernel_page 11) (kernel_page 10)) (kernel_page 9) (kernel_page 8) (kernel_page 7)"

lemma booted_init:
  "\<exists>t. InitProcess booted = ret t \<and> represents True t init_spec \<and> counts UNIV t
     \<and> p_state (proc t 0) = PROCESS_SLOT_RUNNING \<and> p_pid (proc t 0) = 0 \<and> p_wait_id (proc t 0) = 0
     \<and> p_tf (proc t 1) = kernel_page 13 + 0x1FFF50 \<and> p_stack (proc t 1) = kernel_page 13 \<and> (\<forall>i. 1 < i \<longrightarrow> proc t i = zero_process)
     \<and> p_pid (proc t 1) = 1 \<and> owns_memory t 1 init_tree (kernel_page 9) (map kernel_page [6, 5, 4, 3, 2, 1, 0])
     \<and> (\<forall>i j. p_file (proc t i) j = None) \<and> memory_ok t"
proof -
  let ?P = kernel_page
  have "free_pages booted (?P 13 # ?P 12 # ?P 11 # ?P 10 # ?P 9 # ?P 8 # ?P 7 # map ?P [6, 5, 4, 3, 2, 1, 0])"
    using booted(3) by simp
  moreover have "\<forall>q\<in>{?P 13, ?P 12, ?P 11, ?P 10, ?P 9, ?P 8, ?P 7}.
      span (PHY_TO_VIR USER_INIT_PROCESS_ADDRESS_BASE) 10240 \<inter> page_span q = {}"
    using booted(4) by simp
  ultimately show ?thesis
    using InitProcess_ok [OF booted(1) _ booted(2), of "?P 13" "?P 12" "?P 11" "?P 10" "?P 9" "?P 8" "?P 7"]
    by (fastforce simp: zero_process_def)
qed

theorem InitProcess_starts_init_witness:
  "\<exists>t. InitProcess booted = ret t \<and> represents True t init_spec \<and> p_pid (proc t 1) = 1
     \<and> mem t (kernel_page 9 + of_nat 20000) = 0"
proof -
  let ?P = kernel_page
  have "free_pages booted (?P 13 # ?P 12 # ?P 11 # ?P 10 # ?P 9 # ?P 8 # ?P 7 # map ?P [6, 5, 4, 3, 2, 1, 0])"
    using booted(3) by simp
  moreover have "\<forall>q\<in>{?P 13, ?P 12, ?P 11, ?P 10, ?P 9, ?P 8, ?P 7}.
      span (PHY_TO_VIR USER_INIT_PROCESS_ADDRESS_BASE) 10240 \<inter> page_span q = {}"
    using booted(4) by simp
  ultimately obtain t where "InitProcess booted = ret t" "represents True t init_spec" "p_pid (proc t 1) = 1"
    "\<forall>x<2 ^ 21. mem t (?P 9 + of_nat x) =
       (if x < 10240 then mem booted (PHY_TO_VIR USER_INIT_PROCESS_ADDRESS_BASE + of_nat x) else 0)"
    using InitProcess_starts_init [OF booted(1) _ booted(2)] by blast
  then show ?thesis by (intro exI [of _ t]) (simp del: of_nat_numeral)
qed

text \<open>The init process runs; the init process is killed. Both are variants of the state above.\<close>

definition no_links :: "(queue_name, nat) links" where
  "no_links = \<lparr>lnext = \<lambda>_. None, ltail = \<lambda>_. None\<rparr>"

definition run_init :: "kernel \<Rightarrow> kernel" where
  "run_init t = (set_state 1 PROCESS_SLOT_RUNNING (set_state 0 PROCESS_SLOT_READY t))\<lparr>current_proc := 1, proc_lists := no_links\<rparr>"

definition kill_init :: "kernel \<Rightarrow> kernel" where
  "kill_init t = (set_state 1 PROCESS_SLOT_KILLED t)\<lparr>proc_lists := \<lparr>lnext = [Head Kill_list \<mapsto> 1], ltail = [Kill_list \<mapsto> Node 1]\<rparr>\<rparr>"

definition killed_spec :: sched where
  "killed_spec = idle_spec\<lparr>queue := (\<lambda>_. [])(Kill_list := [1])\<rparr>"

lemma init_variant:
  assumes r: "represents True t init_spec" and z: "\<forall>i. 1 < i \<longrightarrow> proc t i = zero_process"
    and same: "s_pid_num u = s_pid_num t" "\<And>i. p_pid (proc u i) = p_pid (proc t i) \<and> p_wait_id (proc u i) = p_wait_id (proc t i)"
      "\<And>i. 1 < i \<Longrightarrow> proc u i = proc t i" "p_state (proc u 0) \<noteq> PROCESS_SLOT_UNUSED" "p_state (proc u 1) \<noteq> PROCESS_SLOT_UNUSED"
    and spec: "queues (proc_lists u) (queue a)" "current_proc u = running a" "running a < 2" "wid a = wid init_spec"
      "\<And>q. set (queue a q) \<subseteq> {1}" "\<And>q. 1 \<in> set (queue a q) \<longleftrightarrow> p_state (proc u 1) = queue_state q"
      "\<And>i. i < 2 \<Longrightarrow> p_state (proc u i) = PROCESS_SLOT_RUNNING \<longleftrightarrow> i = running a"
  shows "represents True u a"
proof (rule representsI)
  have st: "p_state (proc u i) = PROCESS_SLOT_UNUSED" if "1 < i" for i
    using that z same(3) [OF that] by (simp add: zero_process_def)
  have "p_state (proc t 0) \<noteq> PROCESS_SLOT_UNUSED" using representsD(6) [OF r, of 0]
    by (auto simp: init_spec_def idle_spec_def enqueue_def MAXIMUM_NUMBER_OF_PROCESS_def)
  moreover have "p_state (proc t 1) \<noteq> PROCESS_SLOT_UNUSED" using representsD(5) [OF r, of 1 Ready_list]
    by (auto simp: init_spec_def enqueue_def slot_def MAXIMUM_NUMBER_OF_PROCESS_def)
  moreover have "i = 0 \<or> i = 1 \<or> 1 < i" for i :: nat by auto
  ultimately have "in_use u i \<longleftrightarrow> in_use t i" for i using same(3-5) unfolding in_use_def by metis
  then show "pids_ok u" by (intro pids_ok_cong [OF representsD(8) [OF r]]) (use same in auto)
  show "i \<in> set (queue a q) \<Longrightarrow> slot i" for i q using spec(5) [of q] by (auto simp: slot_def MAXIMUM_NUMBER_OF_PROCESS_def)
  show "i \<in> set (queue a q) \<longleftrightarrow> p_state (proc u i) = queue_state q" if "slot i" for i q
  proof (cases "i = 1")
    case False
    then have "1 < i" using that by (simp add: slot_def)
    then show ?thesis using st spec(5) [of q] by auto
  qed (use spec(6) in simp)
  show "p_state (proc u i) = PROCESS_SLOT_RUNNING \<longleftrightarrow> True \<and> i = running a" for i
  proof (cases "i < 2")
    case False
    then show ?thesis using st [of i] spec(3) by auto
  qed (use spec(7) in simp)
  show "p_wait_id (proc u i) = wid a i" if "i < MAXIMUM_NUMBER_OF_PROCESS" for i
    using same(2) representsD(7) [OF r that] spec(4) by simp
  show "running a < MAXIMUM_NUMBER_OF_PROCESS" using spec(3) by (simp add: MAXIMUM_NUMBER_OF_PROCESS_def)
qed (use spec in auto)

lemma run_init:
  assumes "represents True t init_spec" "\<forall>i. 1 < i \<longrightarrow> proc t i = zero_process"
  shows "represents True (run_init t) (idle_spec\<lparr>running := 1\<rparr>)"
proof (rule init_variant [OF assms])
  show "queues (proc_lists (run_init t)) (queue (idle_spec\<lparr>running := 1\<rparr>))"
    using queues_empty by (simp add: run_init_def idle_spec_def no_links_def empty_links_def)
  show "1 \<in> set (queue (idle_spec\<lparr>running := 1\<rparr>) q) \<longleftrightarrow> p_state (proc (run_init t) 1) = queue_state q" for q
    by (simp add: run_init_def idle_spec_def)
  show "p_state (proc (run_init t) i) = PROCESS_SLOT_RUNNING \<longleftrightarrow> i = running (idle_spec\<lparr>running := 1\<rparr>)" if "i < 2" for i
    using that by (auto simp: run_init_def less_2_cases_iff)
qed (simp_all add: run_init_def idle_spec_def init_spec_def enqueue_def set_state_def set_proc_def fun_upd_idem)

lemma kill_init:
  assumes "represents True t init_spec" "\<forall>i. 1 < i \<longrightarrow> proc t i = zero_process" "p_state (proc t 0) = PROCESS_SLOT_RUNNING"
  shows "represents True (kill_init t) killed_spec"
proof (rule init_variant [OF assms(1,2)])
  show "queues (proc_lists (kill_init t)) (queue killed_spec)"
    by (auto simp: queues_def hseg_def kill_init_def killed_spec_def)
  show "1 \<in> set (queue killed_spec q) \<longleftrightarrow> p_state (proc (kill_init t) 1) = queue_state q" for q
    by (cases q) (simp_all add: kill_init_def killed_spec_def)
  show "set (queue killed_spec q) \<subseteq> {1}" for q by (cases q) (simp_all add: killed_spec_def idle_spec_def)
  show "current_proc (kill_init t) = running killed_spec"
    using representsD(2) [OF assms(1)] by (simp add: kill_init_def killed_spec_def init_spec_def enqueue_def idle_spec_def)
  show "p_state (proc (kill_init t) i) = PROCESS_SLOT_RUNNING \<longleftrightarrow> i = running killed_spec" if "i < 2" for i
    using that assms(3) by (auto simp: kill_init_def less_2_cases_iff killed_spec_def idle_spec_def)
qed (simp_all add: kill_init_def idle_spec_def killed_spec_def init_spec_def enqueue_def set_state_def set_proc_def fun_upd_idem assms(3))

lemma owns_memory_variant:
  assumes "owns_memory t i C u ps" "mem t' = mem t" "l_kernel_end t' = l_kernel_end t"
    "s_free_memory_page_head t' = s_free_memory_page_head t" "p_page_map (proc t' i) = p_page_map (proc t i)"
    "p_stack (proc t' i) = p_stack (proc t i)"
  shows "owns_memory t' i C u ps"
  using assms space_other_fields [of t "p_page_map (proc t i)" C ps t'] unfolding owns_memory_def owns_user_page_def by simp

theorem fork_child_resumes_witness:
  "\<exists>s s1. InitProcess booted = ret s \<and> Fork (run_init s) = ret (s_pid_num s, s1) \<and> counts UNIV s1
     \<and> represents True s1 (enqueue Ready_list 2 (idle_spec\<lparr>running := 1\<rparr>))"
proof -
  let ?P = kernel_page
  from booted_init obtain t where t: "InitProcess booted = ret t" "represents True t init_spec" "counts UNIV t"
    "p_tf (proc t 1) = ?P 13 + 0x1FFF50" "\<forall>i. 1 < i \<longrightarrow> proc t i = zero_process"
    "owns_memory t 1 init_tree (?P 9) (map ?P [6, 5, 4, 3, 2, 1, 0])" "\<forall>i j. p_file (proc t i) j = None" "memory_ok t"
    "p_stack (proc t 1) = ?P 13" by blast
  let ?s = "run_init t"
  have cur: "current_proc ?s = 1" by (simp add: run_init_def)
  have mem: "mem ?s = mem t" "l_kernel_end ?s = l_kernel_end t" "s_free_memory_page_head ?s = s_free_memory_page_head t"
    "s_free_memory_end_address ?s = s_free_memory_end_address t"
    by (simp_all add: run_init_def set_state_def set_proc_def)
  have slots: "p_page_map (proc ?s 1) = p_page_map (proc t 1)" "p_stack (proc ?s 1) = p_stack (proc t 1)"
    by (simp_all add: run_init_def)
  have tf: "p_tf (proc ?s 1) = p_tf (proc t 1)" by (simp add: run_init_def set_state_def set_proc_def)
  have own: "owns_memory ?s 1 init_tree (?P 9) (map ?P [6, 5, 4, 3, 2, 1, 0])"
    by (rule owns_memory_variant [OF t(6)]) (simp_all only: mem slots)
  have no_file: "p_file (proc ?s i) j = None" for i j using t(7) by (simp add: run_init_def)
  have "counts UNIV ?s"
    by (rule counts_cong [OF t(3)]) (use t(7) no_file in \<open>auto simp: file_of_def run_init_def set_state_def set_proc_def\<close>)
  moreover have "FindFreeProcessSlot ?s = Some 2"
    using t(5) by (simp add: FindFreeProcessSlot_def MAXIMUM_NUMBER_OF_PROCESS_def upt_rec run_init_def zero_process_def)
  moreover have "span (?P 13 + 0x1FFF50) 176 \<inter> page_span q = {}" if "q \<in> set (map ?P [6, 5, 4, 3, 2, 1, 0])" for q
  proof -
    have "span (?P 13 + 0x1FFF50) 176 \<subseteq> page_span (?P 13)"
      using span_subset [of "0x1FFF50" 176 "2 ^ 21" "?P 13"] by (simp add: page_span_def)
    moreover have "page_span (?P 13) \<inter> page_span q = {}"
    proof (rule valid_pages_disjoint)
      have "valid_page (l_kernel_end t) (?P 13)" "?P 13 \<notin> set (map ?P [6, 5, 4, 3, 2, 1, 0])"
        using t(6) unfolding owns_memory_def t(9) by simp_all
      then show "valid_page (l_kernel_end t) (?P 13)" "?P 13 \<noteq> q" using that by auto
      have "free_pages t (map ?P [6, 5, 4, 3, 2, 1, 0])"
        using t(6) unfolding owns_memory_def owns_user_page_def space_def by blast
      then show "valid_page (l_kernel_end t) q" using that unfolding free_pages_def by blast
    qed
    ultimately show ?thesis by blast
  qed
  moreover have "memory_ok ?s" using t(8) by (simp add: memory_ok_def mem)
  moreover have "owns_user_page ?s (p_page_map (proc ?s 1)) init_tree (?P 9) (map ?P [6, 5, 4, 3, 2, 1, 0])"
    using own unfolding owns_memory_def by blast
  ultimately have "can_fork ?s (idle_spec\<lparr>running := 1\<rparr>) init_tree (?P 9) (map ?P [6, 5, 4, 3, 2, 1, 0]) [] 2"
    using run_init [OF t(2,5)] no_file unfolding can_fork_def cur tf t(4) append_Nil2 by (intro conjI) simp_all
  then have "can_fork ?s (idle_spec\<lparr>running := 1\<rparr>) init_tree (?P 9) [?P 6, ?P 5, ?P 4, ?P 3, ?P 2, ?P 1, ?P 0] [] 2" by simp
  from fork_child_resumes [OF this] obtain s1 where "Fork ?s = ret (s_pid_num ?s, s1)" "counts UNIV s1"
    "represents True s1 (enqueue Ready_list 2 ((idle_spec\<lparr>running := 1\<rparr>)\<lparr>wid := (wid (idle_spec\<lparr>running := 1\<rparr>))(2 := 0)\<rparr>))"
    by blast
  moreover have "(idle_spec\<lparr>running := 1\<rparr>)\<lparr>wid := (wid (idle_spec\<lparr>running := 1\<rparr>))(2 := 0)\<rparr> = idle_spec\<lparr>running := 1\<rparr>"
    by (simp add: idle_spec_def fun_upd_idem)
  moreover have "s_pid_num ?s = s_pid_num t" by (simp add: run_init_def)
  ultimately show ?thesis using t(1) by auto
qed

theorem Wait_takes_everything_back_witness:
  "\<exists>s t qs. InitProcess booted = ret s \<and> Wait 1 (kill_init s) = ret (True, t) \<and> free_pages t qs
     \<and> kernel_page 9 \<in> set qs \<and> kernel_page 13 \<in> set qs \<and> p_state (proc t 1) = PROCESS_SLOT_UNUSED"
proof -
  let ?P = kernel_page
  from booted_init obtain t where t: "InitProcess booted = ret t" "represents True t init_spec" "counts UNIV t"
    "\<forall>i. 1 < i \<longrightarrow> proc t i = zero_process" "p_pid (proc t 1) = 1" "p_state (proc t 0) = PROCESS_SLOT_RUNNING"
    "owns_memory t 1 init_tree (?P 9) (map ?P [6, 5, 4, 3, 2, 1, 0])" "\<forall>i j. p_file (proc t i) j = None"
    "p_stack (proc t 1) = ?P 13" by blast
  let ?s = "kill_init t"
  have "owns_memory ?s 1 init_tree (?P 9) (map ?P [6, 5, 4, 3, 2, 1, 0])"
    by (rule owns_memory_variant [OF t(7)]) (simp_all add: kill_init_def set_state_def set_proc_def)
  moreover have "counts UNIV ?s"
    by (rule counts_cong [OF t(3)]) (auto simp: file_of_def kill_init_def set_state_def set_proc_def)
  moreover have "files_below_start ?s" using t(8) by (simp add: files_below_start_def kill_init_def)
  moreover have "kill_match 1 ?s killed_spec = Some 1" using t(5) by (simp add: kill_match_def killed_spec_def kill_init_def)
  moreover have "p_stack (proc ?s 1) = ?P 13" using t(9) by (simp add: kill_init_def)
  ultimately obtain u qs where "Wait 1 ?s = ret (True, u)" "free_pages u qs" "p_state (proc u 1) = PROCESS_SLOT_UNUSED"
    "{?P 9, ?P 13} \<subseteq> set qs"
    using Wait_takes_everything_back [OF kill_init [OF t(2,4,6)], of 1 1 init_tree "?P 9"] by fastforce
  then show ?thesis using t(1) by auto
qed

theorem Wait_sleeps_witness:
  "\<exists>t. Wait 2 three_processes = ret (False, t) \<and> current_proc t = 2"
proof -
  have "running three_spec \<noteq> 0" "queue three_spec Kill_list = []" by (simp_all add: three_spec_def)
  from Wait_sleeps [OF three_processes this, of 2] obtain t where t: "Wait 2 three_processes = ret (False, t)"
    "represents True t (sched_spec (Do_sleep INIT_PROCESS_WAIT_ID) three_spec)" by blast
  from representsD(2) [OF t(2)] have "current_proc t = 2" by (simp add: three_spec_def dispatch_def enqueue_def)
  with t(1) show ?thesis by blast
qed

theorem Wait_spins_witness: "\<exists>s. InitProcess booted = ret s \<and> Wait 9 (kill_init s) = diverges"
proof -
  from booted_init obtain t where t: "InitProcess booted = ret t" "represents True t init_spec"
    "\<forall>i. 1 < i \<longrightarrow> proc t i = zero_process" "p_pid (proc t 1) = 1" "p_state (proc t 0) = PROCESS_SLOT_RUNNING" by blast
  have "queue killed_spec Kill_list \<noteq> []" by (simp add: killed_spec_def)
  moreover have "kill_match 9 (kill_init t) killed_spec = None"
    using t(4) by (simp add: kill_match_def killed_spec_def kill_init_def)
  ultimately show ?thesis using Wait_spins [OF kill_init [OF t(2,3,5)]] t(1) by blast
qed

end
