(* ===== verification/System_Interface.thy ===== *)
theory System_Interface
  imports Trap Process_Init
begin

text \<open>
  What a user program can make the kernel do through its gates: which interrupts it may raise, what a
  system call number does, how long \<open>SysSleep\<close> sleeps.
\<close>

section \<open>The descriptor table\<close>

text \<open>What the processor reads from a gate: present, the privilege that may raise it, the handler.\<close>

definition gate_present :: "IDTEntry \<Rightarrow> bool" where
  "gate_present e \<longleftrightarrow> bit (i_attr e) 7"

definition gate_dpl :: "IDTEntry \<Rightarrow> nat" where
  "gate_dpl e = unat (take_bit 2 (drop_bit 5 (i_attr e)))"

definition gate_handler :: "IDTEntry \<Rightarrow> u64" where
  "gate_handler e = ucast (i_low e) OR push_bit 16 (ucast (i_mid e)) OR push_bit 32 (ucast (i_high e))"

lemma split_address: "ucast (ucast a :: u16) OR push_bit 16 (ucast (ucast (drop_bit 16 a) :: u16))
    OR push_bit 32 (ucast (ucast (drop_bit 32 a) :: u32)) = (a :: u64)"
proof (rule bit_word_eqI)
  fix n
  assume "n < LENGTH(64)"
  moreover have "16 \<le> n \<Longrightarrow> \<not> 32 \<le> n \<Longrightarrow> n - 16 < 16" by linarith
  moreover have "32 \<le> n \<Longrightarrow> n < 64 \<Longrightarrow> n - 32 < 32 \<and> n - 32 < 64 \<and> \<not> n - 16 < 16" by linarith
  moreover have "n < 16 \<or> 16 \<le> n" "n < 16 \<Longrightarrow> \<not> 32 \<le> n" by linarith+
  ultimately show "bit (ucast (ucast a :: u16) OR push_bit 16 (ucast (ucast (drop_bit 16 a) :: u16))
    OR push_bit 32 (ucast (ucast (drop_bit 32 a) :: u32)) :: u64) n \<longleftrightarrow> bit a n"
    by (cases "32 \<le> n"; cases "16 \<le> n") (simp_all add: bit_or_iff bit_push_bit_iff bit_ucast_iff bit_drop_bit_eq)
qed

lemma fold_update:
  "distinct xs \<Longrightarrow> fold (\<lambda>n t. t(n := f n (t n))) xs t k = (if k \<in> set xs then f k (t k) else t k)"
  by (induction xs arbitrary: t) auto

lemma InitIDT_entry:
  "InitIDT vector syscall n =
     (if n = 0x80 then InitIDTEntry syscall 0xEE zero_IDTEntry
      else if n \<in> set vectors then InitIDTEntry (vector n) 0x8E zero_IDTEntry else zero_IDTEntry)"
proof -
  have "distinct vectors" "(0x80 :: nat) \<notin> set vectors" by (simp_all add: vectors_def)
  note fold = fold_update [OF this(1), of "\<lambda>n. InitIDTEntry (vector n) 0x8E" "\<lambda>_. zero_IDTEntry"]
  show ?thesis using \<open>0x80 \<notin> set vectors\<close>
    by (simp add: InitIDT_def Let_def SYSTEM_CALL_INTERRUPT_NUMBER_def fold)
qed

section \<open>The table of system calls\<close>

definition registered :: "nat \<Rightarrow> SYSTEM_CALL option" where
  "registered n = map_option snd (find (\<lambda>(num, f). unat num = n) system_calls)"

lemma registered_None: "12 \<le> n \<Longrightarrow> registered n = None"
  by (auto simp: registered_def system_calls_def)

lemma registered_nth: "n < 12 \<Longrightarrow> registered n = Some (snd (system_calls ! n))"
proof -
  have "list_all (\<lambda>k. registered k = Some (snd (system_calls ! k))) [0..<12]"
    by (simp add: registered_def system_calls_def upt_rec)
  then show "n < 12 \<Longrightarrow> registered n = Some (snd (system_calls ! n))" by (simp add: list_all_iff)
qed

text \<open>Any list of distinct numbers below 20 can be registered in an empty table.\<close>

lemma register_all:
  "distinct (map fst cs) \<Longrightarrow> \<forall>(num, f)\<in>set cs. int (unat num) < MAXIMUM_SYSTEM_CALLS \<and> s_syscall_table s (unat num) = None
   \<Longrightarrow> for_each (\<lambda>(num, f). RegisterSystemCall num f) cs s
      = ret (s\<lparr>s_syscall_table := \<lambda>n. case find (\<lambda>(num, f). unat num = n) cs of None \<Rightarrow> s_syscall_table s n | Some c \<Rightarrow> Some (snd c)\<rparr>)"
proof (induction cs arbitrary: s)
  case Nil
  then show ?case by simp
next
  case (Cons c cs)
  obtain num f where c: "c = (num, f)" by fastforce
  let ?s = "s\<lparr>s_syscall_table := (s_syscall_table s)(unat num := Some f)\<rparr>"
  have new: "unat n \<noteq> unat num" if "(n, g) \<in> set cs" for n g
    using Cons.prems(1) that c by (force simp: word_unat_eq_iff)
  have reg: "RegisterSystemCall num f s = ret ?s" using Cons.prems(2) by (simp add: RegisterSystemCall_def c)
  have "\<forall>(n, g)\<in>set cs. int (unat n) < MAXIMUM_SYSTEM_CALLS \<and> s_syscall_table ?s (unat n) = None"
    using Cons.prems(2) new by (auto simp: c)
  note IH = Cons.IH [OF _ this]
  have "find (\<lambda>(n, g). unat n = unat num) cs = None" using new by (auto simp: find_None_iff)
  then show ?case using IH Cons.prems(1) by (auto simp: c reg intro!: arg_cong [where f = "\<lambda>t. s\<lparr>s_syscall_table := t\<rparr>"] ext split: option.split)
qed

lemma InitSystemCall_ok:
  "s_syscall_table s = (\<lambda>_. None) \<Longrightarrow> InitSystemCall s = ret (s\<lparr>s_syscall_table := registered\<rparr>)"
  unfolding InitSystemCall_def
  by (subst register_all) (auto simp: system_calls_def MAXIMUM_SYSTEM_CALLS_def registered_def fun_eq_iff split: option.split)

section \<open>Sleeping\<close>

text \<open>
  Timer interrupts while process \<open>p\<close> is in a system call: after each one the call goes on when \<open>p\<close> is
  the process that runs.
\<close>

primrec timer_rounds :: "'d ports \<Rightarrow> nat \<Rightarrow> nat \<Rightarrow> int outcome \<times> ('d, 'z) io_kernel_scheme
    \<Rightarrow> (int outcome \<times> ('d, 'z) io_kernel_scheme) kres" where
  "timer_rounds io p 0 c = ret c"
| "timer_rounds io p (Suc k) c =
     (case c of
        (Blocked b, s) \<Rightarrow>
          andthen (tick io s) (\<lambda>s1.
            if current_proc s1 = p then andthen (resume b s1) (timer_rounds io p k)
            else timer_rounds io p k (Blocked b, s1))
      | _ \<Rightarrow> ret c)"

text \<open>Nobody else waits for the timer.\<close>

definition no_sleepers :: "sched \<Rightarrow> bool" where
  "no_sleepers a \<longleftrightarrow> (\<forall>i\<in>set (queue a Wait_list). wid a i \<noteq> NORMAL_PROCESS_WAIT_ID)"

lemma rouse_no_sleepers: "no_sleepers a \<Longrightarrow> rouse NORMAL_PROCESS_WAIT_ID a = a"
  by (cases a) (auto simp: no_sleepers_def rouse_def filter_id_conv filter_empty_conv)

lemma tick_ok:
  fixes s :: "('d, 'z) io_kernel_scheme"
  assumes r: "represents True s a"
  shows "\<exists>t. tick io s = ret t \<and> represents True t (sched_spec Do_yield (rouse NORMAL_PROCESS_WAIT_ID a))
     \<and> s_system_ticks t = s_system_ticks s + 1"
proof -
  let ?s = "s\<lparr>s_system_ticks := s_system_ticks s + 1\<rparr>"
  have "represents True ?s a" by (rule represents_cong [OF r]) simp_all
  from Wakeup_ok [OF this] obtain v where v: "Wakeup NORMAL_PROCESS_WAIT_ID ?s = ret v"
    "represents True v (rouse NORMAL_PROCESS_WAIT_ID a)" by blast
  have "represents True (EOI io v) (rouse NORMAL_PROCESS_WAIT_ID a)"
    by (rule represents_cong [OF v(2)]) (simp_all add: EOI_def OutByte_def)
  from Yield_ok [OF this] obtain t where t: "Yield (EOI io v) = ret t"
    "represents True t (sched_spec Do_yield (rouse NORMAL_PROCESS_WAIT_ID a))" by blast
  have "s_system_ticks t = s_system_ticks s + 1"
    using keeps_driversD(3) [OF keeps_Yield [OF t(1)]] keeps_driversD(3) [OF keeps_Wakeup [OF v(1)]]
    by (simp add: EOI_def OutByte_def)
  then show ?thesis using v(1) t by (simp add: tick_def)
qed

text \<open>One interrupt passes the processor on.\<close>

lemma tick_turn:
  fixes s :: "('d, 'z) io_kernel_scheme"
  assumes "represents True s a" "no_sleepers a" "running a = q" "q \<noteq> 0" "queue a Ready_list = r # rs"
  shows "\<exists>t. tick io s = ret t \<and> represents True t (a\<lparr>running := r, queue := (queue a)(Ready_list := rs @ [q])\<rparr>)
     \<and> s_system_ticks t = s_system_ticks s + 1"
proof -
  have "sched_spec Do_yield a = a\<lparr>running := r, queue := (queue a)(Ready_list := rs @ [q])\<rparr>"
    using assms(3-5) by (simp add: dispatch_def enqueue_def)
  then show ?thesis using tick_ok [OF assms(1), of io] unfolding rouse_no_sleepers [OF assms(2)] by metis
qed

text \<open>A process with \<open>xs\<close> before it in the ready queue runs after as many more interrupts.\<close>

lemma wait_turn:
  fixes s :: "('d, 'z) io_kernel_scheme"
  assumes "represents True s a" "no_sleepers a" "running a = q" "q \<noteq> 0" "queue a Ready_list = xs @ p # ys" "p \<notin> set xs" "0 \<notin> set xs"
  shows "\<exists>t. represents True t (a\<lparr>running := p, queue := (queue a)(Ready_list := ys @ q # xs)\<rparr>)
     \<and> s_system_ticks t = s_system_ticks s + of_nat (Suc (length xs))
     \<and> (\<forall>m. timer_rounds io p (Suc (length xs) + m) (Blocked w, s) = andthen (resume w t) (timer_rounds io p m))
     \<and> (\<forall>k\<le>length xs. \<exists>u. timer_rounds io p k (Blocked w, s) = ret (Blocked w, u))"
  using assms
proof (induction xs arbitrary: s a q ys)
  case Nil
  from tick_turn [OF Nil(1-4)] Nil(5) obtain t where t: "tick io s = ret t"
    "represents True t (a\<lparr>running := p, queue := (queue a)(Ready_list := ys @ [q])\<rparr>)" "s_system_ticks t = s_system_ticks s + 1" by auto
  have "current_proc t = p" using representsD(2) [OF t(2)] by simp
  then show ?case using t by (intro exI [of _ t]) (simp add: fun_upd_def)
next
  case (Cons x xs)
  let ?b = "a\<lparr>running := x, queue := (queue a)(Ready_list := xs @ p # ys @ [q])\<rparr>"
  from tick_turn [OF Cons.prems(1-4)] Cons.prems(5) obtain s1 where s1: "tick io s = ret s1" "represents True s1 ?b"
    "s_system_ticks s1 = s_system_ticks s + 1" by auto
  have cur: "current_proc s1 \<noteq> p" using representsD(2) [OF s1(2)] Cons.prems(6) by simp
  have "no_sleepers ?b" using Cons.prems(2) by (simp add: no_sleepers_def)
  moreover have "running ?b = x" "x \<noteq> 0" "queue ?b Ready_list = xs @ p # ys @ [q]" "p \<notin> set xs" "0 \<notin> set xs" using Cons.prems(6,7) by auto
  ultimately obtain t where
    t: "represents True t (?b\<lparr>running := p, queue := (queue ?b)(Ready_list := (ys @ [q]) @ x # xs)\<rparr>)"
      "s_system_ticks t = s_system_ticks s1 + of_nat (Suc (length xs))"
      "\<forall>m. timer_rounds io p (Suc (length xs) + m) (Blocked w, s1) = andthen (resume w t) (timer_rounds io p m)"
      "\<forall>k\<le>length xs. \<exists>u. timer_rounds io p k (Blocked w, s1) = ret (Blocked w, u)" using Cons.IH [OF s1(2)] by blast
  have "?b\<lparr>running := p, queue := (queue ?b)(Ready_list := (ys @ [q]) @ x # xs)\<rparr>
      = a\<lparr>running := p, queue := (queue a)(Ready_list := ys @ q # x # xs)\<rparr>" by simp
  note rt = t(1) [unfolded this]
  have step: "timer_rounds io p (Suc k) (Blocked w, s) = timer_rounds io p k (Blocked w, s1)" for k using s1(1) cur by simp
  have "\<exists>u. timer_rounds io p k (Blocked w, s) = ret (Blocked w, u)" if "k \<le> length (x # xs)" for k
    using that t(4) step by (cases k) auto
  moreover have "timer_rounds io p (Suc (length (x # xs)) + m) (Blocked w, s) = andthen (resume w t) (timer_rounds io p m)" for m
    using t(3) step [of "Suc (length xs) + m"] by simp
  ultimately show ?case using rt t(2) s1(3) by (intro exI [of _ t]) (simp add: add.assoc fun_upd_def)
qed

text \<open>The interrupts until a process that sleeps runs again: one for each other ready process, and at least one.\<close>

definition turn :: "sched \<Rightarrow> nat" where
  "turn a = max 1 (length (queue a Ready_list))"

lemma sleep_turn:
  fixes s :: "('d, 'z) io_kernel_scheme"
  assumes r: "represents True s a" and run: "running a = p" "p \<noteq> 0" and free: "no_sleepers a" and short: "s_system_ticks s - old < n"
  defines "w \<equiv> In_SysSleep old n"
  shows "\<exists>s1 t b. sleep_loop old n s = ret (Blocked w, s1) \<and> represents True t b \<and> running b = p \<and> queue b = queue a \<and> no_sleepers b
     \<and> s_system_ticks t = s_system_ticks s + of_nat (turn a)
     \<and> (\<forall>m. timer_rounds io p (turn a + m) (Blocked w, s1) = andthen (resume w t) (timer_rounds io p m))
     \<and> (\<forall>k<turn a. \<exists>u. timer_rounds io p k (Blocked w, s1) = ret (Blocked w, u))"
proof -
  note wf = represents_wf [OF r, unfolded sched_wf_def]
  have new: "p \<notin> set (queue a q)" "0 \<notin> set (queue a q)" for q using wf run by auto
  let ?b = "a\<lparr>wid := (wid a)(p := NORMAL_PROCESS_WAIT_ID)\<rparr>"
  have b: "no_sleepers ?b" "running ?b = p" "queue ?b = queue a" using free new(1) run by (auto simp: no_sleepers_def)
  let ?c = "sched_spec (Do_sleep NORMAL_PROCESS_WAIT_ID) a"
  from Sleep_ok [OF r] run obtain s1 where s1: "Sleep NORMAL_PROCESS_WAIT_ID s = ret s1" "represents True s1 ?c" by auto
  have ticks: "s_system_ticks s1 = s_system_ticks s" by (rule keeps_driversD(3) [OF keeps_Sleep [OF s1(1)]])
  have sl: "sleep_loop old n s = ret (Blocked w, s1)" using short s1(1) by (simp add: sleep_loop_def w_def)
  have woken: "filter (\<lambda>i. ((wid a)(p := NORMAL_PROCESS_WAIT_ID)) i \<noteq> NORMAL_PROCESS_WAIT_ID) (queue a Wait_list) = queue a Wait_list"
    "filter (\<lambda>i. ((wid a)(p := NORMAL_PROCESS_WAIT_ID)) i = NORMAL_PROCESS_WAIT_ID) (queue a Wait_list) = []"
    using b(1) by (auto simp: no_sleepers_def filter_id_conv filter_empty_conv)
  obtain s2 where s2: "tick io s1 = ret s2" "represents True s2 (sched_spec Do_yield (rouse NORMAL_PROCESS_WAIT_ID ?c))"
    "s_system_ticks s2 = s_system_ticks s + 1" using tick_ok [OF s1(2), of io] ticks by metis
  have zero: "timer_rounds io p 0 (Blocked w, s1) = ret (Blocked w, s1)" by simp
  show ?thesis
  proof (cases "length (queue a Ready_list) \<le> 1")
    case True
    have "sched_spec Do_yield (rouse NORMAL_PROCESS_WAIT_ID ?c) = ?b"
      using True run new [of Ready_list] woken
      by (cases "queue a Ready_list") (auto simp: dispatch_def enqueue_def rouse_def fun_eq_iff)
    then have s2': "represents True s2 ?b" using s2(2) by simp
    have "current_proc s2 = p" using representsD(2) [OF s2'] b(2) by simp
    moreover have "turn a = 1" using True by (simp add: turn_def)
    ultimately show ?thesis using sl s2(1,3) s2' b zero by (intro exI [of _ s1] exI [of _ s2] exI [of _ ?b]) simp
  next
    case False
    then obtain r x xs where q: "queue a Ready_list = r # x # xs" by (cases "queue a Ready_list"; cases "tl (queue a Ready_list)") auto
    let ?d = "?b\<lparr>running := x, queue := (queue a)(Ready_list := xs @ p # [r])\<rparr>"
    have "sched_spec Do_yield (rouse NORMAL_PROCESS_WAIT_ID ?c) = ?d"
      using q run new [of Ready_list] woken by (auto simp: dispatch_def enqueue_def rouse_def fun_eq_iff)
    then have s2': "represents True s2 ?d" using s2(2) by simp
    have nx: "x \<noteq> 0" "x \<noteq> p" "p \<notin> set xs" "0 \<notin> set xs" using new [of Ready_list] q by auto
    have "no_sleepers ?d" using b(1) by (simp add: no_sleepers_def)
    from wait_turn [OF s2' this _ nx(1) _ nx(3,4), of "[r]" io w] obtain t where
      t: "represents True t (?d\<lparr>running := p, queue := (queue ?d)(Ready_list := [r] @ x # xs)\<rparr>)"
        "s_system_ticks t = s_system_ticks s2 + of_nat (Suc (length xs))"
        "\<forall>m. timer_rounds io p (Suc (length xs) + m) (Blocked w, s2) = andthen (resume w t) (timer_rounds io p m)"
        "\<forall>k\<le>length xs. \<exists>u. timer_rounds io p k (Blocked w, s2) = ret (Blocked w, u)" by auto
    have "?d\<lparr>running := p, queue := (queue ?d)(Ready_list := [r] @ x # xs)\<rparr> = ?b" using run q by (auto simp: fun_eq_iff)
    then have rt: "represents True t ?b" using t(1) by simp
    have "current_proc s2 \<noteq> p" using representsD(2) [OF s2'] nx(2) by simp
    then have step: "timer_rounds io p (Suc k) (Blocked w, s1) = timer_rounds io p k (Blocked w, s2)" for k using s2(1) by simp
    have tn: "turn a = Suc (Suc (length xs))" using q by (simp add: turn_def)
    have "\<exists>u. timer_rounds io p k (Blocked w, s1) = ret (Blocked w, u)" if "k < turn a" for k
      using that t(4) step zero unfolding tn by (cases k) auto
    moreover have "timer_rounds io p (turn a + m) (Blocked w, s1) = andthen (resume w t) (timer_rounds io p m)" for m
      using t(3) step [of "Suc (length xs) + m"] unfolding tn by simp
    ultimately show ?thesis using sl rt b t(2) s2(3)
      by (intro exI [of _ s1] exI [of _ t] exI [of _ ?b]) (simp add: tn add.assoc)
  qed
qed

lemma sleep_rounds:
  fixes s :: "('d, 'z) io_kernel_scheme"
  assumes "represents True s a" "running a = p" "p \<noteq> 0" "no_sleepers a"
    and "j = 0 \<or> unat (s_system_ticks s - old) + (j - 1) * turn a < unat n"
    and "unat n \<le> unat (s_system_ticks s - old) + j * turn a" "unat (s_system_ticks s - old) + j * turn a < 2 ^ 64"
  shows "\<exists>c t b. sleep_loop old n s = ret c \<and> timer_rounds io p (j * turn a) c = ret (Done 0, t) \<and> represents True t b
     \<and> running b = p \<and> queue b = queue a \<and> s_system_ticks t = s_system_ticks s + of_nat (j * turn a)
     \<and> (\<forall>k<j * turn a. \<exists>u. timer_rounds io p k c = ret (Blocked (In_SysSleep old n), u))"
  using assms
proof (induction j arbitrary: s a)
  case 0
  then have "sleep_loop old n s = ret (Done 0, s)" by (simp add: sleep_loop_def word_less_nat_alt)
  then show ?case using "0.prems"(1,2) by auto
next
  case (Suc j)
  let ?w = "In_SysSleep old n" and ?e = "unat (s_system_ticks s - old)"
  have lt: "s_system_ticks s - old < n" using Suc.prems(5) by (simp add: word_less_nat_alt)
  from sleep_turn [OF Suc.prems(1-4) lt, of io] obtain s1 t b where s1: "sleep_loop old n s = ret (Blocked ?w, s1)"
    "represents True t b" "running b = p" "queue b = queue a" "no_sleepers b" "s_system_ticks t = s_system_ticks s + of_nat (turn a)"
    "\<forall>m. timer_rounds io p (turn a + m) (Blocked ?w, s1) = andthen (resume ?w t) (timer_rounds io p m)"
    "\<forall>k<turn a. \<exists>u. timer_rounds io p k (Blocked ?w, s1) = ret (Blocked ?w, u)" by blast
  have tn: "turn b = turn a" using s1(4) by (simp add: turn_def)
  have "unat (of_nat (turn a) :: u64) = turn a" using Suc.prems(7) by (simp add: unat_of_nat)
  moreover have "s_system_ticks t - old = s_system_ticks s - old + of_nat (turn a)" unfolding s1(6) by simp
  ultimately have e: "unat (s_system_ticks t - old) = ?e + turn a" using Suc.prems(7) by (simp only:, subst unat_plus_le) simp_all
  have "j = 0 \<or> unat (s_system_ticks t - old) + (j - 1) * turn b < unat n"
    using Suc.prems(5) by (cases j) (simp_all add: e tn)
  from Suc.IH [OF s1(2,3) Suc.prems(3) s1(5) this] Suc.prems(6,7) obtain c u d where
    c: "sleep_loop old n t = ret c" "timer_rounds io p (j * turn a) c = ret (Done 0, u)" "represents True u d" "running d = p"
      "queue d = queue a" "s_system_ticks u = s_system_ticks t + of_nat (j * turn a)"
      "\<forall>k<j * turn a. \<exists>u. timer_rounds io p k c = ret (Blocked ?w, u)" unfolding e tn s1(4) by (auto simp: add.assoc)
  have step: "timer_rounds io p (turn a + m) (Blocked ?w, s1) = timer_rounds io p m c" for m
    using s1(7) c(1) by (simp add: resume_def)
  have "\<exists>u. timer_rounds io p k (Blocked ?w, s1) = ret (Blocked ?w, u)" if "k < Suc j * turn a" for k
  proof (cases "k < turn a")
    case False
    then obtain m where "k = turn a + m" by (metis le_Suc_ex not_less)
    then show ?thesis using c(7) step [of m] that by simp
  qed (use s1(8) in blast)
  moreover have "s_system_ticks u = s_system_ticks s + of_nat (Suc j * turn a)" unfolding c(6) s1(6) by (simp add: algebra_simps)
  ultimately show ?case using s1(1) c(2-5) step [of "j * turn a"] by auto
qed

text \<open>The first multiple of \<open>d\<close> that is not below \<open>n\<close>.\<close>

definition round_up :: "nat \<Rightarrow> nat \<Rightarrow> nat" where
  "round_up n d = (n + d - 1) div d * d"

lemma round_up:
  assumes "0 < d" shows "n \<le> round_up n d" "round_up n d < n + d" "round_up n 1 = n"
proof -
  have "(n + d - 1) div d * d + (n + d - 1) mod d = n + d - 1" by (rule div_mult_mod_eq)
  moreover have "(n + d - 1) mod d < d" using assms by simp
  ultimately show "n \<le> round_up n d" "round_up n d < n + d" using assms unfolding round_up_def by linarith+
  show "round_up n 1 = n" by (simp add: round_up_def)
qed

section \<open>The message of a kernel exception\<close>

lemma format_segment:
  assumes "plain a" "directive d args = Some (ret (bs, args'))" "length buffer + length a + length bs \<le> 1024"
  shows "format_loop (a @ of_char CHR ''%'' # d # ds) args buffer = format_loop ds args' (buffer @ a @ bs)"
proof -
  have "format_loop (a @ of_char CHR ''%'' # d # ds) args buffer = format_loop (of_char CHR ''%'' # d # ds) args (buffer @ a)"
    using assms by (intro format_loop_plain_append) simp_all
  also have "\<dots> = format_loop ds args' ((buffer @ a) @ bs)"
    using assms by (intro format_loop_directive) simp_all
  finally show ?thesis by simp
qed

lemma length_WriteDecimalToBuffer:
  assumes "unat n < 10 ^ Suc k" "k < 18" shows "length (WriteDecimalToBuffer n) \<le> Suc k"
proof -
  have "(10 :: nat) ^ Suc k \<le> 10 ^ 18" using assms(2) by (intro power_increasing) linarith+
  then have "unat n < 10 ^ 18" using assms(1) by (rule less_le_trans [rotated])
  then have "uint n < 10 ^ 18" by (metis of_nat_less_iff of_nat_numeral of_nat_power uint_nat)
  then have "uint n < 2 ^ 63" by simp
  moreover have "- (2 ^ 63) \<le> uint n" by (rule order_trans [OF _ uint_ge_0]) simp
  ultimately have "sint n = uint n" using signed_take_bit_int_eq_self [of 63 "uint n"] by (simp add: sint_uint)
  then have "0 \<le> sint n" by simp
  then show ?thesis using length_udec_digits [OF assms(1)] by (simp add: WriteDecimalToBuffer_def WriteUDecimalToBuffer_def)
qed

lemma length_WriteHexToBuffer: "length (WriteHexToBuffer n) \<le> 18"
  using digit_buffer_bounds(2) [of n] by (simp add: WriteHexToBuffer_def bytes_of_def)

lemma exception_message:
  fixes n ring e a r :: u64
  assumes "n < 256" "ring < 4" "e < 65536"
  shows "\<exists>msg. format_loop (bytes_of ''[Error %d at ring: %d] %d:%x %x'') [KInt n, KInt ring, KInt e, KInt a, KInt r] [] = ret msg
    \<and> length msg \<le> 66"
proof -
  let ?D = WriteDecimalToBuffer and ?X = WriteHexToBuffer
  have u: "unat n < 256" "unat ring < 4" "unat e < 65536" using assms by (simp_all add: word_less_nat_alt)
  have l: "length (?D n) \<le> 3" "length (?D ring) \<le> 1" "length (?D e) \<le> 5" "length (?X a) \<le> 18" "length (?X r) \<le> 18"
    using length_WriteDecimalToBuffer [of n 2] length_WriteDecimalToBuffer [of ring 0] length_WriteDecimalToBuffer [of e 4]
      length_WriteHexToBuffer u by simp_all
  have f: "bytes_of ''[Error %d at ring: %d] %d:%x %x'' = bytes_of ''[Error '' @ of_char CHR ''%'' # of_char CHR ''d'' #
      bytes_of '' at ring: '' @ of_char CHR ''%'' # of_char CHR ''d'' # bytes_of ''] '' @ of_char CHR ''%'' # of_char CHR ''d'' #
      bytes_of '':'' @ of_char CHR ''%'' # of_char CHR ''x'' # bytes_of '' '' @ of_char CHR ''%'' # of_char CHR ''x'' # []"
    by (simp add: bytes_of_def)
  have p: "plain (bytes_of ''[Error '')" "plain (bytes_of '' at ring: '')" "plain (bytes_of ''] '')" "plain (bytes_of '':'')"
    "plain (bytes_of '' '')" by (simp_all add: plain_def bytes_of_def)
  have len: "length (bytes_of ''[Error '') = 7" "length (bytes_of '' at ring: '') = 10" "length (bytes_of ''] '') = 2"
    "length (bytes_of '':'') = 1" "length (bytes_of '' '') = 1" by (simp_all add: bytes_of_def)
  show ?thesis unfolding f
    using l by (simp only: format_segment [OF p(1) directives(3)] format_segment [OF p(2) directives(3)]
      format_segment [OF p(3) directives(3)] format_segment [OF p(4) directives(1)] format_segment [OF p(5) directives(1)]
      format_loop.simps(1) length_append len list.size) (simp add: len)
qed

section \<open>Properties\<close>

text \<open>
  Property C33. The descriptor table leads every handled interrupt to its own entry point, and a user
  program can raise the system call only: a gate is present exactly for the 21 vectors and \<open>0x80\<close>, the
  address the processor assembles from the three parts of the gate is that of the entry point, and
  only the gate of \<open>0x80\<close> has privilege level 3.
\<close>

theorem InitIDT_gates:
  "(gate_present (InitIDT vector syscall n) \<longleftrightarrow> n \<in> set vectors \<or> n = SYSTEM_CALL_INTERRUPT_NUMBER)
   \<and> (n \<in> set vectors \<longrightarrow> gate_handler (InitIDT vector syscall n) = vector n \<and> gate_dpl (InitIDT vector syscall n) = 0)
   \<and> gate_handler (InitIDT vector syscall SYSTEM_CALL_INTERRUPT_NUMBER) = syscall
   \<and> (gate_present (InitIDT vector syscall n) \<longrightarrow>
        (gate_dpl (InitIDT vector syscall n) = 3 \<longleftrightarrow> n = SYSTEM_CALL_INTERRUPT_NUMBER))"
  by (auto simp: InitIDT_entry gate_present_def gate_handler_def gate_dpl_def InitIDTEntry_def zero_IDTEntry_def
      SYSTEM_CALL_INTERRUPT_NUMBER_def split_address vectors_def)

theorem InitIDT_gates_witness:
  "gate_handler (InitIDT (\<lambda>n. of_nat (0x1000 + 16 * n)) 0x2000 14) = 0x10E0 \<and> gate_dpl (InitIDT (\<lambda>n. of_nat (0x1000 + 16 * n)) 0x2000 14) = 0"
  using InitIDT_gates [of "\<lambda>n. of_nat (0x1000 + 16 * n)" "0x2000" 14] by (simp add: vectors_def)

text \<open>
  Property C25. What a system call number does, once \<open>InitSystemCall\<close> has filled the table: 0 to 11 run
  the function of that number and its result goes to the caller; a negative parameter count or a
  number above 20 is answered with \<open>-EINVAL\<close>. The other numbers stop the whole kernel: 12 to 19 fail
  the assertion, 20 and the negative ones index the table out of its bounds.
\<close>

theorem SystemCall_numbers:
  fixes tf :: u64
  assumes "InitSystemCall s0 = ret s1" "s_syscall_table s0 = (\<lambda>_. None)" "s_syscall_table s = s_syscall_table s1"
  defines "num \<equiv> sint (load64 (mem s) (tf + tf_rax))" and "count \<equiv> sint (load64 (mem s) (tf + tf_rdi))"
  shows "SystemCall io tf s =
    (if count < 0 \<or> 20 < num then ret (Done (), put64 (tf + tf_rax) (- 22) s)
     else if num < 0 \<or> num = 20 then fails Out_of_bounds
     else if 12 \<le> num then fails (Assert_failed ''syscall.c'' 69)
     else andthen (call_function io (snd (system_calls ! nat num)) (load64 (mem s) (tf + tf_rsi)) s) (store_result tf))"
proof -
  have tab: "s_syscall_table s = registered" using InitSystemCall_ok [OF assms(2)] assms(1,3) by simp
  have hit: "registered (nat num) = Some (snd (system_calls ! nat num))" if "0 \<le> num" "num < 12" using that by (intro registered_nth) simp
  have miss: "registered (nat num) = None" if "12 \<le> num" using that by (intro registered_None) simp
  show ?thesis
    unfolding SystemCall_def Let_def num_def [symmetric] count_def [symmetric] tab
    using hit miss by (auto simp: MAXIMUM_SYSTEM_CALLS_def EINVAL_def)
qed

theorem SystemCall_numbers_witness:
  "\<exists>s :: u8 list io_kernel. SystemCall typing 0x9000 s = fails (Assert_failed ''syscall.c'' 69)
     \<and> load64 (mem s) (0x9000 + tf_rax) = 12 \<and> s_syscall_table s = registered"
proof -
  let ?s = "with_dev ([] :: u8 list) (booted\<lparr>mem := store64 (\<lambda>_. 0) (0x9000 + tf_rax) 12\<rparr>)"
  have z: "s_syscall_table ?s = (\<lambda>_. None)" by (simp add: booted_def)
  have n: "load64 (mem ?s) (0x9000 + tf_rax) = 12" "load64 (mem ?s) (0x9000 + tf_rdi) = 0"
    using load_store_offset [of 112 72 "\<lambda>_. 0" "0x9000" 12]
    by (simp_all add: tf_rax_def tf_rdi_def load64_zero)
  have "SystemCall typing 0x9000 (?s\<lparr>s_syscall_table := registered\<rparr>) = fails (Assert_failed ''syscall.c'' 69)"
    using SystemCall_numbers [OF InitSystemCall_ok [OF z] z, of "?s\<lparr>s_syscall_table := registered\<rparr>" typing "0x9000"] n by simp
  then show ?thesis using n by (intro exI [of _ "?s\<lparr>s_syscall_table := registered\<rparr>"]) simp
qed

text \<open>
  Property C26. When \<open>SysSleep\<close> returns, for a process that shares the processor with \<open>k\<close> ready processes that compute, and with no other
  process that waits for the timer: the call sleeps through all timer interrupts before number \<open>r\<close> and returns 0 after it,
  where \<open>r\<close> is the number \<open>n\<close> it was asked for if \<open>k\<close> is 0 or 1, and otherwise \<open>n\<close> rounded up to the next multiple of \<open>k\<close>, since
  the sleeper runs in turn only; so it never returns early and at most \<open>k - 1\<close> interrupts late, whatever the tick counter was,
  also when it wraps around. Afterwards the process runs again and every list is as before.
\<close>

theorem SysSleep_returns:
  fixes s :: "('d, 'z) io_kernel_scheme"
  assumes "represents True s a" "running a = p" "p \<noteq> 0" "no_sleepers a" "arg_at arg 0 s = ret n"
  defines "k \<equiv> max 1 (length (queue a Ready_list))"
  assumes "unat n + k \<le> 2 ^ 64"
  shows "\<exists>r c t b. SysSleep arg s = ret c \<and> timer_rounds io p r c = ret (Done 0, t) \<and> (\<forall>i<r. \<exists>w u. timer_rounds io p i c = ret (Blocked w, u))
     \<and> k dvd r \<and> unat n \<le> r \<and> r < unat n + k \<and> s_system_ticks t = s_system_ticks s + of_nat r
     \<and> represents True t b \<and> running b = p \<and> queue b = queue a"
proof -
  let ?j = "(unat n + k - 1) div k" let ?r = "round_up (unat n) k"
  have k: "0 < k" "turn a = k" by (simp_all add: k_def turn_def)
  note up = round_up(1,2) [OF k(1), of "unat n"]
  have r: "?j * turn a = ?r" by (simp add: round_up_def k(2))
  have "?j = 0 \<or> 0 + (?j - 1) * k < unat n" using up(2) unfolding round_up_def by (cases ?j) simp_all
  with sleep_rounds [OF assms(1-4), where old = "s_system_ticks s" and n = n and j = ?j and io = io] up assms(7) obtain c t b where
    c: "sleep_loop (s_system_ticks s) n s = ret c" "timer_rounds io p ?r c = ret (Done 0, t)" "represents True t b" "running b = p"
      "queue b = queue a" "s_system_ticks t = s_system_ticks s + of_nat ?r"
      "\<forall>i<?r. \<exists>u. timer_rounds io p i c = ret (Blocked (In_SysSleep (s_system_ticks s) n), u)"
    unfolding r by (auto simp: k(2))
  have "SysSleep arg s = ret c" using assms(5) c(1) by (simp add: SysSleep_def)
  moreover have "k dvd ?r" by (simp add: round_up_def)
  ultimately show ?thesis using c(2-7) up by blast
qed

text \<open>Two other processes are ready: three interrupts become four.\<close>

theorem SysSleep_returns_witness:
  "\<exists>(s :: u8 list io_kernel) c t w u. SysSleep 0xFFFF800000900000 s = ret c \<and> timer_rounds typing 1 3 c = ret (Blocked w, u)
     \<and> timer_rounds typing 1 4 c = ret (Done 0, t) \<and> current_proc t = 1"
proof -
  let ?a = "0xFFFF800000900000 :: u64"
  let ?s = "with_dev ([] :: u8 list) (three_processes\<lparr>mem := write_bytes (\<lambda>_. 0) ?a (le_bytes 8 3)\<rparr>)"
  have r: "represents True ?s three_spec" by (rule represents_cong [OF three_processes]) simp_all
  have spec: "running three_spec = 1" "(1 :: nat) \<noteq> 0" "no_sleepers three_spec" "max 1 (length (queue three_spec Ready_list)) = 2"
    by (simp_all add: three_spec_def no_sleepers_def NORMAL_PROCESS_WAIT_ID_def)
  have "arg_at ?a 0 ?s = ret 3"
    using peek_bytes_kernel [of ?a 8 ?s] read_write_same [of "le_bytes 8 3" "\<lambda>_. 0" ?a]
    by (simp add: arg_at_def peek64_def KERNEL_VIRTUAL_ADDRESS_BASE_def)
  from SysSleep_returns [OF r spec(1-3) this, of typing] obtain n c u b where
    n: "SysSleep ?a ?s = ret c" "timer_rounds typing 1 n c = ret (Done 0, u)" "represents True u b" "running b = 1"
      "2 dvd n" "3 \<le> n" "n < 5" "\<forall>i<n. \<exists>w u. timer_rounds typing 1 i c = ret (Blocked w, u)"
    unfolding spec(4) by auto
  have "n = 4" using n(5-7) by presburger
  moreover have "current_proc u = 1" using representsD(2) [OF n(3)] n(4) by simp
  moreover have "\<exists>w v. timer_rounds typing 1 3 c = ret (Blocked w, v)" using n(8) \<open>n = 4\<close> by auto
  ultimately show ?thesis using n(1,2) by blast
qed

text \<open>
  Property C27. The message of an exception in the kernel fits its buffer of 70 bytes: with a trap number of at most
  three and an error code of at most five decimal digits it is at most 66 bytes, whatever the two
  addresses are, so that \<open>sprintk\<close>, which needs one byte more than the text and its terminator, stays
  inside \<open>msg\<close> and the kernel stops with the report of that exception.
\<close>

theorem exception_message_fits:
  fixes tf :: u64
  defines "n s \<equiv> load64 (mem s) (tf + tf_trapno)"
  assumes "n s < 256" "load64 (mem s) (tf + tf_error_code) < 65536"
  shows "kernel_exception cr2 tf s = fails (Kernel_exception (unat (n s)))"
proof -
  have "load64 (mem s) (tf + tf_cs) AND 3 < 4"
    using word_and_le1 [of "load64 (mem s) (tf + tf_cs)" 3] by (rule order_le_less_trans) simp
  from exception_message [OF assms(2) [unfolded n_def] this assms(3)] obtain msg where
    msg: "format_loop (bytes_of ''[Error %d at ring: %d] %d:%x %x'')
      [KInt (load64 (mem s) (tf + tf_trapno)), KInt (load64 (mem s) (tf + tf_cs) AND 3), KInt (load64 (mem s) (tf + tf_error_code)),
       KInt cr2, KInt (load64 (mem s) (tf + tf_rip))] [] = ret msg" "length msg \<le> 66" by blast
  have "length (WriteStringToBuffer msg) \<le> 66" using msg(2) le_trans [OF length_takeWhile_le] by (simp add: WriteStringToBuffer_def)
  have "\<exists>t. panic msg s = ret t"
  proof -
    have f: "bytes_of ''KERNEL PANIC: %s'' @ [of_char (CHR 0x0A)] = bytes_of ''KERNEL PANIC: '' @ of_char CHR ''%'' # of_char CHR ''s'' # [10]"
      by (simp add: bytes_of_def)
    have p: "plain (bytes_of ''KERNEL PANIC: '')" "plain [10]" by (simp_all add: plain_def bytes_of_def)
    have "length (bytes_of ''KERNEL PANIC: '') = 14" by (simp add: bytes_of_def)
    then show ?thesis unfolding panic_def printk_def f
      using format_segment [OF p(1) directives(4), of "[]" msg "[10]" "[]"] \<open>length (WriteStringToBuffer msg) \<le> 66\<close>
        format_loop_plain [OF p(2)] by simp
  qed
  then show ?thesis using msg by (auto simp: kernel_exception_def Let_def n_def)
qed

theorem exception_message_fits_witness:
  "kernel_exception 0xFFFFFFFFFFFFFFFF 0x9000 (with_dev () (booted\<lparr>mem := store64 (\<lambda>_. 0) (0x9000 + tf_trapno) 14\<rparr>))
     = fails (Kernel_exception 14)"
proof -
  let ?s = "with_dev () (booted\<lparr>mem := store64 (\<lambda>_. 0) (0x9000 + tf_trapno) 14\<rparr>)"
  have n: "load64 (mem ?s) (0x9000 + tf_trapno) = 14" "load64 (mem ?s) (0x9000 + tf_error_code) = 0"
    using load_store_offset [of 120 128 "\<lambda>_. 0" "0x9000" 14]
    by (simp_all add: tf_trapno_def tf_error_code_def load64_zero)
  show ?thesis using exception_message_fits [of ?s "0x9000" "0xFFFFFFFFFFFFFFFF"] n by simp
qed

end
