(* ===== verification/Kernel_Frames.thy ===== *)
theory Kernel_Frames
  imports System_Interface
begin

text \<open>
  What the operations leave alone, whatever their arguments and whether they succeed or not. The
  memory side of the kernel (the allocator, page tables, console, user pointers) changes the fields
  of \<open>kmem\<close> only: \<open>kmem.more\<close>, which is everything else, stays. The drivers also change the device.
  From this the invariants of the processes and of the open files follow for every branch of every
  system call.
\<close>

section \<open>Operations on memory\<close>

lemma kalloc_more [kmem_frame]: "kalloc s = ret (p, t) \<Longrightarrow> kmem.more t = kmem.more s"
  by (auto simp: kalloc_def Let_def split: if_splits dest!: kmem_frame)

lemma kfree_more [kmem_frame]: "kfree p s = ret t \<Longrightarrow> kmem.more t = kmem.more s"
  by (auto simp: kfree_def dest!: kmem_frame)

lemma WriteVGA_more [simp]: "kmem.more (WriteVGA b s) = kmem.more s"
  by (simp add: WriteVGA_def split: prod.split)

lemma print_more [kmem_frame]: "print f args s = ret t \<Longrightarrow> kmem.more t = kmem.more s"
  by (auto simp: print_def printk_def dest!: kmem_frame)

lemma ClrSrc_more [simp]: "kmem.more (ClrSrc s) = kmem.more s"
  by (simp add: ClrSrc_def)

lemma for_each_frame:
  "(\<And>x s t. f x s = ret t \<Longrightarrow> g t = g s) \<Longrightarrow> for_each f xs s = ret t \<Longrightarrow> g t = g s"
  by (induction xs arbitrary: s) (auto dest!: kmem_frame)

lemma FindPML4TableEntry_more [kmem_frame]: "FindPML4TableEntry pml4 v alloc attr s = ret (p, t) \<Longrightarrow> kmem.more t = kmem.more s"
  by (auto simp: FindPML4TableEntry_def Let_def split: if_splits dest!: kmem_frame)

lemma FindPageDirPointerTableEntry_more [kmem_frame]:
  "FindPageDirPointerTableEntry pml4 v alloc attr s = ret (p, t) \<Longrightarrow> kmem.more t = kmem.more s"
  by (auto simp: FindPageDirPointerTableEntry_def Let_def split: if_splits dest!: kmem_frame)

lemma MapPages_loop_more [kmem_frame]:
  assumes "MapPages_loop pml4 v e phys attr s = ret (b, t)" shows "kmem.more t = kmem.more s"
proof -
  have "\<forall>b t. r = Inr (b, t) \<longrightarrow> kmem.more t = kmem.more s" if "MapPages_loop pml4 v e phys attr s = Some r" for r
  proof (rule MapPages_loop.raw_induct [OF _ that])
    fix M pml4 v e phys attr r and s :: "'z kmem_scheme"
    assume IH: "\<And>pml4 v e phys attr s r. M pml4 v e phys attr s = Some r \<Longrightarrow> \<forall>b t. r = Inr (b, t) \<longrightarrow> kmem.more t = kmem.more (s :: 'z kmem_scheme)"
      and eq: "andthen (FindPageDirPointerTableEntry pml4 v 1 attr s) (\<lambda>(pd, s1).
        if pd = 0 then ret (False, s1)
        else
          let entry = entry_at pd (drop_bit 21 v AND 0x1FF)
          in andthen (ASSERT (\<not> present (load64 (mem s1) entry)) ''memory.c'' 390) (\<lambda>_.
             let s2 = s1\<lparr>mem := store64 (mem s1) entry (phys OR ucast attr OR TABLE_ENTRY_ENTRY_ATTRIBUTE)\<rparr>
             in if v + PAGE_SIZE + PAGE_SIZE \<le> e then M pml4 (v + PAGE_SIZE) e (phys + PAGE_SIZE) attr s2
                else ret (True, s2))) = Some r"
    have "M pml4 v e phys attr s = ret (b, t) \<Longrightarrow> kmem.more t = kmem.more s" for pml4 v e phys attr b t and s :: "'z kmem_scheme"
      using IH by blast
    then show "\<forall>b t. r = Inr (b, t) \<longrightarrow> kmem.more t = kmem.more s"
      using eq by (auto simp: Let_def split: if_splits dest!: kmem_frame)
  qed
  then show ?thesis using assms by blast
qed

lemma MapPages_more [kmem_frame]: "MapPages pml4 v l phys attr s = ret (b, t) \<Longrightarrow> kmem.more t = kmem.more s"
  by (auto simp: MapPages_def Let_def dest!: kmem_frame)

lemma FreePages_loop_more [kmem_frame]:
  assumes "FreePages_loop pml4 v e s = ret t" shows "kmem.more t = kmem.more s"
proof -
  have "\<forall>t. r = Inr t \<longrightarrow> kmem.more t = kmem.more s" if "FreePages_loop pml4 v e s = Some r" for r
  proof (rule FreePages_loop.raw_induct [OF _ that])
    fix F pml4 v e r and s :: "'z kmem_scheme"
    assume IH: "\<And>pml4 v e s r. F pml4 v e s = Some r \<Longrightarrow> \<forall>t. r = Inr t \<longrightarrow> kmem.more t = kmem.more (s :: 'z kmem_scheme)"
      and eq: "andthen (FindPageDirPointerTableEntry pml4 v 0 0 s) (\<lambda>(pd, s1).
        andthen (let entry = entry_at pd (drop_bit 21 v AND 0x1FF)
          in if pd \<noteq> 0 \<and> present (load64 (mem s1) entry) then
               andthen (kfree (PHY_TO_VIR (PAGE_ADDRESS (load64 (mem s1) entry))) s1) (\<lambda>s2. ret (s2\<lparr>mem := store64 (mem s2) entry 0\<rparr>))
             else ret s1) (\<lambda>s3.
        if v + PAGE_SIZE + PAGE_SIZE \<le> e then F pml4 (v + PAGE_SIZE) e s3 else ret s3)) = Some r"
    have "F pml4 v e s = ret t \<Longrightarrow> kmem.more t = kmem.more s" for pml4 v e t and s :: "'z kmem_scheme"
      using IH by blast
    then show "\<forall>t. r = Inr t \<longrightarrow> kmem.more t = kmem.more s"
      using eq by (auto simp: Let_def split: if_splits dest!: kmem_frame)
  qed
  then show ?thesis using assms by blast
qed

lemma free_entry_more [kmem_frame]: "free_entry p i s = ret t \<Longrightarrow> kmem.more t = kmem.more s"
  by (auto simp: free_entry_def Let_def split: if_splits dest!: kmem_frame)

lemma FreePDTable_more [kmem_frame]: "FreePDTable p s = ret t \<Longrightarrow> kmem.more t = kmem.more s"
  unfolding FreePDTable_def
  by (erule for_each_frame [rotated]) (auto simp: Let_def split: if_splits elim: for_each_frame [rotated] dest!: kmem_frame)

lemma FreePDPTable_more [kmem_frame]: "FreePDPTable p s = ret t \<Longrightarrow> kmem.more t = kmem.more s"
  unfolding FreePDPTable_def by (erule for_each_frame [rotated]) (auto dest!: kmem_frame)

lemma FreeVM_more [kmem_frame]: "FreeVM p s = ret t \<Longrightarrow> kmem.more t = kmem.more s"
  by (auto simp: FreeVM_def FreePages_def FreePML4Table_def dest!: kmem_frame)

lemma SetupKVM_more [kmem_frame]: "SetupKVM s = ret (p, t) \<Longrightarrow> kmem.more t = kmem.more s"
  by (auto simp: SetupKVM_def split: if_splits dest!: kmem_frame)

lemma CopyUVM_more [kmem_frame]: "CopyUVM p q sz s = ret (b, t) \<Longrightarrow> kmem.more t = kmem.more s"
  by (auto simp: CopyUVM_def Let_def split: if_splits dest!: kmem_frame)

section \<open>User pointers\<close>

lemma poke8_more [kmem_frame]: "poke8 v b s = ret t \<Longrightarrow> kmem.more t = kmem.more s"
  by (auto simp: poke8_def split: option.splits dest!: kmem_frame)

lemma vcopy_more [kmem_frame]: "vcopy n d src s = ret t \<Longrightarrow> kmem.more t = kmem.more s"
  by (induction n arbitrary: d src s) (auto dest!: kmem_frame)

lemma vset_more [kmem_frame]: "vset n d c s = ret t \<Longrightarrow> kmem.more t = kmem.more s"
  by (induction n arbitrary: d s) (auto dest!: kmem_frame)

lemma list_entries_more [kmem_frame]: "list_entries st d j n (k, s) = ret (m, t) \<Longrightarrow> kmem.more t = kmem.more s"
  by (induction n arbitrary: j k s) (auto simp: Let_def split: if_splits dest!: kmem_frame)

section \<open>The drivers and the file system\<close>

text \<open>What the invariants of the processes, the files and the keyboard speak of.\<close>

definition core :: "'z kernel_scheme \<Rightarrow> (nat \<Rightarrow> process) \<times> (queue_name, nat) links \<times> nat \<times> int
    \<times> (nat \<Rightarrow> FCB) \<times> (nat \<Rightarrow> FD) \<times> KeyboardBuffer" where
  "core s = (s_process_manager s, proc_lists s, current_proc s, s_pid_num s, s_fcb_table s, s_fd_table s,
     s_keyboard_controller s)"

lemma core_more: "kmem.more t = kmem.more s \<Longrightarrow> core t = core s"
  by (cases s; cases t) (simp add: core_def)

lemmas core_kmem [core_frame] = kmem_frame [THEN core_more]

lemma core_update [simp]:
  "core (s\<lparr>mem := m\<rparr>) = core s" "core (s\<lparr>regs := r\<rparr>) = core s" "core (s\<lparr>s_BIOS_parameter_block := b\<rparr>) = core s"
  "core (s\<lparr>s_system_ticks := x\<rparr>) = core s" "core (put64 a v s) = core s"
  by (simp_all add: core_def put64_def)

lemma core_dev [simp]: "core (s\<lparr>dev := d\<rparr>) = core s" for s :: "('d, 'z) io_kernel_scheme"
  by (simp add: core_def)

lemma core_ports [simp]:
  fixes s :: "('d, 'z) io_kernel_scheme"
  shows "core (OutByte io p v s) = core s" "core (snd (InByte io p s)) = core s" "core (snd (InWord io p s)) = core s"
    "core (EOI io s) = core s" "core (snd (ReadISR io s)) = core s"
  by (simp_all add: OutByte_def InByte_def InWord_def EOI_def ReadISR_def Let_def split_def)

lemma wait_data_core [core_frame]:
  fixes s :: "('d, 'z) io_kernel_scheme"
  assumes "wait_data io s = ret t" shows "core t = core s"
proof -
  have "\<forall>t. r = Inr t \<longrightarrow> core t = core s" if "wait_data io s = Some r" for r
  proof (rule wait_data.raw_induct [OF _ that])
    fix W io r and s :: "('d, 'z) io_kernel_scheme"
    assume IH: "\<And>io s r. W io s = Some r \<Longrightarrow> \<forall>t. r = Inr t \<longrightarrow> core t = core (s :: ('d, 'z) io_kernel_scheme)"
      and eq: "(let (byte, s1) = InByte io 0x1F7 s in if byte AND 0x08 \<noteq> 0 then ret s1 else W io s1) = Some r"
    have "core (snd (InByte io 0x1F7 s)) = core s" by simp
    then show "\<forall>t. r = Inr t \<longrightarrow> core t = core s"
      using eq IH by (auto simp: Let_def split_def split: if_splits)
  qed
  then show ?thesis using assms by blast
qed

lemma read_words_core [simp]: "core (snd (read_words io n (p, s))) = core s"
proof (induction n arbitrary: p s)
  case (Suc n)
  have "core (snd (InWord io 0x1F0 s)) = core s" by simp
  with Suc show ?case by (simp add: Let_def split_def)
qed simp

lemma read_sectors_core [core_frame]: "read_sectors io n (p, s) = ret (q, t) \<Longrightarrow> core t = core s"
proof (induction n arbitrary: p s)
  case (Suc n)
  obtain u where u: "wait_data io s = ret u" "read_sectors io n (read_words io 256 (p, u)) = ret (q, t)"
    using Suc.prems by auto
  have "core t = core (snd (read_words io 256 (p, u)))" using Suc.IH u(2) by (metis prod.collapse)
  then show ?case using wait_data_core [OF u(1)] by simp
qed simp

lemma DiskReadSectors_core [core_frame]: "DiskReadSectors io lba n buf s = ret (e, t) \<Longrightarrow> core t = core s"
  by (auto simp: DiskReadSectors_def Let_def dest!: read_sectors_core)

lemma read_dir_sector_core [core_frame]: "read_dir_sector io p i s = ret t \<Longrightarrow> core t = core s"
  by (auto simp: read_dir_sector_def Let_def dest!: DiskReadSectors_core)

lemma find_sector_core [core_frame]: "find_sector io name p i n s = ret (f, t) \<Longrightarrow> core t = core s"
  by (induction n arbitrary: i s) (auto simp: Let_def split: option.splits dest!: read_dir_sector_core)

lemma FindFileInRootDir_core [core_frame]: "FindFileInRootDir io name e s = ret (r, t) \<Longrightarrow> core t = core s"
  by (auto simp: FindFileInRootDir_def split: option.splits dest!: core_frame)

lemma ReadFileData_core [core_frame]: "ReadFileData io c n buf s = ret t \<Longrightarrow> core t = core s"
  by (auto simp: ReadFileData_def Let_def dest!: core_frame)

lemma ReadRawData_core [core_frame]: "ReadRawData io c buf pos n s = ret (r, t) \<Longrightarrow> core t = core s"
  by (auto simp: ReadRawData_def Let_def dest!: core_frame)

lemma list_sectors_core [core_frame]: "list_sectors io st p i n (k, s) = ret (m, t) \<Longrightarrow> core t = core s"
  by (induction n arbitrary: i k s) (auto simp: Let_def dest!: core_frame)

lemma Lstat_core [core_frame]: "Lstat io path st s = ret (n, t) \<Longrightarrow> core t = core s"
  by (auto simp: Lstat_def split: if_splits dest!: core_frame)

end
