(* ===== verification/System_Invariant.thy ===== *)
theory System_Invariant
  imports Kernel_Frames
begin

text \<open>
  The invariant of the running kernel and its preservation by every system call, on every branch that
  returns: the scheduler's lists and states, the open counts of the two file tables, no files on a slot
  without a process, the bounds of the keyboard ring. Together with it goes what every process that is
  inside a system call is doing: a process in the wait list waits for the event its call waits for.
\<close>

section \<open>The invariant\<close>

definition ring_ok :: "KeyboardBuffer \<Rightarrow> bool" where
  "ring_ok k \<longleftrightarrow> k_size k = 500 \<and> k_front k < 500 \<and> k_end k < 500"

definition no_file :: "'z kernel_scheme \<Rightarrow> nat \<Rightarrow> bool" where
  "no_file s i \<longleftrightarrow> (\<forall>j. p_file (proc s i) j = None)"

definition kernel_rel :: "'z kernel_scheme \<Rightarrow> sched \<Rightarrow> bool" where
  "kernel_rel s a \<longleftrightarrow> represents True s a \<and> counts UNIV s \<and> files_below_start s
     \<and> (\<forall>i. slot i \<longrightarrow> i \<notin> live a \<longrightarrow> no_file s i) \<and> ring_ok (s_keyboard_controller s)"

lemma kernel_relD:
  assumes "kernel_rel s a"
  shows "represents True s a" "counts UNIV s" "files_below_start s" "slot i \<Longrightarrow> i \<notin> live a \<Longrightarrow> no_file s i"
    "ring_ok (s_keyboard_controller s)" "sched_wf a" "running a < MAXIMUM_NUMBER_OF_PROCESS" "current_proc s = running a"
  using assms by (auto simp: kernel_rel_def dest: represents_wf representsD(2,3))

text \<open>The event a sleeping call waits for, and what the calls in progress must satisfy.\<close>

fun wait_event :: "continuation \<Rightarrow> int" where
  "wait_event (In_SysSleep old n) = NORMAL_PROCESS_WAIT_ID"
| "wait_event (In_SysWait pid) = INIT_PROCESS_WAIT_ID"
| "wait_event (In_SysRead buf len i front) = WAITING_KEYBOARD_PROCESS_WAIT_ID"

definition blocked_ok :: "sched \<Rightarrow> (nat \<Rightarrow> continuation option) \<Rightarrow> bool" where
  "blocked_ok a K \<longleftrightarrow>
     (\<forall>i\<in>set (queue a Wait_list). \<exists>c. K i = Some c \<and> wid a i = wait_event c)
     \<and> (\<forall>i. K i \<noteq> None \<longrightarrow> i = running a \<or> i \<in> set (queue a Ready_list) \<or> i \<in> set (queue a Wait_list))"

fun pending :: "'r outcome \<Rightarrow> continuation option" where
  "pending (Done x) = None"
| "pending Exited = None"
| "pending (Blocked c) = Some c"

text \<open>The outcome of a call of the running process, and the state of the scheduler after it, fit.\<close>

definition leads :: "sched \<Rightarrow> 'r outcome \<Rightarrow> sched \<Rightarrow> bool" where
  "leads a r b \<longleftrightarrow> (\<forall>K. blocked_ok a K \<longrightarrow> blocked_ok b (K(running a := pending r)))"

definition good :: "sched \<Rightarrow> 'r outcome \<times> 'z kernel_scheme \<Rightarrow> bool" where
  "good a c \<longleftrightarrow> (\<exists>b. kernel_rel (snd c) b \<and> leads a (fst c) b)"

lemma goodI: "kernel_rel t b \<Longrightarrow> leads a r b \<Longrightarrow> good a (r, t)"
  by (auto simp: good_def)

definition quiet :: "sched \<Rightarrow> sched \<Rightarrow> bool" where
  "quiet a b \<longleftrightarrow> running b = running a \<and> queue b = queue a \<and> (\<forall>i\<in>live a. wid b i = wid a i)"

lemma quiet_refl [simp]: "quiet a a"
  by (simp add: quiet_def)

lemma quiet_live: "quiet a b \<Longrightarrow> live b = live a"
  by (simp add: quiet_def live_def)

lemma queued_live: "sched_wf a \<Longrightarrow> i \<in> set (queue a q) \<Longrightarrow> i \<in> live a \<and> i \<noteq> running a"
  by (auto simp: sched_wf_def live_def) (metis gr_zeroI neq0_conv)

lemma leads_quiet: "sched_wf a \<Longrightarrow> quiet a b \<Longrightarrow> leads a (Done x) b"
  using queued_live [of a] by (auto simp: leads_def blocked_ok_def quiet_def)

lemma dispatch_facts:
  "queue (dispatch a) Wait_list = queue a Wait_list" "wid (dispatch a) = wid a"
  "i \<in> set (queue a Ready_list) \<Longrightarrow> i = running (dispatch a) \<or> i \<in> set (queue (dispatch a) Ready_list)"
  by (auto simp: dispatch_def split: list.splits)

lemma leads_dispatch:
  assumes "\<And>K. blocked_ok a K \<Longrightarrow> (\<forall>i\<in>set (queue b Wait_list). \<exists>c. (K(running a := pending r)) i = Some c \<and> wid b i = wait_event c)
      \<and> (\<forall>i. (K(running a := pending r)) i \<noteq> None \<longrightarrow> i \<in> set (queue b Ready_list) \<or> i \<in> set (queue b Wait_list))"
  shows "leads a r (dispatch b)"
  unfolding leads_def blocked_ok_def dispatch_facts
proof (intro allI impI conjI ballI)
  fix K assume K: "(\<forall>i\<in>set (queue a Wait_list). \<exists>c. K i = Some c \<and> wid a i = wait_event c)
     \<and> (\<forall>i. K i \<noteq> None \<longrightarrow> i = running a \<or> i \<in> set (queue a Ready_list) \<or> i \<in> set (queue a Wait_list))"
  note b = assms [unfolded blocked_ok_def, OF K]
  show "\<exists>c. (K(running a := pending r)) i = Some c \<and> wid b i = wait_event c" if "i \<in> set (queue b Wait_list)" for i
    using b that by blast
  show "i = running (dispatch b) \<or> i \<in> set (queue (dispatch b) Ready_list) \<or> i \<in> set (queue b Wait_list)"
    if "(K(running a := pending r)) i \<noteq> None" for i
    using b that dispatch_facts(3) [of i b] by blast
qed

lemma leads_yield: "sched_wf a \<Longrightarrow> leads a (Done x) (sched_spec Do_yield a)"
proof -
  assume wf: "sched_wf a"
  note q = queued_live [OF wf]
  have "leads a (Done x) (dispatch a)" "leads a (Done x) (dispatch (enqueue Ready_list (running a) a))"
    by (rule leads_dispatch, use q in \<open>auto simp: blocked_ok_def enqueue_def\<close>)+
  then show ?thesis using leads_quiet [OF wf quiet_refl, of x] by simp
qed

lemma leads_sleep: "sched_wf a \<Longrightarrow> w = wait_event c \<Longrightarrow> leads a (Blocked c) (sched_spec (Do_sleep w) a)"
  unfolding sched_spec.simps
  by (rule leads_dispatch) (use queued_live [of a] in \<open>auto simp: blocked_ok_def enqueue_def\<close>)

lemma leads_exit: "sched_wf a \<Longrightarrow> leads a Exited (sched_spec Do_exit a)"
  unfolding sched_spec.simps
  by (rule leads_dispatch) (use queued_live [of a] in \<open>auto simp: blocked_ok_def enqueue_def rouse_def\<close>)

lemma leads_rouse: "sched_wf a \<Longrightarrow> leads a (Done x) (rouse w a)"
  using queued_live [of a] by (auto simp: leads_def blocked_ok_def rouse_def)

lemma leads_trans:
  assumes "leads a (Done x) b" "running b = running a" "leads b r c" shows "leads a r c"
proof (unfold leads_def, intro allI impI)
  fix K assume "blocked_ok a K"
  then have "blocked_ok b (K(running a := None))" using assms(1) by (simp add: leads_def)
  then have "blocked_ok c ((K(running a := None))(running b := pending r))" using assms(3) by (simp add: leads_def)
  then show "blocked_ok c (K(running a := pending r))" by (simp add: assms(2))
qed

section \<open>Steps that keep the invariant\<close>

lemma coreD:
  assumes "core t = core s"
  shows "s_process_manager t = s_process_manager s" "proc_lists t = proc_lists s" "current_proc t = current_proc s"
    "s_pid_num t = s_pid_num s" "s_fcb_table t = s_fcb_table s" "s_fd_table t = s_fd_table s"
    "s_keyboard_controller t = s_keyboard_controller s"
  using assms by (simp_all add: core_def)

lemma kernel_rel_files:
  assumes k: "kernel_rel s a" and r: "represents True t b" "live b = live a"
    and f: "s_fcb_table t = s_fcb_table s" "s_fd_table t = s_fd_table s" "\<And>i. p_file (proc t i) = p_file (proc s i)"
    and ring: "ring_ok (s_keyboard_controller t)"
  shows "kernel_rel t b"
proof -
  have "counts UNIV t" by (rule counts_cong [OF kernel_relD(2) [OF k]]) (use f in \<open>auto simp: file_of_def\<close>)
  then show ?thesis using k r ring f(3) by (simp add: kernel_rel_def files_below_start_def no_file_def)
qed

lemma kernel_rel_core:
  assumes "core t = core s" "kernel_rel s a" shows "kernel_rel t a"
proof (rule kernel_rel_files [OF assms(2)])
  show "represents True t a" by (rule represents_cong [OF kernel_relD(1) [OF assms(2)]]) (simp_all add: coreD [OF assms(1)])
qed (use coreD [OF assms(1)] kernel_relD(5) [OF assms(2)] in simp_all)

lemma kernel_rel_ring: "kernel_rel s a \<Longrightarrow> ring_ok k \<Longrightarrow> kernel_rel (set_ring k s) a"
  by (rule kernel_rel_files, assumption, rule represents_cong [of True s]) (auto simp: set_ring_def dest: kernel_relD)

lemma kernel_rel_sched:
  assumes "kernel_rel s a" "keeps_drivers s t" "represents True t b" "live b = live a"
  shows "kernel_rel t b"
  by (rule kernel_rel_files [OF assms(1,3,4)]) (use assms(1) keeps_driversD [OF assms(2)] in \<open>simp_all add: kernel_relD\<close>)

lemma kernel_rel_Yield: "kernel_rel s a \<Longrightarrow> \<exists>t. Yield s = ret t \<and> kernel_rel t (sched_spec Do_yield a)"
  using Yield_ok [OF kernel_relD(1)] kernel_rel_sched keeps_Yield live_spec by blast

lemma kernel_rel_Sleep:
  "kernel_rel s a \<Longrightarrow> running a \<noteq> 0 \<Longrightarrow> \<exists>t. Sleep w s = ret t \<and> kernel_rel t (sched_spec (Do_sleep w) a)"
  using Sleep_ok [OF kernel_relD(1)] kernel_rel_sched keeps_Sleep live_spec by blast

lemma kernel_rel_Exit:
  "kernel_rel s a \<Longrightarrow> running a \<noteq> 0 \<Longrightarrow> \<exists>t. Exit s = ret t \<and> kernel_rel t (sched_spec Do_exit a)"
  using Exit_ok [OF kernel_relD(1)] kernel_rel_sched keeps_Exit live_spec by blast

lemma kernel_rel_Wakeup: "kernel_rel s a \<Longrightarrow> \<exists>t. Wakeup w s = ret t \<and> kernel_rel t (rouse w a)"
proof -
  assume k: "kernel_rel s a"
  obtain t where t: "Wakeup w s = ret t" "represents True t (rouse w a)"
    using Wakeup_ok [OF kernel_relD(1) [OF k]] by blast
  have "live (rouse w a) = live a" using live_spec [of "Do_wakeup w" a] by simp
  then have "kernel_rel t (rouse w a)" using kernel_rel_sched [OF k keeps_Wakeup [OF t(1)] t(2)] by blast
  then show ?thesis using t(1) by blast
qed

lemma good_done: "kernel_rel t a \<Longrightarrow> good a (Done x, t)"
  by (rule goodI) (auto intro: leads_quiet kernel_relD)

lemma good_core: "kernel_rel s a \<Longrightarrow> core t = core s \<Longrightarrow> good a (Done x, t)"
  by (rule good_done) (rule kernel_rel_core)

lemma good_sleep:
  assumes "kernel_rel s a" "running a \<noteq> 0" "Sleep w s = ret t" "w = wait_event c" shows "good a (Blocked c, t)"
  using kernel_rel_Sleep [OF assms(1,2), of w] leads_sleep [OF kernel_relD(6) [OF assms(1)] assms(4)] assms(3)
  by (auto intro: goodI simp del: sched_spec.simps)

lemma good_exit:
  assumes "kernel_rel s a" "running a \<noteq> 0" "Exit s = ret t" shows "good a (Exited, t)"
  using kernel_rel_Exit [OF assms(1,2)] leads_exit [OF kernel_relD(6) [OF assms(1)]] assms(3)
  by (auto intro: goodI simp del: sched_spec.simps)

section \<open>Sleeping, writing, reading keys\<close>

lemma SysWrite_good: "kernel_rel s a \<Longrightarrow> SysWrite arg s = ret c \<Longrightarrow> good a c"
  by (auto simp: SysWrite_def intro: good_core dest!: core_frame)

lemma sleep_loop_good: "kernel_rel s a \<Longrightarrow> running a \<noteq> 0 \<Longrightarrow> sleep_loop old n s = ret c \<Longrightarrow> good a c"
  by (auto simp: sleep_loop_def split: if_splits intro: good_done good_sleep)

lemma SysExit_good: "kernel_rel s a \<Longrightarrow> running a \<noteq> 0 \<Longrightarrow> SysExit arg s = ret c \<Longrightarrow> good a c"
  by (auto simp: SysExit_def intro: good_exit)

lemma take_key_rel: "kernel_rel s a \<Longrightarrow> take_key f s = (ch, t) \<Longrightarrow> kernel_rel t a"
  by (auto simp: take_key_def Let_def ring_ok_def dest: kernel_relD(5) intro!: kernel_rel_ring)

lemma read_keys_good:
  "kernel_rel s a \<Longrightarrow> running a \<noteq> 0 \<Longrightarrow> read_keys buf len n s = ret c \<Longrightarrow> good a c"
proof (induction n arbitrary: s)
  case (Suc n)
  show ?case
  proof (cases "k_front (s_keyboard_controller s) = k_end (s_keyboard_controller s)")
    case True
    then show ?thesis using Suc.prems by (auto simp: Let_def ReadKeyBuffer_def intro: good_sleep)
  next
    case False
    obtain ch t where t: "take_key (k_front (s_keyboard_controller s)) s = (ch, t)" by fastforce
    with Suc.prems(3) False obtain u where u: "poke8 (buf + of_int (len - int (Suc n))) ch t = ret u"
      "read_keys buf len n u = ret c" by (auto simp: Let_def ReadKeyBuffer_def)
    have "core u = core t" using u(1) by (rule core_frame)
    then show ?thesis using Suc.IH u(2) Suc.prems(1,2) t by (blast intro: kernel_rel_core take_key_rel)
  qed
qed (auto intro: good_done)

section \<open>Creating processes\<close>

text \<open>A slot that stays unused.\<close>

lemma represents_unused:
  assumes r: "represents True s a" and i: "i < MAXIMUM_NUMBER_OF_PROCESS" "p_state (proc s i) = PROCESS_SLOT_UNUSED"
    and t: "\<And>j. j \<noteq> i \<Longrightarrow> proc t j = proc s j" "p_state (proc t i) = PROCESS_SLOT_UNUSED"
      "queues (proc_lists t) (queue a)" "current_proc t = current_proc s" "s_pid_num s \<le> s_pid_num t"
  shows "represents True t (a\<lparr>wid := (wid a)(i := p_wait_id (proc t i))\<rparr>)"
proof (rule representsI)
  have use: "in_use t j \<longleftrightarrow> in_use s j" "in_use s j \<Longrightarrow> proc t j = proc s j" for j
    using i(2) t(1,2) by (cases "j = i"; auto simp: in_use_def)+
  show "j \<in> set (queue (a\<lparr>wid := (wid a)(i := p_wait_id (proc t i))\<rparr>) q) \<Longrightarrow> slot j" for j q
    using representsD(4) [OF r] by simp
  show "j \<in> set (queue (a\<lparr>wid := (wid a)(i := p_wait_id (proc t i))\<rparr>) q) \<longleftrightarrow> p_state (proc t j) = queue_state q" if "slot j" for j q
    using representsD(5) [OF r that, of q] i(2) t(1,2) by (cases "j = i") simp_all
  show "p_state (proc t j) = PROCESS_SLOT_RUNNING \<longleftrightarrow> True \<and> j = running (a\<lparr>wid := (wid a)(i := p_wait_id (proc t i))\<rparr>)"
    if "j < MAXIMUM_NUMBER_OF_PROCESS" for j
    using representsD(6) [OF r that] i(2) t(1,2) by (cases "j = i") simp_all
  show "p_wait_id (proc t j) = wid (a\<lparr>wid := (wid a)(i := p_wait_id (proc t i))\<rparr>) j" if "j < MAXIMUM_NUMBER_OF_PROCESS" for j
    using representsD(7) [OF r that] t(1) by (cases "j = i") simp_all
  have pids: "pids_ok s" by (rule representsD(8) [OF r])
  show "pids_ok t" unfolding pids_ok_def use(1)
  proof (intro conjI allI impI)
    show "p_pid (proc t 0) = 0" "in_use s 0" using pids use(2) by (auto simp: pids_ok_def)
    show "0 < p_pid (proc t j)" if "in_use s j" "0 < j" for j
      using that pids by (simp add: use(2) pids_ok_def in_use_def)
    show "p_pid (proc t j) < s_pid_num t" if "in_use s j" for j
      using that pids t(5) by (fastforce simp: use(2) pids_ok_def in_use_def)
    show "j = l" if "j < MAXIMUM_NUMBER_OF_PROCESS" "l < MAXIMUM_NUMBER_OF_PROCESS" "in_use s j" "in_use s l"
      "p_pid (proc t j) = p_pid (proc t l)" for j l
      using that pids by (simp add: use(2) pids_ok_def)
  qed
qed (use representsD(2,3) [OF r] t in simp_all)

lemma unused_slot:
  assumes r: "represents True s a" and i: "i < MAXIMUM_NUMBER_OF_PROCESS" "p_state (proc s i) = PROCESS_SLOT_UNUSED"
  shows "slot i" "i \<notin> live a" "i \<notin> set (queue a q)" "i \<noteq> running a"
proof -
  have "in_use s 0" using representsD(8) [OF r] by (simp add: pids_ok_def)
  then have "0 < i" using i(2) by (cases i) (auto simp: in_use_def)
  then show s: "slot i" using i(1) by (simp add: slot_def)
  show q: "i \<notin> set (queue a q)" for q using representsD(5) [OF r s, of q] i(2) by auto
  show "i \<noteq> running a" using representsD(6) [OF r i(1)] i(2) by auto
  then show "i \<notin> live a" using q by (auto simp: live_def)
qed

text \<open>A change of the slot \<open>i\<close> only, which has no files before or after.\<close>

lemma kernel_rel_slot:
  assumes k: "kernel_rel s a" and i: "slot i" "i \<notin> live a" and r: "represents True t b" "live b = live a"
    and P: "\<And>j. j \<noteq> i \<Longrightarrow> p_file (proc t j) = p_file (proc s j)" "no_file t i"
    and f: "s_fcb_table t = s_fcb_table s" "s_fd_table t = s_fd_table s" "s_keyboard_controller t = s_keyboard_controller s"
  shows "kernel_rel t b"
proof (rule kernel_rel_files [OF k r f(1,2)])
  have "no_file s i" by (rule kernel_relD(4) [OF k i])
  then show "p_file (proc t j) = p_file (proc s j)" for j using P by (cases "j = i") (auto simp: no_file_def)
qed (use f(3) kernel_relD(5) [OF k] in simp)

lemma quiet_slot: "i \<notin> live a \<Longrightarrow> quiet a (a\<lparr>wid := (wid a)(i := w)\<rparr>)"
  by (auto simp: quiet_def)

text \<open>Whatever \<open>CreateNewProcess\<close> returns: \<open>p\<close> is a slot outside all queues, or no slot has changed its use.\<close>

lemma CreateNewProcess_rel:
  fixes s :: "'z kernel_scheme"
  assumes k: "kernel_rel s a" and c: "CreateNewProcess s = ret (p, t)"
  shows "\<exists>b. kernel_rel t b \<and> quiet a b
    \<and> (\<forall>i. p = Some i \<longrightarrow> slot i \<and> i \<notin> live a \<and> no_file t i \<and> p_state (proc t i) = PROCESS_SLOT_INITIALIZED)"
proof (cases "FindFreeProcessSlot s")
  case None
  then show ?thesis using k c by (auto simp: CreateNewProcess_def)
next
  case (Some i)
  note r = kernel_relD(1) [OF k] and fi = FindFreeProcessSlot_Some [OF Some]
  note u = unused_slot [OF r conjunct1 [OF fi] conjunct2 [OF fi]]
  have nf: "no_file s i" by (rule kernel_relD(4) [OF k u(1,2)])
  obtain st s1 where s1: "kalloc s = ret (st, s1)" using c Some by (auto simp: CreateNewProcess_def)
  note c1 = coreD [OF core_more [OF kalloc_more [OF s1]]]
  let ?b = "\<lambda>w. a\<lparr>wid := (wid a)(i := w)\<rparr>"
  have post: "?thesis" if "kernel_rel t (?b w)" "\<And>i'. p = Some i' \<Longrightarrow> i' = i \<and> no_file t i \<and> p_state (proc t i) = PROCESS_SLOT_INITIALIZED" for w
    using that u quiet_slot [OF u(2)] by blast
  show ?thesis
  proof (cases "st = 0")
    case True
    then have t: "p = None" "t = set_proc i ((proc s1 i)\<lparr>p_stack := st\<rparr>) s1" using c Some s1 by (simp_all add: CreateNewProcess_def)
    have "represents True t (?b (p_wait_id (proc t i)))"
      by (rule represents_unused [OF r]) (use fi representsD(1) [OF r] in \<open>simp_all add: t c1\<close>)
    then have "kernel_rel t (?b (p_wait_id (proc t i)))"
      by (rule kernel_rel_slot [OF k u(1,2)]) (use nf in \<open>simp_all add: t c1 set_proc_def live_def no_file_def\<close>)
    then show ?thesis using post t(1) by blast
  next
    case False
    let ?s2 = "start_process i st (set_proc i ((proc s1 i)\<lparr>p_stack := st\<rparr>) s1)"
    obtain pm s3 where s3: "SetupKVM ?s2 = ret (pm, s3)" using c Some s1 False by (auto simp: CreateNewProcess_def Let_def)
    note c3 = coreD [OF core_more [OF SetupKVM_more [OF s3]], unfolded start_process_eq]
    have P: "proc s3 = (proc s)(i := new_process s1 i st)" "s_pid_num s3 = s_pid_num s + 1"
      "proc_lists s3 = proc_lists s" "current_proc s3 = current_proc s" "s_fcb_table s3 = s_fcb_table s"
      "s_fd_table s3 = s_fd_table s" "s_keyboard_controller s3 = s_keyboard_controller s"
      using c3 c1 by (simp_all add: fun_eq_iff)
    have np: "p_file (new_process s1 i st) = p_file (proc s i)" "p_pid (new_process s1 i st) = s_pid_num s" using c1 by simp_all
    show ?thesis
    proof (cases "pm = 0")
      case True
      let ?s4 = "set_proc i ((proc s3 i)\<lparr>p_page_map := pm\<rparr>) s3"
      obtain s5 where s5: "kfree st ?s4 = ret s5" and t: "p = None" "t = clear_process i s5"
        using c Some s1 False s3 True by (auto simp: CreateNewProcess_def Let_def)
      note c5 = coreD [OF core_more [OF kfree_more [OF s5]]]
      have Q: "proc t j = (if j = i then zero_process else proc s j)" for j by (simp add: t clear_process_def c5 P)
      have "queues (proc_lists t) (queue a)"
        using queues_detach [OF representsD(1) [OF r]] u(3) by (simp add: t clear_process_def c5 P)
      then have "represents True t (?b (p_wait_id (proc t i)))"
        by (intro represents_unused [OF r]) (use fi Q in \<open>simp_all add: t clear_process_def c5 P zero_process_def\<close>)
      then have "kernel_rel t (?b (p_wait_id (proc t i)))"
        by (rule kernel_rel_slot [OF k u(1,2)])
          (use Q in \<open>simp_all add: t clear_process_def set_proc_def c5 P live_def no_file_def zero_process_def\<close>)
      then show ?thesis using post t(1) by blast
    next
      case nz: False
      then have t: "p = Some i" "t = set_proc i ((proc s3 i)\<lparr>p_page_map := pm\<rparr>) s3"
        using c Some s1 False s3 by (simp_all add: CreateNewProcess_def Let_def)
      have Q: "proc t j = (if j = i then (new_process s1 i st)\<lparr>p_page_map := pm\<rparr> else proc s j)" for j by (simp add: t P)
      have "represents True t (?b 0)"
        by (rule represents_fresh(1) [OF r conjunct1 [OF fi] conjunct2 [OF fi]]) (use Q np in \<open>simp_all add: t P\<close>)
      moreover have "no_file t i" using nf Q np by (simp add: no_file_def)
      moreover have "p_state (proc t i) = PROCESS_SLOT_INITIALIZED" using Q by simp
      ultimately show ?thesis using Q
        by (intro post [of 0] kernel_rel_slot [OF k u(1,2)]) (use t(1) in \<open>simp_all add: t(2) P set_proc_def live_def\<close>)
    qed
  qed
qed

section \<open>Fork\<close>

lemma leads_enqueue_ready: "sched_wf a \<Longrightarrow> leads a (Done x) (enqueue Ready_list i a)"
  using queued_live [of a] by (auto simp: leads_def blocked_ok_def enqueue_def)

lemma leads_quiet_then:
  assumes "sched_wf a" "quiet a b" "leads b r c" shows "leads a r c"
  by (rule leads_trans [OF leads_quiet [OF assms(1,2)] _ assms(3)]) (use assms(2) in \<open>simp add: quiet_def\<close>)

lemma quiet_done: "kernel_rel s a \<Longrightarrow> kernel_rel t b \<Longrightarrow> quiet a b \<Longrightarrow> good a (Done x, t)"
  by (rule goodI) (auto intro: leads_quiet kernel_relD)

text \<open>The child gets the files of the running process and becomes ready.\<close>

lemma share_and_start:
  assumes k: "kernel_rel s a" and i: "slot i" "i \<notin> live a" "no_file s i" "p_state (proc s i) = PROCESS_SLOT_INITIALIZED"
    and s3: "for_each (share_file i) user_fds (copy_files i (running a) s) = ret s3" "core t = core s3"
    and u: "push_list Ready_list i (set_state i PROCESS_SLOT_READY t) = ret u"
  shows "kernel_rel u (enqueue Ready_list i a)"
proof -
  note r = kernel_relD(1) [OF k] and run = kernel_relD(7) [OF k]
  have lt: "i < MAXIMUM_NUMBER_OF_PROCESS" using i(1) by (simp add: slot_def)
  have ne: "i \<noteq> running a" using i(1,2) by (auto simp: live_def slot_def)
  have below: "j < USER_START_FD \<Longrightarrow> l < MAXIMUM_NUMBER_OF_PROCESS \<Longrightarrow> p_file (proc s l) j = None" for j l
    using kernel_relD(3) [OF k] by (simp add: files_below_start_def)
  from fork_files [OF kernel_relD(2) [OF k] lt run ne] i(3) below run obtain s3' where
    "for_each (share_file i) user_fds (copy_files i (running a) s) = ret s3'" "counts UNIV s3'"
    "tables_only (copy_files i (running a) s) s3'" by (auto simp: no_file_def)
  then have c3: "counts UNIV s3" and only: "tables_only (copy_files i (running a) s) s3" using s3(1) by auto
  note d = tables_onlyD [OF only] and ct = coreD [OF s3(2)]
  have ring: "s_keyboard_controller s3 = s_keyboard_controller s"
    using only by (auto simp: tables_only_def copy_files_def set_proc_def)
  have P: "proc t j = (if j = i then (proc s i)\<lparr>p_file := p_file (proc s3 i)\<rparr> else proc s j)" for j
    by (simp add: ct d copy_files_def)
  have fp: "p_file (proc s3 i) j = p_file (proc s (running a)) j \<or> p_file (proc s3 i) j = None" for j
    using i(3) by (simp add: d copy_files_def no_file_def)
  have child: "p_file (proc s3 i) j = None" if "j < USER_START_FD" for j
    using fp [of j] below [OF that run] by auto
  have "represents True t a"
    by (rule represents_cong [OF r]) (simp_all add: ct d copy_files_def)
  from make_ready [OF this i(1)] i(4) P u obtain h where
    u: "u = (set_state i PROCESS_SLOT_READY t)\<lparr>proc_lists := h\<rparr>" "represents True u (enqueue Ready_list i a)"
    by auto
  have fu: "p_file (proc u j) = p_file (proc t j)" for j by (simp add: u(1))
  have "counts UNIV u"
    by (rule counts_cong [OF c3]) (auto simp: u(1) ct file_of_def set_state_def set_proc_def)
  moreover have "files_below_start u"
    using below child by (auto simp: files_below_start_def fu P)
  moreover have "no_file u j" if "slot j" "j \<notin> live (enqueue Ready_list i a)" for j
  proof -
    have "j \<notin> live a \<and> j \<noteq> i" using that i(1) by (auto simp: live_def live_enqueue slot_def) (auto simp: enqueue_def)
    then show ?thesis using kernel_relD(4) [OF k that(1)] by (simp add: no_file_def fu P)
  qed
  ultimately show ?thesis using u(2) kernel_relD(5) [OF k]
    by (simp add: kernel_rel_def) (simp add: u(1) set_state_def set_proc_def ct ring)
qed

lemma SysFork_good:
  assumes k: "kernel_rel s a" and f: "SysFork arg s = ret c" shows "good a c"
proof -
  obtain pid t where t: "Fork s = ret (pid, t)" "c = (Done pid, t)" using f by (auto simp: SysFork_def)
  obtain p s1 where s1: "CreateNewProcess s = ret (p, s1)" using t(1) by (auto simp: Fork_def Let_def)
  from CreateNewProcess_rel [OF k s1] obtain b where b: "kernel_rel s1 b" "quiet a b"
    "\<And>i. p = Some i \<Longrightarrow> slot i \<and> i \<notin> live a \<and> no_file s1 i \<and> p_state (proc s1 i) = PROCESS_SLOT_INITIALIZED" by blast
  have cur: "current_proc s = running b" using kernel_relD(8) [OF k] b(2) by (simp add: quiet_def)
  have same: "good a c" if "core t = core s1" using quiet_done [OF k kernel_rel_core [OF that b(1)] b(2)] t(2) by simp
  show ?thesis
  proof (cases p)
    case None
    then show ?thesis using t(1) s1 same by (auto simp: Fork_def Let_def dest!: core_frame)
  next
    case (Some i)
    then obtain ok s2 where s2: "CopyUVM (p_page_map (proc s1 i)) (p_page_map (proc s1 (current_proc s))) (ucast PAGE_SIZE) s1 = ret (ok, s2)"
      using t(1) s1 by (auto simp: Fork_def Let_def)
    note c2 = core_more [OF CopyUVM_more [OF s2]]
    show ?thesis
    proof (cases ok)
      case False
      then show ?thesis using t(1) s1 s2 Some same c2 by (auto simp: Fork_def Let_def dest!: core_frame)
    next
      case True
      let ?m = "\<lambda>s3. store64 (memcpy (mem s3) (p_tf (proc s3 i)) (p_tf (proc s3 (running b))) sizeof_TrapFrame) (p_tf (proc s3 i) + tf_rax) 0"
      from t(1) s1 s2 Some True obtain s3 where s3:
        "for_each (share_file i) user_fds (copy_files i (running b) s2) = ret s3"
        "push_list Ready_list i (set_state i PROCESS_SLOT_READY (s3\<lparr>mem := ?m s3\<rparr>)) = ret t"
        by (auto simp: Fork_def Let_def cur put64_def)
      have i: "slot i" "i \<notin> live b" "no_file s2 i" "p_state (proc s2 i) = PROCESS_SLOT_INITIALIZED"
        using b(3) [OF Some] quiet_live [OF b(2)] coreD(1) [OF c2] by (auto simp: no_file_def)
      have "kernel_rel t (enqueue Ready_list i b)"
        by (rule share_and_start [OF kernel_rel_core [OF c2 b(1)] i s3(1) _ s3(2)]) simp
      moreover have "leads a (Done pid) (enqueue Ready_list i b)"
        by (rule leads_quiet_then [OF kernel_relD(6) [OF k] b(2) leads_enqueue_ready [OF kernel_relD(6) [OF b(1)]]])
      ultimately show ?thesis using t(2) goodI by blast
    qed
  qed
qed

section \<open>Wait\<close>

lemma leads_bury: "sched_wf a \<Longrightarrow> i \<in> set (queue a Kill_list) \<Longrightarrow> leads a (Done x) (bury i pid s a)"
proof -
  assume wf: "sched_wf a" and i: "i \<in> set (queue a Kill_list)"
  then have "i \<notin> set (queue a Wait_list)" by (auto simp: sched_wf_def)
  then show ?thesis using queued_live [OF wf] by (auto simp: leads_def blocked_ok_def bury_def)
qed

lemma wait_loop_good:
  assumes k: "kernel_rel s a" and run: "running a \<noteq> 0" and w: "wait_loop pid s = ret c"
  shows "good a c"
proof -
  note r = kernel_relD(1) [OF k]
  obtain fin t where t: "Wait pid s = ret (fin, t)" "c = (if fin then Done 0 else Blocked (In_SysWait pid), t)"
    using w by (auto simp: wait_loop_def)
  note empty = lists.isempty_iff [OF representsD(1) [OF r], of Kill_list]
  show ?thesis
  proof (cases "kill_match pid s a")
    case None
    then have "queue a Kill_list = []" using Wait_diverges [OF r _ None] t(1) by force
    then have "Sleep INIT_PROCESS_WAIT_ID s = ret t \<and> \<not> fin" using t(1) empty by (subst (asm) Wait.simps) auto
    then show ?thesis using good_sleep [OF k run, of INIT_PROCESS_WAIT_ID t "In_SysWait pid"] t(2) by simp
  next
    case (Some i)
    note m = kill_match_facts [OF r Some]
    from lists.remove_law [OF representsD(1) [OF r], of "\<lambda>n. p_pid (proc s n) = pid" Kill_list] Some
    obtain h where h: "remove_first (\<lambda>n. p_pid (proc s n) = pid) (proc_lists s) Kill_list = Some (Some i, h)"
      "queues h ((queue a)(Kill_list := delete_first (\<lambda>n. p_pid (proc s n) = pid) (queue a Kill_list)))"
      by (auto simp: kill_match_def)
    let ?s1 = "s\<lparr>proc_lists := h\<rparr>"
    have fin: "fin" "reap i ?s1 = ret t" using t(1) empty m(4) h(1)
      by (auto simp: RemoveProcessWithPID_def Wait.simps [of pid s])
    then obtain s2 s3 s4 where s: "kfree (p_stack (proc s i)) ?s1 = ret s2" "FreeVM (p_page_map (proc s2 i)) s2 = ret s3"
      "for_each (drop_file i) user_fds s3 = ret s4" "t = clear_process i s4" by (auto simp: reap_def)
    have "core s3 = core ?s1" using core_more [OF FreeVM_more [OF s(2)]] core_more [OF kfree_more [OF s(1)]] by simp
    note c3 = coreD [OF this]
    have "counts UNIV s3" by (rule counts_cong [OF kernel_relD(2) [OF k]]) (auto simp: c3 file_of_def)
    moreover have "files_below_start s3" using kernel_relD(3) [OF k] by (simp add: c3 files_below_start_def)
    ultimately have v: "counts UNIV t" "proc t = (proc s)(i := zero_process)" "current_proc t = current_proc s"
      "s_pid_num t = s_pid_num s" "proc_lists t = h\<lparr>lnext := (lnext h)(Node i := None)\<rparr>" "tables_only s3 s4"
      using clear_files [of s3 i] m(1) s(3,4) by (auto simp: c3 fun_eq_iff)
    have R: "represents True t (bury i pid s a)"
      by (rule represents_clear [OF r Some [unfolded kill_match_def] h(2)]) (simp_all add: v)
    have "files_below_start t" using kernel_relD(3) [OF k] by (simp add: files_below_start_def v zero_process_def)
    moreover have "no_file t j" if "slot j" "j \<notin> live (bury i pid s a)" for j
    proof (cases "j = i")
      case False
      have "set (delete_first (\<lambda>n. p_pid (proc s n) = pid) (queue a Kill_list)) = set (queue a Kill_list) - {i}"
        using lists.repr_distinct [OF representsD(1) [OF r]] Some [unfolded kill_match_def] by (rule set_delete_first)
      then have "j \<notin> live a" using that(2) False by (auto simp: live_def bury_def UN_queues)
      then show ?thesis using kernel_relD(4) [OF k that(1)] False by (simp add: no_file_def v)
    qed (simp add: no_file_def v zero_process_def)
    moreover have "s_keyboard_controller t = s_keyboard_controller s"
      using v(6) s(4) c3(7) by (auto simp: tables_only_def clear_process_def set_proc_def)
    ultimately have "kernel_rel t (bury i pid s a)" using R v(1) kernel_relD(5) [OF k] by (simp add: kernel_rel_def)
    then show ?thesis using goodI leads_bury [OF kernel_relD(6) [OF k] m(5)] fin(1) t(2) by fastforce
  qed
qed

section \<open>Files\<close>

text \<open>Steps of the running process that change its files and the tables only.\<close>

lemma kernel_rel_tables:
  assumes k: "kernel_rel s a" and run: "running a \<noteq> 0"
    and t: "proc_lists t = proc_lists s" "current_proc t = current_proc s" "s_pid_num t = s_pid_num s"
      "\<And>i. p_state (proc t i) = p_state (proc s i) \<and> p_pid (proc t i) = p_pid (proc s i) \<and> p_wait_id (proc t i) = p_wait_id (proc s i)"
      "\<And>i. i \<noteq> running a \<Longrightarrow> p_file (proc t i) = p_file (proc s i)"
      "\<And>j. j < USER_START_FD \<Longrightarrow> p_file (proc t (running a)) j = None"
    and c: "counts UNIV t" and ring: "s_keyboard_controller t = s_keyboard_controller s"
  shows "kernel_rel t a"
  unfolding kernel_rel_def
proof (intro conjI allI impI)
  show "represents True t a" by (rule represents_cong [OF kernel_relD(1) [OF k]]) (use t in simp_all)
  show "files_below_start t" unfolding files_below_start_def
  proof (intro allI impI)
    show "p_file (proc t i) j = None" if "i < MAXIMUM_NUMBER_OF_PROCESS" "j < USER_START_FD" for i j
      using kernel_relD(3) [OF k] that t(5,6) by (cases "i = running a") (auto simp: files_below_start_def)
  qed
  show "no_file t i" if "slot i" "i \<notin> live a" for i
  proof -
    have "i \<noteq> running a" using that by (auto simp: live_def slot_def)
    then show ?thesis using kernel_relD(4) [OF k that] t(5) by (simp add: no_file_def)
  qed
qed (use c ring kernel_relD(5) [OF k] in simp_all)

lemma Open_rel:
  assumes k: "kernel_rel s a" and run: "running a \<noteq> 0" and o: "Open io (running a) name s = ret (fd, t)"
  shows "kernel_rel t a"
proof (cases "free_fd (running a) s")
  case None
  then show ?thesis using k o by (simp add: Open_def)
next
  case (Some n)
  note fn = free_fdD [OF Some]
  show ?thesis
  proof (cases "free_descriptor s")
    case None
    then show ?thesis using k o Some by (simp add: Open_def)
  next
    case d: (Some d)
    obtain x e s1 where s1: "FindFileInRootDir io name zero_DirEntry s = ret ((x, e), s1)"
      using o Some d by (auto simp: Open_def)
    note c = FindFileInRootDir_core [OF s1] and k1 = kernel_rel_core [OF FindFileInRootDir_core [OF s1] k]
    consider "t = s1" | "t = link_file (running a) n d (nat x) e s1"
      using o Some d s1 by (auto simp: Open_def split: if_splits)
    then show ?thesis
    proof cases
      case 2
      have "d_fcb (s_fd_table s1 d) = None" using d coreD(6) [OF c] by (auto simp: free_descriptor_def find_Some_iff)
      from link_file_counts(1) [OF kernel_relD(2) [OF k1] kernel_relD(7) [OF k] fn(2) _ this] fn(3) coreD(1) [OF c]
      have "counts UNIV t" by (simp add: 2)
      moreover have "p_file (proc s1 (running a)) j = None" if "j < USER_START_FD" for j
        using kernel_relD(3,7) [OF k1] that by (simp add: files_below_start_def)
      ultimately show ?thesis using fn(1)
        by (intro kernel_rel_tables [OF k1 run]) (auto simp: 2 link_file_def Let_def set_file_def set_proc_def)
    qed (use k1 in simp)
  qed
qed

lemma Close_rel:
  assumes k: "kernel_rel s a" and run: "running a \<noteq> 0" and c: "Close (running a) fd s = ret t"
  shows "kernel_rel t a"
proof -
  have fd: "0 \<le> fd" "fd < int PROCESS_MAXIMUM_FILE_DESCRIPTOR" using c by (auto simp: Close_def file_at_def)
  note run' = kernel_relD(7) [OF k]
  from Close_ok [OF kernel_relD(2) [OF k] run' fd] c have t: "counts UNIV t" by auto
  have f: "p_file (proc t i) = (if i = running a \<and> p_file (proc s i) (nat fd) \<noteq> None then (p_file (proc s i))(nat fd := None) else p_file (proc s i))
     \<and> s_keyboard_controller t = s_keyboard_controller s" for i
    using c by (auto simp: Close_def file_at_def add_opens_def unlink_unused_def set_file_def set_proc_def split: option.splits if_splits)
  have "p_file (proc s (running a)) j = None" if "j < USER_START_FD" for j
    using kernel_relD(3) [OF k] run' that by (simp add: files_below_start_def)
  then show ?thesis
    using Close_frame [OF c] f by (intro kernel_rel_tables [OF k run _ _ _ _ _ _ t]) auto
qed

lemma counts_position:
  assumes "counts X s" shows "counts X (s\<lparr>s_fd_table := (s_fd_table s)(d := (s_fd_table s d)\<lparr>d_position := n\<rparr>)\<rparr>)"
proof -
  let ?t = "s\<lparr>s_fd_table := (s_fd_table s)(d := (s_fd_table s d)\<lparr>d_position := n\<rparr>)\<rparr>"
  have "file_of ?t u = file_of s u" for u by (simp add: file_of_def)
  moreover from this have "fcb_of ?t u = fcb_of s u" for u by (rule fcb_of_cong) simp
  ultimately have "fd_users X ?t e = fd_users X s e" "fcb_users X ?t f = fcb_users X s f" for e f
    by (simp_all add: fd_users_def fcb_users_def)
  then show ?thesis using assms by (simp add: counts_def)
qed

lemma Read_rel:
  assumes k: "kernel_rel s a" and r: "Read io p fd buf sz s = ret (n, t)" shows "kernel_rel t a"
proof -
  have "t = s \<or> (\<exists>s1 d x. core s1 = core s \<and> t = s1\<lparr>s_fd_table := (s_fd_table s1)(d := (s_fd_table s1 d)\<lparr>d_position := x\<rparr>)\<rparr>)"
    using r by (auto simp: Read_def Let_def split: option.splits dest!: ReadRawData_core) blast
  then show ?thesis
  proof (elim disjE exE conjE)
    fix s1 d x
    assume c: "core s1 = core s" and t: "t = s1\<lparr>s_fd_table := (s_fd_table s1)(d := (s_fd_table s1 d)\<lparr>d_position := x\<rparr>)\<rparr>"
    have k1: "kernel_rel s1 a" by (rule kernel_rel_core [OF c k])
    have "represents True t a" by (rule represents_cong [OF kernel_relD(1) [OF k1]]) (simp_all add: t)
    moreover have "counts UNIV t" unfolding t by (rule counts_position [OF kernel_relD(2) [OF k1]])
    ultimately show ?thesis using k1 by (simp add: kernel_rel_def files_below_start_def no_file_def t)
  qed (use k in simp)
qed

lemma SysExec_good:
  assumes k: "kernel_rel s a" and run: "running a \<noteq> 0" and e: "SysExec io arg s = ret c" shows "good a c"
proof -
  note cur = kernel_relD(8)
  obtain name r t where t: "Exec io (running a) name s = ret (r, t)" "c = (case r of None \<Rightarrow> Exited | Some v \<Rightarrow> Done v, t)"
    using e by (auto simp: SysExec_def cur [OF k])
  obtain fd s1 where s1: "Open io (running a) name s = ret (fd, s1)" using t(1) by (auto simp: Exec_def)
  have k1: "kernel_rel s1 a" by (rule Open_rel [OF k run s1])
  show ?thesis
  proof (cases "fd < 0")
    case True
    then obtain s2 where "print (kline ''DEBUG: Cannot open file.'') [] s1 = ret s2" "Exit s2 = ret t" "r = None"
      using t(1) s1 by (auto simp: Exec_def)
    then show ?thesis using t(2) good_exit [OF kernel_rel_core [OF core_more [OF print_more] k1] run] by auto
  next
    case False
    with t(1) s1 obtain s2 sz where s2: "vset (unat PAGE_SIZE) USER_VIRTUAL_ADDRESS_BASE 0 s1 = ret s2"
      "GetFileSize (running a) fd s2 = ret sz" by (auto simp: Exec_def)
    with t(1) s1 False obtain n s3 where s3: "Read io (running a) fd USER_VIRTUAL_ADDRESS_BASE (of_int sz) s2 = ret (n, s3)"
      by (auto simp: Exec_def)
    have k3: "kernel_rel s3 a"
      by (rule Read_rel [OF kernel_rel_core [OF core_more [OF vset_more [OF s2(1)]] k1] s3])
    show ?thesis
    proof (cases "n < 0")
      case True
      then show ?thesis using t s1 s2 s3 \<open>\<not> fd < 0\<close> good_exit [OF k3 run] by (auto simp: Exec_def)
    next
      case False
      with t(1) s1 s2 s3 \<open>\<not> fd < 0\<close> obtain s4 where s4: "Close (running a) fd s3 = ret s4"
        "t = set_start_frame (p_tf (proc s4 (running a))) (s4\<lparr>mem := memset (mem s4) (p_tf (proc s4 (running a))) 0 sizeof_TrapFrame\<rparr>)"
        "r = Some 0" by (auto simp: Exec_def Let_def)
      have "core t = core s4" by (simp add: s4(2) set_start_frame_def)
      then show ?thesis using good_core [OF Close_rel [OF k3 run s4(1)]] s4(3) t(2) by simp
    qed
  qed
qed

section \<open>All system calls\<close>

lemma call_function_good:
  assumes k: "kernel_rel s a" and run: "running a \<noteq> 0" and c: "call_function io f arg s = ret c"
  shows "good a c"
proof (cases f)
  case Call_SysRead
  then show ?thesis
    using c k run by (auto simp: call_function_def SysRead_def split: if_splits intro: read_keys_good good_done Read_rel)
next
  case Call_SysOpen
  then show ?thesis
    using c k run kernel_relD(8) [OF k] by (auto simp: call_function_def SysOpen_def intro: good_done Open_rel)
next
  case Call_SysClose
  then show ?thesis
    using c k run kernel_relD(8) [OF k] by (auto simp: call_function_def SysClose_def intro: good_done Close_rel)
next
  case Call_SysLstat
  then show ?thesis using c k by (auto simp: call_function_def SysLstat_def intro: good_core dest!: Lstat_core)
next
  case Call_SysSleep
  then show ?thesis using c k run by (auto simp: call_function_def SysSleep_def intro: sleep_loop_good)
next
  case Call_SysWait
  then show ?thesis using c k run by (auto simp: call_function_def SysWait_def intro: wait_loop_good)
next
  case Call_SysMemInfo
  then show ?thesis using c k by (auto simp: call_function_def SysMemInfo_def intro: good_done)
next
  case Call_SysClrSrc
  then show ?thesis using c good_core [OF k core_more [OF ClrSrc_more]] by (auto simp: call_function_def SysClrSrc_def)
qed (use c k run in \<open>auto simp: call_function_def intro: SysWrite_good SysExit_good SysFork_good SysExec_good\<close>)

end
