(* ===== verification/Kernel_Messages.thy ===== *)
theory Kernel_Messages
  imports Virtual_Memory
begin

text \<open>
  Messages the kernel prints while it works: a format with numbers only always fits the buffer, and the
  message changes the text buffer and the cursor of the screen, and nothing else.
\<close>

section \<open>Messages with numbers\<close>

text \<open>The number of directives of a format that has only \<open>%x\<close>, \<open>%u\<close> and \<open>%d\<close>.\<close>

fun numbers_in :: "u8 list \<Rightarrow> nat option" where
  "numbers_in [] = Some 0"
| "numbers_in (c # cs) =
     (if c \<noteq> of_char CHR ''%'' then numbers_in cs
      else case cs of
             [] \<Rightarrow> None
           | d # ds \<Rightarrow> if d \<in> {of_char CHR ''x'', of_char CHR ''u'', of_char CHR ''d''} then map_option Suc (numbers_in ds) else None)"

lemma number_directive:
  assumes "d \<in> {of_char CHR ''x'', of_char CHR ''u'', of_char CHR ''d''}"
  shows "\<exists>bs. directive d (KInt n # args) = Some (ret (bs, args)) \<and> length bs \<le> 21"
proof -
  have l: "length (WriteHexToBuffer n) \<le> 21" "length (WriteUDecimalToBuffer n) \<le> 21" "length (WriteDecimalToBuffer n) \<le> 21"
    using digit_buffer_bounds [of n] digit_buffer_bounds [of "- n"]
    by (simp_all add: WriteHexToBuffer_def WriteUDecimalToBuffer_def WriteDecimalToBuffer_def bytes_of_def)
  consider "d = of_char CHR ''x''" | "d = of_char CHR ''u''" | "d = of_char CHR ''d''" using assms by blast
  then show ?thesis
    by cases (rule exI, rule conjI, simp only: directives, rule l)+
qed

lemma format_numbers:
  "numbers_in f = Some (length ns) \<Longrightarrow> length buffer + length f + 20 * length ns \<le> 1024 \<Longrightarrow>
   \<exists>msg. format_loop f (map KInt ns) buffer = ret msg"
proof (induction f arbitrary: ns buffer rule: numbers_in.induct)
  case 1
  then show ?case by simp
next
  case (2 c cs)
  show ?case
  proof (cases "c = of_char CHR ''%''")
    case False
    then show ?thesis using 2 by (simp add: put_eq)
  next
    case c: True
    then obtain d ds where d: "cs = d # ds" "d \<in> {of_char CHR ''x'', of_char CHR ''u'', of_char CHR ''d''}"
      and len: "\<exists>k. numbers_in ds = Some k \<and> length ns = Suc k"
      using "2.prems"(1) by (auto split: list.splits if_splits)
    then obtain n ns' where ns: "ns = n # ns'" "numbers_in ds = Some (length ns')" by (cases ns) auto
    obtain bs where bs: "directive d (KInt n # map KInt ns') = Some (ret (bs, map KInt ns'))" "length bs \<le> 21"
      using number_directive [OF d(2)] by blast
    have "\<exists>msg. format_loop ds (map KInt ns') (buffer @ bs) = ret msg"
      using "2.prems"(2) ns bs(2) d c by (intro "2.IH"(2)) auto
    then show ?thesis
      using format_loop_directive [OF bs(1), of buffer ds] "2.prems"(2) ns(1) bs(2) d(1) c by auto
  qed
qed

section \<open>Printing\<close>

definition printed :: "'z console_scheme \<Rightarrow> 'z console_scheme \<Rightarrow> bool" where
  "printed s t \<longleftrightarrow> screen_ok t \<and> console.more t = console.more s
     \<and> (\<forall>x. x \<notin> screen_bytes \<longrightarrow> mem t x = mem s x)"

lemma print_printed:
  assumes "format_loop f args [] = ret msg" "screen_ok s"
  shows "\<exists>t. print f args s = ret t \<and> printed s t"
proof -
  have "console.more (WriteVGA msg s) = console.more s" by (simp add: WriteVGA_def split: prod.split)
  then have "printed s (WriteVGA msg s)"
    using WriteVGA_screen_ok [OF assms(2), of msg] WriteVGA_frame [OF assms(2), of _ msg] by (auto simp: printed_def)
  then show ?thesis using assms(1) by (simp add: print_def printk_def)
qed

lemma print_numbers:
  assumes "numbers_in f = Some (length ns)" "length f + 20 * length ns \<le> 1024" "screen_ok s"
  shows "\<exists>t. print f (map KInt ns) s = ret t \<and> printed s t"
  using print_printed [OF _ assms(3)] format_numbers [OF assms(1), of "[]"] assms(2) by auto

text \<open>The text buffer is in the first two megabytes, like everything the boot code leaves.\<close>

lemma screen_low: "screen_bytes \<subseteq> page_span KERNEL_VIRTUAL_ADDRESS_BASE"
  using span_subset [of "0xB8000" 4000 "2 ^ 21" KERNEL_VIRTUAL_ADDRESS_BASE]
  by (simp add: screen_bytes_def page_span_def VGA_def PHY_TO_VIR_def add.commute)

lemma low_not_screen:
  assumes "i + n \<le> 0xB8000" shows "span (KERNEL_VIRTUAL_ADDRESS_BASE + of_nat i) n \<inter> screen_bytes = {}"
  using span_offsets_disjoint [of i n "0xB8000" 4000 KERNEL_VIRTUAL_ADDRESS_BASE] assms
  by (simp add: screen_bytes_def VGA_def PHY_TO_VIR_def add.commute)

lemma printed_refl: "screen_ok s \<Longrightarrow> printed s s"
  by (simp add: printed_def)

lemma printed_trans: "printed s t \<Longrightarrow> printed t u \<Longrightarrow> printed s u"
  by (simp add: printed_def)

lemma printed_kmem:
  fixes s :: "'z kmem_scheme"
  assumes "printed s t"
  shows "s_free_memory_page_head t = s_free_memory_page_head s" "s_free_memory_regions t = s_free_memory_regions s"
    "s_free_memory_end_address t = s_free_memory_end_address s" "s_total_mem t = s_total_mem s"
    "l_kernel_end t = l_kernel_end s" "cr3 t = cr3 s" "kmem.more t = kmem.more s" "screen_ok t"
    "x \<notin> screen_bytes \<Longrightarrow> mem t x = mem s x"
  using assms by (cases s; cases t; simp add: printed_def)+

text \<open>The free list and the page tables are in pages above the kernel, away from the screen.\<close>

lemma low_not_page:
  assumes "valid_page ke p" "PHY_TO_VIR 0x200000 \<le> ke" "x \<in> page_span KERNEL_VIRTUAL_ADDRESS_BASE" shows "x \<notin> page_span p"
proof -
  have "p \<noteq> KERNEL_VIRTUAL_ADDRESS_BASE"
    using assms(1,2) by (auto simp: valid_page_def word_le_nat_alt PHY_TO_VIR_def KERNEL_VIRTUAL_ADDRESS_BASE_def)
  moreover have "aligned 21 KERNEL_VIRTUAL_ADDRESS_BASE" by (simp add: aligned_def KERNEL_VIRTUAL_ADDRESS_BASE_def)
  ultimately show ?thesis using page_spans_disjoint [of p KERNEL_VIRTUAL_ADDRESS_BASE] assms(1,3) by (auto simp: valid_page_def)
qed

lemma free_pages_printed:
  fixes s :: "'z kmem_scheme"
  assumes "free_pages s ps" "printed s t" "PHY_TO_VIR 0x200000 \<le> l_kernel_end s" shows "free_pages t ps"
proof (rule free_pages_frame [OF assms(1)])
  note k = printed_kmem [OF assms(2)]
  show "s_free_memory_page_head t = s_free_memory_page_head s" "l_kernel_end t = l_kernel_end s" by (rule k)+
  show "mem t x = mem s x" if "p \<in> set ps" "x \<in> page_span p" for p x
  proof (rule k(9))
    have "valid_page (l_kernel_end s) p" using assms(1) that(1) by (simp add: free_pages_def)
    from low_not_page [OF this assms(3)] show "x \<notin> screen_bytes" using screen_low that(2) by blast
  qed
qed

lemma vm_tree_printed:
  fixes s :: "'z kmem_scheme"
  assumes "vm_tree (mem s) ke r T" "printed s t" "PHY_TO_VIR 0x200000 \<le> ke" shows "vm_tree (mem t) ke r T"
proof (rule vm_tree_frame [OF assms(1)])
  fix p x
  assume "p \<in> tables r T" "x \<in> page_span p"
  then have "x \<notin> screen_bytes"
    using assms(1) low_not_page [OF _ assms(3)] screen_low by (auto simp: tables_def vm_tree_def)
  then show "mem t x = mem s x" by (rule printed_kmem(9) [OF assms(2)])
qed

end
