(* ===== verification/System_Run.thy ===== *)
theory System_Run
  imports System_Invariant Kernel_Messages
begin

text \<open>
  The running machine: user programs, whose code is not known, compute and raise interrupts; the kernel
  handles each interrupt to its end, or to the point where the process sleeps; a process that runs again
  goes on where it slept. \<open>sys_step\<close> is one such step, on the state of the kernel and, for every process
  that sleeps inside a system call, the rest of that call. The properties hold of every state that can
  be reached from the end of \<open>InitProcess\<close>, whatever the programs and the devices do.
\<close>

section \<open>The handler keeps the invariant\<close>

lemma leads_pending: "leads a r b \<Longrightarrow> pending r' = pending r \<Longrightarrow> leads a r' b"
  by (simp add: leads_def)

lemma good_cong: "good a (r, s) \<Longrightarrow> core t = core s \<Longrightarrow> pending r' = pending r \<Longrightarrow> good a (r', t)"
  unfolding good_def by (auto intro: kernel_rel_core leads_pending)

lemma store_result_good: "good a c \<Longrightarrow> store_result tf c = ret d \<Longrightarrow> good a d"
  by (cases c) (auto simp: store_result_def split: outcome.splits intro: good_cong)

lemma SystemCall_good:
  assumes k: "kernel_rel s a" and run: "running a \<noteq> 0" and c: "SystemCall io tf s = ret c" shows "good a c"
proof -
  consider v where "c = (Done (), put64 (tf + tf_rax) v s)"
    | f arg d where "call_function io f arg s = ret d" "store_result tf d = ret c"
    using c by (auto simp: SystemCall_def Let_def split: if_splits)
  then show ?thesis
    by cases (auto intro: good_core [OF k] store_result_good call_function_good [OF k run])
qed

lemma tick_rel:
  assumes "kernel_rel s a"
  shows "\<exists>t. tick io s = ret t \<and> kernel_rel t (sched_spec Do_yield (rouse NORMAL_PROCESS_WAIT_ID a))"
proof -
  have "kernel_rel (s\<lparr>s_system_ticks := s_system_ticks s + 1\<rparr>) a" by (rule kernel_rel_core [OF _ assms]) simp
  from kernel_rel_Wakeup [OF this, of NORMAL_PROCESS_WAIT_ID] obtain t where
    t: "Wakeup NORMAL_PROCESS_WAIT_ID (s\<lparr>s_system_ticks := s_system_ticks s + 1\<rparr>) = ret t"
    "kernel_rel t (rouse NORMAL_PROCESS_WAIT_ID a)" by blast
  have "kernel_rel (EOI io t) (rouse NORMAL_PROCESS_WAIT_ID a)" by (rule kernel_rel_core [OF _ t(2)]) simp
  from kernel_rel_Yield [OF this] t(1) show ?thesis by (auto simp: tick_def)
qed

lemma leads_tick:
  fixes s :: "'z kernel_scheme"
  assumes k: "kernel_rel s a" shows "leads a (Done x) (sched_spec Do_yield (rouse w a))"
proof -
  obtain t :: "'z kernel_scheme" where "kernel_rel t (rouse w a)" using kernel_rel_Wakeup [OF k, of w] by blast
  then have "leads (rouse w a) (Done x) (sched_spec Do_yield (rouse w a))" by (rule leads_yield [OF kernel_relD(6)])
  then show ?thesis by (intro leads_trans [OF leads_rouse [OF kernel_relD(6) [OF k]]]) (simp_all add: rouse_def)
qed

lemma KeyboardHandler_rel:
  assumes k: "kernel_rel s a"
  shows "\<exists>t b. KeyboardHandler io s = ret t \<and> kernel_rel t b \<and> (b = a \<or> b = rouse WAITING_KEYBOARD_PROCESS_WAIT_ID a)"
proof -
  obtain ch s1 where s1: "ReadCharacter io s = (ch, s1)" by fastforce
  have "core s1 = core s"
    using arg_cong [OF s1, of snd] by (auto simp: ReadCharacter_def Let_def split_def set_flag_def core_def InByte_def)
  from kernel_rel_core [OF this k] have k1: "kernel_rel s1 a" .
  have "kernel_rel (WriteKeyBuffer ch s1) a"
    using kernel_relD(5) [OF k1] k1 by (auto simp: WriteKeyBuffer_def Let_def ring_ok_def intro!: kernel_rel_ring)
  from kernel_rel_Wakeup [OF this] show ?thesis using s1 k1 by (auto simp: KeyboardHandler_def)
qed

text \<open>
  The interrupts that can come. The idle process runs in ring 0 with interrupts enabled and makes no
  call: the timer, the keyboard and a spurious interrupt. Another process runs in ring 3; the processor
  saves its registers in the frame at the top of its kernel stack.
\<close>

definition raised :: "u64 \<Rightarrow> 'z kernel_scheme \<Rightarrow> bool" where
  "raised tf s \<longleftrightarrow>
     (let trapno = load64 (mem s) (tf + tf_trapno); ring = load64 (mem s) (tf + tf_cs) AND 3 in
      if current_proc s = 0 then trapno \<in> {32, 33, 39}
      else trapno \<in> of_nat ` (set vectors \<union> {SYSTEM_CALL_INTERRUPT_NUMBER}) \<and> ring = 3
           \<and> tf = p_tf (proc s (current_proc s)))"

lemma InterruptHandler_good:
  assumes k: "kernel_rel s a" and tf: "raised tf s" and c: "InterruptHandler io cr2 tf s = ret c"
  shows "good a c"
proof -
  let ?n = "load64 (mem s) (tf + tf_trapno)"
  have run: "running a \<noteq> 0 \<and> load64 (mem s) (tf + tf_cs) AND 3 = 3" if "?n \<notin> {32, 33, 39}"
    using tf that kernel_relD(8) [OF k] by (auto simp: raised_def Let_def split: if_splits)
  consider t where "tick io s = ret t" "c = (Done (), t)"
    | t where "KeyboardHandler io s = ret t" "c = (Done (), EOI io t)"
    | t where "core t = core s" "c = (Done (), t)"
    | "SystemCall io tf s = ret c" "running a \<noteq> 0"
    | t u where "core u = core s" "Exit u = ret t" "c = (Exited, t)" "running a \<noteq> 0"
  proof -
    consider "?n = 32" | "?n = 33" | "?n = 39" | "?n \<notin> {32, 33, 39}" by blast
    then show thesis
    proof cases
      case 4
      note r = run [OF 4]
      show thesis
      proof (cases "?n = of_nat SYSTEM_CALL_INTERRUPT_NUMBER")
        case True
        then show thesis using c 4 r that(4) by (simp add: InterruptHandler_def Let_def)
      next
        case False
        then obtain u t where "print (kline ''[Exception: %d][%x:%x]: Terminating process.'')
            [KInt ?n, KInt cr2, KInt (load64 (mem s) (tf + tf_rip))] s = ret u" "Exit u = ret t" "c = (Exited, t)"
          using c 4 r by (auto simp: InterruptHandler_def Let_def)
        then show thesis using that(5) core_more [OF print_more] r by blast
      qed
    next
      case 3
      have "core (EOI io (snd (ReadISR io s))) = core s" "core (snd (ReadISR io s)) = core s" by simp_all
      moreover have "c = (Done (), EOI io (snd (ReadISR io s))) \<or> c = (Done (), snd (ReadISR io s))"
        using 3 c by (auto simp: InterruptHandler_def Let_def split_def split: if_splits)
      ultimately show thesis using that(3) by blast
    qed (use c that(1,2) in \<open>auto simp: InterruptHandler_def\<close>)
  qed
  then show ?thesis
  proof cases
    case 1
    then show ?thesis using tick_rel [OF k, of io] by (auto intro: goodI [OF _ leads_tick [OF k]] simp del: sched_spec.simps)
  next
    case 2
    from KeyboardHandler_rel [OF k, of io] 2(1) obtain b where
      b: "kernel_rel t b" "b = a \<or> b = rouse WAITING_KEYBOARD_PROCESS_WAIT_ID a" by auto
    have wf: "sched_wf a" by (rule kernel_relD(6) [OF k])
    have "kernel_rel (EOI io t) b" by (rule kernel_rel_core [OF _ b(1)]) simp
    moreover have "leads a (Done ()) b" using b(2) leads_rouse [OF wf] leads_quiet [OF wf quiet_refl] by metis
    ultimately show ?thesis using 2(2) goodI by metis
  next
    case 3
    then show ?thesis using good_core [OF k] by simp
  next
    case 4
    then show ?thesis using SystemCall_good [OF k] by blast
  next
    case 5
    then show ?thesis using good_exit [OF kernel_rel_core [OF _ k]] by blast
  qed
qed

lemma resume_good:
  assumes k: "kernel_rel s a" and run: "running a \<noteq> 0" and c: "resume w s = ret c" shows "good a c"
proof (cases w)
  case (In_SysRead buf len i f)
  obtain ch s1 where t: "take_key f s = (ch, s1)" by fastforce
  then obtain s2 where s2: "poke8 (buf + of_int i) ch s1 = ret s2" "read_keys buf len (nat (len - i - 1)) s2 = ret c"
    using c In_SysRead by (auto simp: resume_def)
  show ?thesis
    by (rule read_keys_good [OF kernel_rel_core [OF core_more [OF poke8_more [OF s2(1)]] take_key_rel [OF k t]] run s2(2)])
qed (use c k run in \<open>auto simp: resume_def intro: sleep_loop_good wait_loop_good\<close>)

section \<open>Steps of the machine\<close>

type_synonym calls = "nat \<Rightarrow> continuation option"

inductive sys_step :: "'d ports \<Rightarrow> ('d, 'z) io_kernel_scheme \<times> calls \<Rightarrow> ('d, 'z) io_kernel_scheme \<times> calls \<Rightarrow> bool"
  for io :: "'d ports" where
  program: "K (current_proc s) = None \<Longrightarrow> sys_step io (s, K) (s\<lparr>mem := m, regs := r\<rparr>, K)"
| device: "sys_step io (s, K) (s\<lparr>dev := d\<rparr>, K)"
| interrupt: "K (current_proc s) = None \<Longrightarrow> raised tf s \<Longrightarrow> InterruptHandler io cr2 tf s = ret (r, t) \<Longrightarrow>
    sys_step io (s, K) (t, K(current_proc s := pending r))"
| go_on: "K (current_proc s) = Some c \<Longrightarrow>
    andthen (resume c s) (store_result (p_tf (proc s (current_proc s)))) = ret (r, t) \<Longrightarrow>
    sys_step io (s, K) (t, K(current_proc s := pending r))"

definition system_inv :: "('d, 'z) io_kernel_scheme \<times> calls \<Rightarrow> bool" where
  "system_inv c \<longleftrightarrow> (\<exists>a. kernel_rel (fst c) a \<and> blocked_ok a (snd c) \<and> snd c 0 = None)"

lemma idle_returns:
  "load64 (mem s) (tf + tf_trapno) \<in> {32, 33, 39} \<Longrightarrow> InterruptHandler io cr2 tf s = ret (r, t) \<Longrightarrow> r = Done ()"
  by (auto simp: InterruptHandler_def Let_def split_def split: if_splits)

lemma system_inv_good:
  assumes "kernel_rel s a" "blocked_ok a K" "K 0 = None" "good a (r, t)" "running a = 0 \<Longrightarrow> pending r = None"
  shows "system_inv (t, K(running a := pending r))"
proof -
  obtain b where "kernel_rel t b" "leads a r b" using assms(4) by (auto simp: good_def)
  then show ?thesis using assms(2,3,5) by (auto simp: system_inv_def leads_def intro!: exI [of _ b])
qed

lemma sys_step_inv:
  assumes "sys_step io c d" "system_inv c" shows "system_inv d"
  using assms
proof cases
  case (program K s r m)
  then show ?thesis using assms(2) kernel_rel_core [of "s\<lparr>mem := m, regs := r\<rparr>" s] by (auto simp: system_inv_def)
next
  case (device s K d)
  then show ?thesis using assms(2) kernel_rel_core [of "s\<lparr>dev := d\<rparr>" s] by (auto simp: system_inv_def)
next
  case (interrupt K s tf cr2 r t)
  then obtain a where a: "kernel_rel s a" "blocked_ok a K" "K 0 = None" using assms(2) by (auto simp: system_inv_def)
  have "running a = 0 \<Longrightarrow> pending r = None"
    using interrupt(4) idle_returns [OF _ interrupt(5)] kernel_relD(8) [OF a(1)] by (auto simp: raised_def Let_def)
  from system_inv_good [OF a InterruptHandler_good [OF a(1) interrupt(4,5)] this] show ?thesis
    using interrupt(2) kernel_relD(8) [OF a(1)] by simp
next
  case (go_on K s w r t)
  then obtain a where a: "kernel_rel s a" "blocked_ok a K" "K 0 = None" using assms(2) by (auto simp: system_inv_def)
  have run: "running a \<noteq> 0" using go_on(3) a(3) kernel_relD(8) [OF a(1)] by (metis option.distinct(1))
  obtain x where x: "resume w s = ret x" "store_result (p_tf (proc s (current_proc s))) x = ret (r, t)" using go_on(4) by auto
  from system_inv_good [OF a store_result_good [OF resume_good [OF a(1) run x(1)] x(2)]] run show ?thesis
    using go_on(2) kernel_relD(8) [OF a(1)] by simp
qed

lemma sys_run_inv: "(sys_step io)\<^sup>*\<^sup>* c d \<Longrightarrow> system_inv c \<Longrightarrow> system_inv d"
  by (induction rule: rtranclp_induct) (auto intro: sys_step_inv)

section \<open>The start\<close>

lemma SetupUVM_more: "SetupUVM p st sz s = ret (b, t) \<Longrightarrow> kmem.more t = kmem.more s"
  by (auto simp: SetupUVM_def Let_def split: if_splits dest!: kmem_frame)

lemma InitProcess_rel:
  fixes s :: "'z kernel_scheme"
  assumes f: "fresh s" "ring_ok (s_keyboard_controller s)" and i: "InitProcess s = ret t"
  shows "\<exists>a. kernel_rel t a \<and> running a = 0 \<and> queue a Wait_list = []"
proof -
  from InitIDLEProcess_ok [OF f(1)] obtain P where P: "InitIDLEProcess s = ret (s\<lparr>s_process_manager := P, current_proc := 0\<rparr>)"
    "P 0 = zero_process\<lparr>p_page_map := PHY_TO_VIR (cr3 s), p_state := PROCESS_SLOT_RUNNING\<rparr>"
    "\<forall>i. 0 < i \<longrightarrow> P i = zero_process"
    "represents True (s\<lparr>s_process_manager := P, current_proc := 0\<rparr>) idle_spec" by blast
  let ?s = "s\<lparr>s_process_manager := P, current_proc := 0\<rparr>"
  have nf: "p_file (P i) j = None" for i j using P(2,3) by (cases i) (simp_all add: zero_process_def)
  have "counts UNIV ?s"
    by (rule counts_cong [of UNIV s]) (use f(1) nf in \<open>auto simp: fresh_def file_of_def zero_process_def\<close>)
  then have k: "kernel_rel ?s idle_spec"
    using P(4) f(2) nf by (simp add: kernel_rel_def files_below_start_def no_file_def)
  obtain p s1 where s1: "CreateNewProcess ?s = ret (p, s1)" using i P(1) by (auto simp: InitProcess_def InitShellProcess_def)
  from CreateNewProcess_rel [OF k s1] obtain b where b: "kernel_rel s1 b" "quiet idle_spec b"
    "\<And>j. p = Some j \<Longrightarrow> slot j \<and> j \<notin> live idle_spec \<and> no_file s1 j \<and> p_state (proc s1 j) = PROCESS_SLOT_INITIALIZED" by blast
  from i P(1) s1 obtain j s2 where j: "p = Some j"
    "SetupUVM (p_page_map (proc s1 j)) (PHY_TO_VIR USER_INIT_PROCESS_ADDRESS_BASE) SIZE_OF_INIT_PROCCESS s1 = ret (True, s2)"
    "push_list Ready_list j (set_state j PROCESS_SLOT_READY s2) = ret t"
    by (auto simp: InitProcess_def InitShellProcess_def split: option.splits)
  note c2 = core_more [OF SetupUVM_more [OF j(2)]] and bj = b(3) [OF j(1)]
  have k2: "kernel_rel s2 b" by (rule kernel_rel_core [OF c2 b(1)])
  from make_ready [OF kernel_relD(1) [OF k2], of j] bj coreD(1) [OF c2] j(3) obtain h where
    t: "t = (set_state j PROCESS_SLOT_READY s2)\<lparr>proc_lists := h\<rparr>" "represents True t (enqueue Ready_list j b)" by auto
  have live: "live b = {}" "live (enqueue Ready_list j b) = {j}"
    using b(2) bj by (auto simp: quiet_def live_def idle_spec_def enqueue_def slot_def UN_queues)
  have "kernel_rel t (enqueue Ready_list j b)"
    unfolding kernel_rel_def
  proof (intro conjI allI impI t(2))
    show "counts UNIV t"
      by (rule counts_cong [OF kernel_relD(2) [OF k2]]) (auto simp: t(1) set_state_def set_proc_def file_of_def)
    show "files_below_start t" using kernel_relD(3) [OF k2] by (simp add: t(1) files_below_start_def)
    show "no_file t l" if "slot l" "l \<notin> live (enqueue Ready_list j b)" for l
      using kernel_relD(4) [OF k2 that(1)] live by (simp add: t(1) no_file_def)
    show "ring_ok (s_keyboard_controller t)" using kernel_relD(5) [OF k2] by (simp add: t(1) set_state_def set_proc_def)
  qed
  then show ?thesis using b(2) by (intro exI [of _ "enqueue Ready_list j b"]) (simp add: quiet_def idle_spec_def enqueue_def)
qed

lemma start_inv:
  fixes s :: "('d, 'z) io_kernel_scheme"
  assumes "fresh s" "ring_ok (s_keyboard_controller s)" "InitProcess s = ret t" "core u = core t" shows "system_inv (u, \<lambda>_. None)"
  using InitProcess_rel [OF assms(1-3)] kernel_rel_core [OF assms(4)] by (auto simp: system_inv_def blocked_ok_def)

text \<open>
  The states of the machine after \<open>KMain\<close>: \<open>InitProcess\<close> has returned, from statics as the boot leaves
  them, and the last message is on the screen.
\<close>

definition welcome_message :: "'z kmem_scheme \<Rightarrow> 'z kmem_scheme kres" where
  "welcome_message = print (kline ''Finished kernel initialization. Welcome to LARVA-OS.'') []"

lemma welcome_message_ok: "screen_ok s \<Longrightarrow> \<exists>t. welcome_message s = ret t \<and> printed s t"
  using print_numbers [of "kline ''Finished kernel initialization. Welcome to LARVA-OS.''" "[]" s]
  by (simp add: welcome_message_def kline_def bytes_of_def)

definition reachable :: "'d ports \<Rightarrow> ('d, 'z) io_kernel_scheme \<times> calls \<Rightarrow> bool" where
  "reachable io c \<longleftrightarrow> (\<exists>s t u. fresh s \<and> ring_ok (s_keyboard_controller s) \<and> InitProcess s = ret t \<and> welcome_message t = ret u
     \<and> (sys_step io)\<^sup>*\<^sup>* (u, \<lambda>_. None) c)"

lemma reachable_inv: "reachable io c \<Longrightarrow> system_inv c"
  using sys_run_inv start_inv core_more [OF print_more] unfolding reachable_def welcome_message_def by blast

lemma reachableE:
  assumes "reachable io (u, K)"
  obtains a where "kernel_rel u a" "blocked_ok a K" "K 0 = None"
  using reachable_inv [OF assms] by (auto simp: system_inv_def)

text \<open>A wake-up for the event of a call makes the process ready, unless it is already.\<close>

lemma awake_state:
  assumes "represents True s a" "i \<noteq> 0" "i = running a \<or> i \<in> set (queue a Ready_list)"
  shows "p_state (proc s i) \<in> {PROCESS_SLOT_READY, PROCESS_SLOT_RUNNING}"
proof -
  have "p_state (proc s i) = PROCESS_SLOT_RUNNING" if "i = running a"
    using representsD(6) [OF assms(1) representsD(3) [OF assms(1)]] that by simp
  moreover have "p_state (proc s i) = PROCESS_SLOT_READY" if i: "i \<in> set (queue a Ready_list)"
    using representsD(5) [OF assms(1) representsD(4) [OF assms(1) i], of Ready_list] i by simp
  ultimately show ?thesis using assms(3) by blast
qed

lemma roused:
  assumes "blocked_ok a K" "K i = Some c" "wait_event c = w"
  shows "i = running a \<or> i \<in> set (queue (rouse w a) Ready_list)"
  using assms by (fastforce simp: blocked_ok_def rouse_def)

lemma yield_keeps_awake:
  "i = running a \<or> i \<in> set (queue a Ready_list) \<Longrightarrow> i \<noteq> 0 \<Longrightarrow>
   i = running (sched_spec Do_yield a) \<or> i \<in> set (queue (sched_spec Do_yield a) Ready_list)"
  by (auto simp: dispatch_def enqueue_def split: list.splits)

section \<open>Properties\<close>

text \<open>
  Property C1. Whatever the programs and the devices do, every state the kernel reaches satisfies its invariants:
  the three lists hold the ready, the sleeping and the killed processes, each once, and one process
  runs; the counts of the open files are the numbers of their users; a slot without a process has no
  files; the ring of the keyboard is in its bounds; and a process that sleeps is inside a system call
  and waits for the event of that call.
\<close>

theorem kernel_invariant:
  fixes u :: "('d, 'z) io_kernel_scheme"
  assumes "reachable io (u, K)"
  shows "(\<exists>a. represents True u a) \<and> counts UNIV u \<and> files_below_start u \<and> ring_ok (s_keyboard_controller u)
     \<and> (\<forall>i. slot i \<longrightarrow> p_state (proc u i) = PROCESS_SLOT_UNUSED \<longrightarrow> no_file u i)
     \<and> (\<forall>i. slot i \<longrightarrow> p_state (proc u i) = PROCESS_SLOT_SLEEPING \<longrightarrow>
            (\<exists>c. K i = Some c \<and> p_wait_id (proc u i) = wait_event c))"
proof -
  from assms obtain a where a: "kernel_rel u a" "blocked_ok a K" by (rule reachableE)
  note r = kernel_relD(1) [OF a(1)]
  have "no_file u i" if "slot i" "p_state (proc u i) = PROCESS_SLOT_UNUSED" for i
    using unused_slot(2) [OF r _ that(2)] kernel_relD(4) [OF a(1) that(1)] that(1) by (simp add: slot_def)
  moreover have "\<exists>c. K i = Some c \<and> p_wait_id (proc u i) = wait_event c"
    if "slot i" "p_state (proc u i) = PROCESS_SLOT_SLEEPING" for i
    using representsD(5) [OF r that(1), of Wait_list] representsD(7) [OF r, of i] a(2) that
    by (auto simp: blocked_ok_def slot_def)
  ultimately show ?thesis using kernel_relD(1-3,5) [OF a(1)] by blast
qed

text \<open>
  Property C2. No wake-up is lost: in every reachable state a process that is inside a sleeping system call becomes
  ready, if it is not ready or running already, as soon as the event of its call is signalled.
\<close>

theorem no_lost_wakeup:
  fixes u :: "('d, 'z) io_kernel_scheme"
  assumes "reachable io (u, K)" "K i = Some c"
  shows "\<exists>v. Wakeup (wait_event c) u = ret v \<and> p_state (proc v i) \<in> {PROCESS_SLOT_READY, PROCESS_SLOT_RUNNING}"
proof -
  from assms(1) obtain a where a: "kernel_rel u a" "blocked_ok a K" "K 0 = None" by (rule reachableE)
  have i: "i \<noteq> 0" using a(3) assms(2) by (cases i) auto
  from kernel_rel_Wakeup [OF a(1), of "wait_event c"] obtain v where
    v: "Wakeup (wait_event c) u = ret v" "kernel_rel v (rouse (wait_event c) a)" by blast
  have "i = running (rouse (wait_event c) a) \<or> i \<in> set (queue (rouse (wait_event c) a) Ready_list)"
    using roused [OF a(2) assms(2) refl] by (auto simp: rouse_def)
  from awake_state [OF kernel_relD(1) [OF v(2)] i this] show ?thesis using v(1) by blast
qed

text \<open>
  Property C3. The timer and the keyboard interrupt are always handled to the end, in every reachable state: the
  loops of the handlers stop and no assertion fails. The timer counts a tick, and afterwards every
  process inside \<open>SysSleep\<close> is ready or running.
\<close>

theorem interrupts_return:
  fixes u :: "('d, 'z) io_kernel_scheme"
  assumes "reachable io (u, K)" "load64 (mem u) (tf + tf_trapno) \<in> {32, 33}"
  shows "\<exists>v. InterruptHandler io cr2 tf u = ret (Done (), v)
     \<and> (load64 (mem u) (tf + tf_trapno) = 32 \<longrightarrow> s_system_ticks v = s_system_ticks u + 1
          \<and> (\<forall>i old n. K i = Some (In_SysSleep old n) \<longrightarrow> p_state (proc v i) \<in> {PROCESS_SLOT_READY, PROCESS_SLOT_RUNNING}))"
proof -
  from assms(1) obtain a where a: "kernel_rel u a" "blocked_ok a K" "K 0 = None" by (rule reachableE)
  let ?w = "NORMAL_PROCESS_WAIT_ID"
  show ?thesis
  proof (cases "load64 (mem u) (tf + tf_trapno) = 32")
    case True
    from tick_rel [OF a(1), of io] obtain v where v: "tick io u = ret v" "kernel_rel v (sched_spec Do_yield (rouse ?w a))" by blast
    have "s_system_ticks v = s_system_ticks u + 1" using tick_ok [OF kernel_relD(1) [OF a(1)], of io] v(1) by auto
    moreover have "p_state (proc v i) \<in> {PROCESS_SLOT_READY, PROCESS_SLOT_RUNNING}" if "K i = Some (In_SysSleep old n)" for i old n
    proof -
      have i: "i \<noteq> 0" using a(3) that by (cases i) auto
      have "i = running (rouse ?w a) \<or> i \<in> set (queue (rouse ?w a) Ready_list)"
        using roused [OF a(2) that, of ?w] by (auto simp: rouse_def)
      from yield_keeps_awake [OF this i] show ?thesis by (rule awake_state [OF kernel_relD(1) [OF v(2)] i])
    qed
    ultimately show ?thesis using True v(1) by (auto simp: InterruptHandler_def Let_def)
  next
    case False
    then show ?thesis using KeyboardHandler_rel [OF a(1), of io] assms(2) by (auto simp: InterruptHandler_def Let_def)
  qed
qed

section \<open>A run of the machine\<close>

text \<open>The init process starts with the first timer interrupt and calls \<open>SysSleep\<close> with three ticks.\<close>

lemma table_more: "kmem.more t = kmem.more s \<Longrightarrow> s_syscall_table t = s_syscall_table s \<and> s_BIOS_parameter_block t = s_BIOS_parameter_block s"
  by (cases s; cases t) simp

lemma InitProcess_table:
  "InitProcess s = ret t \<Longrightarrow> s_syscall_table t = s_syscall_table s \<and> s_BIOS_parameter_block t = s_BIOS_parameter_block s"
proof -
  have "CreateNewProcess u = ret (p, v) \<Longrightarrow> s_syscall_table v = s_syscall_table u \<and> s_BIOS_parameter_block v = s_BIOS_parameter_block u"
    for u v :: "'a kernel_scheme" and p
    by (auto simp: CreateNewProcess_def Let_def clear_process_def set_proc_def start_process_def set_start_frame_def put64_def
        split: option.splits if_splits dest!: kmem_frame [THEN table_more])
  then show "InitProcess s = ret t \<Longrightarrow> s_syscall_table t = s_syscall_table s \<and> s_BIOS_parameter_block t = s_BIOS_parameter_block s"
    by (auto simp: InitProcess_def InitIDLEProcess_def InitShellProcess_def set_state_def set_proc_def push_list_def
        split: option.splits dest!: SetupUVM_more [THEN table_more])
qed

definition sleep_frame :: "u64 \<Rightarrow> memory" where
  "sleep_frame tf =
     (let st = \<lambda>x v m. store64 m (tf + of_nat x) v
      in st 144 0x13 (st 120 0x80 (st 112 1 (st 80 (tf + 8) (st 8 3 (\<lambda>_. 0))))))"

lemma sleep_frame:
  "load64 (sleep_frame tf) (tf + tf_cs) = 0x13" "load64 (sleep_frame tf) (tf + tf_trapno) = 0x80"
  "load64 (sleep_frame tf) (tf + tf_rax) = 1" "load64 (sleep_frame tf) (tf + tf_rdi) = 0"
  "load64 (sleep_frame tf) (tf + tf_rsi) = tf + 8" "load64 (sleep_frame tf) (tf + 8) = 3"
proof -
  have l: "x mod 8 = 0 \<Longrightarrow> x < 2 ^ 60 \<Longrightarrow> load64 (sleep_frame tf) (tf + of_nat x) =
    (if x = 144 then 0x13 else if x = 120 then 0x80 else if x = 112 then 1 else if x = 80 then tf + 8 else if x = 8 then 3 else 0)" for x
    unfolding sleep_frame_def Let_def by (simp add: load_store_offset load64_zero del: of_nat_numeral)
  show "load64 (sleep_frame tf) (tf + tf_cs) = 0x13" "load64 (sleep_frame tf) (tf + tf_trapno) = 0x80"
    "load64 (sleep_frame tf) (tf + tf_rax) = 1" "load64 (sleep_frame tf) (tf + tf_rdi) = 0"
    "load64 (sleep_frame tf) (tf + tf_rsi) = tf + 8" "load64 (sleep_frame tf) (tf + 8) = 3"
    using l [of 144] l [of 120] l [of 112] l [of 72] l [of 80] l [of 8]
    by (simp_all add: tf_cs_def tf_trapno_def tf_rax_def tf_rsi_def tf_rdi_def)
qed

lemma tick_keeps: "tick io s = ret t \<Longrightarrow> s_syscall_table t = s_syscall_table s \<and> p_tf (proc t i) = p_tf (proc s i)"
  by (auto simp: tick_def EOI_def OutByte_def keeps_drivers_def dest!: keeps_Wakeup keeps_Yield)

lemma sleeping_reached:
  "\<exists>(u :: u8 list io_kernel) K old. reachable typing (u, K) \<and> K 1 = Some (In_SysSleep old 3) \<and> current_proc u = 0
     \<and> p_state (proc u 1) = PROCESS_SLOT_SLEEPING"
proof -
  let ?s = "(with_dev ([] :: u8 list) booted)\<lparr>s_syscall_table := registered, scr_column := 0, scr_row := 0\<rparr>" and ?P = kernel_page
  have b: "fresh ?s" "memory_ok ?s" "free_pages ?s (?P 13 # ?P 12 # ?P 11 # ?P 10 # ?P 9 # ?P 8 # ?P 7 # map ?P [6, 5, 4, 3, 2, 1, 0])"
    using booted(1-3) counts_cong [of UNIV booted ?s] by (simp_all add: fresh_def memory_ok_def free_pages_def file_of_def)
  from InitProcess_ok [OF b(1,3,2)] booted(4) obtain t0 where t0: "InitProcess ?s = ret t0" "represents True t0 init_spec"
    "p_tf (proc t0 1) = ?P 13 + 0x1FFF50" "screen_ok t0 = screen_ok ?s" by auto
  have "screen_ok t0" using t0(4) by (simp add: screen_ok_def cursor_ok_def)
  then obtain t where shown: "welcome_message t0 = ret t" "printed t0 t"
    using welcome_message_ok by blast
  note more = core_more [OF printed_kmem(7) [OF shown(2)]]
  have t: "represents True t init_spec" "p_tf (proc t 1) = ?P 13 + 0x1FFF50"
    using represents_cong [OF t0(2), of t] coreD [OF more] t0(3) by simp_all
  have ring: "ring_ok (s_keyboard_controller ?s)" by (simp add: ring_ok_def booted_def)
  have tab: "s_syscall_table t = registered" using InitProcess_table [OF t0(1)] table_more [OF printed_kmem(7) [OF shown(2)]] by simp
  define K :: calls where "K = (\<lambda>_. None)"
  let ?t = "t\<lparr>mem := store64 (mem t) (0x9000 + tf_trapno) 32, regs := regs t\<rparr>"
  let ?spec = "sched_spec Do_yield (rouse NORMAL_PROCESS_WAIT_ID init_spec)"
  have 1: "sys_step typing (t, K) (?t, K)" by (rule sys_step.program) (simp add: K_def)
  have r1: "represents True ?t init_spec" by (rule represents_cong [OF t(1)]) simp_all
  from tick_ok [OF r1, of typing] obtain v where v: "tick typing ?t = ret v" "represents True v ?spec" by blast
  note keep = tick_keeps [OF v(1)]
  have c0: "current_proc ?t = 0" using representsD(2) [OF r1] by (simp add: init_spec_def idle_spec_def enqueue_def)
  have trap: "load64 (mem ?t) (0x9000 + tf_trapno) = 32" by simp
  have "InterruptHandler typing 0 0x9000 ?t = ret (Done (), v)" using trap v(1) by (simp add: InterruptHandler_def Let_def)
  from sys_step.interrupt [of K ?t "0x9000", OF _ _ this] have 2: "sys_step typing (?t, K) (v, K)"
    using c0 by (auto simp: K_def raised_def Let_def)
  have run: "running ?spec = 1" "queue ?spec = (\<lambda>_. [])"
    by (auto simp: init_spec_def idle_spec_def enqueue_def rouse_def dispatch_def)
  have c1: "current_proc v = 1" using representsD(2) [OF v(2)] run(1) by simp
  let ?tf = "?P 13 + 0x1FFF50" and ?v = "v\<lparr>mem := sleep_frame (?P 13 + 0x1FFF50), regs := regs v\<rparr>"
  have 3: "sys_step typing (v, K) (?v, K)" by (rule sys_step.program) (simp add: K_def)
  have r3: "represents True ?v ?spec" by (rule represents_cong [OF v(2)]) simp_all
  have sp: "KERNEL_VIRTUAL_ADDRESS_BASE \<le> ?tf + 8" "unat (?tf + 8) + 8 < 2 ^ 64"
    by (simp_all add: kernel_page_def KERNEL_VIRTUAL_ADDRESS_BASE_def PAGE_SIZE_def)
  have arg: "arg_at (?tf + 8) 0 ?v = ret 3"
    using peek_bytes_kernel [OF sp, of ?v] sleep_frame(6) [of ?tf] by (simp add: arg_at_def peek64_def load64_def)
  from Sleep_ok [OF r3, of NORMAL_PROCESS_WAIT_ID] run(1) obtain w where
    w: "Sleep NORMAL_PROCESS_WAIT_ID ?v = ret w" "represents True w (sched_spec (Do_sleep NORMAL_PROCESS_WAIT_ID) ?spec)" by auto
  have c2: "current_proc w = 0" using representsD(2) [OF w(2)] run by (simp add: enqueue_def dispatch_def del: sched_spec.simps(1))
  let ?old = "s_system_ticks v"
  have "SysSleep (?tf + 8) ?v = ret (Blocked (In_SysSleep ?old 3), w)" using arg w(1) by (simp add: SysSleep_def sleep_loop_def)
  then have "InterruptHandler typing 0 ?tf ?v = ret (Blocked (In_SysSleep ?old 3), w)"
    using keep tab sleep_frame [of ?tf]
    by (simp add: InterruptHandler_def SystemCall_def Let_def SYSTEM_CALL_INTERRUPT_NUMBER_def MAXIMUM_SYSTEM_CALLS_def
        registered_nth system_calls_def call_function_def store_result_def)
  from sys_step.interrupt [of K ?v ?tf, OF _ _ this] have 4: "sys_step typing (?v, K) (w, K(1 := Some (In_SysSleep ?old 3)))"
    using c1 keep t(2) sleep_frame [of ?tf] by (auto simp: K_def raised_def Let_def SYSTEM_CALL_INTERRUPT_NUMBER_def)
  have "(sys_step typing)\<^sup>*\<^sup>* (t, K) (w, K(1 := Some (In_SysSleep ?old 3)))"
    by (rule rtranclp.rtrancl_into_rtrancl [OF rtranclp.rtrancl_into_rtrancl [OF rtranclp.rtrancl_into_rtrancl
        [OF r_into_rtranclp [of "sys_step typing", OF 1] 2] 3] 4])
  then have "reachable typing (w, K(1 := Some (In_SysSleep ?old 3)))"
    using b(1) ring t0(1) shown(1) unfolding reachable_def K_def by blast
  moreover have "p_state (proc w 1) = PROCESS_SLOT_SLEEPING"
    using representsD(5) [OF w(2), of 1 Wait_list] run
    by (simp add: slot_def MAXIMUM_NUMBER_OF_PROCESS_def enqueue_def dispatch_def del: sched_spec.simps(1))
  ultimately show ?thesis using c2 by (intro exI [of _ w] exI [of _ "K(1 := Some (In_SysSleep ?old 3))"] exI [of _ ?old]) simp
qed

theorem kernel_invariant_witness:
  "\<exists>(u :: u8 list io_kernel) (K :: calls). p_state (proc u 1) = PROCESS_SLOT_SLEEPING \<and> counts UNIV u
     \<and> (\<exists>c. K 1 = Some c \<and> p_wait_id (proc u 1) = wait_event c)"
proof -
  obtain u :: "u8 list io_kernel" and K old where u: "reachable typing (u, K)" "K 1 = Some (In_SysSleep old 3)" "current_proc u = 0"
    "p_state (proc u 1) = PROCESS_SLOT_SLEEPING" using sleeping_reached by blast
  have "slot 1" by (simp add: slot_def MAXIMUM_NUMBER_OF_PROCESS_def)
  then have "counts UNIV u" "\<exists>c. K 1 = Some c \<and> p_wait_id (proc u 1) = wait_event c"
    using kernel_invariant [OF u(1)] u(4) by simp_all
  then show ?thesis using u(4) by (intro exI [of _ u] exI [of _ K] conjI)
qed

theorem no_lost_wakeup_witness:
  "\<exists>(u :: u8 list io_kernel) v. p_state (proc u 1) = PROCESS_SLOT_SLEEPING \<and> Wakeup NORMAL_PROCESS_WAIT_ID u = ret v
     \<and> p_state (proc v 1) \<in> {PROCESS_SLOT_READY, PROCESS_SLOT_RUNNING}"
proof -
  obtain u :: "u8 list io_kernel" and K old where u: "reachable typing (u, K)" "K 1 = Some (In_SysSleep old 3)"
    "p_state (proc u 1) = PROCESS_SLOT_SLEEPING" using sleeping_reached by blast
  show ?thesis using no_lost_wakeup [OF u(1,2)] u(3) by auto
qed

theorem interrupts_return_witness:
  "\<exists>(u :: u8 list io_kernel) v. p_state (proc u 1) = PROCESS_SLOT_SLEEPING \<and> InterruptHandler typing 0 0x9000 u = ret (Done (), v)
     \<and> p_state (proc v 1) \<in> {PROCESS_SLOT_READY, PROCESS_SLOT_RUNNING}"
proof -
  obtain u :: "u8 list io_kernel" and K old where u: "reachable typing (u, K)" "K 1 = Some (In_SysSleep old 3)" "current_proc u = 0"
    "p_state (proc u 1) = PROCESS_SLOT_SLEEPING" using sleeping_reached by blast
  let ?u = "u\<lparr>mem := store64 (mem u) (0x9000 + tf_trapno) 32, regs := regs u\<rparr>"
  have "K 0 = None" using u(1) by (rule reachableE)
  then have "sys_step typing (u, K) (?u, K)" using u(3) by (intro sys_step.program) simp
  then have "reachable typing (?u, K)" using u(1) unfolding reachable_def by (blast intro: rtranclp.rtrancl_into_rtrancl)
  from interrupts_return [OF this, of "0x9000" 0] u(2) obtain v where
    "InterruptHandler typing 0 0x9000 ?u = ret (Done (), v)" "p_state (proc v 1) \<in> {PROCESS_SLOT_READY, PROCESS_SLOT_RUNNING}"
    by auto
  then show ?thesis using u(4) by (intro exI [of _ ?u] exI [of _ v]) simp
qed

end
