(* ===== verification/Boot_Memory.thy ===== *)
theory Boot_Memory
  imports Kernel_Messages
begin

text \<open>
  The memory at the start of the kernel: \<open>RetrieveMemoryInfo\<close> reads the memory map of the BIOS and
  puts the usable pages above the kernel on the free list. Its messages change the text buffer of the
  screen only.
\<close>

section \<open>The memory map of the BIOS\<close>

definition bios_map :: "memory \<Rightarrow> (u64 \<times> u64 \<times> u32) list \<Rightarrow> bool" where
  "bios_map m es \<longleftrightarrow> load32 m (PHY_TO_VIR 0x9000) = of_nat (length es) \<and> length es < 50
     \<and> (\<forall>i<length es. mem_map_entry m i = es ! i)"

definition usable :: "(u64 \<times> u64 \<times> u32) list \<Rightarrow> (u64 \<times> u64) list" where
  "usable es = map (\<lambda>(a, l, ty). (a, l)) (filter (\<lambda>(a, l, ty). ty = 1) es)"

text \<open>The regions lie in the physical memory the kernel maps, and no two overlap.\<close>

definition in_memory :: "(u64 \<times> u64) list \<Rightarrow> bool" where
  "in_memory rs \<longleftrightarrow> (\<forall>(a, l)\<in>set rs. unat a + unat l \<le> 2 ^ 30)"

primrec apart :: "(u64 \<times> u64) list \<Rightarrow> bool" where
  "apart [] \<longleftrightarrow> True"
| "apart (r # rs) \<longleftrightarrow> apart rs \<and> (\<forall>q\<in>set rs. unat (fst r) + unat (snd r) \<le> unat (fst q) \<or> unat (fst q) + unat (snd q) \<le> unat (fst r))"

text \<open>The BIOS lists the regions in increasing order.\<close>

definition in_order :: "(u64 \<times> u64) list \<Rightarrow> bool" where
  "in_order rs \<longleftrightarrow> sorted (map fst rs)"

text \<open>The pages of a region above the kernel.\<close>

definition region_free :: "u64 \<Rightarrow> u64 \<times> u64 \<Rightarrow> u64 set" where
  "region_free ke r = {p. aligned 21 p \<and> ke \<le> p \<and> unat (fst r) + (2 ^ 64 - 2 ^ 47) \<le> unat p
     \<and> unat p + 2 ^ 21 \<le> unat (fst r) + unat (snd r) + (2 ^ 64 - 2 ^ 47)}"

lemma KERNEL_BASE_nat: "unat KERNEL_VIRTUAL_ADDRESS_BASE = 2 ^ 64 - 2 ^ 47"
  by (simp add: KERNEL_VIRTUAL_ADDRESS_BASE_def)

lemma VIRTUAL_END_nat: "unat VIRTUAL_ADDRESS_END = 2 ^ 64 - 2 ^ 47 + 2 ^ 30"
  by (simp add: VIRTUAL_ADDRESS_END_def KERNEL_VIRTUAL_ADDRESS_BASE_def PHYSICAL_MEMORY_SIZE_def)

lemma region_bounds:
  assumes "unat a + unat l \<le> 2 ^ 30"
  shows "unat (PHY_TO_VIR a) = unat a + (2 ^ 64 - 2 ^ 47)" "unat (PHY_TO_VIR a + l) = unat a + unat l + (2 ^ 64 - 2 ^ 47)"
    "PHY_TO_VIR a \<le> VIRTUAL_ADDRESS_END" "PHY_TO_VIR a + l \<le> VIRTUAL_ADDRESS_END"
proof -
  show v: "unat (PHY_TO_VIR a) = unat a + (2 ^ 64 - 2 ^ 47)"
    using assms KERNEL_BASE_nat unfolding PHY_TO_VIR_def by (subst unat_plus_le) simp_all
  show e: "unat (PHY_TO_VIR a + l) = unat a + unat l + (2 ^ 64 - 2 ^ 47)"
    using assms by (subst unat_plus_le) (simp_all add: v)
  show "PHY_TO_VIR a \<le> VIRTUAL_ADDRESS_END" "PHY_TO_VIR a + l \<le> VIRTUAL_ADDRESS_END"
    using assms by (simp_all add: word_le_nat_alt v e VIRTUAL_END_nat)
qed

lemma region_free_below:
  assumes "apart (r # rs)" "in_order (r # rs)" "q \<in> set rs" "x \<in> region_free ke r" "y \<in> region_free ke q" shows "x \<le> y"
proof -
  have "fst r \<le> fst q" using assms(2,3) by (auto simp: in_order_def)
  then show ?thesis using assms(1,3-5) by (fastforce simp: region_free_def word_le_nat_alt)
qed

text \<open>A list whose head bounds the others: the last page that was freed is the highest.\<close>

definition head_highest :: "u64 list \<Rightarrow> bool" where
  "head_highest ps \<longleftrightarrow> ps = [] \<or> (\<forall>p\<in>set ps. p \<le> hd ps)"

lemma head_highest_rev: "sorted ps \<Longrightarrow> head_highest (rev ps)"
  by (cases ps rule: rev_cases) (auto simp: head_highest_def sorted_append)

lemma head_highest_append:
  assumes "head_highest ps" "head_highest qs" "\<forall>p\<in>set ps. \<forall>q\<in>set qs. q \<le> p" shows "head_highest (ps @ qs)"
  using assms by (cases ps) (auto simp: head_highest_def)

lemma region_free_apart:
  assumes "apart (r # rs)" "q \<in> set rs" shows "region_free ke r \<inter> region_free ke q = {}"
  using assms by (auto simp: region_free_def)

section \<open>The free list is filled\<close>

lemma kfree_all_touches: "for_each kfree ps s = ret t \<Longrightarrow> touches (set ps) s t"
proof (induction ps arbitrary: s)
  case Nil
  then show ?case by simp
next
  case (Cons p ps)
  then obtain s1 where s1: "kfree p s = ret s1" "for_each kfree ps s1 = ret t" by auto
  have "touches {p} s s1"
    using s1(1) link_in_page by (auto simp: kfree_def intro!: touchesI store64_other)
  then show ?case using Cons.IH [OF s1(2)] by (auto intro: touches_trans touches_mono)
qed

lemma FreeRegion_ok:
  assumes "free_pages s ps" "l_kernel_end s \<le> v_start" "v_start \<le> VIRTUAL_ADDRESS_END" "v_end \<le> VIRTUAL_ADDRESS_END"
    and "\<forall>p\<in>set ps. \<not> (v_start \<le> p \<and> unat p + 2 ^ 21 \<le> unat v_end)"
  shows "\<exists>t qs. FreeRegion v_start v_end s = ret t \<and> free_pages t (qs @ ps) \<and> touches (set qs) s t \<and> head_highest qs
     \<and> set qs = {p. aligned 21 p \<and> v_start \<le> p \<and> unat p + 2 ^ 21 \<le> unat v_end}"
proof -
  let ?qs = "whole_pages v_start v_end"
  note qs = in_whole_pages [OF assms(3,4)]
  have d: "distinct (?qs @ ps)" using assms(1,5) qs by (auto simp: free_pages_def)
  have ok: "\<forall>p\<in>set ?qs. page_ok s p"
    using valid_page_in_region [OF _ assms(2) _ _ assms(4)] by (simp add: page_ok_def qs(1))
  obtain t where t: "for_each kfree ?qs s = ret t" "free_pages t (rev ?qs @ ps)"
    using pages.free_all_law [OF assms(1) d ok] by blast
  moreover have "touches (set (rev ?qs)) s t" using kfree_all_touches [OF t(1)] by simp
  moreover have "set (rev ?qs) = {p. aligned 21 p \<and> v_start \<le> p \<and> unat p + 2 ^ 21 \<le> unat v_end}" using qs(1) by auto
  moreover have "head_highest (rev ?qs)" by (rule head_highest_rev [OF qs(3)])
  ultimately show ?thesis using FreeRegion_eq [OF assms(3,4), of s] by metis
qed

lemma free_regions_ok:
  "free_pages s ps \<Longrightarrow> in_memory rs \<Longrightarrow> apart rs \<Longrightarrow> l_kernel_end s = ke \<Longrightarrow> ke \<le> VIRTUAL_ADDRESS_END \<Longrightarrow>
   \<forall>r\<in>set rs. set ps \<inter> region_free ke r = {} \<Longrightarrow>
   \<exists>t qs. free_regions rs s = ret t \<and> free_pages t (qs @ ps) \<and> touches (set qs) s t \<and> set qs = (\<Union>r\<in>set rs. region_free ke r)
     \<and> (in_order rs \<longrightarrow> head_highest qs)"
proof (induction rs arbitrary: s ps)
  case Nil
  then show ?case by (intro exI [of _ s] exI [of _ "[]"]) (simp add: head_highest_def)
next
  case (Cons r rs)
  obtain a l where r: "r = (a, l)" by fastforce
  have al: "unat a + unat l \<le> 2 ^ 30" using Cons.prems(2) by (simp add: in_memory_def r)
  note b = region_bounds [OF al]
  let ?v = "PHY_TO_VIR a" and ?e = "PHY_TO_VIR a + l"
  let ?f = "if ?v > ke then FreeRegion ?v ?e s else if ?e > ke then FreeRegion ke ?e s else ret s"
  have set: "region_free ke r = {p. aligned 21 p \<and> ke \<le> p \<and> ?v \<le> p \<and> unat p + 2 ^ 21 \<le> unat ?e}"
    by (auto simp: region_free_def r b word_le_nat_alt)
  have new: "\<forall>p\<in>set ps. \<not> (x \<le> p \<and> unat p + 2 ^ 21 \<le> unat ?e)" if "x = (if ?v > ke then ?v else ke)" for x
  proof
    fix p assume p: "p \<in> set ps"
    then have "p \<notin> region_free ke r" "aligned 21 p" using Cons.prems(1,6) by (auto simp: free_pages_def valid_page_def)
    then show "\<not> (x \<le> p \<and> unat p + 2 ^ 21 \<le> unat ?e)" using that by (auto simp: set split: if_splits)
  qed
  have "\<exists>t qs. ?f = ret t \<and> free_pages t (qs @ ps) \<and> touches (set qs) s t \<and> set qs = region_free ke r \<and> head_highest qs"
  proof -
    consider "ke < ?v" | "?v \<le> ke" "ke < ?e" | "?v \<le> ke" "?e \<le> ke" by fastforce
    then show ?thesis
    proof cases
      case 1
      have "l_kernel_end s \<le> ?v" using 1 Cons.prems(4) by simp
      from FreeRegion_ok [OF Cons.prems(1) this b(3,4) new] 1 obtain t qs where t: "FreeRegion ?v ?e s = ret t"
        "free_pages t (qs @ ps)" "touches (set qs) s t" "set qs = {p. aligned 21 p \<and> ?v \<le> p \<and> unat p + 2 ^ 21 \<le> unat ?e}"
        "head_highest qs" by auto
      have "set qs = region_free ke r" unfolding set t(4) using 1 by auto
      then show ?thesis using t(1-3,5) 1 by auto
    next
      case 2
      have "l_kernel_end s \<le> ke" using Cons.prems(4) by simp
      have nk: "\<forall>p\<in>set ps. \<not> (ke \<le> p \<and> unat p + 2 ^ 21 \<le> unat ?e)" using 2 by (intro new) auto
      from FreeRegion_ok [OF Cons.prems(1) \<open>l_kernel_end s \<le> ke\<close> Cons.prems(5) b(4) nk] obtain t qs where t: "FreeRegion ke ?e s = ret t"
        "free_pages t (qs @ ps)" "touches (set qs) s t" "set qs = {p. aligned 21 p \<and> ke \<le> p \<and> unat p + 2 ^ 21 \<le> unat ?e}"
        "head_highest qs" by auto
      have "set qs = region_free ke r" unfolding set t(4) using 2 by auto
      then show ?thesis using t(1-3,5) 2 by auto
    next
      case 3
      then have "region_free ke r = {}" by (auto simp: set word_le_nat_alt)
      then show ?thesis using 3 Cons.prems(1) by (intro exI [of _ s] exI [of _ "[]"]) (auto simp: not_less head_highest_def)
    qed
  qed
  then obtain s1 qs where s1: "?f = ret s1" "free_pages s1 (qs @ ps)" "touches (set qs) s s1" "set qs = region_free ke r"
    "head_highest qs" by blast
  have "\<forall>q\<in>set rs. set (qs @ ps) \<inter> region_free ke q = {}"
    using Cons.prems(6) region_free_apart [OF Cons.prems(3)] s1(4) by fastforce
  moreover have "in_memory rs" "apart rs" using Cons.prems(2,3) by (simp_all add: in_memory_def)
  moreover have ke: "l_kernel_end s1 = ke" using touches_same(1) [OF s1(3)] Cons.prems(4) by simp
  ultimately obtain t qs' where t: "free_regions rs s1 = ret t" "free_pages t (qs' @ qs @ ps)" "touches (set qs') s1 t"
    "set qs' = (\<Union>r\<in>set rs. region_free ke r)" "in_order rs \<longrightarrow> head_highest qs'" using Cons.IH [OF s1(2)] Cons.prems(5) by blast
  have highest: "head_highest (qs' @ qs)" if o: "in_order (r # rs)"
  proof (rule head_highest_append [OF _ s1(5)])
    show "head_highest qs'" using t(5) o by (simp add: in_order_def)
    show "\<forall>p\<in>set qs'. \<forall>q\<in>set qs. q \<le> p" using region_free_below [OF Cons.prems(3) o] s1(4) t(4) by auto
  qed
  have "free_regions (r # rs) s = ret t" using s1(1) t(1) Cons.prems(4) by (auto simp: r Let_def split: if_splits)
  moreover have "touches (set (qs' @ qs)) s t" using s1(3) t(3) by (auto intro: touches_trans touches_mono)
  ultimately show ?case using t(2,4) s1(4) highest by (intro exI [of _ t] exI [of _ "qs' @ qs"]) auto
qed

section \<open>RetrieveMemoryInfo\<close>

text \<open>The messages do not disturb the memory map.\<close>

lemma map_frame:
  assumes "\<And>x. x \<notin> screen_bytes \<Longrightarrow> m x = m' x"
  shows "i < 50 \<Longrightarrow> mem_map_entry m i = mem_map_entry m' i" "load32 m (PHY_TO_VIR 0x9000) = load32 m' (PHY_TO_VIR 0x9000)"
proof -
  have low: "m x = m' x" if "x \<in> span (KERNEL_VIRTUAL_ADDRESS_BASE + of_nat k) n" "k + n \<le> 0xB8000" for x k n
    using low_not_screen [OF that(2)] that(1) assms by blast
  show "load32 m (PHY_TO_VIR 0x9000) = load32 m' (PHY_TO_VIR 0x9000)"
    by (rule load32_cong, rule low [of _ "0x9000" 4]) (simp_all add: PHY_TO_VIR_def add.commute)
  assume i: "i < 50"
  let ?a = "PHY_TO_VIR 0x9008 + of_nat (20 * i)"
  have at: "?a = KERNEL_VIRTUAL_ADDRESS_BASE + of_nat (0x9008 + 20 * i)"
    "?a + 8 = KERNEL_VIRTUAL_ADDRESS_BASE + of_nat (0x9010 + 20 * i)"
    "?a + 16 = KERNEL_VIRTUAL_ADDRESS_BASE + of_nat (0x9018 + 20 * i)"
    by (simp_all add: PHY_TO_VIR_def algebra_simps)
  have "load64 m ?a = load64 m' ?a"
    unfolding at(1) by (rule load64_cong, rule low, assumption) (use i in simp)
  moreover have "load64 m (?a + 8) = load64 m' (?a + 8)"
    unfolding at(2) by (rule load64_cong, rule low, assumption) (use i in simp)
  moreover have "load32 m (?a + 16) = load32 m' (?a + 16)"
    unfolding at(3) by (rule load32_cong, rule low, assumption) (use i in simp)
  ultimately show "mem_map_entry m i = mem_map_entry m' i" by (simp add: mem_map_entry_def Let_def)
qed

lemma printed_map: "printed s t \<Longrightarrow> bios_map (mem s) es \<Longrightarrow> bios_map (mem t) es"
  using map_frame [of "mem t" "mem s"] by (auto simp: printed_def bios_map_def)

text \<open>Collecting a region.\<close>

definition collect :: "(u64 \<times> u64) list \<Rightarrow> 'z kmem_scheme \<Rightarrow> 'z kmem_scheme" where
  "collect rs s = s\<lparr>s_free_memory_regions := s_free_memory_regions s @ rs, s_total_mem := s_total_mem s + sum_list (map snd rs)\<rparr>"

lemma collect_printed: "printed s t \<Longrightarrow> printed (collect rs s) (collect rs t)"
  by (cases s; cases t) (simp add: printed_def collect_def screen_ok_def)

lemma collect_simps [simp]:
  "collect [] s = s" "collect us (collect rs s) = collect (rs @ us) s" "mem (collect rs s) = mem s"
  "screen_ok (collect rs s) = screen_ok s" "l_kernel_end (collect rs s) = l_kernel_end s"
  "s_free_memory_page_head (collect rs s) = s_free_memory_page_head s" "kmem.more (collect rs s) = kmem.more s"
  by (simp_all add: collect_def screen_ok_def add.assoc)

text \<open>The state after the first loop.\<close>

lemma collect_regions_ok:
  fixes s :: "'z kmem_scheme"
  shows "bios_map (mem s) es \<Longrightarrow> i + n = length es \<Longrightarrow> screen_ok s \<Longrightarrow>
    \<exists>t. collect_regions i n s = ret t \<and> printed (collect (usable (drop i es)) s) t"
proof (induction n arbitrary: i s)
  case 0
  then show ?case by (simp add: usable_def printed_refl)
next
  case (Suc n)
  obtain a l ty where e: "es ! i = (a, l, ty)" using prod_cases3 by blast
  have i: "i < length es" "length es < 50" "mem_map_entry (mem s) i = (a, l, ty)"
    using Suc.prems(1,2) e by (auto simp: bios_map_def)
  let ?us = "if ty = 1 then [(a, l)] else []"
  let ?s1 = "if ty = 1 then s\<lparr>s_free_memory_regions := s_free_memory_regions s @ [(a, l)], s_total_mem := s_total_mem s + l\<rparr> else s"
  have s1: "?s1 = collect ?us s" by (simp add: collect_def)
  have "screen_ok (collect ?us s)" using Suc.prems(3) by simp
  with print_numbers [of "kline ''Physical Address: %x   size: %uKB   type: %u''" "[a, l div 1024, ucast ty]" "collect ?us s"]
  obtain s2 where s2: "print (kline ''Physical Address: %x   size: %uKB   type: %u'')
      [KInt a, KInt (l div 1024), KInt (ucast ty)] (collect ?us s) = ret s2"
    "printed (collect ?us s) s2" by (auto simp: kline_def bytes_of_def)
  have "bios_map (mem s2) es" using printed_map [OF s2(2), of es] Suc.prems(1) by simp
  moreover have "screen_ok s2" using s2(2) by (simp add: printed_def)
  ultimately obtain t where t: "collect_regions (Suc i) n s2 = ret t" "printed (collect (usable (drop (Suc i) es)) s2) t"
    using Suc.IH [of s2 "Suc i"] Suc.prems(2) by auto
  have "drop i es = es ! i # drop (Suc i) es" using i(1) by (simp add: Cons_nth_drop_Suc)
  then have u: "usable (drop i es) = ?us @ usable (drop (Suc i) es)" by (simp add: usable_def e)
  have "printed (collect (usable (drop i es)) s) t"
    using printed_trans [OF collect_printed [OF s2(2)] t(2)] unfolding u by simp
  moreover have "collect_regions i (Suc n) s = ret t" using s2(1) t(1) i(3) by (simp add: Let_def s1 del: collect_simps)
  ultimately show ?case by blast
qed

lemma last_page_returns: "free_chain m p ps \<Longrightarrow> \<exists>x. last_page m q p = Some x"
  by (induction ps arbitrary: p q) (subst last_page.simps; auto)+

text \<open>What the loader leaves: nothing on the free list, the memory map, the kernel in the second two megabytes.\<close>

definition boot_memory :: "'z kmem_scheme \<Rightarrow> (u64 \<times> u64 \<times> u32) list \<Rightarrow> bool" where
  "boot_memory s es \<longleftrightarrow> screen_ok s \<and> s_free_memory_page_head s = 0 \<and> s_free_memory_regions s = [] \<and> s_total_mem s = 0
     \<and> bios_map (mem s) es \<and> in_memory (usable es) \<and> apart (usable es)
     \<and> PHY_TO_VIR 0x200000 \<le> l_kernel_end s \<and> l_kernel_end s \<le> VIRTUAL_ADDRESS_END"

definition usable_pages :: "u64 \<Rightarrow> (u64 \<times> u64 \<times> u32) list \<Rightarrow> u64 set" where
  "usable_pages ke es = (\<Union>r\<in>set (usable es). region_free ke r)"

lemma usable_page_end:
  assumes "in_memory (usable es)" "p \<in> usable_pages ke es" shows "unat p + 2 ^ 21 \<le> 2 ^ 64 - 2 ^ 47 + 2 ^ 30"
  using assms by (auto simp: usable_pages_def region_free_def in_memory_def)

text \<open>With the regions in order, the end of memory the allocator notes is above all its pages.\<close>

lemma pages_below_end:
  assumes "in_memory (usable es)" "head_highest ps" "set ps = usable_pages ke es" "e = hd ps + PAGE_SIZE" "p \<in> usable_pages ke es"
  shows "unat p + 2 ^ 21 \<le> unat e"
proof -
  have h: "hd ps \<in> usable_pages ke es" "p \<le> hd ps" using assms(2,3,5) by (cases ps; auto simp: head_highest_def)+
  have "unat (hd ps + PAGE_SIZE) = unat (hd ps) + 2 ^ 21"
    using usable_page_end [OF assms(1) h(1)] by (subst unat_plus_le) (simp_all add: PAGE_SIZE_def)
  then show ?thesis using h(2) assms(4) by (simp add: word_le_nat_alt)
qed

lemma touches_more: "touches U s t \<Longrightarrow> kmem.more t = kmem.more s \<and> s_total_mem t = s_total_mem s \<and> screen_ok t = screen_ok s"
  by (auto simp: touches_def screen_ok_def)

lemma RetrieveMemoryInfo_ok:
  fixes s :: "'z kmem_scheme"
  assumes b: "boot_memory s es" and ne: "usable_pages (l_kernel_end s) es \<noteq> {}"
  shows "\<exists>t ps. RetrieveMemoryInfo s = ret t \<and> free_pages t ps \<and> set ps = usable_pages (l_kernel_end s) es
     \<and> s_free_memory_end_address t = hd ps + PAGE_SIZE \<and> s_total_mem t = sum_list (map snd (usable es)) \<and> memory_ok t
     \<and> l_kernel_end t = l_kernel_end s \<and> screen_ok t \<and> kmem.more t = kmem.more s \<and> (in_order (usable es) \<longrightarrow> head_highest ps)
     \<and> (\<forall>x. x \<notin> screen_bytes \<longrightarrow> (\<forall>p\<in>set ps. x \<notin> page_span p) \<longrightarrow> mem t x = mem s x)"
proof -
  let ?ke = "l_kernel_end s"
  have h: "screen_ok s" "s_free_memory_page_head s = 0" "s_free_memory_regions s = []" "s_total_mem s = 0" "bios_map (mem s) es"
    "in_memory (usable es)" "apart (usable es)" "PHY_TO_VIR 0x200000 \<le> ?ke" "?ke \<le> VIRTUAL_ADDRESS_END"
    using b by (simp_all add: boot_memory_def)
  have len: "length es < 50" using h(5) by (simp add: bios_map_def)
  have "sint (of_nat (length es) :: u32) = int (length es)" 
    using len by (simp add: signed_of_nat signed_take_bit_int_eq_self)
  then have cnt: "sint (load32 (mem s) (PHY_TO_VIR 0x9000)) = int (length es)" using h(5) by (simp add: bios_map_def)
  obtain s1 where s1: "collect_regions 0 (length es) s = ret s1" "printed (collect (usable es) s) s1"
    using collect_regions_ok [OF h(5) _ h(1), of 0 "length es"] by auto
  note k1 = printed_kmem [OF s1(2)]
  obtain s2 where s2: "print (kline ''Total Free Memory: %uKB'') [KInt (s_total_mem s1 div 1024)] s1 = ret s2" "printed s1 s2"
    using print_numbers [of "kline ''Total Free Memory: %uKB''" "[s_total_mem s1 div 1024]" s1] k1(8) by (auto simp: kline_def bytes_of_def)
  note k2 = printed_kmem [OF s2(2)]
  have st: "s_free_memory_regions s2 = usable es" "s_total_mem s2 = sum_list (map snd (usable es))" "l_kernel_end s2 = ?ke"
    "s_free_memory_page_head s2 = 0" "kmem.more s2 = kmem.more s" "screen_ok s2"
    using k1 k2 h(2-4) by (simp_all add: collect_def)
  have pos: "0 < ?ke" using h(8) by (simp add: word_less_nat_alt word_le_nat_alt PHY_TO_VIR_def KERNEL_VIRTUAL_ADDRESS_BASE_def)
  have "free_pages s2 []" using st(3,4) pos by (simp add: free_pages_def)
  from free_regions_ok [OF this h(6,7) st(3) h(9)] obtain s3 ps where s3: "free_regions (usable es) s2 = ret s3" "free_pages s3 ps"
    "touches (set ps) s2 s3" "set ps = usable_pages ?ke es" "in_order (usable es) \<longrightarrow> head_highest ps" by (auto simp: usable_pages_def)
  let ?s4 = "s3\<lparr>s_free_memory_end_address := s_free_memory_page_head s3 + PAGE_SIZE\<rparr>"
  note k3 = touches_same [OF s3(3)] touches_more [OF s3(3)]
  obtain p ps' where ps: "ps = p # ps'" using ne s3(4) by (cases ps) auto
  have head: "s_free_memory_page_head s3 = p" "valid_page ?ke p" using s3(2) st(3) k3(1) by (simp_all add: free_pages_def ps)
  obtain x where x: "last_page (mem ?s4) 0 (s_free_memory_page_head ?s4) = Some x"
    using last_page_returns s3(2) by (fastforce simp: free_pages_def)
  have "screen_ok ?s4" using k3(4) st(6) by (simp add: screen_ok_def)
  with print_numbers [of "kline ''Virtual Free Memory: %x->%x''" "[x, s_free_memory_end_address ?s4]" ?s4] obtain t where
    t: "print (kline ''Virtual Free Memory: %x->%x'') [KInt x, KInt (s_free_memory_end_address ?s4)] ?s4 = ret t" "printed ?s4 t"
    by (auto simp: kline_def bytes_of_def)
  note kt = printed_kmem [OF t(2)]
  have "RetrieveMemoryInfo s = ret t"
    using cnt len s1(1) s2(1) s3(1) st(1) x t(1) by (simp add: RetrieveMemoryInfo_def Let_def MEMORY_MAX_FREE_REGIONS_def)
  moreover have "free_pages ?s4 ps" using s3(2) by (simp add: free_pages_def)
  then have "free_pages t ps" by (rule free_pages_printed [OF _ t(2)]) (use k3(1) st(3) h(8) in simp)
  moreover have "s_free_memory_end_address t = hd ps + PAGE_SIZE" using kt(3) head(1) by (simp add: ps)
  moreover have "memory_ok t"
  proof -
    have "p \<in> usable_pages ?ke es" using s3(4) ps by auto
    then have bd: "unat p + 2 ^ 21 \<le> 2 ^ 64 - 2 ^ 47 + 2 ^ 30" "?ke \<le> p"
      using h(6) by (auto simp: usable_pages_def region_free_def in_memory_def)
    have e: "unat (p + PAGE_SIZE) = unat p + 2 ^ 21" using bd(1) by (subst unat_plus_le) (simp_all add: PAGE_SIZE_def)
    have "KERNEL_VIRTUAL_ADDRESS_BASE \<le> ?ke" using h(8) by (simp add: word_le_nat_alt PHY_TO_VIR_def KERNEL_VIRTUAL_ADDRESS_BASE_def)
    moreover from this have "KERNEL_VIRTUAL_ADDRESS_BASE < p + PAGE_SIZE" using bd(2) e by (simp add: word_le_nat_alt word_less_nat_alt)
    moreover have "p + PAGE_SIZE \<le> VIRTUAL_ADDRESS_END" using bd(1) by (simp add: word_le_nat_alt e VIRTUAL_END_nat)
    ultimately show ?thesis using kt(3,5) k3(1) st(3) head(1) by (simp add: memory_ok_def)
  qed
  moreover have "mem t x = mem s x" if "x \<notin> screen_bytes" "\<forall>p\<in>set ps. x \<notin> page_span p" for x
    using kt(9) k2(9) k1(9) touches_mem [OF s3(3), of x] that by simp
  ultimately show ?thesis using s3(4,5) kt k3 st k1 by (intro exI [of _ t] exI [of _ ps]) simp
qed

end
