(* ===== verification/File_Example.thy ===== *)
theory File_Example
  imports Process_Init Exec
begin

text \<open>
  The init process of the booted kernel on a small disk: the root directory is sector 2 and holds one
  file of 1000 bytes, PROG.BIN, whose data start at sector 3. The name is at the start of the user
  page. The state meets the hypotheses of the properties of the file system.
\<close>

section \<open>The disk\<close>

definition empty_entries :: "u16 list" where
  "empty_entries = replicate 240 0"

definition small_disk :: "u16 \<Rightarrow> nat \<Rightarrow> u16 list" where
  "small_disk c k =
     (if k = 2 then [0x5250, 0x474F, 0x2020, 0x2020, 0x4942, 0x4E, 0, 0, 0, 0, 0, 0, 0, c, 1000, 0] @ empty_entries
      else of_nat k # replicate 255 0x5A5A)"

definition small_BPB :: BPB where
  "small_BPB = \<lparr>bytes_per_sector = 512, sectors_per_cluster = 1, reserved_sectors = 1, fat_copies = 1,
     root_dir_entries = 16, sectors_per_fat = 1, b_signature = 0x29\<rparr>"

definition prog_name :: "u8 list" where
  "prog_name = bytes_of ''prog.bin''"

definition prog_entry :: "u16 \<Rightarrow> DirEntry" where
  "prog_entry c = \<lparr>e_name = [80, 82, 79, 71, 32, 32, 32, 32], e_ext = [66, 73, 78], e_attributes = 0,
     e_cluster_index = c, e_file_size = 1000\<rparr>"

lemma small_drive: "ata_drive (simple_drive (small_disk c)) (\<lambda>d. d) (small_disk c) 100"
  by (rule simple_drive) (simp_all add: small_disk_def empty_entries_def)

lemma le_bytes_2: "le_bytes 2 v = [of_nat v, of_nat (v div 256)]"
  by (simp add: numeral_2_eq_2)

lemma small_directory: "\<exists>es. directory (small_disk c) small_BPB = prog_entry c # es"
proof -
  have start: "GetRootDirectoryStartSector small_BPB = 2"
    by (simp add: GetRootDirectoryStartSector_def small_BPB_def)
  let ?ws = "[0x5250, 0x474F, 0x2020, 0x2020, 0x4942, 0x4E, 0, 0, 0, 0, 0, 0, 0, c, 1000, 0] :: u16 list"
  have "disk_bytes (small_disk c) 2 1 = word_bytes (?ws @ empty_entries)"
    by (simp add: disk_bytes_def small_disk_def)
  then have bs: "disk_bytes (small_disk c) 2 1
      = [80, 82, 79, 71, 32, 32, 32, 32, 66, 73, 78, 0, 0, 0, 0, 0, 0, 0, 0, 0, 0, 0, 0, 0, 0, 0] @ le_bytes 2 (unat c)
        @ [232, 3, 0, 0] @ word_bytes empty_entries"
    by (simp add: le_bytes_2)
  have "unat c mod 256 ^ 2 = unat c" using unat_lt2p [of c] by simp
  then have c: "of_nat (le_nat (le_bytes 2 (unat c))) = c" by simp
  have "parse_entry (take 32 (drop (32 * 0) (disk_bytes (small_disk c) 2 1))) = prog_entry c"
    using c unfolding bs by (simp add: parse_entry_def prog_entry_def le_bytes_2 del: le_nat_le_bytes)
  then have "\<exists>es. sector_entries (small_disk c) 2 = prog_entry c # es"
    by (simp add: sector_entries_def upt_conv_Cons)
  moreover have "unat (root_dir_entries small_BPB) * 32 div 512 = Suc 0" by (simp add: small_BPB_def)
  then have "directory (small_disk c) small_BPB = sector_entries (small_disk c) 2"
    unfolding directory_def start by (simp flip: numeral_2_eq_2)
  ultimately show ?thesis by simp
qed

lemma small_lookup: "lookup_from prog_name 0 (directory (small_disk c) small_BPB) = Some (0, prog_entry c)"
proof -
  have "matches prog_name (prog_entry c)"
    by (simp add: matches_def skipped_def prog_entry_def prog_name_def bytes_of_def lower_byte_def ENTRY_EMPTY_def ENTRY_DELETED_def)
  then show ?thesis using small_directory [of c] by auto
qed

section \<open>The state\<close>

definition at_disk :: "kernel \<Rightarrow> ata io_kernel" where
  "at_disk t = with_dev idle_drive
     (t\<lparr>cr3 := VIR_TO_PHY (p_page_map (proc t 1)), s_BIOS_parameter_block := small_BPB,
        mem := write_bytes (mem t) (kernel_page 9) (prog_name @ [0])\<rparr>)"

abbreviation spare_pages :: "u64 list" where
  "spare_pages \<equiv> [kernel_page 5, kernel_page 4, kernel_page 3, kernel_page 2, kernel_page 1, kernel_page 0]"

lemma init_tree_facts:
  "tree_ok init_tree"
  "i < 2 ^ 21 \<Longrightarrow> walk init_tree (USER_VIRTUAL_ADDRESS_BASE + of_nat i) = Some (VIR_TO_PHY (kernel_page 9) + of_nat i, 6)"
proof -
  have ke: "KERNEL_VIRTUAL_ADDRESS_BASE \<le> l_kernel_end booted" using booted(2) by (simp add: memory_ok_def)
  have v: "valid_page (l_kernel_end booted) (kernel_page n)" if "n \<in> {13, 12, 11, 10, 9, 8, 7}" for n
    using booted(3) that by (auto simp: free_pages_def)
  have n: "kernel_pages booted \<le> 512" using booted(2) by (rule kernel_pages(3))
  have np: "\<not> present (kernel_tree (kernel_pages booted) (kernel_page 11) (kernel_page 10) L4 0)"
    using kernel_tree_L4 [of _ _ _ 0] by auto
  note kt = kernel_tree_facts [OF v [of 11] v [of 10] ke n]
  have v4: "valid_page (l_kernel_end booted) (kernel_page 8)" "valid_page (l_kernel_end booted) (kernel_page 7)"
    "valid_page (l_kernel_end booted) (kernel_page 9)" by (rule v, simp)+
  note ut = user_tree_facts [OF v4(1,2) ke v4(3)]
  show "tree_ok init_tree" using kt(1) by (intro ut(1)) simp_all
  show "walk init_tree (USER_VIRTUAL_ADDRESS_BASE + of_nat i) = Some (VIR_TO_PHY (kernel_page 9) + of_nat i, 6)" if "i < 2 ^ 21"
  proof -
    have "unat (of_nat i :: u64) = i" using that by (simp add: unat_of_nat)
    then have "USER_VIRTUAL_ADDRESS_BASE \<le> USER_VIRTUAL_ADDRESS_BASE + of_nat i"
      "USER_VIRTUAL_ADDRESS_BASE + of_nat i < USER_VIRTUAL_ADDRESS_BASE + PAGE_SIZE"
      using that by (simp_all add: word_le_nat_alt word_less_nat_alt USER_VIRTUAL_ADDRESS_BASE_def PAGE_SIZE_def unat_word_ariths)
    then show ?thesis using ut(2) [where T = "kernel_tree (kernel_pages booted) (kernel_page 11) (kernel_page 10)", OF np] by simp
  qed
qed

lemma at_disk:
  "\<exists>t. InitProcess booted = ret t
     \<and> user_space (at_disk t) init_tree (kernel_page 9) (kernel_page 6 # spare_pages)
     \<and> user_string (at_disk t) (kernel_page 9) 0 prog_name
     \<and> free_fd 1 (at_disk t) = Some 3 \<and> free_descriptor (at_disk t) = Some 0 \<and> counts UNIV (at_disk t)
     \<and> f_open_count (s_fcb_table (at_disk t) 0) = 0
     \<and> (\<forall>y\<in>set (kernel_page 9 # kernel_page 6 # spare_pages). span (p_tf (proc (at_disk t) 1)) 176 \<inter> page_span y = {})
     \<and> (\<forall>v. file_of (at_disk t) v = None) \<and> (\<forall>d. d_fcb (s_fd_table (at_disk t) d) = None)"
proof -
  let ?P = kernel_page
  from booted_init obtain t where t: "InitProcess booted = ret t" "counts UNIV t"
    "p_tf (proc t 1) = ?P 13 + 0x1FFF50" "owns_memory t 1 init_tree (?P 9) (map ?P [6, 5, 4, 3, 2, 1, 0])"
    "\<forall>i j. p_file (proc t i) j = None" "memory_ok t" "p_stack (proc t 1) = ?P 13" by blast
  let ?s = "at_disk t" let ?m = "write_bytes (mem t) (?P 9) (prog_name @ [0])"
  have len: "length (prog_name @ [0]) = 9" by (simp add: prog_name_def bytes_of_def)
  have own: "space t (p_page_map (proc t 1)) init_tree (?P 6 # spare_pages)" "valid_page (l_kernel_end t) (?P 9)"
    "?P 9 \<notin> set (?P 6 # spare_pages)" "?P 9 \<notin> tables (p_page_map (proc t 1)) init_tree" "valid_page (l_kernel_end t) (?P 13)"
    "?P 13 \<notin> insert (?P 9) (set (?P 6 # spare_pages))"
    using t(4) unfolding owns_memory_def owns_user_page_def t(7) by simp_all
  let ?t1 = "t\<lparr>cr3 := VIR_TO_PHY (p_page_map (proc t 1)), s_BIOS_parameter_block := small_BPB\<rparr>"
  have "space ?t1 (p_page_map (proc t 1)) init_tree (?P 6 # spare_pages)"
    by (rule space_other_fields [OF own(1)]) simp_all
  moreover have "KERNEL_VIRTUAL_ADDRESS_BASE \<le> l_kernel_end t" using t(6) by (simp add: memory_ok_def)
  ultimately have "user_space ?t1 init_tree (?P 9) (?P 6 # spare_pages)"
    using own(2-4) init_tree_facts unfolding user_space_def by simp
  then have "user_space (?t1\<lparr>mem := ?m\<rparr>) init_tree (?P 9) (?P 6 # spare_pages)"
    by (rule user_space_write) (use len in \<open>auto simp: write_bytes_apply page_span_def mem_span\<close>)
  then have us: "user_space ?s init_tree (?P 9) (?P 6 # spare_pages)"
    by (rule user_space_cong) (simp_all add: at_disk_def)
  have "Suc (length prog_name) = 9" "0 \<notin> set prog_name" by (simp_all add: prog_name_def bytes_of_def)
  moreover have "read_bytes ?m (?P 9) 9 = prog_name @ [0]"
    using read_write_same [of "prog_name @ [0]" "mem t" "?P 9"] unfolding len by simp
  ultimately have "user_string ?s (?P 9) 0 prog_name"
    unfolding user_string_def by (simp add: at_disk_def)
  moreover have none: "file_of ?s v = None" "file_of t v = None" for v
    using t(5) by (simp_all add: file_of_def at_disk_def)
  have tabs: "s_fcb_table ?s = s_fcb_table t" "s_fd_table ?s = s_fd_table t" by (simp_all add: at_disk_def)
  have c: "counts UNIV ?s" by (rule counts_cong [OF t(2)]) (simp_all add: none tabs)
  have "d_fcb (s_fd_table ?s d) = None" "f_open_count (s_fcb_table ?s f) = 0" for d f
    using c none by (simp_all add: counts_def fd_users_def fcb_users_def fcb_of_def)
  moreover have "free_fd 1 ?s = Some 3"
    using t(5) by (simp add: free_fd_def at_disk_def user_fds_def USER_START_FD_def PROCESS_MAXIMUM_FILE_DESCRIPTOR_def upt_conv_Cons)
  moreover have "free_descriptor ?s = Some 0"
    using calculation unfolding free_descriptor_def find_Some_iff
    by (intro exI [of _ 0]) (simp add: GetMaxEntriesOfFDTable_def del: upt_rec_numeral)
  moreover have "span (p_tf (proc ?s 1)) 176 \<inter> page_span y = {}" if "y \<in> set (?P 9 # ?P 6 # spare_pages)" for y
  proof -
    have "span (?P 13 + 0x1FFF50) 176 \<subseteq> page_span (?P 13)"
      using span_subset [of "0x1FFF50" 176 "2 ^ 21" "?P 13"] by (simp add: page_span_def)
    moreover have "valid_page (l_kernel_end t) y"
      using that own(2) spaceD(2) [OF own(1)] by (auto simp: free_pages_def)
    then have "page_span (?P 13) \<inter> page_span y = {}"
      using own(5,6) that by (intro valid_pages_disjoint [of "l_kernel_end t"]) auto
    ultimately show ?thesis using t(3) by (simp add: at_disk_def) blast
  qed
  ultimately show ?thesis using t(1) us c none by (intro exI [of _ t]) (simp add: split_paired_all)
qed

lemma at_disk_ready: "disk_ready (simple_drive (small_disk c)) (\<lambda>d. d) (small_disk c) 100 (at_disk t)"
  using small_drive
  by (simp add: disk_ready_def at_disk_def idle_drive_def small_BPB_def GetRootDirectoryStartSector_def)

lemma at_disk_BPB [simp]: "s_BIOS_parameter_block (at_disk t) = small_BPB"
  by (simp add: at_disk_def)

section \<open>Witnesses\<close>

theorem FindFileInRootDir_finds_witness:
  "\<exists>s t u. InitProcess booted = ret t
     \<and> FindFileInRootDir (simple_drive (small_disk 2)) USER_VIRTUAL_ADDRESS_BASE zero_DirEntry (at_disk t) = ret ((0, prog_entry 2), u)
     \<and> free_pages u (kernel_page 6 # spare_pages)"
proof -
  from at_disk obtain t where t: "InitProcess booted = ret t" "user_space (at_disk t) init_tree (kernel_page 9) (kernel_page 6 # spare_pages)"
    "user_string (at_disk t) (kernel_page 9) 0 prog_name" by blast
  have l: "matches prog_name (prog_entry 2)" using lookup_from_Some [OF small_lookup] by simp
  obtain es where dir: "directory (small_disk 2) small_BPB = prog_entry 2 # es" using small_directory by blast
  from FindFileInRootDir_finds [OF t(2,3) at_disk_ready [of 2], of zero_DirEntry] obtain k e u where
    u: "FindFileInRootDir (simple_drive (small_disk 2)) (USER_VIRTUAL_ADDRESS_BASE + of_nat 0) zero_DirEntry (at_disk t) = ret ((k, e), u)"
    "0 \<le> k" "e = (prog_entry 2 # es) ! nat k" "\<forall>j<nat k. \<not> matches prog_name ((prog_entry 2 # es) ! j)"
    "free_pages u (kernel_page 6 # spare_pages)"
    unfolding at_disk_BPB dir using l by auto
  have "nat k = 0" using u(4) l by (metis gr0I nth_Cons_0)
  then show ?thesis using t(1) u by auto
qed

theorem Open_fails_witness:
  "\<exists>t u. InitProcess booted = ret t
     \<and> Open (simple_drive (small_disk 0)) 1 USER_VIRTUAL_ADDRESS_BASE (at_disk t) = ret (-11, u)
     \<and> free_pages u (kernel_page 6 # spare_pages)"
proof -
  from at_disk obtain t where t: "InitProcess booted = ret t" "user_space (at_disk t) init_tree (kernel_page 9) (kernel_page 6 # spare_pages)"
    "user_string (at_disk t) (kernel_page 9) 0 prog_name" "free_fd 1 (at_disk t) = Some 3" "free_descriptor (at_disk t) = Some 0" by blast
  have "unat (e_cluster_index (prog_entry 0)) < 2" by (simp add: prog_entry_def)
  then show ?thesis
    using Open_fails [OF t(2,3) at_disk_ready [of 0], of "- EAGAIN" 1] t(1,4,5) small_lookup [of 0] by (auto simp: EAGAIN_def)
qed

text \<open>The file is open as descriptor 3, at position \<open>pos\<close>.\<close>

definition reading :: "u32 \<Rightarrow> kernel \<Rightarrow> ata io_kernel" where
  "reading pos t = (let s = link_file 1 3 0 0 (prog_entry 2) (at_disk t)
     in s\<lparr>s_fd_table := (s_fd_table s)(0 := \<lparr>d_fcb = Some 0, d_position = pos, d_open_count = 1\<rparr>)\<rparr>)"

lemma reading:
  assumes "user_space (at_disk t) init_tree (kernel_page 9) (kernel_page 6 # spare_pages)" "f_open_count (s_fcb_table (at_disk t) 0) = 0"
  shows "user_space (reading pos t) init_tree (kernel_page 9) (kernel_page 6 # spare_pages)"
    "disk_ready (simple_drive (small_disk 2)) (\<lambda>d. d) (small_disk 2) 100 (reading pos t)"
    "p_file (proc (reading pos t) 1) (nat 3) = Some 0" "d_fcb (s_fd_table (reading pos t) 0) = Some 0"
    "d_position (s_fd_table (reading pos t) 0) = pos" "f_file_size (s_fcb_table (reading pos t) 0) = 1000"
    "f_start_cluster (s_fcb_table (reading pos t) 0) = 2" "s_BIOS_parameter_block (reading pos t) = small_BPB"
proof -
  have l: "mem (reading pos t) = mem (at_disk t)" "cr3 (reading pos t) = cr3 (at_disk t)" "l_kernel_end (reading pos t) = l_kernel_end (at_disk t)"
    "s_free_memory_page_head (reading pos t) = s_free_memory_page_head (at_disk t)" "dev (reading pos t) = dev (at_disk t)"
    "s_BIOS_parameter_block (reading pos t) = s_BIOS_parameter_block (at_disk t)"
    by (simp_all add: reading_def link_file_def Let_def set_file_def set_proc_def)
  show "user_space (reading pos t) init_tree (kernel_page 9) (kernel_page 6 # spare_pages)"
    by (rule user_space_cong [OF assms(1)]) (simp_all add: l)
  show "disk_ready (simple_drive (small_disk 2)) (\<lambda>d. d) (small_disk 2) 100 (reading pos t)"
    using at_disk_ready [of 2 t] by (simp add: disk_ready_def l)
  show "s_BIOS_parameter_block (reading pos t) = small_BPB" by (simp add: l)
qed (use assms(2) in \<open>simp_all add: reading_def link_file_def Let_def set_file_def set_proc_def prog_entry_def\<close>)

lemma small_clusters: "GetBytesPerCluster small_BPB = 512" "GetSectorsPerCluster small_BPB = 1"
  by (simp_all add: GetBytesPerCluster_def GetSectorsPerCluster_def GetBytesPerSector_def small_BPB_def)

lemma small_readable: "0 < n \<Longrightarrow> n \<le> 1000 \<Longrightarrow> pos < 512 \<Longrightarrow> readable small_BPB 100 2 pos n"
proof -
  assume n: "0 < n" "n \<le> 1000" "pos < 512"
  then have "n div 512 \<le> 1000 div 512" by (intro div_le_mono)
  then have "n div 512 \<le> 1" by simp
  moreover have "data_start small_BPB = 3"
    by (simp add: data_start_def GetRootDirectoryStartSector_def small_BPB_def)
  moreover have "bytes_per_sector small_BPB = 512" by (simp add: small_BPB_def)
  ultimately show ?thesis using n by (simp add: readable_def read_clusters_def cluster_sector_def small_clusters)
qed

text \<open>With descriptor 3 and entry 0 in use, the next ones are 4 and 1.\<close>

theorem Open_opens_file_witness:
  "\<exists>t u. InitProcess booted = ret t
     \<and> Open (simple_drive (small_disk 2)) 1 USER_VIRTUAL_ADDRESS_BASE (reading 0 t) = ret (4, u)
     \<and> counts UNIV u \<and> file_of u (1, 3) = Some 0 \<and> file_of u (1, 4) = Some 1 \<and> d_fcb (s_fd_table u 1) = Some 0"
proof -
  from at_disk obtain t where t: "InitProcess booted = ret t" "user_space (at_disk t) init_tree (kernel_page 9) (kernel_page 6 # spare_pages)"
    "user_string (at_disk t) (kernel_page 9) 0 prog_name" "counts UNIV (at_disk t)" "f_open_count (s_fcb_table (at_disk t) 0) = 0"
    "\<forall>v. file_of (at_disk t) v = None" "\<forall>d. d_fcb (s_fd_table (at_disk t) d) = None" by blast
  let ?s = "reading 0 t"
  note r = reading [OF t(2,5), of 0]
  have s: "?s = link_file 1 3 0 0 (prog_entry 2) (at_disk t)"
    by (simp add: reading_def link_file_def Let_def set_file_def set_proc_def)
  have fd: "1 < MAXIMUM_NUMBER_OF_PROCESS" "3 < PROCESS_MAXIMUM_FILE_DESCRIPTOR" "4 < PROCESS_MAXIMUM_FILE_DESCRIPTOR" "1 < GetMaxEntriesOfFDTable"
    by (simp_all add: MAXIMUM_NUMBER_OF_PROCESS_def PROCESS_MAXIMUM_FILE_DESCRIPTOR_def GetMaxEntriesOfFDTable_def)
  have "p_file (proc (at_disk t) 1) 3 = None" using t(6) [rule_format, of "(1, 3)"] fd by (simp add: file_of_def users_def)
  from link_file_counts [OF t(4) fd(1,2) this t(7) [rule_format], of 0 0 "prog_entry 2", folded s] have
    c: "counts UNIV ?s" "file_of ?s v = (if v = (1, 3) then Some 0 else None)" for v using t(6) by (simp_all del: split_paired_All)
  have str: "user_string ?s (kernel_page 9) 0 prog_name"
    using t(3) by (simp add: user_string_def s link_file_def Let_def set_file_def set_proc_def)
  have "d_fcb (s_fd_table ?s 1) = None" using t(7) by (simp add: s link_file_def Let_def set_file_def set_proc_def)
  moreover have "file_of ?s (1, 4) = None" "2 \<le> unat (e_cluster_index (prog_entry 2))" by (simp_all add: c(2) prog_entry_def)
  moreover have "lookup_from prog_name 0 (directory (small_disk 2) (s_BIOS_parameter_block ?s)) = Some (0, prog_entry 2)"
    unfolding r(8) by (rule small_lookup)
  ultimately obtain f d u where u: "Open (simple_drive (small_disk 2)) 1 (USER_VIRTUAL_ADDRESS_BASE + of_nat 0) ?s = ret (int f, u)" "counts UNIV u"
    "3 \<le> f" "file_of ?s (1, f) = None" "\<forall>n. 3 \<le> n \<and> n < f \<longrightarrow> file_of ?s (1, n) \<noteq> None"
    "d_fcb (s_fd_table ?s d) = None" "\<forall>n<d. d_fcb (s_fd_table ?s n) \<noteq> None"
    "file_of u (1, f) = Some d" "d_fcb (s_fd_table u d) = Some 0" "\<forall>v. v \<noteq> (1, f) \<longrightarrow> file_of u v = file_of ?s v"
    using Open_opens_file [OF r(1) str r(2) _ fd(3) _ fd(4) _ c(1) fd(1)] by force
  have f: "f = 4"
  proof -
    have "f \<noteq> 3" using u(4) by (auto simp: c(2))
    moreover have "\<not> 4 < f" using u(5) [rule_format, of 4] by (auto simp: c(2))
    ultimately show ?thesis using u(3) by simp
  qed
  have d: "d = 1"
  proof -
    have "d \<noteq> 0" using u(6) r(4) by (metis option.distinct(1))
    moreover have "\<not> 1 < d" using u(7) \<open>d_fcb (s_fd_table ?s 1) = None\<close> by auto
    ultimately show ?thesis by simp
  qed
  have "file_of u (1, 3) = Some 0" using u(10) f by (simp add: c(2))
  then show ?thesis using t(1) u(1,2,8,9) unfolding f d by auto
qed

theorem Read_gives_file_witness:
  "\<exists>t u. InitProcess booted = ret t
     \<and> Read (simple_drive (small_disk 2)) 1 3 (USER_VIRTUAL_ADDRESS_BASE + of_nat 100) 2000 (reading 0 t) = ret (1000, u)
     \<and> mem u (kernel_page 9 + 100) = file_bytes (small_disk 2) small_BPB 2 2 ! 0 \<and> free_pages u (kernel_page 6 # spare_pages)"
proof -
  from at_disk obtain t where t: "InitProcess booted = ret t" "user_space (at_disk t) init_tree (kernel_page 9) (kernel_page 6 # spare_pages)"
    "f_open_count (s_fcb_table (at_disk t) 0) = 0" by blast
  note r = reading [OF t(2,3), of 0]
  have n: "1000 = min (unat (2000 :: u32)) (unat (f_file_size (s_fcb_table (reading 0 t) 0)) - unat (0 :: u32))" by (simp add: r)
  have "(0::u32) = d_position (s_fd_table (reading 0 t) 0)" "unat (0 :: u32) + unat (2000 :: u32) < 2 ^ 32"
    "readable (s_BIOS_parameter_block (reading 0 t)) 100 (unat (f_start_cluster (s_fcb_table (reading 0 t) 0))) (unat (0 :: u32)) 1000"
    "0 \<le> (3 :: int)" "(3 :: int) < int PROCESS_MAXIMUM_FILE_DESCRIPTOR" "100 + 1000 \<le> (2 :: nat) ^ 21"
    "unat (0 :: u32) mod GetBytesPerCluster (s_BIOS_parameter_block (reading 0 t)) + 1000
      \<le> read_clusters (s_BIOS_parameter_block (reading 0 t)) 1000 * GetBytesPerCluster (s_BIOS_parameter_block (reading 0 t))"
    using small_readable [of 1000 0] by (simp_all add: r PROCESS_MAXIMUM_FILE_DESCRIPTOR_def read_clusters_def small_clusters)
  from Read_gives_file [OF r(1,2) this(4,5) r(3,4) n this(1-3) this(6,7)] obtain u where
    u: "Read (simple_drive (small_disk 2)) 1 3 (USER_VIRTUAL_ADDRESS_BASE + of_nat 100) 2000 (reading 0 t) = ret (int 1000, u)"
    "\<forall>i<1000. mem u (kernel_page 9 + of_nat 100 + of_nat i) = file_bytes (small_disk 2) small_BPB 2 2 ! (0 + i)"
    "free_pages u (kernel_page 6 # spare_pages)"
    unfolding r(7,8) by (auto simp: read_clusters_def small_clusters simp flip: numeral_2_eq_2)
  have "mem u (kernel_page 9 + of_nat 100 + of_nat 0) = file_bytes (small_disk 2) small_BPB 2 2 ! (0 + 0)" using spec [OF u(2), of 0] by simp
  then show ?thesis using t(1) u(1,3) by auto
qed

theorem Read_leaks_page_witness:
  "\<exists>t u. InitProcess booted = ret t
     \<and> Read (simple_drive (small_disk 2)) 1 3 USER_VIRTUAL_ADDRESS_BASE 100 (reading 500 t) = ret (100, u)
     \<and> mem u (kernel_page 9 + of_nat 99) = mem (reading 500 t) (kernel_page 6 + of_nat 599)"
proof -
  from at_disk obtain t where t: "InitProcess booted = ret t" "user_space (at_disk t) init_tree (kernel_page 9) (kernel_page 6 # spare_pages)"
    "f_open_count (s_fcb_table (at_disk t) 0) = 0" by blast
  note r = reading [OF t(2,3), of 500]
  have n: "100 = min (unat (100 :: u32)) (unat (f_file_size (s_fcb_table (reading 500 t) 0)) - unat (500 :: u32))" by (simp add: r)
  have "(500::u32) = d_position (s_fd_table (reading 500 t) 0)" "unat (500 :: u32) + unat (100 :: u32) < 2 ^ 32"
    "readable (s_BIOS_parameter_block (reading 500 t)) 100 (unat (f_start_cluster (s_fcb_table (reading 500 t) 0))) (unat (500 :: u32)) 100"
    "0 \<le> (3 :: int)" "(3 :: int) < int PROCESS_MAXIMUM_FILE_DESCRIPTOR" "0 + 100 \<le> (2 :: nat) ^ 21" "99 < (100 :: nat)"
    "read_clusters (s_BIOS_parameter_block (reading 500 t)) 100 * GetBytesPerCluster (s_BIOS_parameter_block (reading 500 t))
      \<le> unat (500 :: u32) mod GetBytesPerCluster (s_BIOS_parameter_block (reading 500 t)) + 99"
    using small_readable [of 100 500] by (simp_all add: r PROCESS_MAXIMUM_FILE_DESCRIPTOR_def read_clusters_def small_clusters)
  from Read_leaks_page [OF r(1,2) this(4,5) r(3,4) n this(1-3) this(6-8)] show ?thesis
    using t(1) unfolding r(8) by (auto simp: small_clusters simp del: of_nat_numeral)
qed

theorem Exec_starts_program_witness:
  "\<exists>t u. InitProcess booted = ret t
     \<and> Exec (simple_drive (small_disk 2)) 1 USER_VIRTUAL_ADDRESS_BASE (at_disk t) = ret (Some 0, u)
     \<and> frame_reg (mem u) (p_tf (proc (at_disk t) 1)) = start_regs \<and> counts UNIV u"
proof -
  from at_disk obtain t where t: "InitProcess booted = ret t" "user_space (at_disk t) init_tree (kernel_page 9) (kernel_page 6 # spare_pages)"
    "user_string (at_disk t) (kernel_page 9) 0 prog_name" "free_fd 1 (at_disk t) = Some 3" "free_descriptor (at_disk t) = Some 0"
    "counts UNIV (at_disk t)" "f_open_count (s_fcb_table (at_disk t) 0) = 0"
    "\<forall>y\<in>set (kernel_page 9 # kernel_page 6 # spare_pages). span (p_tf (proc (at_disk t) 1)) 176 \<inter> page_span y = {}" by blast
  have e: "unat (e_file_size (prog_entry 2)) = 1000" "unat (e_cluster_index (prog_entry 2)) = 2" by (simp_all add: prog_entry_def)
  have p: "1 < MAXIMUM_NUMBER_OF_PROCESS" by (simp add: MAXIMUM_NUMBER_OF_PROCESS_def)
  have l: "lookup_from prog_name 0 (directory (small_disk 2) (s_BIOS_parameter_block (at_disk t))) = Some (0, prog_entry 2)"
    using small_lookup by simp
  have rd: "readable (s_BIOS_parameter_block (at_disk t)) 100 (unat (e_cluster_index (prog_entry 2))) 0 (unat (e_file_size (prog_entry 2)))"
    "unat (e_file_size (prog_entry 2)) \<le> 2 ^ 21"
    using small_readable [of 1000 0] unfolding e by simp_all
  from Exec_starts_program [OF t(2,3) at_disk_ready t(4-6) p l t(7) rd t(8)] obtain u where
    "Exec (simple_drive (small_disk 2)) 1 (USER_VIRTUAL_ADDRESS_BASE + of_nat 0) (at_disk t) = ret (Some 0, u)"
    "frame_reg (mem u) (p_tf (proc (at_disk t) 1)) = start_regs" "counts UNIV u" by blast
  then show ?thesis using t(1) by auto
qed

end
