(* ===== verification/Kernel_Boot.thy ===== *)
theory Kernel_Boot
  imports System_Run Boot_Memory File_Example
begin

text \<open>
  The start of the kernel as a whole: from the memory the boot loader leaves, a memory map of the BIOS and
  a FAT16 disk, \<open>KMain\<close> returns, and the state it leaves is one in which the properties of the running
  kernel begin. Each initialisation takes its pages from the free list and writes to them and to the
  screen only.
\<close>

section \<open>What one initialisation changes\<close>

definition booting :: "u64 set \<Rightarrow> 'z kmem_scheme \<Rightarrow> 'z kmem_scheme \<Rightarrow> bool" where
  "booting U s t \<longleftrightarrow> screen_ok t \<and> l_kernel_end t = l_kernel_end s \<and> s_free_memory_end_address t = s_free_memory_end_address s
     \<and> s_total_mem t = s_total_mem s
     \<and> (\<forall>x. x \<notin> screen_bytes \<longrightarrow> (\<forall>p\<in>U. x \<notin> page_span p) \<longrightarrow> mem t x = mem s x)"

lemma bootingD:
  assumes "booting U s t"
  shows "screen_ok t" "l_kernel_end t = l_kernel_end s" "s_free_memory_end_address t = s_free_memory_end_address s"
    "s_total_mem t = s_total_mem s" "x \<notin> screen_bytes \<Longrightarrow> \<forall>p\<in>U. x \<notin> page_span p \<Longrightarrow> mem t x = mem s x"
    "memory_ok s \<Longrightarrow> memory_ok t"
  using assms by (simp_all add: booting_def memory_ok_def)

lemma booting_trans: "booting U s t \<Longrightarrow> booting V t u \<Longrightarrow> booting (U \<union> V) s u"
  by (simp add: booting_def)

lemma booting_printed: "printed s t \<Longrightarrow> booting {} s t"
  by (simp add: booting_def printed_kmem)

lemma booting_touches: "touches U s t \<Longrightarrow> screen_ok s \<Longrightarrow> booting U s t"
  by (simp add: booting_def touches_same touches_more touches_mem)

lemma booting_vm_tree:
  fixes s :: "'z kmem_scheme"
  assumes "vm_tree (mem s) ke r T" "booting U s t" "U \<inter> tables r T = {}" "\<forall>p\<in>U. valid_page ke p" "PHY_TO_VIR 0x200000 \<le> ke"
  shows "vm_tree (mem t) ke r T"
proof (rule vm_tree_frame [OF assms(1)])
  fix p x
  assume p: "p \<in> tables r T" "x \<in> page_span p"
  then have v: "valid_page ke p" using assms(1) by (auto simp: tables_def vm_tree_def)
  have "x \<notin> screen_bytes" using low_not_page [OF v assms(5)] screen_low p(2) by blast
  moreover have "\<forall>q\<in>U. x \<notin> page_span q"
    using valid_pages_disjoint [OF v] assms(3,4) p by blast
  ultimately show "mem t x = mem s x" by (rule bootingD(5) [OF assms(2)])
qed

section \<open>InitMemory\<close>

lemma InitMemory_ok:
  fixes s :: "'z kmem_scheme"
  assumes f: "free_pages s (r # a # b # ps)" and ok: "memory_ok s" and sc: "screen_ok s" and low: "PHY_TO_VIR 0x200000 \<le> l_kernel_end s"
  shows "\<exists>t. InitMemory s = ret t \<and> cr3 t = VIR_TO_PHY r \<and> space t r (kernel_tree (kernel_pages s) a b) ps
     \<and> booting {r, a, b} s t \<and> kmem.more t = kmem.more s"
proof -
  let ?T = "kernel_tree (kernel_pages s) a b"
  obtain s1 where s1: "SetupKVM s = ret (r, s1)" "space s1 r ?T ps" "touches {r, a, b} s s1"
    using SetupKVM_space [OF f ok] by metis
  let ?s2 = "SwitchVM r s1"
  have "screen_ok ?s2" using touches_more [OF s1(3)] sc by (simp add: SwitchVM_def screen_ok_def)
  from print_numbers [of "kline ''Memory Manage is working now.''" "[]", OF _ _ this] obtain t where
    t: "print (kline ''Memory Manage is working now.'') [] ?s2 = ret t" "printed ?s2 t" by (auto simp: kline_def bytes_of_def)
  note k = printed_kmem [OF t(2)] and le = touches_same(1) [OF s1(3)]
  have "r \<noteq> 0" using f by (auto dest: free_pagesD(4))
  then have "InitMemory s = ret t" using s1(1) t(1) by (simp add: InitMemory_def)
  moreover have "booting ({r, a, b} \<union> {}) s t"
  proof (rule booting_trans)
    show "booting {r, a, b} s ?s2"
      using booting_touches [OF s1(3) sc] by (simp add: SwitchVM_def booting_def screen_ok_def)
  qed (rule booting_printed [OF t(2)])
  moreover have "space t r ?T ps"
  proof -
    have sp: "space ?s2 r ?T ps" by (rule space_other_fields [OF s1(2)]) (simp_all add: SwitchVM_def)
    have low2: "PHY_TO_VIR 0x200000 \<le> l_kernel_end ?s2" using low le by (simp add: SwitchVM_def)
    show ?thesis
      using vm_tree_printed [OF spaceD(1) [OF sp] t(2) low2] free_pages_printed [OF spaceD(2) [OF sp] t(2) low2] spaceD(3) [OF sp] k(5)
      by (simp add: space_def)
  qed
  moreover have "cr3 t = VIR_TO_PHY r" "kmem.more t = kmem.more s"
    using k(6,7) touches_more [OF s1(3)] by (simp_all add: SwitchVM_def)
  ultimately show ?thesis by auto
qed

section \<open>InitFileSystem\<close>

text \<open>The BIOS parameter block of a boot sector, and the boot sectors \<open>InitFileSystem\<close> accepts.\<close>

definition parse_BPB :: "u8 list \<Rightarrow> BPB" where
  "parse_BPB bs = \<lparr>bytes_per_sector = of_nat (le_nat (take 2 (drop 11 bs))), sectors_per_cluster = bs ! 13,
     reserved_sectors = of_nat (le_nat (take 2 (drop 14 bs))), fat_copies = bs ! 16,
     root_dir_entries = of_nat (le_nat (take 2 (drop 17 bs))), sectors_per_fat = of_nat (le_nat (take 2 (drop 22 bs))),
     b_signature = bs ! 38\<rparr>"

definition boot_sector :: "(nat \<Rightarrow> u16 list) \<Rightarrow> u8 list" where
  "boot_sector sector = disk_bytes sector 0 1"

definition boot_sector_ok :: "u8 list \<Rightarrow> bool" where
  "boot_sector_ok bs \<longleftrightarrow> bs ! 510 = 0x55 \<and> bs ! 511 = 0xAA \<and> b_signature (parse_BPB bs) = 0x29
     \<and> bytes_per_sector (parse_BPB bs) \<noteq> 0 \<and> data_start (parse_BPB bs) * unat (bytes_per_sector (parse_BPB bs)) < 2 ^ 31"

lemma load_BPB_parse: "load_BPB m a = parse_BPB (read_bytes m a 512)"
proof -
  note split = read_bytes_split [where l = 512 and p = a and m = m]
  show ?thesis
    using split [of 11 2] split [of 14 2] split [of 17 2] split [of 22 2] by (simp add: load_BPB_def parse_BPB_def load16_def)
qed

text \<open>A message, and a page for a table.\<close>

lemma boot_message:
  fixes s :: "'z kmem_scheme"
  assumes "numbers_in f = Some (length ns)" "length f + 20 * length ns \<le> 1024" "screen_ok s"
    and "free_pages s ps" "PHY_TO_VIR 0x200000 \<le> l_kernel_end s"
  shows "\<exists>t. print f (map KInt ns) s = ret t \<and> free_pages t ps \<and> booting {} s t \<and> kmem.more t = kmem.more s \<and> cr3 t = cr3 s"
proof -
  obtain t where t: "print f (map KInt ns) s = ret t" "printed s t" using print_numbers [OF assms(1-3)] by blast
  then show ?thesis using free_pages_printed [OF assms(4) t(2) assms(5)] booting_printed printed_kmem(6,7) by blast
qed

text \<open>The fields no part of the initialisation of the file system changes.\<close>

definition statics :: "'z kernel_scheme \<Rightarrow> (nat \<Rightarrow> process) \<times> int \<times> (queue_name, nat) links \<times> KeyboardBuffer \<times> (nat \<Rightarrow> SYSTEM_CALL option) \<times> u64" where
  "statics s = (s_process_manager s, s_pid_num s, proc_lists s, s_keyboard_controller s, s_syscall_table s, cr3 s)"

definition files :: "'z kernel_scheme \<Rightarrow> BPB \<times> (nat \<Rightarrow> FCB) \<times> (nat \<Rightarrow> FD)" where
  "files s = (s_BIOS_parameter_block s, s_fcb_table s, s_fd_table s)"

lemma statics_more: "kmem.more t = kmem.more s \<Longrightarrow> cr3 t = cr3 s \<Longrightarrow> statics t = statics s \<and> files t = files s"
  by (cases s; cases t) (simp add: statics_def files_def)

lemma table_page_ok:
  fixes s :: "'z kmem_scheme"
  assumes "free_pages s (p # ps)" "screen_ok s"
  shows "\<exists>h. kalloc s = ret (p, s\<lparr>s_free_memory_page_head := h\<rparr>) \<and> p \<noteq> 0
     \<and> free_pages (s\<lparr>s_free_memory_page_head := h, mem := memset (mem s) p 0 PAGE_SIZE\<rparr>) ps
     \<and> booting {p} s (s\<lparr>s_free_memory_page_head := h, mem := memset (mem s) p 0 PAGE_SIZE\<rparr>)"
  using new_root [OF assms(1)] booting_touches [OF _ assms(2)] spaceD(2) by blast

lemma InitFileTables_ok:
  fixes s :: "'z kernel_scheme"
  assumes "free_pages s (p # q # ps)" "screen_ok s"
  shows "\<exists>u t. InitFileControlBLock s = ret u \<and> InitFileDescriptorTable u = ret t \<and> free_pages t ps \<and> booting {p, q} s t
     \<and> statics t = statics s \<and> files t = (s_BIOS_parameter_block s, \<lambda>_. zero_FCB, \<lambda>_. zero_FD)"
proof -
  obtain h where h: "kalloc s = ret (p, s\<lparr>s_free_memory_page_head := h\<rparr>)" "p \<noteq> 0"
    "free_pages (s\<lparr>s_free_memory_page_head := h, mem := memset (mem s) p 0 PAGE_SIZE\<rparr>) (q # ps)"
    "booting {p} s (s\<lparr>s_free_memory_page_head := h, mem := memset (mem s) p 0 PAGE_SIZE\<rparr>)" using table_page_ok [OF assms] by blast
  let ?u = "s\<lparr>s_free_memory_page_head := h, mem := memset (mem s) p 0 PAGE_SIZE, s_fcb_table := \<lambda>_. zero_FCB\<rparr>"
  have u: "free_pages ?u (q # ps)" "booting {p} s ?u" using h(3,4) by (simp_all add: free_pages_def booting_def screen_ok_def)
  obtain h' where h': "kalloc ?u = ret (q, ?u\<lparr>s_free_memory_page_head := h'\<rparr>)" "q \<noteq> 0"
    "free_pages (?u\<lparr>s_free_memory_page_head := h', mem := memset (mem ?u) q 0 PAGE_SIZE\<rparr>) ps"
    "booting {q} ?u (?u\<lparr>s_free_memory_page_head := h', mem := memset (mem ?u) q 0 PAGE_SIZE\<rparr>)"
    using table_page_ok [OF u(1) bootingD(1) [OF u(2)]] by blast
  let ?t = "?u\<lparr>s_free_memory_page_head := h', mem := memset (mem ?u) q 0 PAGE_SIZE, s_fd_table := \<lambda>_. zero_FD\<rparr>"
  have t: "free_pages ?t ps" "booting {q} ?u ?t" using h'(3,4) by (simp_all add: free_pages_def booting_def screen_ok_def)
  have "InitFileControlBLock s = ret ?u" using h by (simp add: InitFileControlBLock_def)
  moreover have "InitFileDescriptorTable ?u = ret ?t" using h' by (simp add: InitFileDescriptorTable_def)
  moreover have "booting {p, q} s ?t" using booting_trans [OF u(2) t(2)] by (simp add: insert_commute)
  ultimately show ?thesis using t(1) by (intro exI [of _ ?u] exI [of _ ?t]) (simp add: statics_def files_def)
qed

text \<open>The boot sector is read into a page, which goes back to the free list.\<close>

lemma read_boot_sector:
  fixes s :: "('d, 'z) io_kernel_scheme"
  assumes D: "ata_drive io view sector cap" "a_words (view (dev s)) = []" "0 < cap" and f: "free_pages s (p # ps)" and sc: "screen_ok s"
  shows "\<exists>h s2. kalloc s = ret (p, s\<lparr>s_free_memory_page_head := h\<rparr>) \<and> p \<noteq> 0
     \<and> DiskReadSectors io 0 1 p (s\<lparr>s_free_memory_page_head := h\<rparr>) = ret (0, s2)
     \<and> read_bytes (mem s2) p 512 = boot_sector sector \<and> free_pages s2 ps \<and> booting {p} s s2
     \<and> statics s2 = statics s \<and> a_words (view (dev s2)) = []"
proof -
  let ?bs = "boot_sector sector" and ?s1 = "s\<lparr>s_free_memory_page_head := load64 (mem s) p\<rparr>"
  note k = kalloc_Cons [OF f] and v = free_pagesD [OF f]
  have len: "length ?bs = 512" using length_disk_bytes [of 0 1 sector] ata_driveD(1) [OF D(1)] D(3) by (simp add: boot_sector_def)
  have w: "a_words (view (dev ?s1)) = []" using D(2) by simp
  from DiskReadSectors_ok [OF D(1) w, of 1 0 p, folded boot_sector_def] D(3) obtain d where
    d: "DiskReadSectors io 0 1 p ?s1 = ret (0, put_io (write_bytes (mem s) p ?bs) d ?s1)" "a_words (view d) = []" by auto
  let ?s2 = "put_io (write_bytes (mem s) p ?bs) d ?s1"
  have other: "mem ?s2 x = mem s x" if "x \<notin> page_span p" for x
    using that len span_subset [of 0 512 "2 ^ 21" p] by (simp add: write_bytes_apply page_span_def) blast
  have "free_pages ?s2 ps"
  proof (rule free_pages_frame [OF k(2)])
    fix x r
    assume "r \<in> set ps" "x \<in> page_span r"
    then have "x \<notin> page_span p" using valid_pages_disjoint [OF v(2), of r] v(1,3) by blast
    from other [OF this] show "mem ?s2 x = mem ?s1 x" by simp
  qed (simp_all add: put_io_def)
  moreover have "booting {p} s ?s2" using other sc by (simp add: booting_def put_io_def screen_ok_def)
  moreover have "read_bytes (mem ?s2) p 512 = ?bs" using read_write_same [of ?bs "mem s" p] unfolding len by simp
  ultimately show ?thesis using k(1) v(4) d by (intro exI [of _ "load64 (mem s) p"] exI [of _ ?s2]) (simp add: statics_def put_io_def)
qed

lemma InitFileSystem_ok:
  fixes s :: "('d, 'z) io_kernel_scheme"
  assumes D: "ata_drive io view sector cap" "a_words (view (dev s)) = []" "0 < cap" and B: "boot_sector_ok (boot_sector sector)"
    and f: "free_pages s (p # q # ps)" and sc: "screen_ok s" and low: "PHY_TO_VIR 0x200000 \<le> l_kernel_end s"
  shows "\<exists>t. InitFileSystem io s = ret t \<and> free_pages t ps \<and> booting {p, q} s t \<and> statics t = statics s
     \<and> files t = (parse_BPB (boot_sector sector), \<lambda>_. zero_FCB, \<lambda>_. zero_FD)"
proof -
  let ?bs = "boot_sector sector" let ?b = "parse_BPB ?bs" let ?n = "unat (bytes_per_sector ?b)"
  have B: "?bs ! 510 = 0x55" "?bs ! 511 = 0xAA" "b_signature ?b = 0x29" "bytes_per_sector ?b \<noteq> 0" "data_start ?b * ?n < 2 ^ 31"
    using B unfolding boot_sector_ok_def by blast+
  have "GetRootDirectoryStartSector ?b \<le> data_start ?b" by (simp add: data_start_def)
  then have root: "GetRootDirectoryStartSector ?b * ?n < 2 ^ 31" by (rule le_less_trans [OF mult_le_mono1 B(5)])
  obtain h s2 where s2: "kalloc s = ret (p, s\<lparr>s_free_memory_page_head := h\<rparr>)" "p \<noteq> 0"
    "DiskReadSectors io 0 1 p (s\<lparr>s_free_memory_page_head := h\<rparr>) = ret (0, s2)" "read_bytes (mem s2) p 512 = ?bs"
    "free_pages s2 (q # ps)" "booting {p} s s2" "statics s2 = statics s" using read_boot_sector [OF D f sc] by blast
  let ?s3 = "s2\<lparr>s_BIOS_parameter_block := ?b\<rparr>"
  have bpb: "load_BPB (mem s2) p = ?b" using load_BPB_parse s2(4) by metis
  have sig: "mem s2 (p + 510) = 0x55" "mem s2 (p + 511) = 0xAA"
    using nth_read_bytes [of 510 512 "mem s2" p] nth_read_bytes [of 511 512 "mem s2" p] s2(4) B(1,2) by simp_all
  have s3: "free_pages ?s3 (q # ps)" "booting {p} s ?s3" "statics ?s3 = statics s"
    using s2(5-7) by (simp_all add: free_pages_def booting_def screen_ok_def statics_def)
  note low3 = low [folded bootingD(2) [OF s3(2)]]
  from boot_message [of "kline ''Boot signature: %x''" "[0x55AA]", OF _ _ bootingD(1) [OF s3(2)] s3(1) low3] obtain s4 where
    s4: "print (kline ''Boot signature: %x'') [KInt 0x55AA] ?s3 = ret s4" "free_pages s4 (q # ps)" "booting {} ?s3 s4"
    "kmem.more s4 = kmem.more ?s3" "cr3 s4 = cr3 ?s3" by (auto simp: kline_def bytes_of_def)
  note low4 = low3 [folded bootingD(2) [OF s4(3)]]
  from boot_message [of "kline ''FAT16 signature: %x''" "[0x29]", OF _ _ bootingD(1) [OF s4(3)] s4(2) low4] obtain s5 where
    s5: "print (kline ''FAT16 signature: %x'') [KInt 0x29] s4 = ret s5" "free_pages s5 (q # ps)" "booting {} s4 s5"
    "kmem.more s5 = kmem.more s4" "cr3 s5 = cr3 s4" by (auto simp: kline_def bytes_of_def)
  have b5: "booting {p} s s5" using booting_trans [OF s3(2) booting_trans [OF s4(3) s5(3)]] by simp
  have v: "valid_page (l_kernel_end s5) p" "p \<notin> set (q # ps)" using free_pagesD [OF f] bootingD(2) [OF b5] by simp_all
  let ?s6 = "s5\<lparr>mem := store64 (mem s5) p (s_free_memory_page_head s5), s_free_memory_page_head := p\<rparr>"
  note s6 = kfree_ok [OF s5(2) v]
  have "booting {p} s5 ?s6"
    using link_in_page by (auto intro!: booting_touches [OF _ bootingD(1) [OF b5]] touchesI store64_other)
  from booting_trans [OF b5 this] have b6: "booting {p} s ?s6" by simp
  note low6 = low [folded bootingD(2) [OF b6]]
  let ?root = "of_nat (GetRootDirectoryStartSector ?b * ?n)" and ?data = "of_nat (data_start ?b * ?n)"
  from boot_message [of "kline ''FAT16 Root Directory base address: %x''" "[?root]", OF _ _ bootingD(1) [OF b6] s6(2) low6] obtain s7 where
    s7: "print (kline ''FAT16 Root Directory base address: %x'') [KInt ?root] ?s6 = ret s7" "free_pages s7 (p # q # ps)" "booting {} ?s6 s7"
    "kmem.more s7 = kmem.more ?s6" "cr3 s7 = cr3 ?s6" by (auto simp: kline_def bytes_of_def)
  note low7 = low6 [folded bootingD(2) [OF s7(3)]]
  from boot_message [of "kline ''FAT16 DATA region base address: %x''" "[?data]", OF _ _ bootingD(1) [OF s7(3)] s7(2) low7] obtain s8 where
    s8: "print (kline ''FAT16 DATA region base address: %x'') [KInt ?data] s7 = ret s8" "free_pages s8 (p # q # ps)" "booting {} s7 s8"
    "kmem.more s8 = kmem.more s7" "cr3 s8 = cr3 s7" by (auto simp: kline_def bytes_of_def)
  obtain s9 s10 where s10: "InitFileControlBLock s8 = ret s9" "InitFileDescriptorTable s9 = ret s10" "free_pages s10 ps" "booting {p, q} s8 s10"
    "statics s10 = statics s8" "files s10 = (s_BIOS_parameter_block s8, \<lambda>_. zero_FCB, \<lambda>_. zero_FD)"
    using InitFileTables_ok [OF s8(2) bootingD(1) [OF s8(3)]] by blast
  have b10: "booting {p, q} s s10"
    using booting_trans [OF b6 booting_trans [OF s7(3) booting_trans [OF s8(3) s10(4)]]] by (simp add: insert_commute)
  note low10 = low [folded bootingD(2) [OF b10]]
  from boot_message [of "kline ''Initialized FAT 16 file system.''" "[]", OF _ _ bootingD(1) [OF b10] s10(3) low10] obtain t where
    t: "print (kline ''Initialized FAT 16 file system.'') [] s10 = ret t" "free_pages t ps" "booting {} s10 t"
    "kmem.more t = kmem.more s10" "cr3 t = cr3 s10" by (auto simp: kline_def bytes_of_def)
  have m: "statics ?s6 = statics s5" "files ?s6 = files s5" by (simp_all add: statics_def files_def)
  note st = statics_more [OF s4(4,5)] statics_more [OF s5(4,5)] statics_more [OF s7(4,5)] statics_more [OF s8(4,5)] statics_more [OF t(4,5)] m
  have "s_BIOS_parameter_block s8 = ?b" using st(3,4) m st(1,2) by (simp add: files_def)
  have geo: "int_product (GetRootDirectoryStartSector ?b) (GetBytesPerSector ?b) = ret (GetRootDirectoryStartSector ?b * ?n)"
    "int_product (data_start ?b) (GetBytesPerSector ?b) = ret (data_start ?b * ?n)" "GetDataRegionStartSector ?b = ret (data_start ?b)"
    using root B(4,5) by (simp_all add: int_product_def GetBytesPerSector_def GetDataRegionStartSector_def GetRootDirectorySectorSize_def data_start_def)
  have sg: "push_bit 8 (ucast (0x55 :: u8)) OR ucast (0xAA :: u8) = (0x55AA :: u16)" "ucast (0x55AA :: u16) = (0x55AA :: u64)"
    "ucast (0x29 :: u8) = (0x29 :: u64)" by simp_all
  have "InitFileSystem io s = ret t"
    using s2(2) by (simp add: InitFileSystem_def Let_def s2(1,3) bpb sig B(3) sg s4(1) s5(1) s6(1) s7(1) s8(1) s10(1,2) t(1) geo del: of_nat_mult)
  moreover have "booting {p, q} s t" using booting_trans [OF b10 t(3)] by simp
  moreover have "statics t = statics s" using st s10(5) s3(3) by simp
  moreover have "files t = (?b, \<lambda>_. zero_FCB, \<lambda>_. zero_FD)" using st(5) s10(6) \<open>s_BIOS_parameter_block s8 = ?b\<close> by simp
  ultimately show ?thesis using t(2) by blast
qed

section \<open>The memory is set up\<close>

text \<open>The statics as the C code initialises them.\<close>

definition boot_statics :: "'z kernel_scheme \<Rightarrow> bool" where
  "boot_statics s \<longleftrightarrow> (\<forall>i. proc s i = zero_process) \<and> queues (proc_lists s) (\<lambda>_. []) \<and> s_pid_num s = 1
     \<and> ring_ok (s_keyboard_controller s) \<and> s_syscall_table s = (\<lambda>_. None)"

lemma boot_memory_printed:
  fixes s :: "'z kmem_scheme"
  assumes "boot_memory s es" "printed s t" shows "boot_memory t es"
  using assms(1) printed_kmem(1-5,8) [OF assms(2)] printed_map [OF assms(2)] by (simp add: boot_memory_def)

lemma three_pages:
  assumes "set ps = A" "distinct ps" "n \<le> card A" shows "n \<le> length ps" "length ps = card A"
  using assms distinct_card [of ps] by simp_all

text \<open>The first three calls: the free list, and the page map of the kernel.\<close>

lemma memory_phase:
  fixes s :: "'z kmem_scheme"
  assumes b: "boot_memory s es" and n: "3 \<le> card (usable_pages (l_kernel_end s) es)"
  shows "\<exists>s1 s2 t r a b ps. print (kline ''Retrieve memory map:'') [] s = ret s1 \<and> RetrieveMemoryInfo s1 = ret s2 \<and> InitMemory s2 = ret t
     \<and> distinct (r # a # b # ps) \<and> set (r # a # b # ps) = usable_pages (l_kernel_end s) es
     \<and> space t r (kernel_tree (kernel_pages s2) a b) ps \<and> cr3 t = VIR_TO_PHY r \<and> memory_ok t \<and> memory_ok s2 \<and> screen_ok t
     \<and> l_kernel_end t = l_kernel_end s \<and> s_total_mem t = sum_list (map snd (usable es))
     \<and> (\<forall>p\<in>usable_pages (l_kernel_end s) es. valid_page (l_kernel_end s) p)
     \<and> s_free_memory_end_address t = s_free_memory_end_address s2 \<and> kmem.more t = kmem.more s
     \<and> (in_order (usable es) \<longrightarrow> (\<forall>p\<in>usable_pages (l_kernel_end s) es. unat p + 2 ^ 21 \<le> unat (s_free_memory_end_address t)))
     \<and> (\<forall>x. x \<notin> screen_bytes \<longrightarrow> (\<forall>p\<in>usable_pages (l_kernel_end s) es. x \<notin> page_span p) \<longrightarrow> mem t x = mem s x)"
proof -
  let ?A = "usable_pages (l_kernel_end s) es"
  have sc: "screen_ok s" "PHY_TO_VIR 0x200000 \<le> l_kernel_end s" using b by (simp_all add: boot_memory_def)
  obtain s1 where s1: "print (kline ''Retrieve memory map:'') [] s = ret s1" "printed s s1"
    using print_numbers [of "kline ''Retrieve memory map:''" "[]" s] sc(1) by (auto simp: kline_def bytes_of_def)
  note k1 = printed_kmem [OF s1(2)]
  have "usable_pages (l_kernel_end s1) es \<noteq> {}" using n k1(5) by auto
  from RetrieveMemoryInfo_ok [OF boot_memory_printed [OF b s1(2)] this] obtain s2 qs where
    s2: "RetrieveMemoryInfo s1 = ret s2" "free_pages s2 qs" "set qs = ?A" "s_total_mem s2 = sum_list (map snd (usable es))"
      "memory_ok s2" "l_kernel_end s2 = l_kernel_end s" "screen_ok s2" "kmem.more s2 = kmem.more s1"
      "s_free_memory_end_address s2 = hd qs + PAGE_SIZE" "in_order (usable es) \<longrightarrow> head_highest qs"
      "\<forall>x. x \<notin> screen_bytes \<longrightarrow> (\<forall>p\<in>set qs. x \<notin> page_span p) \<longrightarrow> mem s2 x = mem s1 x" unfolding k1(5) by blast
  have d: "distinct qs" "\<forall>p\<in>?A. valid_page (l_kernel_end s) p" using s2(2,3,6) by (simp_all add: free_pages_def)
  obtain r a b ps where qs: "qs = r # a # b # ps"
    using three_pages(1) [OF s2(3) d(1) n] by (auto simp: numeral_3_eq_3 Suc_le_length_iff)
  from InitMemory_ok [OF s2(2) [unfolded qs] s2(5,7)] sc(2) s2(6) obtain t where
    t: "InitMemory s2 = ret t" "cr3 t = VIR_TO_PHY r" "space t r (kernel_tree (kernel_pages s2) a b) ps" "booting {r, a, b} s2 t"
      "kmem.more t = kmem.more s2" by auto
  note bt = bootingD [OF t(4)]
  have "mem t x = mem s x" if x: "x \<notin> screen_bytes" "\<forall>p\<in>?A. x \<notin> page_span p" for x
  proof -
    have "\<forall>p\<in>set qs. x \<notin> page_span p" using x(2) s2(3) by simp
    then show ?thesis using bt(5) [OF x(1)] s2(11) k1(9) x(1) unfolding qs by simp
  qed
  moreover have "unat p + 2 ^ 21 \<le> unat (s_free_memory_end_address t)" if "in_order (usable es)" "p \<in> ?A" for p
    using pages_below_end [OF _ _ s2(3,9) that(2)] s2(10) that(1) b bt(3) by (simp add: boot_memory_def)
  ultimately show ?thesis
    using s1(1) s2(1) t d s2(3) bt(1-4,6) s2(4-6,8) k1(7) unfolding qs by (intro exI [of _ s1] exI [of _ s2] exI [of _ t]
      exI [of _ r] exI [of _ a] exI [of _ b] exI [of _ ps]) simp
qed

section \<open>The processes start\<close>

text \<open>From the state with the page map of the kernel to the end of \<open>KMain\<close>.\<close>

lemma owns_memory_printed:
  fixes s :: "'z kernel_scheme"
  assumes "owns_memory s i C u ps" "printed s t" "PHY_TO_VIR 0x200000 \<le> l_kernel_end s" shows "owns_memory t i C u ps"
proof -
  have "proc t i = proc s i" using coreD(1) [OF core_more [OF printed_kmem(7) [OF assms(2)]]] by simp
  moreover have "space t r C ps" if "space s r C ps" for r
    using spaceD(1-3) [OF that] vm_tree_printed [OF _ assms(2,3)] free_pages_printed [OF _ assms(2,3)] printed_kmem(5) [OF assms(2)]
    by (simp add: space_def)
  ultimately show ?thesis using assms(1) printed_kmem(5) [OF assms(2)] by (simp add: owns_memory_def owns_user_page_def)
qed

lemma fresh_tables:
  assumes "boot_statics s" "statics t = (s_process_manager s, s_pid_num s, proc_lists s, s_keyboard_controller s, n, c)"
    and "s_fcb_table t = (\<lambda>_. zero_FCB)" "s_fd_table t = (\<lambda>_. zero_FD)"
  shows "fresh t" "ring_ok (s_keyboard_controller t)"
proof -
  have z: "proc t i = zero_process" for i using assms(1,2) by (simp add: boot_statics_def statics_def)
  have "file_of t u = None" for u by (simp add: file_of_def z) (simp add: zero_process_def)
  then have "counts UNIV t" using assms(3,4) by (simp add: counts_def fd_users_def fcb_users_def fcb_of_def zero_FD_def zero_FCB_def)
  then show "fresh t" "ring_ok (s_keyboard_controller t)" using assms(1,2) z by (simp_all add: fresh_def boot_statics_def statics_def)
qed

lemma image_low:
  assumes "i < 10240"
  shows "PHY_TO_VIR USER_INIT_PROCESS_ADDRESS_BASE + of_nat i \<in> page_span KERNEL_VIRTUAL_ADDRESS_BASE - screen_bytes"
proof -
  have at: "PHY_TO_VIR USER_INIT_PROCESS_ADDRESS_BASE + of_nat i \<in> span (KERNEL_VIRTUAL_ADDRESS_BASE + of_nat 0x20000) 10240"
    using add_in_span [of i 10240 "PHY_TO_VIR USER_INIT_PROCESS_ADDRESS_BASE"] assms
    by (simp add: PHY_TO_VIR_def USER_INIT_PROCESS_ADDRESS_BASE_def add.commute)
  have "span (KERNEL_VIRTUAL_ADDRESS_BASE + of_nat 0x20000) 10240 \<subseteq> page_span KERNEL_VIRTUAL_ADDRESS_BASE"
    using span_subset [of "0x20000" 10240 "2 ^ 21" KERNEL_VIRTUAL_ADDRESS_BASE] by (simp add: page_span_def)
  moreover have "span (KERNEL_VIRTUAL_ADDRESS_BASE + of_nat 0x20000) 10240 \<inter> screen_bytes = {}"
    using low_not_screen [of "0x20000" 10240] by simp
  ultimately show ?thesis using at by blast
qed

lemma process_phase:
  fixes s :: "('d, 'z) io_kernel_scheme"
  assumes f: "free_pages s (p # q # k # c # a # b # u # d # e # ps)" and ok: "memory_ok s" "screen_ok s" "PHY_TO_VIR 0x200000 \<le> l_kernel_end s"
    and st: "boot_statics s" and D: "ata_drive io view sector cap" "a_words (view (dev s)) = []" "0 < cap"
    and B: "boot_sector_ok (boot_sector sector)"
  shows "\<exists>s1 s2 s3 t. InitFileSystem io s = ret s1 \<and> InitSystemCall s1 = ret s2 \<and> InitProcess s2 = ret s3 \<and> welcome_message s3 = ret t
     \<and> reachable io (t, \<lambda>_. None) \<and> represents True t init_spec \<and> s_syscall_table t = registered
     \<and> s_BIOS_parameter_block t = parse_BPB (boot_sector sector) \<and> cr3 t = cr3 s
     \<and> owns_memory t 1 (user_tree (kernel_tree (kernel_pages s) a b) u d e) u ps
     \<and> (\<forall>x<2 ^ 21. mem t (u + of_nat x) =
           (if x < 10240 then mem s (PHY_TO_VIR USER_INIT_PROCESS_ADDRESS_BASE + of_nat x) else 0))
     \<and> booting {p, q, k, c, a, b, u, d, e} s t"
proof -
  let ?img = "PHY_TO_VIR USER_INIT_PROCESS_ADDRESS_BASE" let ?U = "{k, c, a, b, u, d, e}"
  let ?UT = "user_tree (kernel_tree (kernel_pages s) a b) u d e"
  have v: "valid_page (l_kernel_end s) x" if "x \<in> insert p (insert q ?U)" for x using f that by (auto simp: free_pages_def)
  have low: "?img + of_nat i \<notin> page_span x" "?img + of_nat i \<notin> screen_bytes" if "i < 10240" "x \<in> insert p (insert q ?U)" for i x
    using image_low [OF that(1)] low_not_page [OF v [OF that(2)] ok(3)] by blast+
  obtain s1 where s1: "InitFileSystem io s = ret s1" "free_pages s1 (k # c # a # b # u # d # e # ps)" "booting {p, q} s s1"
    "statics s1 = statics s" "files s1 = (parse_BPB (boot_sector sector), \<lambda>_. zero_FCB, \<lambda>_. zero_FD)"
    using InitFileSystem_ok [OF D B f ok(2,3)] by blast
  let ?s2 = "s1\<lparr>s_syscall_table := registered\<rparr>"
  note b1 = bootingD [OF s1(3)]
  have tab: "s_syscall_table s1 = (\<lambda>_. None)" using s1(4) st by (simp add: statics_def boot_statics_def)
  have f2: "free_pages ?s2 (k # c # a # b # u # d # e # ps)" using s1(2) by (simp add: free_pages_def)
  have ok2: "memory_ok ?s2" "kernel_pages ?s2 = kernel_pages s"
    using b1(6) [OF ok(1)] b1(3) by (simp_all add: memory_ok_def kernel_pages_def)
  have "statics ?s2 = (s_process_manager s, s_pid_num s, proc_lists s, s_keyboard_controller s, registered, cr3 s)"
    using s1(4) by (simp add: statics_def)
  note fresh = fresh_tables [OF st this]
  have tabs: "s_fcb_table ?s2 = (\<lambda>_. zero_FCB)" "s_fd_table ?s2 = (\<lambda>_. zero_FD)" using s1(5) by (simp_all add: files_def)
  have img: "\<forall>x\<in>?U. span ?img 10240 \<inter> page_span x = {}"
  proof
    fix x assume x: "x \<in> ?U"
    show "span ?img 10240 \<inter> page_span x = {}"
    proof (rule ccontr)
      assume "span ?img 10240 \<inter> page_span x \<noteq> {}"
      then obtain y where "y \<in> span ?img 10240" "y \<in> page_span x" by blast
      then show False using low(1) [of "unat (y - ?img)" x] x by (auto simp: span_def)
    qed
  qed
  obtain s3 where s3: "InitProcess ?s2 = ret s3" "represents True s3 init_spec" "owns_memory s3 1 ?UT u ps"
    "\<forall>x<2 ^ 21. mem s3 (u + of_nat x) = (if x < 10240 then mem ?s2 (?img + of_nat x) else 0)"
    "cr3 s3 = cr3 ?s2" "screen_ok s3 = screen_ok ?s2" "s_total_mem s3 = s_total_mem ?s2"
    "s_free_memory_end_address s3 = s_free_memory_end_address ?s2" "l_kernel_end s3 = l_kernel_end ?s2"
    "\<forall>x. (\<forall>r\<in>?U. x \<notin> page_span r) \<longrightarrow> mem s3 x = mem ?s2 x"
    using InitProcess_ok [OF fresh(1) [OF tabs] f2 ok2(1) img] unfolding ok2(2) by blast
  have b3: "booting ?U s1 s3" using s3(6-10) b1(1) by (simp add: booting_def screen_ok_def)
  obtain t where t: "welcome_message s3 = ret t" "printed s3 t" using welcome_message_ok [OF bootingD(1) [OF b3]] by blast
  note kt = printed_kmem [OF t(2)]
  have "reachable io (t, \<lambda>_. None)" using fresh [OF tabs] s3(1) t(1) unfolding reachable_def by blast
  moreover have "InitSystemCall s1 = ret ?s2" by (rule InitSystemCall_ok [OF tab])
  moreover have "represents True t init_spec"
    by (rule represents_cong [OF s3(2)]) (use coreD [OF core_more [OF kt(7)]] in simp_all)
  moreover have "s_syscall_table t = registered" "s_BIOS_parameter_block t = parse_BPB (boot_sector sector)"
    using table_more [OF kt(7)] InitProcess_table [OF s3(1)] s1(5) by (simp_all add: files_def)
  moreover have "cr3 t = cr3 s" using kt(6) s3(5) s1(4) by (simp add: statics_def)
  moreover have low3: "PHY_TO_VIR 0x200000 \<le> l_kernel_end s3" using s3(9) b1(2) ok(3) by simp
  then have "owns_memory t 1 ?UT u ps" by (rule owns_memory_printed [OF s3(3) t(2)])
  moreover have "mem t (u + of_nat x) = (if x < 10240 then mem s (?img + of_nat x) else 0)" if x: "x < 2 ^ 21" for x
  proof -
    have "u + of_nat x \<in> page_span u" using add_in_span [of x "2 ^ 21" u] x by (simp add: page_span_def)
    then have "u + of_nat x \<notin> screen_bytes" using low_not_page [OF v ok(3)] screen_low by blast
    then have "mem t (u + of_nat x) = (if x < 10240 then mem s1 (?img + of_nat x) else 0)" using kt(9) s3(4) x by simp
    then show ?thesis using b1(5) [of "?img + of_nat x"] low [of x p] low(1) [of x q] by simp
  qed
  moreover have "booting ({p, q} \<union> (?U \<union> {})) s t" by (rule booting_trans [OF s1(3) booting_trans [OF b3 booting_printed [OF t(2)]]])
  then have "booting {p, q, k, c, a, b, u, d, e} s t" by (simp add: insert_commute)
  ultimately show ?thesis using s1(1) s3(1) t(1) by (intro exI [of _ s1] exI [of _ ?s2] exI [of _ s3] exI [of _ t]) simp
qed

section \<open>KMain\<close>

lemma boot_statics_more:
  "kmem.more t = kmem.more s \<Longrightarrow> boot_statics s \<Longrightarrow> boot_statics t"
  by (cases s; cases t) (simp add: boot_statics_def)

text \<open>The page map of the kernel outlives what the other initialisations do in free pages.\<close>

lemma kernel_map_kept:
  fixes s :: "'z kmem_scheme"
  assumes sp: "space s r (kernel_tree (kernel_pages s) x y) qs" and ok: "memory_ok s" "PHY_TO_VIR 0x200000 \<le> l_kernel_end s"
    and v: "valid_page (l_kernel_end s) x" "valid_page (l_kernel_end s) y" and t: "booting U s t" "U \<subseteq> set qs"
  shows "mmu (mem t) r v = (if KERNEL_VIRTUAL_ADDRESS_BASE \<le> v \<and> v < PAGE_ALIGN_UP (s_free_memory_end_address s)
    then Some (VIR_TO_PHY v, 2) else None)"
proof -
  have ke: "KERNEL_VIRTUAL_ADDRESS_BASE \<le> l_kernel_end s" using ok(1) by (simp add: memory_ok_def)
  note k = kernel_tree_facts [OF v ke kernel_pages(3) [OF ok(1)]]
  have "U \<inter> tables r (kernel_tree (kernel_pages s) x y) = {}" using t(2) spaceD(3) [OF sp] by blast
  moreover have "\<forall>p\<in>U. valid_page (l_kernel_end s) p" using t(2) spaceD(2) [OF sp] by (auto simp: free_pages_def)
  ultimately have "vm_tree (mem t) (l_kernel_end s) r (kernel_tree (kernel_pages s) x y)"
    using booting_vm_tree [OF spaceD(1) [OF sp] t(1) _ _ ok(2)] by blast
  from mmu_walk [OF this k(1)] show ?thesis using k(2) kernel_range_iff [OF ok(1)] by simp
qed

text \<open>What the code touches while it starts: the kernel itself, the screen and the pages of the allocator.\<close>

lemma kernel_memory_mapped:
  fixes t :: "'z kmem_scheme"
  assumes map: "\<And>v. KERNEL_VIRTUAL_ADDRESS_BASE \<le> v \<Longrightarrow> v < PAGE_ALIGN_UP (s_free_memory_end_address t) \<Longrightarrow> Q v"
    and ok: "memory_ok t" and low: "PHY_TO_VIR 0x200000 \<le> ke" and below: "\<forall>p\<in>A. ke \<le> p \<and> unat p + 2 ^ 21 \<le> unat (s_free_memory_end_address t)"
    and ne: "A \<noteq> {}"
  shows "KERNEL_VIRTUAL_ADDRESS_BASE \<le> x \<Longrightarrow> x < ke \<Longrightarrow> Q x" "p \<in> A \<Longrightarrow> x \<in> page_span p \<Longrightarrow> Q x" "x \<in> screen_bytes \<Longrightarrow> Q x"
proof -
  let ?e = "s_free_memory_end_address t"
  have e: "?e \<le> PAGE_ALIGN_UP ?e" using PAGE_ALIGN_UP_range(1) ok by (simp add: memory_ok_def)
  obtain q where "q \<in> A" using ne by blast
  then have ke: "unat ke + 2 ^ 21 \<le> unat ?e" using below by (fastforce simp: word_le_nat_alt)
  have base: "unat KERNEL_VIRTUAL_ADDRESS_BASE + 2 ^ 21 \<le> unat ke"
    using low by (simp add: word_le_nat_alt PHY_TO_VIR_def KERNEL_VIRTUAL_ADDRESS_BASE_def)
  have page: "Q y" if "KERNEL_VIRTUAL_ADDRESS_BASE \<le> r" "unat r + 2 ^ 21 \<le> unat ?e" "y \<in> page_span r" for r y
  proof -
    have d: "unat (y - r) < 2 ^ 21" using that(3) by (simp add: page_span_def mem_span)
    then have "unat (r + (y - r)) = unat r + unat (y - r)" using that(2) unat_lt2p [of ?e] by (intro unat_plus_le) simp
    then have "unat y = unat r + unat (y - r)" by simp
    then show ?thesis using that(1,2) d e by (intro map) (simp_all add: word_le_nat_alt word_less_nat_alt)
  qed
  show "KERNEL_VIRTUAL_ADDRESS_BASE \<le> x \<Longrightarrow> x < ke \<Longrightarrow> Q x"
    using ke e by (intro map) (simp_all add: word_le_nat_alt word_less_nat_alt)
  show "p \<in> A \<Longrightarrow> x \<in> page_span p \<Longrightarrow> Q x"
    using below base by (intro page [of p]) (auto simp: word_le_nat_alt)
  show "x \<in> screen_bytes \<Longrightarrow> Q x"
    using screen_low base ke by (intro page [of KERNEL_VIRTUAL_ADDRESS_BASE]) auto
qed

lemma dev_more:
  fixes s t :: "('d, 'z) io_kernel_scheme"
  shows "kmem.more t = kmem.more s \<Longrightarrow> dev t = dev s"
  by (cases s; cases t) simp

lemma twelve:
  assumes "12 \<le> length ps"
  obtains p0 p1 p2 p3 p4 p5 p6 p7 p8 p9 p10 p11 qs where "ps = p0 # p1 # p2 # p3 # p4 # p5 # p6 # p7 # p8 # p9 # p10 # p11 # qs"
  using assms by (auto simp: numeral_eq_Suc Suc_le_length_iff)

text \<open>
  Property C4. The kernel starts. From the memory the boot loader leaves, with a memory map that lists the usable regions in
  increasing order, at least twelve usable pages and a FAT16 boot sector on the disk, \<open>KMain\<close> returns, whatever the delays of
  the drive: the descriptor table leads to the entry points; the machine is in a state in which the properties of the running
  kernel begin, with the init process ready; the system calls are registered and the geometry of the disk is known; the
  current page map translates exactly the kernel half up to the noted end of memory; the kernel, every page of the allocator
  and every byte that the start has changed lie in this part, so that the loaded map translates all of them; and the init
  process owns a page with the program image and zeros behind it, while all other usable pages are free. The
  order of the regions is needed: the code takes the end of memory from the page it has freed last, and above it the kernel has
  no map.
\<close>

theorem KMain_boots:
  fixes s :: "('d, 'z) io_kernel_scheme"
  assumes b: "boot_memory s es" and o: "in_order (usable es)" and n: "12 \<le> card (usable_pages (l_kernel_end s) es)" and st: "boot_statics s"
    and D: "ata_drive io view sector cap" "a_words (view (dev s)) = []" "0 < cap" and B: "boot_sector_ok (boot_sector sector)"
  shows "\<exists>t T u ps. KMain vector syscall io s = ret (InitIDT vector syscall, t) \<and> reachable io (t, \<lambda>_. None)
     \<and> represents True t init_spec \<and> s_syscall_table t = registered \<and> s_BIOS_parameter_block t = parse_BPB (boot_sector sector)
     \<and> GetTotalMem t = sum_list (map snd (usable es))
     \<and> (\<forall>v. mmu (mem t) (PHY_TO_VIR (cr3 t)) v =
          (if KERNEL_VIRTUAL_ADDRESS_BASE \<le> v \<and> v < PAGE_ALIGN_UP (s_free_memory_end_address t) then Some (VIR_TO_PHY v, 2) else None))
     \<and> (\<forall>x. KERNEL_VIRTUAL_ADDRESS_BASE \<le> x \<and> x < l_kernel_end s \<or> (\<exists>p\<in>usable_pages (l_kernel_end s) es. x \<in> page_span p) \<or> mem t x \<noteq> mem s x
          \<longrightarrow> mmu (mem t) (PHY_TO_VIR (cr3 t)) x = Some (VIR_TO_PHY x, 2))
     \<and> owns_memory t 1 T u ps \<and> set ps \<subseteq> usable_pages (l_kernel_end s) es \<and> length ps + 12 = card (usable_pages (l_kernel_end s) es)
     \<and> (\<forall>x<2 ^ 21. mem t (u + of_nat x) =
          (if x < 10240 then mem s (PHY_TO_VIR USER_INIT_PROCESS_ADDRESS_BASE + of_nat x) else 0))"
proof -
  let ?A = "usable_pages (l_kernel_end s) es" let ?img = "PHY_TO_VIR USER_INIT_PROCESS_ADDRESS_BASE"
  have "3 \<le> card ?A" using n by simp
  from memory_phase [OF b this] obtain s1 s2 s3 r x y qs where m: "print (kline ''Retrieve memory map:'') [] s = ret s1"
    "RetrieveMemoryInfo s1 = ret s2" "InitMemory s2 = ret s3" "distinct (r # x # y # qs)" "set (r # x # y # qs) = ?A"
    "space s3 r (kernel_tree (kernel_pages s2) x y) qs" "cr3 s3 = VIR_TO_PHY r" "memory_ok s3" "memory_ok s2" "screen_ok s3"
    "l_kernel_end s3 = l_kernel_end s" "s_total_mem s3 = sum_list (map snd (usable es))"
    "\<forall>p\<in>?A. valid_page (l_kernel_end s) p" "s_free_memory_end_address s3 = s_free_memory_end_address s2" "kmem.more s3 = kmem.more s"
    "\<forall>z. z \<notin> screen_bytes \<longrightarrow> (\<forall>p\<in>?A. z \<notin> page_span p) \<longrightarrow> mem s3 z = mem s z"
    "in_order (usable es) \<longrightarrow> (\<forall>p\<in>?A. unat p + 2 ^ 21 \<le> unat (s_free_memory_end_address s3))" by blast
  note len = three_pages [OF m(5,4) n]
  obtain p q k c a b' u d e ps where qs: "qs = p # q # k # c # a # b' # u # d # e # ps"
    by (rule twelve [OF len(1)]) blast
  have low: "PHY_TO_VIR 0x200000 \<le> l_kernel_end s3" using b m(11) by (simp add: boot_memory_def)
  have w: "a_words (view (dev s3)) = []" using D(2) dev_more [OF m(15)] by simp
  let ?T = "kernel_tree (kernel_pages s2) x y" let ?UT = "user_tree (kernel_tree (kernel_pages s3) a b') u d e"
  from process_phase [OF spaceD(2) [OF m(6), unfolded qs] m(8,10) low boot_statics_more [OF m(15) st] D(1) w D(3) B]
  obtain s4 s5 s6 t where t: "InitFileSystem io s3 = ret s4" "InitSystemCall s4 = ret s5" "InitProcess s5 = ret s6" "welcome_message s6 = ret t"
    "reachable io (t, \<lambda>_. None)" "represents True t init_spec" "s_syscall_table t = registered"
    "s_BIOS_parameter_block t = parse_BPB (boot_sector sector)" "cr3 t = cr3 s3" "owns_memory t 1 ?UT u ps"
    "\<forall>z<2 ^ 21. mem t (u + of_nat z) = (if z < 10240 then mem s3 (?img + of_nat z) else 0)"
    "booting {p, q, k, c, a, b', u, d, e} s3 t" by blast
  note bt = bootingD [OF t(12)]
  have "KMain vector syscall io s = ret (InitIDT vector syscall, t)"
    using m(1-3) t(1-4) by (simp add: KMain_def welcome_message_def)
  moreover have mmu: "mmu (mem t) (PHY_TO_VIR (cr3 t)) v =
      (if KERNEL_VIRTUAL_ADDRESS_BASE \<le> v \<and> v < PAGE_ALIGN_UP (s_free_memory_end_address t) then Some (VIR_TO_PHY v, 2) else None)" for v
  proof -
    have "kernel_pages s3 = kernel_pages s2" using m(14) by (simp add: kernel_pages_def)
    moreover have "valid_page (l_kernel_end s3) x" "valid_page (l_kernel_end s3) y" using m(5,11,13) by auto
    moreover have "{p, q, k, c, a, b', u, d, e} \<subseteq> set qs" unfolding qs by simp
    ultimately show ?thesis using kernel_map_kept [OF _ m(8) low _ _ t(12), of r x y qs v] m(6) unfolding t(9) m(7) bt(3) by simp
  qed
  moreover have "mmu (mem t) (PHY_TO_VIR (cr3 t)) z = Some (VIR_TO_PHY z, 2)"
    if "KERNEL_VIRTUAL_ADDRESS_BASE \<le> z \<and> z < l_kernel_end s \<or> (\<exists>p\<in>?A. z \<in> page_span p) \<or> mem t z \<noteq> mem s z" for z
  proof -
    have below: "\<forall>p\<in>?A. l_kernel_end s \<le> p \<and> unat p + 2 ^ 21 \<le> unat (s_free_memory_end_address t)"
      using m(13,17) o bt(3) by (simp add: valid_page_def)
    have "?A \<noteq> {}" using n by auto
    note mapped = kernel_memory_mapped [where Q = "\<lambda>v. mmu (mem t) (PHY_TO_VIR (cr3 t)) v = Some (VIR_TO_PHY v, 2)",
      OF _ bt(6) [OF m(8)] low [unfolded m(11)] below this, unfolded mmu, simplified]
    have "z \<in> screen_bytes \<or> (\<exists>p\<in>?A. z \<in> page_span p)" if "mem t z \<noteq> mem s z"
    proof (rule ccontr)
      assume no: "\<not> (z \<in> screen_bytes \<or> (\<exists>p\<in>?A. z \<in> page_span p))"
      moreover have "{p, q, k, c, a, b', u, d, e} \<subseteq> ?A" using m(5) unfolding qs by auto
      ultimately have "mem t z = mem s3 z" by (intro bt(5)) blast+
      then show False using that m(16) no by simp
    qed
    then show ?thesis using that mapped unfolding mmu by (metis (no_types, lifting))
  qed
  moreover have "mem s3 (?img + of_nat z) = mem s (?img + of_nat z)" if z: "z < 10240" for z
  proof -
    have "?img + of_nat z \<notin> page_span p" if "p \<in> ?A" for p
      using image_low [OF z] low_not_page [of "l_kernel_end s" p] m(13) that low m(11) by auto
    then show ?thesis using m(16) image_low [OF z] by blast
  qed
  then have "\<forall>z<2 ^ 21. mem t (u + of_nat z) = (if z < 10240 then mem s (?img + of_nat z) else 0)" using t(11) by simp
  moreover have "set ps \<subseteq> ?A" "length ps + 12 = card ?A" using m(5) len(2) qs by auto
  moreover have "GetTotalMem t = sum_list (map snd (usable es))" using bt(4) m(12) by (simp add: GetTotalMem_def)
  ultimately show ?thesis using t(5-8,10) by blast
qed

section \<open>A machine that starts\<close>

text \<open>A memory map as the BIOS writes it, after the number of its entries.\<close>

fun map_entry_bytes :: "u64 \<times> u64 \<times> u32 \<Rightarrow> u8 list" where
  "map_entry_bytes (a, l, ty) = le_bytes 8 (unat a) @ le_bytes 8 (unat l) @ le_bytes 4 (unat ty)"

definition with_map :: "(u64 \<times> u64 \<times> u32) list \<Rightarrow> memory" where
  "with_map es = write_bytes (\<lambda>_. 0) (PHY_TO_VIR 0x9000)
     (le_bytes 4 (length es) @ replicate 4 0 @ concat (map map_entry_bytes es))"

lemma length_entries: "length (concat (map map_entry_bytes es)) = 20 * length es"
  by (induction es) auto

lemma nth_entry_bytes:
  "i < length es \<Longrightarrow> take 20 (drop (20 * i) (concat (map map_entry_bytes es))) = map_entry_bytes (es ! i)"
proof (induction es arbitrary: i)
  case (Cons e es)
  have e: "length (map_entry_bytes e) = 20" by (cases e) simp
  then show ?case using Cons by (cases i) simp_all
qed simp

lemma with_map:
  assumes "length es < 50" shows "bios_map (with_map es) es"
proof -
  let ?bs = "le_bytes 4 (length es) @ replicate 4 0 @ concat (map map_entry_bytes es)" and ?a = "PHY_TO_VIR 0x9000"
  let ?n = "8 + 20 * length es"
  have "length ?bs = ?n" by (simp add: length_entries)
  then have all: "read_bytes (with_map es) ?a ?n = ?bs"
    using read_write_same [of ?bs "\<lambda>_. 0" ?a] assms by (simp add: with_map_def)
  have cut: "read_bytes (with_map es) (?a + of_nat k) n = take n (drop k ?bs)" if "k + n \<le> ?n" for k n
    using read_bytes_split [OF that, of "with_map es" ?a] all by simp
  have "load32 (with_map es) ?a = of_nat (length es)"
    using cut [of 0 4] assms by (simp add: load32_def)
  moreover have "mem_map_entry (with_map es) i = es ! i" if i: "i < length es" for i
  proof -
    obtain a l ty where e: "es ! i = (a, l, ty)" using prod_cases3 by blast
    have at: "PHY_TO_VIR 0x9008 + of_nat (20 * i) = ?a + of_nat (8 + 20 * i)"
      "PHY_TO_VIR 0x9008 + of_nat (20 * i) + 8 = ?a + of_nat (16 + 20 * i)"
      "PHY_TO_VIR 0x9008 + of_nat (20 * i) + 16 = ?a + of_nat (24 + 20 * i)" by (simp_all add: PHY_TO_VIR_def algebra_simps)
    have part: "take n (drop (8 + k + 20 * i) ?bs) = take n (drop k (map_entry_bytes (es ! i)))" if "k + n \<le> 20" for k n
    proof -
      have "take n (drop (8 + k + 20 * i) ?bs) = take n (drop k (drop (20 * i) (concat (map map_entry_bytes es))))"
        by (simp add: add.commute add.left_commute)
      also have "\<dots> = take n (drop k (take 20 (drop (20 * i) (concat (map map_entry_bytes es)))))"
        using that by (simp add: take_drop min_def del: drop_drop)
      finally show ?thesis using nth_entry_bytes [OF i] by simp
    qed
    have "load64 (with_map es) (?a + of_nat (8 + 20 * i)) = a" "load64 (with_map es) (?a + of_nat (16 + 20 * i)) = l"
      "load32 (with_map es) (?a + of_nat (24 + 20 * i)) = ty"
      using i cut [of "8 + 20 * i" 8] cut [of "16 + 20 * i" 8] cut [of "24 + 20 * i" 4] part [of 0 8] part [of 8 8] part [of 16 4]
        unat_lt2p [of a] unat_lt2p [of l] unat_lt2p [of ty] e by (simp_all add: load64_def load32_def)
    then show ?thesis unfolding mem_map_entry_def Let_def at(2,3) unfolding at(1) e by simp
  qed
  ultimately show ?thesis using assms by (simp add: bios_map_def)
qed

text \<open>64 megabytes, a kernel that ends at 2 MB, and a disk of one FAT16 partition.\<close>

definition pc_map :: "(u64 \<times> u64 \<times> u32) list" where
  "pc_map = [(0, 0x9FC00, 1), (0x9FC00, 0x400, 2), (0x100000, 0x3F00000, 1)]"

definition pc_vector :: "nat \<Rightarrow> u64" where
  "pc_vector n = 0x200200 + of_nat (16 * n)"

definition pc_disk :: "nat \<Rightarrow> u16 list" where
  "pc_disk k =
     (if k = 0 then [0, 0, 0, 0, 0, 0, 0x102, 1, 0x1001, 0, 0, 1, 0, 0, 0, 0, 0, 0, 0, 0x29] @ replicate 235 0 @ [0xAA55]
      else replicate 256 0)"

definition pc_memory :: kmem where
  "pc_memory = \<lparr>mem = with_map pc_map, scr_column = 0, scr_row = 0, s_free_memory_page_head = 0, s_free_memory_regions = [],
     s_free_memory_end_address = 0, s_total_mem = 0, l_kernel_end = 0xFFFF800000200000, cr3 = 0\<rparr>"

definition pc :: "ata io_kernel" where
  "pc = with_dev idle_drive (boot_kernel pc_memory)"

lemma pc_simps:
  "mem pc = with_map pc_map" "s_free_memory_page_head pc = 0" "s_free_memory_regions pc = []" "s_total_mem pc = 0"
  "l_kernel_end pc = 0xFFFF800000200000" "scr_column pc = 0" "scr_row pc = 0" "dev pc = idle_drive"
  by (simp_all add: pc_def pc_memory_def with_dev_def boot_kernel_def kmem.defs kernel.defs io_kernel.defs)

lemma pc_boot: "boot_memory pc pc_map" "boot_statics pc" "in_order (usable pc_map)" "12 \<le> card (usable_pages (l_kernel_end pc) pc_map)"
proof -
  have u: "usable pc_map = [(0, 0x9FC00), (0x100000, 0x3F00000)]" by (simp add: usable_def pc_map_def)
  have "bios_map (with_map pc_map) pc_map" by (rule with_map) (simp add: pc_map_def)
  then show "boot_memory pc pc_map"
    by (simp add: boot_memory_def pc_simps screen_ok_def cursor_ok_def u in_memory_def PHY_TO_VIR_def KERNEL_VIRTUAL_ADDRESS_BASE_def
        VIRTUAL_ADDRESS_END_def PHYSICAL_MEMORY_SIZE_def)
  show "in_order (usable pc_map)" by (simp add: u in_order_def)
  show "boot_statics pc" using queues_empty
    by (simp add: boot_statics_def pc_def ring_ok_def empty_links_def)
  have al: "aligned 21 0xFFFF800000400000" "unat (0xFFFF800000400000 :: u64) + 12 * 2 ^ 21 < 2 ^ 64" by (simp_all add: aligned_def)
  note r = in_region_pages [OF al]
  have "set (region_pages 0xFFFF800000400000 12) \<subseteq> region_free (l_kernel_end pc) (0x100000, 0x3F00000)"
    by (auto simp: r(1) region_free_def pc_simps word_le_nat_alt)
  then have "set (region_pages 0xFFFF800000400000 12) \<subseteq> usable_pages (l_kernel_end pc) pc_map" by (auto simp: usable_pages_def u)
  then have "card (set (region_pages 0xFFFF800000400000 12)) \<le> card (usable_pages (l_kernel_end pc) pc_map)" by (rule card_mono [OF finite])
  moreover have "card (set (region_pages 0xFFFF800000400000 12)) = 12"
    using distinct_card [OF r(2)] by (simp add: region_pages_def)
  ultimately show "12 \<le> card (usable_pages (l_kernel_end pc) pc_map)" by (simp only:)
qed

lemma pc_boot_sector:
  "boot_sector pc_disk = [0, 0, 0, 0, 0, 0, 0, 0, 0, 0, 0, 0, 2, 1, 1, 0, 1, 16, 0, 0, 0, 0, 1, 0, 0, 0, 0, 0, 0, 0, 0, 0, 0, 0, 0, 0, 0, 0, 0x29, 0]
     @ word_bytes (replicate 235 0) @ [0x55, 0xAA]"
  by (simp add: boot_sector_def disk_bytes_def pc_disk_def le_bytes_2)

lemma pc_disk: "ata_drive (simple_drive pc_disk) (\<lambda>d. d) pc_disk 100" "boot_sector_ok (boot_sector pc_disk)"
  "parse_BPB (boot_sector pc_disk) = small_BPB"
proof -
  show "ata_drive (simple_drive pc_disk) (\<lambda>d. d) pc_disk 100" by (rule simple_drive) (simp_all add: pc_disk_def)
  show b: "parse_BPB (boot_sector pc_disk) = small_BPB" by (simp add: pc_boot_sector parse_BPB_def small_BPB_def)
  have "boot_sector pc_disk ! 510 = 0x55" "boot_sector pc_disk ! 511 = 0xAA" by (simp_all add: pc_boot_sector nth_append)
  then show "boot_sector_ok (boot_sector pc_disk)"
    by (simp add: boot_sector_ok_def b data_start_def GetRootDirectoryStartSector_def small_BPB_def)
qed

text \<open>
  Property C34. After \<open>RetrieveMemoryInfo\<close> the allocator holds exactly the whole 2 MB pages of the usable regions above the
  kernel, each once; the total is the sum of the usable lengths, and memory outside these pages and the
  screen is as before.
\<close>

theorem RetrieveMemoryInfo_frees_usable_memory:
  fixes s :: "'z kmem_scheme"
  assumes "boot_memory s es" "usable_pages (l_kernel_end s) es \<noteq> {}"
  shows "\<exists>t ps. RetrieveMemoryInfo s = ret t \<and> free_pages t ps \<and> set ps = usable_pages (l_kernel_end s) es \<and> memory_ok t
     \<and> s_free_memory_end_address t = hd ps + PAGE_SIZE \<and> GetTotalMem t = sum_list (map snd (usable es))
     \<and> (\<forall>x. x \<notin> screen_bytes \<longrightarrow> (\<forall>p\<in>set ps. x \<notin> page_span p) \<longrightarrow> mem t x = mem s x)"
  using RetrieveMemoryInfo_ok [OF assms] by (auto simp: GetTotalMem_def)

theorem RetrieveMemoryInfo_frees_usable_memory_witness:
  "\<exists>(t :: ata io_kernel) ps. RetrieveMemoryInfo pc = ret t \<and> free_pages t ps \<and> 12 \<le> card (set ps) \<and> GetTotalMem t = 0x3F9FC00"
proof -
  have "usable_pages (l_kernel_end pc) pc_map \<noteq> {}" using pc_boot(4) by auto
  from RetrieveMemoryInfo_frees_usable_memory [OF pc_boot(1) this] obtain t :: "ata io_kernel" and ps where
    "RetrieveMemoryInfo pc = ret t" "free_pages t ps" "set ps = usable_pages (l_kernel_end pc) pc_map"
    "GetTotalMem t = sum_list (map snd (usable pc_map))" by blast
  then show ?thesis using pc_boot(4) by (auto simp: usable_def pc_map_def)
qed

theorem KMain_boots_witness:
  "\<exists>(t :: ata io_kernel) T u ps. KMain pc_vector 0x200100 (simple_drive pc_disk) pc = ret (InitIDT pc_vector 0x200100, t)
     \<and> reachable (simple_drive pc_disk) (t, \<lambda>_. None) \<and> s_BIOS_parameter_block t = small_BPB
     \<and> mmu (mem t) (PHY_TO_VIR (cr3 t)) 0x400000 = None \<and> mmu (mem t) (PHY_TO_VIR (cr3 t)) 0xFFFF800000000000 = Some (0, 2)
     \<and> owns_memory t 1 T u ps"
proof -
  have w: "a_words (dev pc) = []" by (simp add: pc_simps idle_drive_def)
  have "0 < (100 :: nat)" by simp
  from KMain_boots [OF pc_boot(1,3,4,2) pc_disk(1) w this pc_disk(2), of pc_vector "0x200100"] obtain t :: "ata io_kernel" and T u ps where
    t: "KMain pc_vector 0x200100 (simple_drive pc_disk) pc = ret (InitIDT pc_vector 0x200100, t)" "reachable (simple_drive pc_disk) (t, \<lambda>_. None)"
    "s_BIOS_parameter_block t = small_BPB" "owns_memory t 1 T u ps"
    "\<forall>v. mmu (mem t) (PHY_TO_VIR (cr3 t)) v = (if KERNEL_VIRTUAL_ADDRESS_BASE \<le> v \<and> v < PAGE_ALIGN_UP (s_free_memory_end_address t)
       then Some (VIR_TO_PHY v, 2) else None)"
    "\<forall>x. KERNEL_VIRTUAL_ADDRESS_BASE \<le> x \<and> x < l_kernel_end pc \<or> (\<exists>p\<in>usable_pages (l_kernel_end pc) pc_map. x \<in> page_span p) \<or> mem t x \<noteq> mem pc x
       \<longrightarrow> mmu (mem t) (PHY_TO_VIR (cr3 t)) x = Some (VIR_TO_PHY x, 2)" unfolding pc_disk(3) by blast
  have "mmu (mem t) (PHY_TO_VIR (cr3 t)) 0x400000 = None" using t(5) by (simp add: KERNEL_VIRTUAL_ADDRESS_BASE_def)
  moreover have "mmu (mem t) (PHY_TO_VIR (cr3 t)) 0xFFFF800000000000 = Some (0, 2)"
    using t(6) [rule_format, of "0xFFFF800000000000"] by (simp add: KERNEL_VIRTUAL_ADDRESS_BASE_def pc_simps VIR_TO_PHY_def)
  ultimately show ?thesis using t(1-4) by blast
qed

end
