(* ===== verification/User_Calls.thy ===== *)
theory User_Calls
  imports System_Interface Kernel_Messages
begin

text \<open>
  The way of a system call from a user program to the kernel and back: the stubs of
  \<open>usr/runtime/syscall.asm\<close>, which put the arguments on the user stack, the entry code at \<open>Syscall\<close> and
  \<open>Trap\<close> of \<open>kernel/trap.asm\<close>, the handler, and \<open>TrapReturn\<close>. The wrappers of \<open>usr/runtime/unistd.c\<close>
  and \<open>stat.c\<close> are in front of it.

  The call and the return of a stub itself, and the registers the handler leaves changed before
  \<open>TrapReturn\<close> loads all of them again, are not modelled.
\<close>

section \<open>Memory in user mode\<close>

text \<open>A place a user program may read and write: mapped for user mode and writable.\<close>

definition user_place :: "'z kmem_scheme \<Rightarrow> u64 \<Rightarrow> u64 option" where
  "user_place s v =
     (case mmu (mem s) (PHY_TO_VIR (cr3 s)) v of
        None \<Rightarrow> None
      | Some (p, attr) \<Rightarrow> if attr = 6 then Some (PHY_TO_VIR p) else None)"

definition user_load :: "u64 \<Rightarrow> 'z kmem_scheme \<Rightarrow> u8 kres" where
  "user_load v s = (case user_place s v of None \<Rightarrow> fails Page_fault | Some a \<Rightarrow> ret (mem s a))"

primrec user_store :: "u8 list \<Rightarrow> u64 \<Rightarrow> 'z kmem_scheme \<Rightarrow> 'z kmem_scheme kres" where
  "user_store [] v s = ret s"
| "user_store (b # bs) v s =
     (case user_place s v of
        None \<Rightarrow> fails Page_fault
      | Some a \<Rightarrow> user_store bs (v + 1) (s\<lparr>mem := (mem s)(a := b)\<rparr>))"

lemma user_place_page:
  assumes "user_space s T u ps" "i < 2 ^ 21"
  shows "user_place s (USER_VIRTUAL_ADDRESS_BASE + of_nat i) = Some (u + of_nat i)"
proof -
  have vm: "vm_tree (mem s) (l_kernel_end s) (PHY_TO_VIR (cr3 s)) T" "tree_ok T"
    using assms(1) spaceD(1) by (auto simp: user_space_def)
  have "mmu (mem s) (PHY_TO_VIR (cr3 s)) (USER_VIRTUAL_ADDRESS_BASE + of_nat i) = Some (VIR_TO_PHY u + of_nat i, 6)"
    using assms mmu_walk [OF vm] by (simp add: user_space_def)
  moreover have "PHY_TO_VIR (VIR_TO_PHY u + of_nat i) = u + of_nat i" by (simp add: PHY_TO_VIR_def VIR_TO_PHY_def)
  ultimately show ?thesis by (simp add: user_place_def)
qed

lemma user_store_page:
  "user_space s T u ps \<Longrightarrow> i + length bs \<le> 2 ^ 21 \<Longrightarrow>
   user_store bs (USER_VIRTUAL_ADDRESS_BASE + of_nat i) s = ret (s\<lparr>mem := write_bytes (mem s) (u + of_nat i) bs\<rparr>)"
proof (induction bs arbitrary: i s)
  case Nil
  then show ?case by simp
next
  case (Cons b bs)
  then have i: "i < 2 ^ 21" by simp
  note p = user_place_page [OF Cons.prems(1) i] poke8_user(2) [OF Cons.prems(1) i, of b]
  from Cons.IH [OF p(2), of "Suc i"] Cons.prems(2) show ?case unfolding user_store.simps p(1) option.case Suc_offset
    by (simp add: fun_upd_def ac_simps)
qed

section \<open>The stubs\<close>

text \<open>A call of \<open>syscall0\<close> to \<open>syscall5\<close>: the calling convention puts the number in \<open>rdi\<close>, the rest behind it.\<close>

definition arg_regs :: "reg list" where
  "arg_regs = [RSI, RDX, RCX, R8, R9]"

definition pass_arguments :: "u64 \<Rightarrow> u64 list \<Rightarrow> 'z kernel_scheme \<Rightarrow> 'z kernel_scheme" where
  "pass_arguments number ps s =
     s\<lparr>regs := fold (\<lambda>(r, p) f. f(r := p)) (zip (RDI # arg_regs) (number # ps)) (regs s)\<rparr>"

text \<open>The stub for \<open>n\<close> arguments, up to \<open>int 0x80\<close>.\<close>

definition syscall_stub :: "nat \<Rightarrow> 'z kernel_scheme \<Rightarrow> 'z kernel_scheme kres" where
  "syscall_stub n s =
     (let r = regs s; sp = r RSP - of_nat (8 * n) in
      andthen (user_store (concat (map (\<lambda>q. le_bytes 8 (unat (r q))) (take n arg_regs))) sp
                 (s\<lparr>regs := r(RSP := sp, RAX := r RDI)\<rparr>)) (\<lambda>s1.
      ret (s1\<lparr>regs := (regs s1)(RDI := of_nat n, RSI := if n = 0 then r RSI else sp)\<rparr>)))"

section \<open>Into the kernel\<close>

text \<open>
  An interrupt in user mode: the processor takes the kernel stack from the task state segment and pushes
  five registers; \<open>Syscall\<close> pushes a zero and the number of the trap, \<open>Trap\<close> the general registers.
\<close>

definition TrapEntry :: "u64 \<Rightarrow> 'z kernel_scheme \<Rightarrow> 'z kernel_scheme" where
  "TrapEntry trapno s =
     (let r = regs s;
          s1 = s\<lparr>regs := r(RSP := tss_rsp0 s, CS := ucast KERNEL_CODE_SEGMENT_SELECTOR, SS := 0, RFLAGS := r RFLAGS AND NOT 0x200)\<rparr>
      in fold push ([r SS, r RSP, r RFLAGS, r CS, r RIP, 0, trapno] @ map r (rev trap_regs)) s1)"

text \<open>
  The whole way. A call that comes back restores the registers from the frame; \<open>int\<close> is the type of the
  result in C.
\<close>

definition leave_kernel :: "u64 \<Rightarrow> nat \<Rightarrow> unit outcome \<times> 'z kernel_scheme \<Rightarrow> int outcome \<times> 'z kernel_scheme" where
  "leave_kernel tf n = (\<lambda>(r, s).
     case r of
       Done _ \<Rightarrow>
         (let s1 = TrapReturn (s\<lparr>regs := (regs s)(RSP := tf)\<rparr>)
          in (Done (int32 (regs s1 RAX)), s1\<lparr>regs := (regs s1)(RSP := regs s1 RSP + of_nat (8 * n))\<rparr>))
     | Exited \<Rightarrow> (Exited, s)
     | Blocked c \<Rightarrow> (Blocked c, s))"

definition system_call :: "'d ports \<Rightarrow> u64 \<Rightarrow> u64 list \<Rightarrow> ('d, 'z) io_kernel_scheme \<Rightarrow> (int outcome \<times> ('d, 'z) io_kernel_scheme) kres" where
  "system_call io number ps s =
     (let tf = tss_rsp0 s - sizeof_TrapFrame; n = length ps in
      andthen (syscall_stub n (pass_arguments number ps s)) (\<lambda>s1.
      andthen (InterruptHandler io 0 tf (TrapEntry (of_nat SYSTEM_CALL_INTERRUPT_NUMBER) s1)) (\<lambda>c.
      ret (leave_kernel tf n c))))"

text \<open>A user program sees only the calls that come back to it.\<close>

type_synonym ('d, 'z) calling = "u64 \<Rightarrow> u64 list \<Rightarrow> ('d, 'z) io_kernel_scheme \<Rightarrow> (int \<times> ('d, 'z) io_kernel_scheme) kres"

definition kernel_call :: "'d ports \<Rightarrow> ('d, 'z) calling" where
  "kernel_call io number ps s =
     andthen (system_call io number ps s) (\<lambda>(r, t). case r of Done v \<Rightarrow> ret (v, t) | _ \<Rightarrow> diverges)"

section \<open>The frame\<close>

lemma pushed_frame:
  assumes "length vs = 22"
  shows "k < 22 \<Longrightarrow> load64 (mem (fold push vs s)) (regs s RSP - 176 + of_nat (176 - 8 * Suc k)) = vs ! k"
    "x \<notin> span (regs s RSP - 176) 176 \<Longrightarrow> mem (fold push vs s) x = mem s x"
proof -
  assume k: "k < 22"
  then have at: "regs s RSP - 176 + of_nat (176 - 8 * Suc k) = regs s RSP - 8 * of_nat (Suc k)" by (simp add: of_nat_diff)
  show "load64 (mem (fold push vs s)) (regs s RSP - 176 + of_nat (176 - 8 * Suc k)) = vs ! k"
    unfolding at by (rule fold_push_load) (use k assms in simp_all)
next
  show "x \<notin> span (regs s RSP - 176) 176 \<Longrightarrow> mem (fold push vs s) x = mem s x"
    using fold_push_mem [of vs x s] assms by simp
qed

lemma frame_of_entry:
  assumes tf: "tf = tss_rsp0 s - sizeof_TrapFrame"
  shows "frame_reg (mem (TrapEntry n s)) tf r = regs s r" "load64 (mem (TrapEntry n s)) (tf + tf_trapno) = n"
    "x \<notin> span tf 176 \<Longrightarrow> mem (TrapEntry n s) x = mem s x"
proof -
  define vs where "vs = [regs s SS, regs s RSP, regs s RFLAGS, regs s CS, regs s RIP, 0, n] @ map (regs s) (rev trap_regs)"
  define s1 where "s1 = s\<lparr>regs := (regs s)(RSP := tss_rsp0 s, CS := ucast KERNEL_CODE_SEGMENT_SELECTOR, SS := 0,
    RFLAGS := regs s RFLAGS AND NOT 0x200)\<rparr>"
  have e: "TrapEntry n s = fold push vs s1" unfolding TrapEntry_def Let_def vs_def s1_def by (rule refl)
  have len: "length vs = 22" by (simp add: vs_def trap_regs_def)
  have sp: "regs s1 RSP - 176 = tf" "mem s1 = mem s" by (simp_all add: s1_def tf sizeof_TrapFrame_def)
  note at = pushed_frame [OF len, of _ s1, unfolded sp]
  have vs: "vs ! k = [regs s SS, regs s RSP, regs s RFLAGS, regs s CS, regs s RIP, 0, n, regs s RAX, regs s RBX, regs s RCX, regs s RDX,
    regs s RSI, regs s RDI, regs s RBP, regs s R8, regs s R9, regs s R10, regs s R11, regs s R12, regs s R13, regs s R14, regs s R15] ! k" for k
    by (simp add: vs_def trap_regs_def)
  have "frame_offset r = 176 - 8 * Suc k \<Longrightarrow> k < 22 \<Longrightarrow> vs ! k = regs s r \<Longrightarrow> frame_reg (mem (TrapEntry n s)) tf r = regs s r" for k
    using at(1) [of k] by (simp add: frame_reg_def e)
  from this [of 0] this [of 1] this [of 2] this [of 3] this [of 4] this [of 7] this [of 8] this [of 9] this [of 10] this [of 11] this [of 12]
    this [of 13] this [of 14] this [of 15] this [of 16] this [of 17] this [of 18] this [of 19] this [of 20] this [of 21]
  show "frame_reg (mem (TrapEntry n s)) tf r = regs s r" unfolding vs by (cases r) (simp_all add: frame_offset_def)
  show "load64 (mem (TrapEntry n s)) (tf + tf_trapno) = n" using at(1) [of 6] vs [of 6] by (simp add: e tf_trapno_def)
  show "x \<notin> span tf 176 \<Longrightarrow> mem (TrapEntry n s) x = mem s x" using at(2) by (simp add: e)
qed

section \<open>A process that can call\<close>

text \<open>
  Its page map is loaded, the stack pointer is in the user page with room for five arguments below it, and
  its kernel stack \<open>k\<close> is a page of its own.
\<close>

definition user_ready :: "tree \<Rightarrow> u64 \<Rightarrow> u64 list \<Rightarrow> u64 \<Rightarrow> nat \<Rightarrow> 'z kernel_scheme \<Rightarrow> bool" where
  "user_ready T u ps k sp s \<longleftrightarrow>
     user_space s T u ps \<and> regs s RSP = USER_VIRTUAL_ADDRESS_BASE + of_nat sp \<and> 40 \<le> sp \<and> sp \<le> 2 ^ 21
     \<and> tss_rsp0 s = k + STACK_SIZE \<and> valid_page (l_kernel_end s) k \<and> k \<noteq> u \<and> k \<notin> set ps \<and> k \<notin> tables (PHY_TO_VIR (cr3 s)) T
     \<and> s_syscall_table s = registered \<and> screen_ok s \<and> PHY_TO_VIR 0x200000 \<le> l_kernel_end s"

text \<open>The bytes of the user page from the stack pointer on: everything the program has there.\<close>

definition user_kept :: "u64 \<Rightarrow> nat \<Rightarrow> 'z kmem_scheme \<Rightarrow> 'z kmem_scheme \<Rightarrow> bool" where
  "user_kept u sp s t \<longleftrightarrow> (\<forall>j. sp \<le> j \<longrightarrow> j < 2 ^ 21 \<longrightarrow> mem t (u + of_nat j) = mem s (u + of_nat j))"

definition argument_bytes :: "u64 list \<Rightarrow> u8 list" where
  "argument_bytes ps = concat (map (\<lambda>p. le_bytes 8 (unat p)) ps)"

lemma length_argument_bytes [simp]: "length (argument_bytes ps) = 8 * length ps"
  by (induction ps) (simp_all add: argument_bytes_def)

lemma argument_bytes_nth: "i < length ps \<Longrightarrow> take 8 (drop (8 * i) (argument_bytes ps)) = le_bytes 8 (unat (ps ! i))"
proof (induction ps arbitrary: i)
  case (Cons p ps)
  then show ?case by (cases i) (simp_all add: argument_bytes_def del: le_bytes.simps)
qed simp

lemma five_arguments:
  assumes "length ps \<le> 5"
  obtains "ps = []" | p1 where "ps = [p1]" | p1 p2 where "ps = [p1, p2]" | p1 p2 p3 where "ps = [p1, p2, p3]"
    | p1 p2 p3 p4 where "ps = [p1, p2, p3, p4]" | p1 p2 p3 p4 p5 where "ps = [p1, p2, p3, p4, p5]"
proof -
  have "length ps = 0 \<or> length ps = 1 \<or> length ps = 2 \<or> length ps = 3 \<or> length ps = 4 \<or> length ps = 5" using assms by linarith
  then show thesis using that by (auto simp: length_Suc_conv numeral_eq_Suc)
qed

lemma passed:
  assumes "length ps \<le> 5"
  shows "map (regs (pass_arguments n ps s)) (take (length ps) arg_regs) = ps" "regs (pass_arguments n ps s) RDI = n"
    "r \<notin> set (RDI # arg_regs) \<Longrightarrow> regs (pass_arguments n ps s) r = regs s r" "mem (pass_arguments n ps s) = mem s"
  using assms by (cases rule: five_arguments; simp add: pass_arguments_def arg_regs_def)+

lemma stub_ok:
  fixes s :: "'z kernel_scheme"
  assumes r: "user_ready T u ps k sp s" and n: "length as \<le> 5"
  shows "\<exists>R. syscall_stub (length as) (pass_arguments num as s)
      = ret (s\<lparr>mem := write_bytes (mem s) (u + of_nat (sp - 8 * length as)) (argument_bytes as), regs := R\<rparr>)
     \<and> R RAX = num \<and> R RDI = of_nat (length as) \<and> (as \<noteq> [] \<longrightarrow> R RSI = USER_VIRTUAL_ADDRESS_BASE + of_nat (sp - 8 * length as))
     \<and> R RSP = USER_VIRTUAL_ADDRESS_BASE + of_nat (sp - 8 * length as) \<and> (\<forall>r. r \<notin> set (RSP # RAX # RDI # arg_regs) \<longrightarrow> R r = regs s r)"
proof -
  let ?n = "length as" let ?s0 = "pass_arguments num as s" let ?r = "regs ?s0" let ?at = "USER_VIRTUAL_ADDRESS_BASE + of_nat (sp - 8 * ?n)"
  let ?s1 = "?s0\<lparr>regs := ?r(RSP := ?r RSP - of_nat (8 * ?n), RAX := ?r RDI)\<rparr>"
  let ?R = "?r(RSP := ?at, RAX := num, RDI := of_nat ?n, RSI := if ?n = 0 then ?r RSI else ?at)"
  have sp: "40 \<le> sp" "sp \<le> 2 ^ 21" "regs s RSP = USER_VIRTUAL_ADDRESS_BASE + of_nat sp" "user_space s T u ps"
    using r by (simp_all add: user_ready_def)
  have "of_nat (sp - 8 * ?n) = of_nat sp - (of_nat (8 * ?n) :: u64)" using sp(1) n by (intro of_nat_diff) simp
  then have at: "?r RSP - of_nat (8 * ?n) = ?at" using sp(3) passed(3) [OF n, where r = RSP and n = num and s = s] by (simp add: arg_regs_def)
  have "user_space ?s1 T u ps" by (rule user_space_cong [OF sp(4)]) (simp_all add: pass_arguments_def)
  moreover have "concat (map (\<lambda>q. le_bytes 8 (unat (?r q))) (take ?n arg_regs)) = argument_bytes as"
    using arg_cong [OF passed(1) [OF n, of num s], of argument_bytes] by (simp add: argument_bytes_def comp_def)
  ultimately have "syscall_stub ?n ?s0 = ret (s\<lparr>mem := write_bytes (mem s) (u + of_nat (sp - 8 * ?n)) (argument_bytes as), regs := ?R\<rparr>)"
    using user_store_page [of ?s1 T u ps "sp - 8 * ?n" "argument_bytes as"] sp(2) passed(2,4) [OF n, where n = num and s = s] n sp(1)
    unfolding syscall_stub_def Let_def at by (simp add: pass_arguments_def)
  moreover have "r \<notin> set (RSP # RAX # RDI # arg_regs) \<Longrightarrow> ?R r = regs s r" for r
    using passed(3) [OF n, where r = r and n = num and s = s] by (auto simp: arg_regs_def)
  ultimately show ?thesis by (intro exI [of _ ?R]) auto
qed

text \<open>The frame is in the page of the kernel stack, and what is there does not touch the user's memory.\<close>

lemma frame_in_stack:
  "span (k + 0x1FFF50) 176 \<subseteq> page_span k"
  using span_subset [of "0x1FFF50" 176 "2 ^ 21" k] by (simp add: page_span_def)

lemma stack_apart:
  assumes "user_ready T u ps k sp s"
  shows "i < 2 ^ 21 \<Longrightarrow> u + of_nat i \<notin> page_span k" "x \<in> screen_bytes \<Longrightarrow> x \<notin> page_span k" "x \<in> screen_bytes \<Longrightarrow> x \<notin> page_span u"
    "tss_rsp0 s - sizeof_TrapFrame = k + 0x1FFF50"
proof -
  have r: "user_space s T u ps" "valid_page (l_kernel_end s) k" "k \<noteq> u" "tss_rsp0 s = k + STACK_SIZE" "PHY_TO_VIR 0x200000 \<le> l_kernel_end s"
    using assms by (simp_all add: user_ready_def)
  have u: "valid_page (l_kernel_end s) u" using r(1) by (simp add: user_space_def)
  show "u + of_nat i \<notin> page_span k" if "i < 2 ^ 21"
    using in_page [OF that, of u] valid_pages_disjoint [OF u r(2)] r(3) by blast
  show "x \<notin> page_span k" "x \<notin> page_span u" if "x \<in> screen_bytes"
    using low_not_page [OF r(2,5)] low_not_page [OF u r(5)] screen_low that by blast+
  show "tss_rsp0 s - sizeof_TrapFrame = k + 0x1FFF50" by (simp add: r(4) STACK_SIZE_def PAGE_SIZE_def sizeof_TrapFrame_def)
qed

lemma fold_push_shape: "\<exists>M R. fold push vs s = s\<lparr>mem := M, regs := R\<rparr>"
proof (induction vs arbitrary: s)
  case Nil
  show ?case by (intro exI [of _ "mem s"] exI [of _ "regs s"]) simp
next
  case (Cons v vs)
  then show ?case using Cons.IH [of "push v s"] by (auto simp: push_def)
qed

lemma TrapEntry_shape: "TrapEntry n s = s\<lparr>mem := mem (TrapEntry n s), regs := regs (TrapEntry n s)\<rparr>"
proof -
  have "\<exists>M R. TrapEntry n s = s\<lparr>mem := M, regs := R\<rparr>"
    unfolding TrapEntry_def Let_def
    by (rule exE [OF fold_push_shape], erule exE, erule ssubst) (rule exI, rule exI, simp)
  then show ?thesis by auto
qed

lemma user_space_stack:
  assumes r: "user_ready T u ps k sp s" and t: "user_space t T u ps" "l_kernel_end t = l_kernel_end s" "cr3 t = cr3 s"
    and m: "\<And>x. x \<notin> page_span k \<Longrightarrow> m x = mem t x"
  shows "user_space (t\<lparr>mem := m\<rparr>) T u ps"
  by (rule user_space_touches [OF t(1) touches_mem_only [of "{k}"]]) (use r m t in \<open>auto simp: user_ready_def\<close>)

lemma arg_at_user:
  assumes us: "user_space s T u ps" and i: "o' + 8 * i + 8 \<le> 2 ^ 21"
    and v: "read_bytes (mem s) (u + of_nat (o' + 8 * i)) 8 = le_bytes 8 (unat v)"
  shows "arg_at (USER_VIRTUAL_ADDRESS_BASE + of_nat o') i s = ret v"
proof -
  have at: "USER_VIRTUAL_ADDRESS_BASE + of_nat o' + of_nat (8 * i) = USER_VIRTUAL_ADDRESS_BASE + of_nat (o' + 8 * i)"
    by (simp add: add.assoc)
  have "of_nat (le_nat (le_bytes 8 (unat v))) = v" using unat_lt2p [of v] by simp
  then show ?thesis
    unfolding arg_at_def peek64_def at peek_bytes_user [OF us i] v by simp
qed

lemma enters:
  fixes s :: "('d, 'z) io_kernel_scheme"
  assumes r: "user_ready T u ps k sp s" and n: "length as \<le> 5" and m: "m < 12"
  defines "tf \<equiv> k + 0x1FFF50" and "at \<equiv> USER_VIRTUAL_ADDRESS_BASE + of_nat (sp - 8 * length as)"
  shows "\<exists>M R arg. let s2 = s\<lparr>mem := M, regs := R\<rparr> in
     system_call io (of_nat m) as s = andthen (call_function io (snd (system_calls ! m)) arg s2) (\<lambda>c.
       andthen (store_result tf c) (\<lambda>d. ret (leave_kernel tf (length as) d)))
     \<and> user_space s2 T u ps \<and> user_kept u sp s s2 \<and> (\<forall>x\<in>screen_bytes. M x = mem s x)
     \<and> (\<forall>i<length as. arg_at arg i s2 = ret (as ! i)) \<and> frame_reg M tf RSP = at
     \<and> (\<forall>r. r \<notin> set (RSP # RAX # RDI # arg_regs) \<longrightarrow> frame_reg M tf r = regs s r)"
proof -
  let ?o = "sp - 8 * length as"
  have us: "user_space s T u ps" "40 \<le> sp" "sp \<le> 2 ^ 21" "s_syscall_table s = registered" using r by (simp_all add: user_ready_def)
  note apart = stack_apart [OF r]
  obtain Q where Q: "syscall_stub (length as) (pass_arguments (of_nat m) as s) = ret (s\<lparr>mem := write_bytes (mem s) (u + of_nat ?o) (argument_bytes as), regs := Q\<rparr>)"
    "Q RAX = of_nat m" "Q RDI = of_nat (length as)" "as \<noteq> [] \<longrightarrow> Q RSI = at" "Q RSP = at"
    "\<forall>r. r \<notin> set (RSP # RAX # RDI # arg_regs) \<longrightarrow> Q r = regs s r" using stub_ok [OF r n, of "of_nat m"] unfolding at_def by blast
  let ?s1 = "s\<lparr>mem := write_bytes (mem s) (u + of_nat ?o) (argument_bytes as), regs := Q\<rparr>"
  let ?s2 = "TrapEntry 0x80 ?s1" let ?M = "mem ?s2"
  have tf: "tf = tss_rsp0 ?s1 - sizeof_TrapFrame" using apart(4) by (simp add: tf_def)
  note fr = frame_of_entry [OF tf, where n = "0x80"]
  have out: "?M x = mem ?s1 x" if "x \<notin> page_span k" for x
    by (rule fr(3)) (use that frame_in_stack [of k] in \<open>auto simp: tf_def\<close>)
  have shape: "?s2 = s\<lparr>mem := ?M, regs := regs ?s2\<rparr>" by (subst TrapEntry_shape) simp
  have room: "?o + 8 * length as \<le> 2 ^ 21" "8 * length as \<le> sp" using us(2,3) n by simp_all
  have w: "write_bytes (mem s) (u + of_nat ?o) (argument_bytes as) x = mem s x" if "x \<notin> span (u + of_nat ?o) (8 * length as)" for x
    using that room(1) by (simp add: write_bytes_apply)
  have sub: "span (u + of_nat ?o) (8 * length as) \<subseteq> page_span u"
    using span_subset [of ?o "8 * length as" "2 ^ 21" u] room(1) by (simp add: page_span_def)
  have us1: "user_space ?s1 T u ps"
    by (rule user_space_cong [OF user_space_write [OF us(1), of "mem ?s1"]]) (use w sub in auto)
  have us2: "user_space (s\<lparr>mem := ?M, regs := regs ?s2\<rparr>) T u ps"
    by (rule user_space_cong [OF user_space_stack [OF r us1 _ _ out]]) simp_all
  have args: "arg_at at i (s\<lparr>mem := ?M, regs := regs ?s2\<rparr>) = ret (as ! i)" if i: "i < length as" for i
  proof -
    have all: "read_bytes ?M (u + of_nat ?o) (8 * length as) = argument_bytes as"
    proof -
      have "read_bytes ?M (u + of_nat ?o) (8 * length as) = read_bytes (mem ?s1) (u + of_nat ?o) (8 * length as)"
      proof (rule read_bytes_cong)
        fix x assume "x \<in> span (u + of_nat ?o) (8 * length as)"
        then have "x \<in> page_span u" using sub by blast
        moreover have "page_span u \<inter> page_span k = {}"
          using r by (intro valid_pages_disjoint [of "l_kernel_end s"]) (auto simp: user_ready_def user_space_def)
        ultimately show "?M x = mem ?s1 x" using out by blast
      qed (use n in simp)
      then show ?thesis using read_write_same [of "argument_bytes as" "mem s" "u + of_nat ?o"] n by simp
    qed
    have "read_bytes ?M (u + of_nat ?o + of_nat (8 * i)) 8 = le_bytes 8 (unat (as ! i))"
      using read_bytes_split [of "8 * i" 8 "8 * length as" ?M "u + of_nat ?o"] i all argument_bytes_nth [OF i] by simp
    then have "read_bytes ?M (u + of_nat (?o + 8 * i)) 8 = le_bytes 8 (unat (as ! i))" by (simp add: add.assoc)
    then show ?thesis unfolding at_def using room(1) i by (intro arg_at_user [OF us2]) simp_all
  qed
  have R: "frame_reg ?M tf q = Q q" for q using fr(1) by simp
  have ld: "load64 ?M (tf + tf_rax) = of_nat m" "load64 ?M (tf + tf_rdi) = of_nat (length as)" "load64 ?M (tf + tf_rsi) = Q RSI"
    using R [of RAX] R [of RDI] R [of RSI] Q(2,3) by (simp_all add: frame_reg_def frame_offset_def tf_rax_def tf_rdi_def tf_rsi_def)
  have num: "sint (of_nat m :: u64) = int m" "sint (of_nat (length as) :: u64) = int (length as)"
    using m n by (simp_all add: signed_of_nat signed_take_bit_int_eq_self)
  have "InterruptHandler io 0 tf ?s2 = SystemCall io tf ?s2"
    using fr(2) by (simp add: InterruptHandler_def Let_def SYSTEM_CALL_INTERRUPT_NUMBER_def)
  also have "\<dots> = andthen (call_function io (snd (system_calls ! m)) (Q RSI) ?s2) (store_result tf)"
  proof -
    have "s_syscall_table ?s2 = registered" using us(4) by (subst shape) simp
    then show ?thesis using ld num m registered_nth [OF m] by (simp add: SystemCall_def Let_def MAXIMUM_SYSTEM_CALLS_def)
  qed
  finally have "system_call io (of_nat m) as s = andthen (andthen (call_function io (snd (system_calls ! m)) (Q RSI) ?s2) (store_result tf))
      (\<lambda>c. ret (leave_kernel tf (length as) c))"
    using Q(1) apart(4) by (simp add: system_call_def Let_def SYSTEM_CALL_INTERRUPT_NUMBER_def tf_def)
  then have call: "system_call io (of_nat m) as s = andthen (call_function io (snd (system_calls ! m)) (Q RSI) ?s2) (\<lambda>c.
      andthen (store_result tf c) (\<lambda>d. ret (leave_kernel tf (length as) d)))"
    by (simp only: andthen_assoc)
  have "user_kept u sp s (s\<lparr>mem := ?M, regs := regs ?s2\<rparr>)"
    unfolding user_kept_def
  proof (intro allI impI)
    fix j assume j: "sp \<le> j" "j < 2 ^ 21"
    then have "span (u + of_nat j) 1 \<inter> span (u + of_nat ?o) (8 * length as) = {}"
      using room by (intro span_offsets_disjoint) simp_all
    moreover have "u + of_nat j \<in> span (u + of_nat j) 1" by (simp add: span_def)
    ultimately have "u + of_nat j \<notin> span (u + of_nat ?o) (8 * length as)" by blast
    then show "mem (s\<lparr>mem := ?M, regs := regs ?s2\<rparr>) (u + of_nat j) = mem s (u + of_nat j)"
      using out [OF apart(1) [OF j(2)]] w by simp
  qed
  moreover have "\<forall>x\<in>screen_bytes. ?M x = mem s x"
  proof
    fix x assume x: "x \<in> screen_bytes"
    then have "x \<notin> span (u + of_nat ?o) (8 * length as)" using apart(3) sub by blast
    then show "?M x = mem s x" using out [OF apart(2) [OF x]] w by simp
  qed
  moreover have "arg_at (Q RSI) i (s\<lparr>mem := ?M, regs := regs ?s2\<rparr>) = ret (as ! i)" if "i < length as" for i
    using args [OF that] Q(4) that by auto
  ultimately show ?thesis
    unfolding shape [symmetric] using call us2 [folded shape] R Q(5,6)
    by (intro exI [of _ ?M] exI [of _ "regs ?s2"] exI [of _ "Q RSI"]) (simp only: Let_def shape [symmetric], simp)
qed


section \<open>Back to the program\<close>

text \<open>What the return needs from a system call: the frame, the kernel stack in use and the system call table are as they were.\<close>

definition kernel_kept :: "u64 \<Rightarrow> 'z kernel_scheme \<Rightarrow> 'z kernel_scheme \<Rightarrow> bool" where
  "kernel_kept k s t \<longleftrightarrow>
     (\<forall>x\<in>page_span k. mem t x = mem s x) \<and> tss_rsp0 t = tss_rsp0 s \<and> s_syscall_table t = s_syscall_table s
     \<and> l_kernel_end t = l_kernel_end s \<and> cr3 t = cr3 s \<and> screen_ok t"

lemma kernel_kept_refl: "screen_ok s \<Longrightarrow> kernel_kept k s s"
  by (simp add: kernel_kept_def)

lemma fold_pop_shape: "\<exists>R. fold pop rs s = s\<lparr>regs := R\<rparr>"
proof (induction rs arbitrary: s)
  case Nil
  show ?case by (intro exI [of _ "regs s"]) simp
next
  case (Cons r rs)
  then show ?case using Cons.IH [of "pop r s"] by (auto simp: pop_def)
qed

lemma TrapReturn_shape: "TrapReturn s = s\<lparr>regs := regs (TrapReturn s)\<rparr>"
proof -
  obtain R where "fold pop trap_regs s = s\<lparr>regs := R\<rparr>" using fold_pop_shape by blast
  then show ?thesis by (simp add: TrapReturn_def iretq_def Let_def)
qed

lemma frame_offset_neq: "r \<noteq> q \<Longrightarrow> frame_offset r + 8 \<le> frame_offset q \<or> frame_offset q + 8 \<le> frame_offset r"
  by (cases r; cases q) (simp_all add: frame_offset_def)

lemma frame_offset_less: "frame_offset r + 8 \<le> 176"
  by (cases r) (simp_all add: frame_offset_def)

lemma frame_reg_store:
  "frame_reg (store64 m (tf + tf_rax) v) tf r = (if r = RAX then v else frame_reg m tf r)"
proof -
  have "span (tf + of_nat (frame_offset r)) 8 \<inter> span (tf + of_nat 112) 8 = {}" if "r \<noteq> RAX"
    using frame_offset_neq [OF that] frame_offset_less [of r]
    by (intro span_offsets_disjoint) (auto simp: frame_offset_def)
  then show ?thesis
    using load64_store64_other [of "tf + of_nat (frame_offset r)" "tf + of_nat 112" m v]
    by (auto simp: frame_reg_def frame_offset_def tf_rax_def Int_commute)
qed

lemma leaves:
  fixes t :: "'z kernel_scheme"
  assumes n: "n \<le> 5" and sp: "8 * n \<le> sp"
    and RSP: "frame_reg (mem t) tf RSP = USER_VIRTUAL_ADDRESS_BASE + of_nat (sp - 8 * n)"
  shows "\<exists>R. andthen (store_result tf (Done v, t)) (\<lambda>d. ret (leave_kernel tf n d))
      = ret (Done (int32 (of_int v)), t\<lparr>mem := store64 (mem t) (tf + tf_rax) (of_int v), regs := R\<rparr>)
    \<and> R RAX = of_int v \<and> R RSP = USER_VIRTUAL_ADDRESS_BASE + of_nat sp \<and> (\<forall>r. r \<notin> {RSP, RAX} \<longrightarrow> R r = frame_reg (mem t) tf r)"
proof -
  let ?m = "store64 (mem t) (tf + tf_rax) (of_int v)"
  let ?t1 = "t\<lparr>mem := ?m, regs := (regs t)(RSP := tf)\<rparr>"
  obtain Q where Q: "TrapReturn ?t1 = t\<lparr>mem := ?m, regs := Q\<rparr>" using TrapReturn_shape [of ?t1] by auto
  have reg: "Q r = (if r = RAX then of_int v else frame_reg (mem t) tf r)" for r
    using TrapReturn_frame [of ?t1 r] by (simp add: frame_reg_store Q)
  let ?R = "Q(RSP := Q RSP + of_nat (8 * n))"
  have "andthen (store_result tf (Done v, t)) (\<lambda>d. ret (leave_kernel tf n d)) = ret (Done (int32 (of_int v)), t\<lparr>mem := ?m, regs := ?R\<rparr>)"
    using reg [of RAX] Q by (simp add: store_result_def leave_kernel_def put64_def Let_def)
  moreover have "USER_VIRTUAL_ADDRESS_BASE + of_nat (sp - 8 * n) + of_nat (8 * n) = USER_VIRTUAL_ADDRESS_BASE + of_nat sp"
    using sp by (simp add: of_nat_diff)
  ultimately show ?thesis using reg RSP by (intro exI [of _ ?R]) simp
qed


lemma user_ready_back:
  fixes t :: "'z kernel_scheme"
  assumes r: "user_ready T u ps k sp s" and t: "user_space t T u ps'" "k \<notin> set ps'" "kernel_kept k (s\<lparr>mem := M, regs := Q\<rparr>) t"
    and m: "\<And>x. x \<notin> page_span k \<Longrightarrow> m x = mem t x" and R: "R RSP = USER_VIRTUAL_ADDRESS_BASE + of_nat sp"
  shows "user_ready T u ps' k sp (t\<lparr>mem := m, regs := R\<rparr>)"
proof -
  have k: "valid_page (l_kernel_end s) k" "k \<noteq> u" "k \<notin> tables (PHY_TO_VIR (cr3 s)) T" using r by (simp_all add: user_ready_def)
  have "user_space (t\<lparr>mem := m\<rparr>) T u ps'"
    by (rule user_space_touches [OF t(1) touches_mem_only [of "{k}"]]) (use k t(2,3) m in \<open>auto simp: kernel_kept_def\<close>)
  then have "user_space (t\<lparr>mem := m, regs := R\<rparr>) T u ps'" by (rule user_space_cong) simp_all
  then show ?thesis using r t(2,3) R by (simp add: user_ready_def kernel_kept_def screen_ok_def)
qed

lemma user_call:
  fixes s :: "('d, 'z) io_kernel_scheme"
  assumes r: "user_ready T u ps k sp s" and n: "length as \<le> 5" and m: "m < 12"
  obtains M Q arg where "user_space (s\<lparr>mem := M, regs := Q\<rparr>) T u ps" "user_kept u sp s (s\<lparr>mem := M, regs := Q\<rparr>)"
    "\<forall>x\<in>screen_bytes. M x = mem s x" "\<forall>i<length as. arg_at arg i (s\<lparr>mem := M, regs := Q\<rparr>) = ret (as ! i)"
    "\<forall>v t ps'. call_function io (snd (system_calls ! m)) arg (s\<lparr>mem := M, regs := Q\<rparr>) = ret (Done v, t) \<longrightarrow>
       user_space t T u ps' \<longrightarrow> k \<notin> set ps' \<longrightarrow> kernel_kept k (s\<lparr>mem := M, regs := Q\<rparr>) t \<longrightarrow>
       (\<exists>m' R. kernel_call io (of_nat m) as s = ret (int32 (of_int v), t\<lparr>mem := m', regs := R\<rparr>)
          \<and> user_ready T u ps' k sp (t\<lparr>mem := m', regs := R\<rparr>) \<and> (\<forall>x. x \<notin> page_span k \<longrightarrow> m' x = mem t x)
          \<and> (\<forall>r. r \<notin> set (RAX # RDI # arg_regs) \<longrightarrow> R r = regs s r))"
proof -
  let ?tf = "k + 0x1FFF50" let ?n = "length as"
  have sp: "8 * ?n \<le> sp" "regs s RSP = USER_VIRTUAL_ADDRESS_BASE + of_nat sp" using r n by (simp_all add: user_ready_def)
  obtain M Q arg where e: "system_call io (of_nat m) as s = andthen (call_function io (snd (system_calls ! m)) arg (s\<lparr>mem := M, regs := Q\<rparr>)) (\<lambda>c.
       andthen (store_result ?tf c) (\<lambda>d. ret (leave_kernel ?tf ?n d)))"
     and s2: "user_space (s\<lparr>mem := M, regs := Q\<rparr>) T u ps" "user_kept u sp s (s\<lparr>mem := M, regs := Q\<rparr>)" "\<forall>x\<in>screen_bytes. M x = mem s x"
       "\<forall>i<?n. arg_at arg i (s\<lparr>mem := M, regs := Q\<rparr>) = ret (as ! i)"
     and f: "frame_reg M ?tf RSP = USER_VIRTUAL_ADDRESS_BASE + of_nat (sp - 8 * ?n)"
       "\<forall>r. r \<notin> set (RSP # RAX # RDI # arg_regs) \<longrightarrow> frame_reg M ?tf r = regs s r"
    using enters [OF r n m, of io] by (auto simp: Let_def)
  show thesis
  proof (rule that [OF s2], intro allI impI)
    fix v t ps'
    assume t: "call_function io (snd (system_calls ! m)) arg (s\<lparr>mem := M, regs := Q\<rparr>) = ret (Done v, t)" "user_space t T u ps'" "k \<notin> set ps'"
      "kernel_kept k (s\<lparr>mem := M, regs := Q\<rparr>) t"
    have same: "frame_reg (mem t) ?tf r = frame_reg M ?tf r" for r
    proof -
      have sub: "span (?tf + of_nat (frame_offset r)) 8 \<subseteq> page_span k"
        using span_subset [of "0x1FFF50 + frame_offset r" 8 "2 ^ 21" k] frame_offset_less [of r] by (simp add: page_span_def add.assoc)
      show ?thesis unfolding frame_reg_def
        by (rule load64_cong) (use t(4) sub in \<open>auto simp: kernel_kept_def\<close>)
    qed
    let ?m = "store64 (mem t) (?tf + tf_rax) (of_int v)"
    obtain R where R: "andthen (store_result ?tf (Done v, t)) (\<lambda>d. ret (leave_kernel ?tf ?n d)) = ret (Done (int32 (of_int v)), t\<lparr>mem := ?m, regs := R\<rparr>)"
      "R RSP = USER_VIRTUAL_ADDRESS_BASE + of_nat sp" "\<forall>r. r \<notin> {RSP, RAX} \<longrightarrow> R r = frame_reg (mem t) ?tf r"
      using leaves [OF n sp(1), of t ?tf v] f(1) same by auto
    have out: "?m x = mem t x" if "x \<notin> page_span k" for x
    proof (rule store64_other)
      show "x \<notin> span (?tf + tf_rax) 8"
        using that span_subset [of "0x1FFF50 + 112" 8 "2 ^ 21" k] by (auto simp: page_span_def tf_rax_def add.assoc)
    qed
    show "\<exists>m' R. kernel_call io (of_nat m) as s = ret (int32 (of_int v), t\<lparr>mem := m', regs := R\<rparr>)
          \<and> user_ready T u ps' k sp (t\<lparr>mem := m', regs := R\<rparr>) \<and> (\<forall>x. x \<notin> page_span k \<longrightarrow> m' x = mem t x)
          \<and> (\<forall>r. r \<notin> set (RAX # RDI # arg_regs) \<longrightarrow> R r = regs s r)"
    proof (intro exI conjI)
      show "kernel_call io (of_nat m) as s = ret (int32 (of_int v), t\<lparr>mem := ?m, regs := R\<rparr>)"
        unfolding kernel_call_def e t(1) andthen_simps R(1) by simp
      show "user_ready T u ps' k sp (t\<lparr>mem := ?m, regs := R\<rparr>)" using out R(2) by (intro user_ready_back [OF r t(2-4)])
      show "\<forall>x. x \<notin> page_span k \<longrightarrow> ?m x = mem t x" using out by blast
      show "\<forall>r. r \<notin> set (RAX # RDI # arg_regs) \<longrightarrow> R r = regs s r"
      proof (intro allI impI)
        fix q assume q: "q \<notin> set (RAX # RDI # arg_regs)"
        show "R q = regs s q"
          using q R(2) sp(2) R(3)[rule_format, of q] f(2)[rule_format, of q] same by (cases "q = RSP") auto
      qed
    qed
  qed
qed


section \<open>The wrappers\<close>

text \<open>\<open>usr/runtime/unistd.c\<close>, \<open>stat.c\<close> and \<open>clrscr\<close> of \<open>stdio.c\<close>; pointers are addresses. \<open>call\<close> is the way of the calls.\<close>

definition write_call :: "('d, 'z) calling \<Rightarrow> int \<Rightarrow> u64 \<Rightarrow> u64 \<Rightarrow> ('d, 'z) io_kernel_scheme \<Rightarrow> (int \<times> ('d, 'z) io_kernel_scheme) kres" where
  "write_call call fd buf count = call 0 [of_int fd, buf, count]"

definition read_call :: "('d, 'z) calling \<Rightarrow> int \<Rightarrow> u64 \<Rightarrow> u64 \<Rightarrow> ('d, 'z) io_kernel_scheme \<Rightarrow> (int \<times> ('d, 'z) io_kernel_scheme) kres" where
  "read_call call fd buf count = call 4 [of_int fd, buf, count]"

definition sleep_call :: "('d, 'z) calling \<Rightarrow> u32 \<Rightarrow> ('d, 'z) io_kernel_scheme \<Rightarrow> (int \<times> ('d, 'z) io_kernel_scheme) kres" where
  "sleep_call call seconds = call 1 [ucast seconds]"

definition exit_call :: "('d, 'z) calling \<Rightarrow> ('d, 'z) io_kernel_scheme \<Rightarrow> (int \<times> ('d, 'z) io_kernel_scheme) kres" where
  "exit_call call = call 2 []"

definition wait_call :: "('d, 'z) calling \<Rightarrow> int \<Rightarrow> ('d, 'z) io_kernel_scheme \<Rightarrow> (int \<times> ('d, 'z) io_kernel_scheme) kres" where
  "wait_call call pid = call 3 [of_int pid]"

definition mem_call :: "('d, 'z) calling \<Rightarrow> ('d, 'z) io_kernel_scheme \<Rightarrow> (int \<times> ('d, 'z) io_kernel_scheme) kres" where
  "mem_call call = call 5 []"

definition open_call :: "('d, 'z) calling \<Rightarrow> u64 \<Rightarrow> ('d, 'z) io_kernel_scheme \<Rightarrow> (int \<times> ('d, 'z) io_kernel_scheme) kres" where
  "open_call call filename = call 6 [filename]"

definition close_call :: "('d, 'z) calling \<Rightarrow> int \<Rightarrow> ('d, 'z) io_kernel_scheme \<Rightarrow> (int \<times> ('d, 'z) io_kernel_scheme) kres" where
  "close_call call fd = call 7 [of_int fd]"

definition fork_call :: "('d, 'z) calling \<Rightarrow> ('d, 'z) io_kernel_scheme \<Rightarrow> (int \<times> ('d, 'z) io_kernel_scheme) kres" where
  "fork_call call = call 8 []"

definition exec_call :: "('d, 'z) calling \<Rightarrow> u64 \<Rightarrow> ('d, 'z) io_kernel_scheme \<Rightarrow> (int \<times> ('d, 'z) io_kernel_scheme) kres" where
  "exec_call call filename = call 9 [filename]"

definition lstat :: "('d, 'z) calling \<Rightarrow> u64 \<Rightarrow> u64 \<Rightarrow> ('d, 'z) io_kernel_scheme \<Rightarrow> (int \<times> ('d, 'z) io_kernel_scheme) kres" where
  "lstat call pathname statbuf = call 10 [pathname, statbuf]"

definition clrscr :: "('d, 'z) calling \<Rightarrow> ('d, 'z) io_kernel_scheme \<Rightarrow> ('d, 'z) io_kernel_scheme kres" where
  "clrscr call s = andthen (call 11 [] s) (\<lambda>(_, s1). ret s1)"

text \<open>\<open>Start\<close> of \<open>usr/runtime/start.asm\<close>; behind the call of \<open>exit\<close> it spins for ever.\<close>

definition Start :: "('d, 'z) calling \<Rightarrow> (('d, 'z) io_kernel_scheme \<Rightarrow> ('d, 'z) io_kernel_scheme kres) \<Rightarrow> ('d, 'z) io_kernel_scheme
    \<Rightarrow> unit kres" where
  "Start call main s = andthen (main s) (\<lambda>s1. andthen (exit_call call s1) (\<lambda>_. diverges))"

text \<open>
  Property C5. A system call of a user program delivers its arguments and gives the program its registers back: up to five
  arguments reach the function of the table as they were passed, without a change above the stack pointer or on
  the screen; and when the function comes back, the program goes on with the \<open>int\<close> of its result, on the same
  stack and with all registers that the calling convention keeps, ready for the next call.
\<close>

theorem system_call_round_trip:
  fixes s :: "('d, 'z) io_kernel_scheme"
  assumes "user_ready T u ps k sp s" "length as \<le> 5" "m < 12"
  shows "\<exists>M Q arg. let s1 = s\<lparr>mem := M, regs := Q\<rparr> in
     user_space s1 T u ps \<and> user_kept u sp s s1 \<and> (\<forall>x\<in>screen_bytes. M x = mem s x) \<and> (\<forall>i<length as. arg_at arg i s1 = ret (as ! i))
     \<and> (\<forall>v t ps'. call_function io (snd (system_calls ! m)) arg s1 = ret (Done v, t) \<longrightarrow>
          user_space t T u ps' \<longrightarrow> k \<notin> set ps' \<longrightarrow> kernel_kept k s1 t \<longrightarrow>
          (\<exists>m' R. kernel_call io (of_nat m) as s = ret (int32 (of_int v), t\<lparr>mem := m', regs := R\<rparr>)
             \<and> user_ready T u ps' k sp (t\<lparr>mem := m', regs := R\<rparr>) \<and> (\<forall>x. x \<notin> page_span k \<longrightarrow> m' x = mem t x)
             \<and> (\<forall>r. r \<notin> set (RAX # RDI # arg_regs) \<longrightarrow> R r = regs s r)))"
  unfolding Let_def by (rule user_call [OF assms, of io]) blast

end
