(* ===== verification/User_Printf.thy ===== *)
theory User_Printf
  imports Console
begin

text \<open>
  The formatter of \<open>printf\<close>, \<open>usr/runtime/stdio.c\<close>: the user programs have their own copy of the one in
  \<open>kernel/printk.c\<close>. Here its arrays are arrays: \<open>buffer\<close> of 1024 and \<open>digits_buffer\<close> of 25 bytes, both
  zero at first, written by index; a write behind the end is \<open>Out_of_bounds\<close>.
\<close>

section \<open>Arrays\<close>

definition put_at :: "u8 list \<Rightarrow> nat \<Rightarrow> u8 \<Rightarrow> u8 list kres" where
  "put_at buffer pos c = (if pos < length buffer then ret (buffer[pos := c]) else fails Out_of_bounds)"

text \<open>The loop that copies a string; it ends at the terminator.\<close>

fun copy_string :: "u8 list \<Rightarrow> nat \<Rightarrow> u8 list \<Rightarrow> nat \<Rightarrow> (u8 list \<times> nat) kres" where
  "copy_string buffer pos [] index = ret (buffer, index)"
| "copy_string buffer pos (c # str) index =
     (if c = 0 then ret (buffer, index)
      else andthen (put_at buffer pos c) (\<lambda>buffer1. copy_string buffer1 (pos + 1) str (index + 1)))"

definition StringToBuffer :: "u8 list \<Rightarrow> nat \<Rightarrow> u8 list \<Rightarrow> (u8 list \<times> nat) kres" where
  "StringToBuffer buffer pos str = copy_string buffer pos str 0"

section \<open>Numbers\<close>

text \<open>The \<open>do\<close> loop; \<open>digits_map\<close> is as long as the base.\<close>

function digit_loop :: "u8 list \<Rightarrow> u8 list \<Rightarrow> nat \<Rightarrow> u64 \<Rightarrow> (u8 list \<times> nat) kres" where
  "digit_loop digits_map digits_buffer at integer =
     (let base = of_nat (length digits_map) in
      if base \<le> (1 :: u64) then diverges
      else andthen (put_at digits_buffer at (digits_map ! unat (integer mod base))) (\<lambda>digits_buffer1.
        if integer div base \<noteq> 0 then digit_loop digits_map digits_buffer1 (at + 1) (integer div base)
        else ret (digits_buffer1, at + 1)))"
  by pat_completeness auto
termination
proof (relation "measure (\<lambda>(_, _, _, integer). unat integer)")
  fix digits_map :: "u8 list" and digits_buffer :: "u8 list" and at :: nat and integer base :: u64 and x
  assume "base = of_nat (length digits_map)" "\<not> base \<le> 1" "integer div base \<noteq> 0"
  moreover from this have "integer \<noteq> 0" by auto
  ultimately have "1 < unat base" "0 < unat integer" by (auto simp: word_le_nat_alt not_le unat_gt_0)
  then show "((digits_map, x, at + 1, integer div base), digits_map, digits_buffer, at, integer)
      \<in> measure (\<lambda>(_, _, _, integer). unat integer)"
    by (simp add: unat_div)
qed simp

declare digit_loop.simps [simp del]

text \<open>The \<open>for\<close> loop that writes the digits backwards, from index \<open>i - 1\<close> down to 0.\<close>

primrec put_digits :: "u8 list \<Rightarrow> nat \<Rightarrow> u8 list \<Rightarrow> nat \<Rightarrow> u8 list kres" where
  "put_digits buffer pos digits_buffer 0 = ret buffer"
| "put_digits buffer pos digits_buffer (Suc i) =
     andthen (put_at buffer pos (digits_buffer ! i)) (\<lambda>buffer1. put_digits buffer1 (pos + 1) digits_buffer i)"

definition HexToBuffer :: "u8 list \<Rightarrow> nat \<Rightarrow> u64 \<Rightarrow> (u8 list \<times> nat) kres" where
  "HexToBuffer buffer pos integer =
     andthen (digit_loop (bytes_of ''0123456789ABCDEF'') (replicate 25 0) 0 integer) (\<lambda>(digits_buffer, size).
     andthen (put_at buffer pos (of_char CHR ''0'')) (\<lambda>buffer1.
     andthen (put_at buffer1 (pos + 1) (of_char CHR ''x'')) (\<lambda>buffer2.
     andthen (put_digits buffer2 (pos + 2) digits_buffer size) (\<lambda>buffer3. ret (buffer3, size + 2)))))"

definition UDecimalToBuffer :: "u8 list \<Rightarrow> nat \<Rightarrow> u64 \<Rightarrow> (u8 list \<times> nat) kres" where
  "UDecimalToBuffer buffer pos integer =
     andthen (digit_loop (bytes_of ''0123456789'') (replicate 25 0) 0 integer) (\<lambda>(digits_buffer, size).
     andthen (put_digits buffer pos digits_buffer size) (\<lambda>buffer1. ret (buffer1, size)))"

definition DecimalToBuffer :: "u8 list \<Rightarrow> nat \<Rightarrow> u64 \<Rightarrow> (u8 list \<times> nat) kres" where
  "DecimalToBuffer buffer pos integer =
     (if sint integer < 0 then
        andthen (put_at buffer pos (of_char CHR ''-'')) (\<lambda>buffer1.
        andthen (UDecimalToBuffer buffer1 (pos + 1) (- integer)) (\<lambda>(buffer2, size). ret (buffer2, 1 + size)))
      else UDecimalToBuffer buffer pos integer)"

section \<open>The loop over the format\<close>

text \<open>A directive writes to the buffer; \<open>None\<close> is the \<open>default\<close> branch.\<close>

definition printf_directive :: "u8 \<Rightarrow> karg list \<Rightarrow> u8 list \<Rightarrow> nat \<Rightarrow> ((u8 list \<times> nat) \<times> karg list) kres option" where
  "printf_directive d args buffer buffer_size =
     (if d = of_char CHR ''x'' then
        Some (andthen (va_int args) (\<lambda>(n, args'). andthen (HexToBuffer buffer buffer_size n) (\<lambda>r. ret (r, args'))))
      else if d = of_char CHR ''u'' then
        Some (andthen (va_int args) (\<lambda>(n, args'). andthen (UDecimalToBuffer buffer buffer_size n) (\<lambda>r. ret (r, args'))))
      else if d = of_char CHR ''d'' then
        Some (andthen (va_int args) (\<lambda>(n, args'). andthen (DecimalToBuffer buffer buffer_size n) (\<lambda>r. ret (r, args'))))
      else if d = of_char CHR ''s'' then
        Some (andthen (va_str args) (\<lambda>(str, args'). andthen (StringToBuffer buffer buffer_size str) (\<lambda>r. ret (r, args'))))
      else None)"

fun printf_loop :: "u8 list \<Rightarrow> karg list \<Rightarrow> u8 list \<Rightarrow> nat \<Rightarrow> (u8 list \<times> nat) kres" where
  "printf_loop [] args buffer buffer_size = ret (buffer, buffer_size)"
| "printf_loop (c # cs) args buffer buffer_size =
     (if c \<noteq> of_char CHR ''%'' then
        andthen (put_at buffer buffer_size c) (\<lambda>buffer1. printf_loop cs args buffer1 (buffer_size + 1))
      else
        (case cs of
           [] \<Rightarrow> andthen (put_at buffer buffer_size c) (\<lambda>buffer1. printf_loop cs args buffer1 (buffer_size + 1))
         | d # ds \<Rightarrow>
             (case printf_directive d args buffer buffer_size of
                None \<Rightarrow> andthen (put_at buffer buffer_size c) (\<lambda>buffer1. printf_loop cs args buffer1 (buffer_size + 1))
              | Some m \<Rightarrow> andthen m (\<lambda>((buffer1, size), args'). printf_loop ds args' buffer1 (buffer_size + size)))))"

definition printf_buffer :: "u8 list \<Rightarrow> karg list \<Rightarrow> (u8 list \<times> nat) kres" where
  "printf_buffer format args = printf_loop format args (replicate PRINT_MAX_BUFFER_SIZE 0) 0"

section \<open>What the arrays hold\<close>

text \<open>The first bytes of an array of size \<open>n\<close>, zeros behind them.\<close>

definition filled :: "nat \<Rightarrow> u8 list \<Rightarrow> u8 list" where
  "filled n bs = bs @ replicate (n - length bs) 0"

lemma length_filled [simp]: "length bs \<le> n \<Longrightarrow> length (filled n bs) = n"
  by (simp add: filled_def)

lemma filled_nth: "i < length bs \<Longrightarrow> filled n bs ! i = bs ! i"
  by (simp add: filled_def nth_append)

lemma filled_empty: "replicate n 0 = filled n []"
  by (simp add: filled_def)

lemma put_at_filled:
  assumes "length bs \<le> n"
  shows "put_at (filled n bs) (length bs) c = (if length bs < n then ret (filled n (bs @ [c])) else fails Out_of_bounds)"
proof -
  have "replicate (n - length bs) (0 :: u8) = 0 # replicate (n - Suc (length bs)) 0" if "length bs < n"
    using that by (metis Suc_diff_Suc replicate_Suc)
  then show ?thesis using assms by (simp add: put_at_def filled_def list_update_append)
qed

text \<open>A step that appends \<open>bs\<close> to what the buffer holds.\<close>

definition appended :: "u8 list \<Rightarrow> u8 list \<Rightarrow> (u8 list \<times> nat) kres" where
  "appended msg bs = (if length msg + length bs \<le> 1024 then ret (filled 1024 (msg @ bs), length bs) else fails Out_of_bounds)"

lemma copy_string_appends:
  "length msg \<le> 1024 \<Longrightarrow>
   copy_string (filled 1024 msg) (length msg) str index
     = andthen (appended msg (WriteStringToBuffer str)) (\<lambda>(buffer, size). ret (buffer, index + size))"
proof (induction str arbitrary: msg index)
  case Nil
  then show ?case by (simp add: appended_def WriteStringToBuffer_def)
next
  case (Cons c str)
  then show ?case using Cons.IH [of "msg @ [c]" "Suc index"]
    by (auto simp: put_at_filled appended_def WriteStringToBuffer_def)
qed

lemma put_digits_appends:
  "length msg \<le> 1024 \<Longrightarrow> length ds \<le> 25 \<Longrightarrow> i \<le> length ds \<Longrightarrow>
   put_digits (filled 1024 msg) (length msg) (filled 25 ds) i
     = (if length msg + i \<le> 1024 then ret (filled 1024 (msg @ rev (take i ds))) else fails Out_of_bounds)"
proof (induction i arbitrary: msg)
  case 0
  then show ?case by simp
next
  case (Suc i)
  then show ?case using Suc.IH [of "msg @ [ds ! i]"]
    by (simp add: put_at_filled filled_nth take_Suc_conv_app_nth)
qed

lemma digit_loop_digits:
  assumes "\<And>n. digits n = dm ! unat (n mod of_nat (length dm)) # (if n div of_nat (length dm) \<noteq> 0 then digits (n div of_nat (length dm)) else [])"
    and "2 \<le> length dm" "length dm \<le> 16"
  shows "length ds + length (digits n) \<le> 25 \<Longrightarrow>
    digit_loop dm (filled 25 ds) (length ds) n = ret (filled 25 (ds @ digits n), length ds + length (digits n))"
proof (induction "digits n" arbitrary: n ds)
  case Nil
  then show ?case using assms(1) [of n] by simp
next
  case (Cons x xs)
  let ?b = "of_nat (length dm) :: u64"
  have b: "\<not> ?b \<le> 1" using assms(2,3) by (simp add: word_le_nat_alt unat_of_nat)
  have d: "digits n = dm ! unat (n mod ?b) # (if n div ?b \<noteq> 0 then digits (n div ?b) else [])" by (rule assms(1))
  show ?case
  proof (cases "n div ?b = 0")
    case True
    then show ?thesis using b d Cons.prems by (subst digit_loop.simps) (simp add: Let_def put_at_filled)
  next
    case False
    then have "xs = digits (n div ?b)" using d Cons.hyps(2) by simp
    from Cons.hyps(1) [OF this, of "ds @ [dm ! unat (n mod ?b)]"]
    show ?thesis using b d False Cons.prems by (subst digit_loop.simps) (simp add: Let_def put_at_filled)
  qed
qed

lemma numbers_append:
  assumes "length msg \<le> 1024"
  shows "HexToBuffer (filled 1024 msg) (length msg) n = appended msg (WriteHexToBuffer n)"
    "UDecimalToBuffer (filled 1024 msg) (length msg) n = appended msg (WriteUDecimalToBuffer n)"
proof -
  have maps: "length (bytes_of ''0123456789ABCDEF'') = 16" "length (bytes_of ''0123456789'') = 10" by (simp_all add: bytes_of_def)
  have hd: "hex_digits n = bytes_of ''0123456789ABCDEF'' ! unat (n mod of_nat (length (bytes_of ''0123456789ABCDEF'')))
      # (if n div of_nat (length (bytes_of ''0123456789ABCDEF'')) \<noteq> 0 then hex_digits (n div of_nat (length (bytes_of ''0123456789ABCDEF''))) else [])" for n
    unfolding maps by (subst hex_digits.simps) simp
  have ud: "udec_digits n = bytes_of ''0123456789'' ! unat (n mod of_nat (length (bytes_of ''0123456789'')))
      # (if n div of_nat (length (bytes_of ''0123456789'')) \<noteq> 0 then udec_digits (n div of_nat (length (bytes_of ''0123456789''))) else [])" for n
    unfolding maps by (subst udec_digits.simps) simp
  have h: "digit_loop (bytes_of ''0123456789ABCDEF'') (replicate 25 0) 0 n = ret (filled 25 (hex_digits n), length (hex_digits n))"
    using digit_loop_digits [OF hd, of "[]" n] digit_buffer_bounds(2) [of n] by (simp add: maps filled_empty)
  have u: "digit_loop (bytes_of ''0123456789'') (replicate 25 0) 0 n = ret (filled 25 (udec_digits n), length (udec_digits n))"
    using digit_loop_digits [OF ud, of "[]" n] digit_buffer_bounds(1) [of n] by (simp add: maps filled_empty)
  have l: "length (hex_digits n) \<le> 25" "length (udec_digits n) \<le> 25"
    using digit_buffer_bounds [of n] by simp_all
  show "UDecimalToBuffer (filled 1024 msg) (length msg) n = appended msg (WriteUDecimalToBuffer n)"
    using put_digits_appends [OF assms l(2) order_refl] u
    by (simp add: UDecimalToBuffer_def appended_def WriteUDecimalToBuffer_def)
  show "HexToBuffer (filled 1024 msg) (length msg) n = appended msg (WriteHexToBuffer n)"
    using put_at_filled [of msg 1024 "of_char CHR ''0''"] put_at_filled [of "msg @ [of_char CHR ''0'']" 1024 "of_char CHR ''x''"]
      put_digits_appends [of "msg @ [of_char CHR ''0'', of_char CHR ''x'']", OF _ l(1) order_refl] h assms
    by (auto simp: HexToBuffer_def appended_def WriteHexToBuffer_def bytes_of_def)
qed

lemma DecimalToBuffer_appends:
  assumes "length msg \<le> 1024"
  shows "DecimalToBuffer (filled 1024 msg) (length msg) n = appended msg (WriteDecimalToBuffer n)"
  using put_at_filled [of msg 1024 "of_char CHR ''-''"] numbers_append(2) [of "msg @ [of_char CHR ''-'']" "- n"]
    numbers_append(2) [OF assms] assms
  by (auto simp: DecimalToBuffer_def WriteDecimalToBuffer_def appended_def bytes_of_def)

lemma StringToBuffer_appends:
  "length msg \<le> 1024 \<Longrightarrow> StringToBuffer (filled 1024 msg) (length msg) str = appended msg (WriteStringToBuffer str)"
  by (auto simp: StringToBuffer_def copy_string_appends appended_def)

lemma printf_directive_appends:
  assumes "length msg \<le> 1024"
  shows "printf_directive d args (filled 1024 msg) (length msg)
    = map_option (\<lambda>m. andthen m (\<lambda>(bs, args'). andthen (appended msg bs) (\<lambda>r. ret (r, args')))) (directive d args)"
  unfolding printf_directive_def directive_def numbers_append [OF assms] DecimalToBuffer_appends [OF assms] StringToBuffer_appends [OF assms]
  by (simp add: andthen_assoc split_def)

lemma printf_loop_format_loop:
  "length msg \<le> 1024 \<Longrightarrow>
   printf_loop f args (filled 1024 msg) (length msg)
     = andthen (format_loop f args msg) (\<lambda>out. ret (filled 1024 out, length out))"
proof (induction f args msg rule: format_loop.induct)
  case (1 args msg)
  then show ?case by simp
next
  case (2 c cs args msg)
  have char: "andthen (put_at (filled 1024 msg) (length msg) c) (\<lambda>b. printf_loop cs args b (length msg + 1))
      = andthen (andthen (put msg [c]) (\<lambda>b. format_loop cs args b)) (\<lambda>out. ret (filled 1024 out, length out))"
    if "\<And>b. length b \<le> 1024 \<Longrightarrow> printf_loop cs args (filled 1024 b) (length b)
      = andthen (format_loop cs args b) (\<lambda>out. ret (filled 1024 out, length out))"
    using that [of "msg @ [c]"] "2.prems" by (simp add: put_at_filled put_eq)
  show ?case
  proof (cases "c = of_char CHR ''%''")
    case False
    then show ?thesis using char [OF "2.IH"(1) [OF False]] by simp
  next
    case c: True
    show ?thesis
    proof (cases cs)
      case Nil
      moreover have "format_loop [] args = (\<lambda>b. ret b)" by (rule ext) simp
      ultimately show ?thesis using char [OF "2.IH"(2)] c by simp
    next
      case cs: (Cons d ds)
      show ?thesis
      proof (cases "directive d args")
        case None
        have "format_loop (c # cs) args msg = andthen (put msg [c]) (\<lambda>b. format_loop cs args b)"
          by (subst format_loop.simps(2)) (simp only: c cs None list.case option.case simp_thms if_False)
        moreover have "printf_directive d args (filled 1024 msg) (length msg) = None"
          using printf_directive_appends [OF "2.prems", of d args] None by simp
        then have "printf_loop (c # cs) args (filled 1024 msg) (length msg)
            = andthen (put_at (filled 1024 msg) (length msg) c) (\<lambda>b. printf_loop cs args b (length msg + 1))"
          by (subst printf_loop.simps(2)) (simp only: c cs list.case option.case simp_thms if_False)
        ultimately show ?thesis using char [OF "2.IH"(3)] c cs None by (simp only: simp_thms)
      next
        case (Some m)
        have "andthen m (\<lambda>(bs, args'). andthen (appended msg bs) (\<lambda>(b, n). printf_loop ds args' b (length msg + n)))
          = andthen m (\<lambda>(bs, args'). andthen (put msg bs) (\<lambda>b. andthen (format_loop ds args' b) (\<lambda>out. ret (filled 1024 out, length out))))"
        proof (rule arg_cong [where f = "andthen m"], rule ext, simp only: split_paired_all prod.case)
          fix bs :: "u8 list" and args'
          show "andthen (appended msg bs) (\<lambda>(b, n). printf_loop ds args' b (length msg + n))
            = andthen (put msg bs) (\<lambda>b. andthen (format_loop ds args' b) (\<lambda>out. ret (filled 1024 out, length out)))"
            using "2.IH"(4) [of d ds m "msg @ bs" args'] c cs Some by (simp add: appended_def put_eq)
        qed
        then show ?thesis using c cs Some printf_directive_appends [OF "2.prems", of d args]
          by (simp add: andthen_assoc split_def)
      qed
    qed
  qed
qed

text \<open>
  Property C10. The user programs print what the kernel prints: for every format and argument list the formatter of
  \<open>printf\<close> leaves in its zeroed array exactly the text of the formatter of \<open>printk\<close>, with its length, zeros behind
  it, and it stops with an error exactly where the other does.
\<close>

theorem printf_formats_like_printk:
  "printf_buffer format args = andthen (format_loop format args []) (\<lambda>msg. ret (filled 1024 msg, length msg))"
  using printf_loop_format_loop [of "[]" format args] by (simp add: printf_buffer_def PRINT_MAX_BUFFER_SIZE_def filled_empty)

section \<open>Types of the arguments\<close>

text \<open>What \<open>va_arg\<close> asks for, and the types a format wants, directive by directive.\<close>

datatype arg_type = Integer | String

fun has_type :: "karg \<Rightarrow> arg_type \<Rightarrow> bool" where
  "has_type (KInt n) t \<longleftrightarrow> t = Integer"
| "has_type (KStr s) t \<longleftrightarrow> t = String"

fun wanted :: "u8 list \<Rightarrow> arg_type list" where
  "wanted [] = []"
| "wanted (c # cs) =
     (if c \<noteq> of_char CHR ''%'' then wanted cs
      else case cs of
             [] \<Rightarrow> []
           | d # ds \<Rightarrow>
               if d \<in> {of_char CHR ''x'', of_char CHR ''u'', of_char CHR ''d''} then Integer # wanted ds
               else if d = of_char CHR ''s'' then String # wanted ds else wanted cs)"

text \<open>Arguments behind those the format wants do not matter.\<close>

definition well_typed :: "u8 list \<Rightarrow> karg list \<Rightarrow> bool" where
  "well_typed format args \<longleftrightarrow>
     length (wanted format) \<le> length args \<and> list_all2 has_type (take (length (wanted format)) args) (wanted format)"

lemma well_typed_Cons:
  "list_all2 has_type (take (length (t # ts)) args) (t # ts) \<Longrightarrow> length (t # ts) \<le> length args \<Longrightarrow>
   \<exists>a as. args = a # as \<and> has_type a t \<and> list_all2 has_type (take (length ts) as) ts \<and> length ts \<le> length as"
  by (cases args) auto

lemma directive_typed:
  assumes "args = a # as"
  shows "d \<in> {of_char CHR ''x'', of_char CHR ''u'', of_char CHR ''d''} \<Longrightarrow> has_type a Integer \<Longrightarrow> \<exists>bs. directive d args = Some (ret (bs, as))"
    "d = of_char CHR ''s'' \<Longrightarrow> has_type a String \<Longrightarrow> \<exists>bs. directive d args = Some (ret (bs, as))"
    "d \<notin> {of_char CHR ''x'', of_char CHR ''u'', of_char CHR ''d'', of_char CHR ''s''} \<Longrightarrow> directive d args' = None"
  using assms by (cases a; auto simp: directive_def)+

lemma format_loop_typed:
  "length buffer \<le> 1024 \<Longrightarrow> well_typed f args \<Longrightarrow>
   (\<exists>msg. format_loop f args buffer = ret msg) \<or> format_loop f args buffer = fails Out_of_bounds"
proof (induction f args buffer rule: format_loop.induct)
  case (1 args buffer)
  then show ?case by simp
next
  case (2 c cs args buffer)
  let ?fine = "\<lambda>r. (\<exists>msg. r = ret msg) \<or> r = fails Out_of_bounds"
  have put: "?fine (andthen (put buffer bs) (\<lambda>b. format_loop cs' args' b))"
    if "length (buffer @ bs) \<le> 1024 \<Longrightarrow> ?fine (format_loop cs' args' (buffer @ bs))" for bs cs' args'
    using that by (simp add: put_eq)
  show ?case
  proof (cases "c = of_char CHR ''%''")
    case False
    then have "?fine (andthen (put buffer [c]) (\<lambda>b. format_loop cs args b))"
      using "2.prems"(2) by (intro put "2.IH"(1)) (simp_all add: well_typed_def)
    then show ?thesis using False by simp
  next
    case c: True
    show ?thesis
    proof (cases cs)
      case Nil
      then show ?thesis using c by (simp add: put_eq)
    next
      case cs: (Cons d ds)
      show ?thesis
      proof (cases "directive d args")
        case None
        then have "wanted (c # cs) = wanted cs" using c cs directive_typed(1,2) by (auto simp: directive_def split: if_splits)
        then have "?fine (andthen (put buffer [c]) (\<lambda>b. format_loop cs args b))"
          using "2.prems"(2) c cs None by (intro put "2.IH"(3)) (simp_all add: well_typed_def)
        moreover have "format_loop (c # cs) args buffer = andthen (put buffer [c]) (\<lambda>b. format_loop cs args b)"
          by (subst format_loop.simps(2)) (simp only: c cs None list.case option.case simp_thms if_False)
        ultimately show ?thesis by simp
      next
        case (Some m)
        then obtain t where t: "wanted (c # cs) = t # wanted ds"
          "t = (if d = of_char CHR ''s'' then String else Integer)" "d \<in> {of_char CHR ''x'', of_char CHR ''u'', of_char CHR ''d'', of_char CHR ''s''}"
          using c cs directive_typed(3) [OF refl, of d args] by (fastforce split: if_splits)
        obtain a as where a: "args = a # as" "has_type a t" "well_typed ds as"
          using "2.prems"(2) well_typed_Cons [of t "wanted ds" args] unfolding well_typed_def t(1) by auto
        obtain bs where bs: "directive d args = Some (ret (bs, as))" using directive_typed(1,2) [OF a(1), of d] a(2) t(2,3) by auto
        have "?fine (andthen (put buffer bs) (\<lambda>b. format_loop ds as b))"
          using c cs bs a(3) by (intro put "2.IH"(4)) simp_all
        then show ?thesis using c cs bs by simp
      qed
    qed
  qed
qed

text \<open>
  Property C11. A well-typed call of \<open>printf\<close> reads every argument as the type it was passed with: the formatter
  returns, or it stops because the text does not fit its buffer, and never reads an argument that is missing or of
  the other type; what it returns is a text of at most 1024 bytes at the start of the array.
\<close>

theorem printf_well_typed:
  assumes "well_typed format args"
  shows "(\<exists>msg. printf_buffer format args = ret (filled 1024 msg, length msg) \<and> length msg \<le> 1024)
     \<or> printf_buffer format args = fails Out_of_bounds"
proof -
  have "printf_buffer format args = andthen (format_loop format args []) (\<lambda>msg. ret (filled 1024 msg, length msg))"
    using printf_loop_format_loop [of "[]" format args] by (simp add: printf_buffer_def PRINT_MAX_BUFFER_SIZE_def filled_empty)
  then show ?thesis using format_loop_typed [OF _ assms, of "[]"] format_loop_length [of format args "[]"] by auto
qed


theorem printf_well_typed_witness:
  "(\<exists>msg. printf_buffer (bytes_of ''%s %d %u %x %%'') [KStr (bytes_of ''d''), KInt 1, KInt 2, KInt 3] = ret (filled 1024 msg, length msg) \<and> length msg \<le> 1024)
     \<or> printf_buffer (bytes_of ''%s %d %u %x %%'') [KStr (bytes_of ''d''), KInt 1, KInt 2, KInt 3] = fails Out_of_bounds"
proof -
  have "well_typed (bytes_of ''%s %d %u %x %%'') [KStr (bytes_of ''d''), KInt 1, KInt 2, KInt 3]"
    by (simp add: well_typed_def bytes_of_def)
  then show ?thesis by (rule printf_well_typed)
qed

end
