(* ===== verification/User_Services.thy ===== *)
theory User_Services
  imports User_Calls User_Printf Directory
begin

text \<open>
  What the user programs rely on when they write to the screen, read the keyboard and ask for the size of
  the memory: a contract of the system calls, stated on a terminal, the keys typed ahead and the bytes of the
  user page, and that the kernel meets it. \<open>printf\<close> of \<open>usr/runtime/stdio.c\<close> is proved under the contract.
\<close>

section \<open>printf\<close>

text \<open>The formatter fills the array of the caller's frame at \<open>buffer\<close>; then one \<open>write\<close>.\<close>

definition printf :: "('d, 'z) calling \<Rightarrow> u64 \<Rightarrow> u8 list \<Rightarrow> karg list \<Rightarrow> ('d, 'z) io_kernel_scheme
    \<Rightarrow> (int \<times> ('d, 'z) io_kernel_scheme) kres" where
  "printf call buffer format args s =
     andthen (printf_buffer format args) (\<lambda>(bytes, buffer_size).
     andthen (user_store bytes buffer s) (\<lambda>s1. write_call call 1 buffer (of_nat buffer_size) s1))"

text \<open>A string argument is read where the pointer shows; this is the whole string, at any length.\<close>

partial_function (option) user_text :: "u64 \<Rightarrow> 'z kmem_scheme \<Rightarrow> u8 list kres" where
  "user_text v s =
     andthen (user_load v s) (\<lambda>c. if c = 0 then ret [] else andthen (user_text (v + 1) s) (\<lambda>cs. ret (c # cs)))"

section \<open>The user page as bytes\<close>

abbreviation user_at :: "nat \<Rightarrow> u64" where
  "user_at i \<equiv> USER_VIRTUAL_ADDRESS_BASE + of_nat i"

definition user_byte :: "u64 \<Rightarrow> 'z kmem_scheme \<Rightarrow> nat \<Rightarrow> u8" where
  "user_byte u s i = mem s (u + of_nat i)"

definition text_at :: "u64 \<Rightarrow> 'z kmem_scheme \<Rightarrow> nat \<Rightarrow> u8 list \<Rightarrow> bool" where
  "text_at u s i str \<longleftrightarrow> i + length str < 2 ^ 21 \<and> 0 \<notin> set str
     \<and> (\<forall>j<length str. user_byte u s (i + j) = str ! j) \<and> user_byte u s (i + length str) = 0"

lemma user_kept_byte: "user_kept u sp s t \<longleftrightarrow> (\<forall>j. sp \<le> j \<longrightarrow> j < 2 ^ 21 \<longrightarrow> user_byte u t j = user_byte u s j)"
  by (simp add: user_kept_def user_byte_def)

lemma user_kept_refl [simp]: "user_kept u sp s s"
  by (simp add: user_kept_def)

lemma user_kept_trans: "user_kept u sp s t \<Longrightarrow> user_kept u sp t v \<Longrightarrow> user_kept u sp s v"
  by (simp add: user_kept_def)

lemma text_at_kept: "text_at u s i str \<Longrightarrow> user_kept u sp s t \<Longrightarrow> sp \<le> i \<Longrightarrow> text_at u t i str"
  by (simp add: text_at_def user_kept_byte)

lemma text_at_Nil: "text_at u s i [] \<longleftrightarrow> i < 2 ^ 21 \<and> user_byte u s i = 0"
  by (simp add: text_at_def)

lemma text_at_Cons: "text_at u s i (c # str) \<longleftrightarrow> c \<noteq> 0 \<and> i < 2 ^ 21 \<and> user_byte u s i = c \<and> text_at u s (Suc i) str"
  unfolding text_at_def All_less_Suc2 length_Cons by (auto simp: add.commute)

text \<open>The store of one byte, and of a list of bytes.\<close>

lemma user_byte_store:
  assumes "i < 2 ^ 21" "j < 2 ^ 21"
  shows "user_byte u (s\<lparr>mem := (mem s)(u + of_nat i := b)\<rparr>) j = (if j = i then b else user_byte u s j)"
  using assms of_nat_eq_small [where 'w = 64, of j i] by (simp add: user_byte_def)

definition user_wrote :: "u64 \<Rightarrow> nat \<Rightarrow> u8 list \<Rightarrow> 'z kmem_scheme \<Rightarrow> 'z kmem_scheme" where
  "user_wrote u i bs s = s\<lparr>mem := write_bytes (mem s) (u + of_nat i) bs\<rparr>"

lemma user_byte_wrote:
  assumes "i + length bs \<le> 2 ^ 21" "j < 2 ^ 21"
  shows "user_byte u (user_wrote u i bs s) j = (if i \<le> j \<and> j < i + length bs then bs ! (j - i) else user_byte u s j)"
proof (cases "i \<le> j")
  case True
  have "unat ((of_nat j :: u64) - of_nat i) = j - i"
    using assms(2) unat_of_nat_less [where 'w = 64, of "j - i"] by (simp add: of_nat_diff [OF True, symmetric])
  then show ?thesis using True assms
    by (auto simp: user_byte_def user_wrote_def write_bytes_apply mem_span)
next
  case False
  have "span (u + of_nat j) 1 \<inter> span (u + of_nat i) (length bs) = {}"
    if "j < i" using that assms by (intro span_offsets_disjoint) simp_all
  moreover have "u + of_nat j \<in> span (u + of_nat j) 1" by (simp add: span_def)
  ultimately show ?thesis using False assms(1) by (auto simp: user_byte_def user_wrote_def write_bytes_apply)
qed

section \<open>The contract\<close>

type_synonym terminal = "grid \<times> int \<times> int"

text \<open>
  \<open>serves s inp G\<close>: in state \<open>s\<close> the program can run, the keys \<open>inp\<close> have been typed and not been read, and the
  terminal shows \<open>G\<close>. Its memory from offset \<open>sp\<close> of the user page on is its own.
\<close>

locale terminal_service =
  fixes call :: "('d, 'z) calling" and u :: u64 and sp :: nat and total_mem :: int
    and serves :: "('d, 'z) io_kernel_scheme \<Rightarrow> u8 list \<Rightarrow> terminal \<Rightarrow> bool"
  assumes place: "serves s inp G \<Longrightarrow> i < 2 ^ 21 \<Longrightarrow> user_place s (user_at i) = Some (u + of_nat i)"
    and own: "serves s inp G \<Longrightarrow> i < 2 ^ 21 \<Longrightarrow> serves (s\<lparr>mem := (mem s)(u + of_nat i := b)\<rparr>) inp G"
    and shows_text: "serves s inp G \<Longrightarrow> sp \<le> i \<Longrightarrow> text_at u s i str \<Longrightarrow> format_loop str [] [] = ret msg \<Longrightarrow>
      \<exists>n t. write_call call fd (user_at i) len s = ret (n, t) \<and> n = int32 len \<and> serves t inp (fold tty_put msg G) \<and> user_kept u sp s t"
    and reads_key: "serves s (c # inp) G \<Longrightarrow> sp \<le> i \<Longrightarrow> i < 2 ^ 21 \<Longrightarrow>
      \<exists>t. read_call call 0 (user_at i) 1 s = ret (1, t) \<and> serves t inp G
        \<and> user_kept u sp (s\<lparr>mem := (mem s)(u + of_nat i := c)\<rparr>) t"
    and tells_memory: "serves s inp G \<Longrightarrow> \<exists>t. mem_call call s = ret (total_mem, t) \<and> serves t inp G \<and> user_kept u sp s t"
    and clears: "serves s inp G \<Longrightarrow> \<exists>t. clrscr call s = ret t \<and> serves t inp (\<lambda>_ _. (0, 0), 0, 0) \<and> user_kept u sp s t"
begin

lemma load_ok: "serves s inp G \<Longrightarrow> i < 2 ^ 21 \<Longrightarrow> user_load (user_at i) s = ret (user_byte u s i)"
  by (simp add: user_load_def place user_byte_def)

lemma store_ok:
  "serves s inp G \<Longrightarrow> i + length bs \<le> 2 ^ 21 \<Longrightarrow>
   user_store bs (user_at i) s = ret (user_wrote u i bs s) \<and> serves (user_wrote u i bs s) inp G"
proof (induction bs arbitrary: s i)
  case Nil
  then show ?case by (simp add: user_wrote_def)
next
  case (Cons b bs)
  then have i: "i < 2 ^ 21" by simp
  let ?s1 = "s\<lparr>mem := (mem s)(u + of_nat i := b)\<rparr>"
  have "user_wrote u (Suc i) bs ?s1 = user_wrote u i (b # bs) s"
    by (simp add: user_wrote_def fun_upd_def ac_simps)
  then show ?case using Cons.IH [OF own [OF Cons.prems(1) i, of b], of "Suc i"] Cons.prems(2) place [OF Cons.prems(1) i]
    by (simp add: Suc_offset [symmetric] del: of_nat_Suc)
qed

lemma user_text_ok: "serves s inp G \<Longrightarrow> text_at u s i str \<Longrightarrow> user_text (user_at i) s = ret str"
proof (induction str arbitrary: i)
  case Nil
  then show ?case by (subst user_text.simps) (simp add: text_at_Nil load_ok)
next
  case (Cons c str)
  then have c: "c \<noteq> 0" "i < 2 ^ 21" "user_byte u s i = c" "text_at u s (Suc i) str" by (simp_all add: text_at_Cons)
  have "user_at i + 1 = user_at (Suc i)" by (rule Suc_offset)
  with Cons.IH [OF Cons.prems(1) c(4)] show ?case
    unfolding user_text.simps [of "user_at i"] load_ok [OF Cons.prems(1) c(2)] c(3) andthen_simps
    by (simp only: c(1) if_False andthen_simps)
qed

text \<open>A \<open>printf\<close> whose text fits its buffer and has no \<open>%\<close> shows the text.\<close>

lemma printf_shows:
  assumes s: "serves s inp G" and b: "sp \<le> b" "b + 1024 \<le> 2 ^ 21"
    and m: "format_loop format args [] = ret msg" "length msg < 1024" "0 \<notin> set msg" "format_loop msg [] [] = ret shown"
  shows "\<exists>t. printf call (user_at b) format args s = ret (int (length msg), t) \<and> serves t inp (fold tty_put shown G)
     \<and> (\<forall>j. sp \<le> j \<longrightarrow> j < 2 ^ 21 \<longrightarrow> j \<notin> {b..<b + 1024} \<longrightarrow> user_byte u t j = user_byte u s j)"
proof -
  have pb: "printf_buffer format args = ret (filled 1024 msg, length msg)"
    using printf_loop_format_loop [of "[]" format args] m(1) by (simp add: printf_buffer_def PRINT_MAX_BUFFER_SIZE_def filled_empty)
  have len: "length (filled 1024 msg) = 1024" using m(2) by simp
  let ?s1 = "user_wrote u b (filled 1024 msg) s"
  have st: "user_store (filled 1024 msg) (user_at b) s = ret ?s1" "serves ?s1 inp G"
    using store_ok [OF s, of b "filled 1024 msg"] b(2) len by simp_all
  have byte: "user_byte u ?s1 j = (if b \<le> j \<and> j < b + 1024 then filled 1024 msg ! (j - b) else user_byte u s j)" if "j < 2 ^ 21" for j
    using user_byte_wrote [of b "filled 1024 msg" j u s] b(2) that len by simp
  have "text_at u ?s1 b msg" using b(2) m(2,3) byte by (auto simp: text_at_def filled_def nth_append)
  from shows_text [OF st(2) b(1) this m(4), of 1 "of_nat (length msg)"] obtain t where
    t: "write_call call 1 (user_at b) (of_nat (length msg)) ?s1 = ret (int32 (of_nat (length msg)), t)" "serves t inp (fold tty_put shown G)"
      "user_kept u sp ?s1 t" by blast
  have "unat (of_nat (length msg) :: u64) = length msg" using m(2) by (intro unat_of_nat_less) simp
  then have "int32 (of_nat (length msg)) = int (length msg)"
    using m(2) by (simp add: int32_def signed_ucast_eq unsigned_of_nat signed_of_nat signed_take_bit_int_eq_self)
  moreover have "user_byte u t j = user_byte u s j" if "sp \<le> j" "j < 2 ^ 21" "j \<notin> {b..<b + 1024}" for j
    using t(3) byte [OF that(2)] that by (auto simp: user_kept_byte)
  ultimately show ?thesis using pb st(1) t(1,2) by (simp add: printf_def)
qed

end

text \<open>The search for a program or a file that is not on the disk.\<close>

locale file_service = terminal_service call u sp total_mem serves
  for call :: "('d, 'z) calling" and u sp total_mem serves +
  fixes missing :: "u8 list \<Rightarrow> bool"
  assumes finds_nothing: "serves s inp G \<Longrightarrow> sp \<le> i \<Longrightarrow> text_at u s i name \<Longrightarrow> missing name \<Longrightarrow>
    \<exists>err t. open_call call (user_at i) s = ret (err, t) \<and> err < 0 \<and> serves t inp G \<and> user_kept u sp s t"

section \<open>The kernel keeps the contract\<close>

definition looks :: "'z console_scheme \<Rightarrow> terminal \<Rightarrow> bool" where
  "looks s G \<longleftrightarrow> screen_rel (mem s) (mem s, scr_column s, scr_row s) G"

text \<open>\<open>D\<close> is what is known of the drive and of its boot sector; no call here changes it.\<close>

definition terminal_state :: "('d \<Rightarrow> BPB \<Rightarrow> bool) \<Rightarrow> tree \<Rightarrow> u64 \<Rightarrow> u64 list \<Rightarrow> u64 \<Rightarrow> nat \<Rightarrow> int \<Rightarrow> ('d, 'z) io_kernel_scheme \<Rightarrow> u8 list \<Rightarrow> terminal \<Rightarrow> bool" where
  "terminal_state D T u ps k sp total_mem s inp G \<longleftrightarrow>
     user_ready T u ps k sp s \<and> holds (s_keyboard_controller s) inp \<and> looks s G \<and> int32 (GetTotalMem s) = total_mem
     \<and> D (dev s) (s_BIOS_parameter_block s)"

lemma grid_of_cong: "(\<And>x. x \<in> screen_bytes \<Longrightarrow> m x = m' x) \<Longrightarrow> grid_of m = grid_of m'"
  unfolding grid_of_def using vga_cell_in_screen by (intro ext) auto

lemma looks_cong:
  "looks s G \<Longrightarrow> (\<And>x. x \<in> screen_bytes \<Longrightarrow> mem t x = mem s x) \<Longrightarrow> scr_column t = scr_column s \<Longrightarrow> scr_row t = scr_row s \<Longrightarrow> looks t G"
  using grid_of_cong [of "mem t" "mem s"] by (auto simp: looks_def screen_rel_def split: prod.splits)

lemma looks_screen_ok: "looks s G \<Longrightarrow> screen_ok s"
  by (auto simp: looks_def screen_rel_def screen_ok_def split: prod.splits)

lemma looks_WriteVGA:
  assumes "looks s G" shows "looks (WriteVGA msg s) (fold tty_put msg G)"
proof -
  have "screen_rel (mem s) (fold vga_put msg (mem s, scr_column s, scr_row s)) (fold tty_put msg G)"
    using assms by (intro fold_vga_put_rel) (simp add: looks_def)
  then show ?thesis by (auto simp: looks_def screen_rel_def WriteVGA_def split: prod.splits)
qed

lemma user_space_printed:
  fixes s :: "'z kmem_scheme"
  assumes us: "user_space s T u ps" and p: "printed s t" and ke: "PHY_TO_VIR 0x200000 \<le> l_kernel_end s"
  shows "user_space t T u ps"
proof -
  note k = printed_kmem [OF p]
  have "space s (PHY_TO_VIR (cr3 s)) T ps" using us by (simp add: user_space_def)
  then have "space t (PHY_TO_VIR (cr3 s)) T ps"
    using vm_tree_printed [OF _ p ke] free_pages_printed [OF _ p ke] k(5) by (simp add: space_def)
  then show ?thesis using us k by (simp add: user_space_def)
qed

lemma int32_int32 [simp]: "int32 (of_int (int32 x)) = int32 x"
proof -
  have "(ucast (of_int n :: u64) :: u32) = of_int n" for n by transfer simp
  from this [of "sint (ucast x :: u32)"] show ?thesis unfolding int32_def by simp
qed

text \<open>One call: what the function in the table does inside, the program sees when the call is back.\<close>

lemma call_served:
  fixes s :: "('d, 'z) io_kernel_scheme"
  assumes s: "terminal_state D T u ps k sp total_mem s inp G" and n: "length as \<le> 5" and m: "m < 12"
    and f: "\<And>s1 arg. \<exists>M Q. s1 = s\<lparr>mem := M, regs := Q\<rparr> \<Longrightarrow> user_space s1 T u ps \<Longrightarrow> looks s1 G \<Longrightarrow> user_kept u sp s s1 \<Longrightarrow>
      (\<forall>i<length as. arg_at arg i s1 = ret (as ! i)) \<Longrightarrow>
      \<exists>t. call_function io (snd (system_calls ! m)) arg s1 = ret (Done v, t) \<and> user_space t T u ps \<and> kernel_kept k s1 t
        \<and> holds (s_keyboard_controller t) inp' \<and> looks t G' \<and> s_total_mem t = s_total_mem s
        \<and> D (dev t) (s_BIOS_parameter_block t) \<and> (\<forall>j. sp \<le> j \<longrightarrow> j < 2 ^ 21 \<longrightarrow> user_byte u t j = B j)"
  shows "\<exists>t. kernel_call io (of_nat m) as s = ret (int32 (of_int v), t) \<and> terminal_state D T u ps k sp total_mem t inp' G'
     \<and> (\<forall>j. sp \<le> j \<longrightarrow> j < 2 ^ 21 \<longrightarrow> user_byte u t j = B j)"
proof -
  have r: "user_ready T u ps k sp s" "k \<notin> set ps" "looks s G" "int32 (GetTotalMem s) = total_mem"
    using s by (simp_all add: terminal_state_def user_ready_def)
  obtain M Q arg where c: "user_space (s\<lparr>mem := M, regs := Q\<rparr>) T u ps" "user_kept u sp s (s\<lparr>mem := M, regs := Q\<rparr>)"
    "\<forall>x\<in>screen_bytes. M x = mem s x" "\<forall>i<length as. arg_at arg i (s\<lparr>mem := M, regs := Q\<rparr>) = ret (as ! i)"
    "\<forall>v t ps'. call_function io (snd (system_calls ! m)) arg (s\<lparr>mem := M, regs := Q\<rparr>) = ret (Done v, t) \<longrightarrow>
       user_space t T u ps' \<longrightarrow> k \<notin> set ps' \<longrightarrow> kernel_kept k (s\<lparr>mem := M, regs := Q\<rparr>) t \<longrightarrow>
       (\<exists>m' R. kernel_call io (of_nat m) as s = ret (int32 (of_int v), t\<lparr>mem := m', regs := R\<rparr>)
          \<and> user_ready T u ps' k sp (t\<lparr>mem := m', regs := R\<rparr>) \<and> (\<forall>x. x \<notin> page_span k \<longrightarrow> m' x = mem t x)
          \<and> (\<forall>r. r \<notin> set (RAX # RDI # arg_regs) \<longrightarrow> R r = regs s r))"
    by (rule user_call [OF r(1) n m, of io])
  have "looks (s\<lparr>mem := M, regs := Q\<rparr>) G" by (rule looks_cong [OF r(3)]) (use c(3) in simp_all)
  from f [OF _ c(1) this c(2,4)] obtain t where t: "call_function io (snd (system_calls ! m)) arg (s\<lparr>mem := M, regs := Q\<rparr>) = ret (Done v, t)"
    "user_space t T u ps" "kernel_kept k (s\<lparr>mem := M, regs := Q\<rparr>) t" "holds (s_keyboard_controller t) inp'" "looks t G'"
    "s_total_mem t = s_total_mem s" "D (dev t) (s_BIOS_parameter_block t)" "\<forall>j. sp \<le> j \<longrightarrow> j < 2 ^ 21 \<longrightarrow> user_byte u t j = B j" by blast
  obtain m' R where e: "kernel_call io (of_nat m) as s = ret (int32 (of_int v), t\<lparr>mem := m', regs := R\<rparr>)"
    "user_ready T u ps k sp (t\<lparr>mem := m', regs := R\<rparr>)" "\<forall>x. x \<notin> page_span k \<longrightarrow> m' x = mem t x"
    using c(5) [rule_format, OF t(1,2) r(2) t(3)] by blast
  note apart = stack_apart [OF r(1)]
  have "looks (t\<lparr>mem := m', regs := R\<rparr>) G'" by (rule looks_cong [OF t(5)]) (use e(3) apart(2) in simp_all)
  then have "terminal_state D T u ps k sp total_mem (t\<lparr>mem := m', regs := R\<rparr>) inp' G'"
    using e(2) t(4,6,7) r(4) by (simp add: terminal_state_def GetTotalMem_def)
  moreover have "user_byte u (t\<lparr>mem := m', regs := R\<rparr>) j = B j" if "sp \<le> j" "j < 2 ^ 21" for j
    using t(8) that e(3) apart(1) [OF that(2)] by (simp add: user_byte_def)
  ultimately show ?thesis using e(1) by blast
qed


lemma load_string_user:
  "user_space s T u ps \<Longrightarrow> text_at u s i str \<Longrightarrow> load_string (user_at i) s = ret str"
proof (induction str arbitrary: i)
  case Nil
  then show ?case by (subst load_string.simps) (simp add: text_at_Nil peek8_def resolve_user user_byte_def)
next
  case (Cons c str)
  then have c: "c \<noteq> 0" "i < 2 ^ 21" "user_byte u s i = c" "text_at u s (Suc i) str" by (simp_all add: text_at_Cons)
  have p: "peek8 s (user_at i) = ret c" using resolve_user [OF Cons.prems(1) c(2)] c(3) by (simp add: peek8_def user_byte_def)
  have "user_at i + 1 = user_at (Suc i)" by (rule Suc_offset)
  with Cons.IH [OF Cons.prems(1) c(4)] show ?case
    unfolding load_string.simps [of "user_at i"] p andthen_simps by (simp only: c(1) if_False andthen_simps)
qed

text \<open>A function that prints, and nothing more.\<close>

lemma printing_kept:
  fixes s :: "('d, 'z) io_kernel_scheme"
  assumes r: "user_ready T u ps k sp s" and s1: "user_space s1 T u ps" "s1 = s\<lparr>mem := M, regs := Q\<rparr>"
    and p: "printed s1 t"
  shows "user_space t T u ps" "kernel_kept k s1 t" "s_keyboard_controller t = s_keyboard_controller s" "s_total_mem t = s_total_mem s"
    "j < 2 ^ 21 \<Longrightarrow> user_byte u t j = user_byte u s1 j" "dev t = dev s" "s_BIOS_parameter_block t = s_BIOS_parameter_block s"
proof -
  have ke: "PHY_TO_VIR 0x200000 \<le> l_kernel_end s1" using r s1(2) by (simp add: user_ready_def)
  show "user_space t T u ps" by (rule user_space_printed [OF s1(1) p ke])
  note k = printed_kmem [OF p] and apart = stack_apart [OF r]
  have more: "dev t = dev s1" "s_BIOS_parameter_block t = s_BIOS_parameter_block s1" "s_keyboard_controller t = s_keyboard_controller s1" "tss_rsp0 t = tss_rsp0 s1"
    "s_syscall_table t = s_syscall_table s1" using k(7) by (cases t; cases s1; simp)+
  have "mem t x = mem s1 x" if "x \<in> page_span k" for x using apart(2) that by (intro k(9)) blast
  then show "kernel_kept k s1 t" using more k(5,6,8) by (simp add: kernel_kept_def)
  show "s_keyboard_controller t = s_keyboard_controller s" "s_total_mem t = s_total_mem s" "dev t = dev s" "s_BIOS_parameter_block t = s_BIOS_parameter_block s"
    using more k(4) s1(2) by simp_all
  show "user_byte u t j = user_byte u s1 j" if "j < 2 ^ 21"
  proof -
    have "u + of_nat j \<in> page_span u" using that by simp
    then show ?thesis unfolding user_byte_def using apart(3) by (intro k(9)) blast
  qed
qed

lemma system_call_table:
  "snd (system_calls ! 0) = Call_SysWrite" "snd (system_calls ! 4) = Call_SysRead" "snd (system_calls ! 5) = Call_SysMemInfo"
  "snd (system_calls ! 11) = Call_SysClrSrc" "snd (system_calls ! 6) = Call_SysOpen" "snd (system_calls ! 7) = Call_SysClose"
  by (simp_all add: system_calls_def)

lemma kernel_shows_text:
  fixes s :: "('d, 'z) io_kernel_scheme"
  assumes s: "terminal_state D T u ps k sp total_mem s inp G" and i: "sp \<le> i" and str: "text_at u s i str" and m: "format_loop str [] [] = ret msg"
  shows "\<exists>n t. write_call (kernel_call io) fd (user_at i) len s = ret (n, t) \<and> n = int32 len
     \<and> terminal_state D T u ps k sp total_mem t inp (fold tty_put msg G) \<and> user_kept u sp s t"
proof -
  let ?as = "[of_int fd, user_at i, len]"
  have r: "user_ready T u ps k sp s" "holds (s_keyboard_controller s) inp" "D (dev s) (s_BIOS_parameter_block s)" using s by (simp_all add: terminal_state_def)
  have "\<exists>t. kernel_call io (of_nat 0) ?as s = ret (int32 (of_int (int32 len)), t)
     \<and> terminal_state D T u ps k sp total_mem t inp (fold tty_put msg G) \<and> (\<forall>j. sp \<le> j \<longrightarrow> j < 2 ^ 21 \<longrightarrow> user_byte u t j = user_byte u s j)"
  proof (rule call_served [OF s])
    fix s1 arg
    assume sh: "\<exists>M Q. s1 = s\<lparr>mem := M, regs := Q\<rparr>" and us: "user_space s1 T u ps" and l: "looks s1 G" and kept: "user_kept u sp s s1"
      and args: "\<forall>j<length ?as. arg_at arg j s1 = ret (?as ! j)"
    have a: "arg_at arg 0 s1 = ret (of_int fd)" "arg_at arg 1 s1 = ret (user_at i)" "arg_at arg 2 s1 = ret len"
      using args [rule_format, of 0] args [rule_format, of 1] args [rule_format, of 2] by simp_all
    let ?t = "WriteVGA msg s1"
    have pr: "print str [] s1 = ret ?t" using m by (simp add: print_def printk_def)
    have p: "printed s1 ?t" using print_printed [OF m looks_screen_ok [OF l]] pr by auto
    obtain M Q where e: "s1 = s\<lparr>mem := M, regs := Q\<rparr>" using sh by blast
    note pk = printing_kept [OF r(1) us e p]
    have "call_function io (snd (system_calls ! 0)) arg s1 = ret (Done (int32 len), ?t)"
      using a load_string_user [OF us text_at_kept [OF str kept i]] pr
      by (simp add: system_call_table call_function_def SysWrite_def)
    moreover have "user_byte u ?t j = user_byte u s j" if "sp \<le> j" "j < 2 ^ 21" for j
      using pk(5) [OF that(2)] kept that by (simp add: user_kept_byte)
    ultimately show "\<exists>t. call_function io (snd (system_calls ! 0)) arg s1 = ret (Done (int32 len), t) \<and> user_space t T u ps \<and> kernel_kept k s1 t
        \<and> holds (s_keyboard_controller t) inp \<and> looks t (fold tty_put msg G) \<and> s_total_mem t = s_total_mem s
        \<and> D (dev t) (s_BIOS_parameter_block t) \<and> (\<forall>j. sp \<le> j \<longrightarrow> j < 2 ^ 21 \<longrightarrow> user_byte u t j = user_byte u s j)"
      using pk(1-4,6,7) r(2,3) looks_WriteVGA [OF l, of msg] by (intro exI [of _ ?t]) simp
  qed simp_all
  then show ?thesis by (simp add: write_call_def user_kept_byte)
qed

lemma kernel_reads_key:
  fixes s :: "('d, 'z) io_kernel_scheme"
  assumes s: "terminal_state D T u ps k sp total_mem s (c # inp) G" and i: "sp \<le> i" "i < 2 ^ 21"
  shows "\<exists>t. read_call (kernel_call io) 0 (user_at i) 1 s = ret (1, t) \<and> terminal_state D T u ps k sp total_mem t inp G
     \<and> user_kept u sp (s\<lparr>mem := (mem s)(u + of_nat i := c)\<rparr>) t"
proof -
  let ?as = "[of_int 0, user_at i, 1 :: u64]" let ?B = "user_byte u (s\<lparr>mem := (mem s)(u + of_nat i := c)\<rparr>)"
  have r: "user_ready T u ps k sp s" "holds (s_keyboard_controller s) (c # inp)" "D (dev s) (s_BIOS_parameter_block s)" using s by (simp_all add: terminal_state_def)
  note apart = stack_apart [OF r(1)]
  have "\<exists>t. kernel_call io (of_nat 4) ?as s = ret (int32 (of_int 1), t)
     \<and> terminal_state D T u ps k sp total_mem t inp G \<and> (\<forall>j. sp \<le> j \<longrightarrow> j < 2 ^ 21 \<longrightarrow> user_byte u t j = ?B j)"
  proof (rule call_served [OF s])
    fix s1 :: "('d, 'z) io_kernel_scheme" and arg
    assume sh: "\<exists>M Q. s1 = s\<lparr>mem := M, regs := Q\<rparr>" and us: "user_space s1 T u ps" and l: "looks s1 G" and kept: "user_kept u sp s s1"
      and args: "\<forall>j<length ?as. arg_at arg j s1 = ret (?as ! j)"
    have a: "arg_at arg 0 s1 = ret 0" "arg_at arg 1 s1 = ret (user_at i)" "arg_at arg 2 s1 = ret 1"
      using args [rule_format, of 0] args [rule_format, of 1] args [rule_format, of 2] by simp_all
    obtain M Q where e: "s1 = s\<lparr>mem := M, regs := Q\<rparr>" using sh by blast
    have h: "holds (s_keyboard_controller s1) (c # inp)" using r(2) e by simp
    let ?K = "(s_keyboard_controller s1)\<lparr>k_front := (k_front (s_keyboard_controller s1) + 1) mod 500\<rparr>"
    let ?s2 = "set_ring ?K s1" let ?t = "?s2\<lparr>mem := (mem ?s2)(u + of_nat i := c)\<rparr>"
    have us2: "user_space ?s2 T u ps" by (rule user_space_cong [OF us]) (simp_all add: set_ring_def)
    have key: "ReadKeyBuffer s1 = ret (Some c, ?s2)"
      using holds_take(1) [OF h] holds_empty [OF h] by (simp add: ReadKeyBuffer_def)
    have "poke8 (user_at i) c ?s2 = ret ?t" by (rule poke8_user(1) [OF us2 i(2)])
    then have "read_keys (user_at i) 1 (Suc 0) s1 = ret (Done 1, ?t)" using key by simp
    then have call: "call_function io (snd (system_calls ! 4)) arg s1 = ret (Done 1, ?t)"
      using a by (simp add: system_call_table call_function_def SysRead_def STANDARD_INPUT_def int16_def int32_def)
    have us3: "user_space ?t T u ps" by (rule poke8_user(2) [OF us2 i(2)])
    have u: "u + of_nat i \<in> page_span u" using i(2) by simp
    have m: "mem ?t = (mem s1)(u + of_nat i := c)" by (simp add: set_ring_def)
    have lt: "looks ?t G"
    proof (rule looks_cong [OF l])
      show "mem ?t x = mem s1 x" if "x \<in> screen_bytes" for x
        unfolding m using u apart(3) [OF that] by auto
    qed (simp_all add: set_ring_def)
    have "kernel_kept k s1 ?t"
      using apart(1) [OF i(2)] looks_screen_ok [OF lt] unfolding kernel_kept_def m by (auto simp: set_ring_def)
    moreover have "user_byte u ?t j = ?B j" if j: "sp \<le> j" "j < 2 ^ 21" for j
    proof -
      have "user_byte u ?t j = (if j = i then c else user_byte u s1 j)"
        unfolding user_byte_store [OF i(2) j(2)] by (simp add: user_byte_def set_ring_def)
      moreover have "?B j = (if j = i then c else user_byte u s j)" by (rule user_byte_store [OF i(2) j(2)])
      ultimately show ?thesis using kept j by (simp add: user_kept_byte)
    qed
    moreover have "holds (s_keyboard_controller ?t) inp" using holds_take(2) [OF h] by (simp add: set_ring_def)
    moreover have "s_total_mem ?t = s_total_mem s" "D (dev ?t) (s_BIOS_parameter_block ?t)" using e r(3) by (simp_all add: set_ring_def)
    ultimately show "\<exists>t. call_function io (snd (system_calls ! 4)) arg s1 = ret (Done 1, t) \<and> user_space t T u ps \<and> kernel_kept k s1 t
        \<and> holds (s_keyboard_controller t) inp \<and> looks t G \<and> s_total_mem t = s_total_mem s
        \<and> D (dev t) (s_BIOS_parameter_block t) \<and> (\<forall>j. sp \<le> j \<longrightarrow> j < 2 ^ 21 \<longrightarrow> user_byte u t j = ?B j)"
      using call us3 lt by blast
  qed simp_all
  moreover have "int32 (of_int 1) = 1" by (simp add: int32_def)
  ultimately show ?thesis by (simp add: read_call_def user_kept_byte)
qed

lemma kernel_tells_memory:
  fixes s :: "('d, 'z) io_kernel_scheme"
  assumes s: "terminal_state D T u ps k sp total_mem s inp G"
  shows "\<exists>t. mem_call (kernel_call io) s = ret (total_mem, t) \<and> terminal_state D T u ps k sp total_mem t inp G \<and> user_kept u sp s t"
proof -
  have r: "user_ready T u ps k sp s" "holds (s_keyboard_controller s) inp" "int32 (s_total_mem s) = total_mem" "D (dev s) (s_BIOS_parameter_block s)"
    using s by (simp_all add: terminal_state_def GetTotalMem_def)
  have "\<exists>t. kernel_call io (of_nat 5) [] s = ret (int32 (of_int (int32 (s_total_mem s))), t)
     \<and> terminal_state D T u ps k sp total_mem t inp G \<and> (\<forall>j. sp \<le> j \<longrightarrow> j < 2 ^ 21 \<longrightarrow> user_byte u t j = user_byte u s j)"
  proof (rule call_served [OF s])
    fix s1 :: "('d, 'z) io_kernel_scheme" and arg
    assume sh: "\<exists>M Q. s1 = s\<lparr>mem := M, regs := Q\<rparr>" and us: "user_space s1 T u ps" and l: "looks s1 G" and kept: "user_kept u sp s s1"
    have "kernel_kept k s1 s1" by (rule kernel_kept_refl [OF looks_screen_ok [OF l]])
    moreover have "s_keyboard_controller s1 = s_keyboard_controller s" "s_total_mem s1 = s_total_mem s" "D (dev s1) (s_BIOS_parameter_block s1)"
      using sh r(4) by auto
    moreover have "user_byte u s1 j = user_byte u s j" if "sp \<le> j" "j < 2 ^ 21" for j using kept that by (simp add: user_kept_byte)
    ultimately show "\<exists>t. call_function io (snd (system_calls ! 5)) arg s1 = ret (Done (int32 (s_total_mem s)), t) \<and> user_space t T u ps
        \<and> kernel_kept k s1 t \<and> holds (s_keyboard_controller t) inp \<and> looks t G \<and> s_total_mem t = s_total_mem s
        \<and> D (dev t) (s_BIOS_parameter_block t) \<and> (\<forall>j. sp \<le> j \<longrightarrow> j < 2 ^ 21 \<longrightarrow> user_byte u t j = user_byte u s j)"
      using us l r(2) by (intro exI [of _ s1]) (simp add: system_call_table call_function_def SysMemInfo_def GetTotalMem_def)
  qed simp_all
  moreover have "int32 (of_int total_mem) = total_mem" using int32_int32 [of "s_total_mem s"] unfolding r(3) .
  ultimately show ?thesis by (simp add: r(3) mem_call_def user_kept_byte)
qed

lemma ClrSrc_printed:
  assumes "looks s G" shows "printed s (ClrSrc s)" "looks (ClrSrc s) (\<lambda>_ _. (0, 0), 0, 0)"
proof -
  have c: "memset (mem s) VGA 0 4000 = fill (mem s) VGA 0 4000" by (subst memset_eq_fill) simp_all
  have z: "fill (mem s) VGA 0 4000 x = (if x \<in> screen_bytes then 0 else mem s x)" for x
    by (simp add: fill_apply screen_bytes_def)
  show "printed s (ClrSrc s)" by (simp add: printed_def ClrSrc_def c z screen_ok_def cursor_ok_def)
  have "same_screen (grid_of (fill (mem s) VGA 0 4000)) (\<lambda>_ _. (0, 0))"
    by (simp add: same_screen_def grid_of_def z vga_cell_in_screen)
  then show "looks (ClrSrc s) (\<lambda>_ _. (0, 0), 0, 0)"
    by (simp add: looks_def screen_rel_def ClrSrc_def c cursor_ok_def)
qed

lemma kernel_clears:
  fixes s :: "('d, 'z) io_kernel_scheme"
  assumes s: "terminal_state D T u ps k sp total_mem s inp G"
  shows "\<exists>t. clrscr (kernel_call io) s = ret t \<and> terminal_state D T u ps k sp total_mem t inp (\<lambda>_ _. (0, 0), 0, 0) \<and> user_kept u sp s t"
proof -
  let ?G = "(\<lambda>_ _. (0, 0), 0, 0) :: terminal"
  have r: "user_ready T u ps k sp s" "holds (s_keyboard_controller s) inp" "D (dev s) (s_BIOS_parameter_block s)" using s by (simp_all add: terminal_state_def)
  have "\<exists>t. kernel_call io (of_nat 11) [] s = ret (int32 (of_int 0), t)
     \<and> terminal_state D T u ps k sp total_mem t inp ?G \<and> (\<forall>j. sp \<le> j \<longrightarrow> j < 2 ^ 21 \<longrightarrow> user_byte u t j = user_byte u s j)"
  proof (rule call_served [OF s])
    fix s1 :: "('d, 'z) io_kernel_scheme" and arg
    assume sh: "\<exists>M Q. s1 = s\<lparr>mem := M, regs := Q\<rparr>" and us: "user_space s1 T u ps" and l: "looks s1 G" and kept: "user_kept u sp s s1"
    obtain M Q where e: "s1 = s\<lparr>mem := M, regs := Q\<rparr>" using sh by blast
    note pk = printing_kept [OF r(1) us e ClrSrc_printed(1) [OF l]]
    have "user_byte u (ClrSrc s1) j = user_byte u s j" if "sp \<le> j" "j < 2 ^ 21" for j
      using pk(5) [OF that(2)] kept that by (simp add: user_kept_byte)
    then show "\<exists>t. call_function io (snd (system_calls ! 11)) arg s1 = ret (Done 0, t) \<and> user_space t T u ps
        \<and> kernel_kept k s1 t \<and> holds (s_keyboard_controller t) inp \<and> looks t ?G \<and> s_total_mem t = s_total_mem s
        \<and> D (dev t) (s_BIOS_parameter_block t) \<and> (\<forall>j. sp \<le> j \<longrightarrow> j < 2 ^ 21 \<longrightarrow> user_byte u t j = user_byte u s j)"
      using pk(1-4,6,7) r(2,3) ClrSrc_printed(2) [OF l]
      by (intro exI [of _ "ClrSrc s1"]) (simp add: system_call_table call_function_def SysClrSrc_def)
  qed simp_all
  then show ?thesis by (auto simp: clrscr_def user_kept_byte)
qed

lemma terminal_state_own:
  fixes s :: "('d, 'z) io_kernel_scheme"
  assumes s: "terminal_state D T u ps k sp total_mem s inp G" and i: "i < 2 ^ 21"
  shows "terminal_state D T u ps k sp total_mem (s\<lparr>mem := (mem s)(u + of_nat i := b)\<rparr>) inp G"
proof -
  let ?t = "s\<lparr>mem := (mem s)(u + of_nat i := b)\<rparr>"
  have r: "user_ready T u ps k sp s" "looks s G" using s by (simp_all add: terminal_state_def)
  have "user_space ?t T u ps" by (rule poke8_user(2) [OF _ i]) (use r(1) in \<open>simp add: user_ready_def\<close>)
  then have "user_ready T u ps k sp ?t" using r(1) by (simp add: user_ready_def screen_ok_def)
  moreover have "looks ?t G"
  proof (rule looks_cong [OF r(2)])
    show "mem ?t x = mem s x" if "x \<in> screen_bytes" for x
      using stack_apart(3) [OF r(1) that] in_page [OF i, of u] by auto
  qed simp_all
  ultimately show ?thesis using s by (simp add: terminal_state_def GetTotalMem_def)
qed

interpretation os: terminal_service "kernel_call io" u sp total_mem "terminal_state D T u ps k sp total_mem"
  for io :: "'d ports" and D u sp total_mem T ps k
proof unfold_locales
  fix s :: "('d, 'z) io_kernel_scheme" and inp G and i :: nat and b
  assume s: "terminal_state D T u ps k sp total_mem s inp G"
  show "i < 2 ^ 21 \<Longrightarrow> user_place s (user_at i) = Some (u + of_nat i)"
    using s user_place_page [of s T u ps i] by (simp add: terminal_state_def user_ready_def)
  show "i < 2 ^ 21 \<Longrightarrow> terminal_state D T u ps k sp total_mem (s\<lparr>mem := (mem s)(u + of_nat i := b)\<rparr>) inp G"
    by (rule terminal_state_own [OF s])
qed (rule kernel_shows_text kernel_reads_key kernel_tells_memory kernel_clears; assumption)+


section \<open>Files that are not there\<close>

definition drive_at :: "'d ports \<Rightarrow> ('d \<Rightarrow> ata) \<Rightarrow> (nat \<Rightarrow> u16 list) \<Rightarrow> nat \<Rightarrow> BPB \<Rightarrow> 'd \<Rightarrow> BPB \<Rightarrow> bool" where
  "drive_at io view sector cap bpb d b \<longleftrightarrow>
     ata_drive io view sector cap \<and> a_words (view d) = [] \<and> b = bpb \<and> bytes_per_sector b = 512
     \<and> GetRootDirectoryStartSector b + unat (root_dir_entries b) * 32 div 512 \<le> cap"

lemma text_user_string:
  assumes "text_at u s i str" shows "user_string s u i str"
proof -
  have t: "i + length str < 2 ^ 21" "0 \<notin> set str" "\<forall>j<length str. user_byte u s (i + j) = str ! j" "user_byte u s (i + length str) = 0"
    using assms by (simp_all add: text_at_def)
  have "read_bytes (mem s) (u + of_nat i) (Suc (length str)) = str @ [0]"
    using t(3,4) by (intro nth_equalityI) (auto simp: read_bytes_def user_byte_def nth_append add.assoc less_Suc_eq)
  then show ?thesis using t by (simp add: user_string_def)
qed

lemma kernel_finds_nothing:
  fixes s :: "('d, 'z) io_kernel_scheme"
  assumes s: "terminal_state (drive_at io view sector cap bpb) T u (q # ps) k sp total_mem s inp G" and i: "sp \<le> i" and str: "text_at u s i name"
    and none: "lookup_from name 0 (directory sector bpb) = None"
  shows "\<exists>err t. open_call (kernel_call io) (user_at i) s = ret (err, t) \<and> err < 0
     \<and> terminal_state (drive_at io view sector cap bpb) T u (q # ps) k sp total_mem t inp G \<and> user_kept u sp s t"
proof -
  let ?D = "drive_at io view sector cap bpb" and ?p = "current_proc s" let ?as = "[user_at i]"
  have r: "user_ready T u (q # ps) k sp s" "holds (s_keyboard_controller s) inp" "?D (dev s) (s_BIOS_parameter_block s)"
    using s by (simp_all add: terminal_state_def)
  define err where "err = (if free_fd ?p s = None then - EMFILE else if free_descriptor s = None then - ENOMEM else - ENOENT)"
  have "- (2 ^ 31) \<le> err" "err < 0" by (simp_all add: err_def EMFILE_def ENOMEM_def ENOENT_def)
  then have e32: "int32 (of_int err) = err"
    by (auto simp: err_def EMFILE_def ENOMEM_def ENOENT_def int32_def)
  have "\<exists>t. kernel_call io (of_nat 6) ?as s = ret (int32 (of_int err), t)
     \<and> terminal_state ?D T u (q # ps) k sp total_mem t inp G \<and> (\<forall>j. sp \<le> j \<longrightarrow> j < 2 ^ 21 \<longrightarrow> user_byte u t j = user_byte u s j)"
  proof (rule call_served [OF s])
    fix s1 :: "('d, 'z) io_kernel_scheme" and arg
    assume sh: "\<exists>M Q. s1 = s\<lparr>mem := M, regs := Q\<rparr>" and us: "user_space s1 T u (q # ps)" and l: "looks s1 G" and kept: "user_kept u sp s s1"
      and args: "\<forall>j<length ?as. arg_at arg j s1 = ret (?as ! j)"
    have a: "arg_at arg 0 s1 = ret (user_at i)" using args [rule_format, of 0] by simp
    have same: "current_proc s1 = ?p" "free_fd p s1 = free_fd p s" "free_descriptor s1 = free_descriptor s" "s_keyboard_controller s1 = s_keyboard_controller s"
      "dev s1 = dev s" "s_BIOS_parameter_block s1 = s_BIOS_parameter_block s" "l_kernel_end s1 = l_kernel_end s" "s_total_mem s1 = s_total_mem s" for p
      using sh by (auto simp: free_fd_def free_descriptor_def GetMaxEntriesOfFDTable_def)
    have D1: "disk_ready io view sector cap s1" "s_BIOS_parameter_block s1 = bpb" using r(3) unfolding same(5,6) [symmetric] by (auto simp: disk_ready_def drive_at_def)
    have "user_string s1 u i name" by (rule text_user_string [OF text_at_kept [OF str kept i]])
    note run = Open_run [OF us this D1(1), of ?p]
    have "\<exists>t. Open io ?p (user_at i) s1 = ret (err, t) \<and> (t = s1 \<or> scratched q view s1 t \<and> user_space t T u (q # ps))"
    proof (cases "free_fd ?p s1 = None \<or> free_descriptor s1 = None")
      case True
      then have "Open io ?p (user_at i) s1 = ret (err, s1)" using same by (auto simp: Open_def err_def split: option.split)
      then show ?thesis by blast
    next
      case False
      then obtain fd d where f: "free_fd ?p s1 = Some fd" "free_descriptor s1 = Some d" by auto
      then have "err = - ENOENT" using same by (simp add: err_def)
      then show ?thesis using run [OF f] none D1(2) by auto
    qed
    then obtain t where t: "Open io ?p (user_at i) s1 = ret (err, t)" "t = s1 \<or> scratched q view s1 t \<and> user_space t T u (q # ps)" by blast
    have q: "valid_page (l_kernel_end s) q" "k \<noteq> q" "u \<noteq> q" "PHY_TO_VIR 0x200000 \<le> l_kernel_end s" "valid_page (l_kernel_end s) k"
      "valid_page (l_kernel_end s) u"
      using us r(1) spaceD(8) [of s1 "PHY_TO_VIR (cr3 s1)" T "q # ps" q] same(7) by (auto simp: user_ready_def user_space_def)
    have keep: "user_space t T u (q # ps)" "mem t x = mem s1 x" if "x \<notin> page_span q" for x
      using t(2) us that scratched_other(6) by blast+
    have qk: "x \<in> page_span k \<Longrightarrow> x \<notin> page_span q" "x \<in> screen_bytes \<Longrightarrow> x \<notin> page_span q" "x \<in> page_span u \<Longrightarrow> x \<notin> page_span q" for x
      using valid_pages_disjoint [OF q(5,1,2)] valid_pages_disjoint [OF q(6,1,3)] low_not_page [OF q(1,4)] screen_low by blast+
    have other: "tss_rsp0 t = tss_rsp0 s1" "s_syscall_table t = s_syscall_table s1" "l_kernel_end t = l_kernel_end s1" "cr3 t = cr3 s1"
      "scr_column t = scr_column s1" "scr_row t = scr_row s1" "s_keyboard_controller t = s_keyboard_controller s1" "s_total_mem t = s_total_mem s1"
      "s_BIOS_parameter_block t = s_BIOS_parameter_block s1" "?D (dev t) (s_BIOS_parameter_block t)"
      using t(2) r(3) same by (auto simp: scratched_def put_io_def drive_at_def)
    have "looks t G" by (rule looks_cong [OF l keep(2) [OF qk(2)]]) (simp_all add: other)
    moreover have "kernel_kept k s1 t" using other keep(2) [OF qk(1)] looks_screen_ok [OF calculation] by (simp add: kernel_kept_def)
    moreover have "user_space t T u (q # ps)" using t(2) us by blast
    moreover have "user_byte u t j = user_byte u s j" if j: "sp \<le> j" "j < 2 ^ 21" for j
      using keep(2) [OF qk(3) [OF in_page [OF j(2)]]] kept j by (simp add: user_kept_byte user_byte_def)
    moreover have "call_function io (snd (system_calls ! 6)) arg s1 = ret (Done err, t)"
      using a t(1) same(1) by (simp add: system_call_table call_function_def SysOpen_def)
    ultimately show "\<exists>t. call_function io (snd (system_calls ! 6)) arg s1 = ret (Done err, t) \<and> user_space t T u (q # ps) \<and> kernel_kept k s1 t
        \<and> holds (s_keyboard_controller t) inp \<and> looks t G \<and> s_total_mem t = s_total_mem s
        \<and> ?D (dev t) (s_BIOS_parameter_block t) \<and> (\<forall>j. sp \<le> j \<longrightarrow> j < 2 ^ 21 \<longrightarrow> user_byte u t j = user_byte u s j)"
      using other(7,8,10) same r(2) by auto
  qed simp_all
  then show ?thesis using e32 \<open>err < 0\<close> by (auto simp: open_call_def user_kept_byte)
qed

interpretation files: file_service "kernel_call io" u sp total_mem "terminal_state (drive_at io view sector cap bpb) T u (q # ps) k sp total_mem"
    "\<lambda>name. lookup_from name 0 (directory sector bpb) = None"
  for io :: "'d ports" and view sector cap bpb u sp total_mem T q ps k
  by unfold_locales (rule kernel_finds_nothing; assumption)

section \<open>printf on the kernel\<close>

text \<open>
  Property C9. From \<open>printf\<close> in a program to the screen: the text of the format, when it is shorter than the buffer and has no
  zero byte, is written by the terminal as \<open>printk\<close> formats it once more, so a text without a percent sign appears
  as it is; \<open>printf\<close> returns the length of the text, the keys typed ahead are still there, and the
  program's memory above its stack pointer, outside the buffer, is as before.
\<close>

theorem printf_reaches_terminal:
  fixes s :: "('d, 'z) io_kernel_scheme"
  assumes "terminal_state D T u ps k sp total_mem s inp G" "sp \<le> b" "b + 1024 \<le> 2 ^ 21"
    and "format_loop format args [] = ret msg" "length msg < 1024" "0 \<notin> set msg" "format_loop msg [] [] = ret shown"
  shows "\<exists>t. printf (kernel_call io) (user_at b) format args s = ret (int (length msg), t)
     \<and> terminal_state D T u ps k sp total_mem t inp (fold tty_put shown G)
     \<and> (\<forall>j. sp \<le> j \<longrightarrow> j < 2 ^ 21 \<longrightarrow> j \<notin> {b..<b + 1024} \<longrightarrow> user_byte u t j = user_byte u s j) \<and> (plain msg \<longrightarrow> shown = msg)"
proof -
  have "shown = msg" if "plain msg" using assms(5,7) format_loop_plain [OF that, of "[]" "[]"] by simp
  then show ?thesis using os.printf_shows [OF assms] by blast
qed

end
