(* ===== verification/User_Shell.thy ===== *)
theory User_Shell
  imports User_Services
begin

text \<open>
  The shell, \<open>usr/shell.c\<close>, the first program of the system. Its arrays are in the user page, where the frames
  of its functions put them; their addresses are a parameter. The call of the kernel is the parameter \<open>call\<close>:
  the shell runs on every kernel that keeps the contract of \<open>User_Services\<close>.

  A string argument of \<open>printf\<close> is read before the text is built, not character by character. An \<open>int\<close> passed
  where \<open>printf\<close> reads an \<open>int64_t\<close> has the same value here; the calling convention leaves its upper half open.
\<close>

section \<open>The program\<close>

text \<open>\<open>buffer[80]\<close> and \<open>data[2048]\<close> of \<open>main\<close>, \<open>c[2]\<close> of \<open>ReadCmd\<close>, \<open>buffer[1024]\<close> of \<open>printf\<close>.\<close>

record shell_frame =
  sh_buffer :: u64
  sh_data :: u64
  sh_c :: u64
  sh_print :: u64

text \<open>\<open>memcmp\<close> of a literal and the bytes at \<open>v\<close>.\<close>

primrec user_memcmp :: "u8 list \<Rightarrow> u64 \<Rightarrow> 'z kmem_scheme \<Rightarrow> u8 kres" where
  "user_memcmp [] v s = ret 0"
| "user_memcmp (a # as) v s =
     andthen (user_load v s) (\<lambda>b. if a - b \<noteq> 0 then ret (a - b) else user_memcmp as (v + 1) s)"

text \<open>\<open>printf\<close> with no argument, and with the string at \<open>v\<close>.\<close>

definition print_text :: "('d, 'z) calling \<Rightarrow> shell_frame \<Rightarrow> u8 list \<Rightarrow> karg list \<Rightarrow> ('d, 'z) io_kernel_scheme \<Rightarrow> ('d, 'z) io_kernel_scheme kres" where
  "print_text call fr format args s = andthen (printf call (sh_print fr) format args s) (\<lambda>(_, s1). ret s1)"

definition print_string :: "('d, 'z) calling \<Rightarrow> shell_frame \<Rightarrow> u8 list \<Rightarrow> u64 \<Rightarrow> ('d, 'z) io_kernel_scheme \<Rightarrow> ('d, 'z) io_kernel_scheme kres" where
  "print_string call fr format v s = andthen (user_text v s) (\<lambda>str. print_text call fr format [KStr str] s)"

text \<open>The loop of \<open>ReadCmd\<close>.\<close>

partial_function (option) read_cmd_loop :: "('d, 'z) calling \<Rightarrow> shell_frame \<Rightarrow> nat \<Rightarrow> ('d, 'z) io_kernel_scheme
    \<Rightarrow> (nat \<times> ('d, 'z) io_kernel_scheme) kres" where
  "read_cmd_loop call fr buffer_size s =
     andthen (read_call call 0 (sh_c fr) 1 s) (\<lambda>(_, s1).
     andthen (user_load (sh_c fr) s1) (\<lambda>c.
     if c = 10 \<or> buffer_size \<ge> 80 then
       andthen (print_string call fr (bytes_of ''%s'') (sh_c fr) s1) (\<lambda>s2. ret (buffer_size, s2))
     else if c = 8 then
       (if buffer_size > 0 then
          andthen (print_string call fr (bytes_of ''%s'') (sh_c fr) s1) (\<lambda>s2. read_cmd_loop call fr (buffer_size - 1) s2)
        else read_cmd_loop call fr buffer_size s1)
     else
       andthen (user_store [c] (sh_buffer fr + of_nat buffer_size) s1) (\<lambda>s2.
       andthen (print_string call fr (bytes_of ''%s'') (sh_c fr) s2) (\<lambda>s3. read_cmd_loop call fr (buffer_size + 1) s3))))"

definition ReadCmd :: "('d, 'z) calling \<Rightarrow> shell_frame \<Rightarrow> ('d, 'z) io_kernel_scheme \<Rightarrow> (nat \<times> ('d, 'z) io_kernel_scheme) kres" where
  "ReadCmd call fr s = andthen (user_store [0, 0] (sh_c fr) s) (read_cmd_loop call fr 0)"

definition ParseCmd :: "u64 \<Rightarrow> nat \<Rightarrow> 'z kmem_scheme \<Rightarrow> int kres" where
  "ParseCmd buffer n s =
     (if n = 3 then andthen (user_memcmp (bytes_of ''mem'') buffer s) (\<lambda>r. ret (if r = 0 then 0 else -1)) else ret (-1))"

text \<open>The division of \<open>int\<close>, which rounds to zero.\<close>

definition int_div :: "int \<Rightarrow> int \<Rightarrow> int" where
  "int_div a b = (if a < 0 then - (- a div b) else a div b)"

definition TotalMemCmd :: "('d, 'z) calling \<Rightarrow> shell_frame \<Rightarrow> ('d, 'z) io_kernel_scheme \<Rightarrow> ('d, 'z) io_kernel_scheme kres" where
  "TotalMemCmd call fr s =
     andthen (mem_call call s) (\<lambda>(v, s1). print_text call fr (kline ''Total memory is %dMB'') [KInt (of_int (int_div v 1024))] s1)"

text \<open>\<open>s_cmd_list\<close>: \<open>main\<close> sets entry 0, the others are null.\<close>

datatype CmdFunc = Cmd_TotalMemCmd

definition s_cmd_list :: "nat \<Rightarrow> CmdFunc option" where
  "s_cmd_list = (\<lambda>_. None)(0 := Some Cmd_TotalMemCmd)"

definition ExecuteCmd :: "('d, 'z) calling \<Rightarrow> shell_frame \<Rightarrow> int \<Rightarrow> ('d, 'z) io_kernel_scheme \<Rightarrow> ('d, 'z) io_kernel_scheme kres" where
  "ExecuteCmd call fr cmd s =
     andthen (demand (0 \<le> cmd \<and> cmd < 10) Out_of_bounds) (\<lambda>_.
     case s_cmd_list (nat cmd) of None \<Rightarrow> ret s | Some Cmd_TotalMemCmd \<Rightarrow> TotalMemCmd call fr s)"

text \<open>\<open>buffer[buffer_size] = 0\<close>; the array has 80 bytes.\<close>

definition end_line :: "shell_frame \<Rightarrow> nat \<Rightarrow> 'z kmem_scheme \<Rightarrow> 'z kmem_scheme kres" where
  "end_line fr n s = andthen (demand (n < 80) Out_of_bounds) (\<lambda>_. user_store [0] (sh_buffer fr + of_nat n) s)"

definition cat_command :: "('d, 'z) calling \<Rightarrow> shell_frame \<Rightarrow> nat \<Rightarrow> ('d, 'z) io_kernel_scheme \<Rightarrow> ('d, 'z) io_kernel_scheme kres" where
  "cat_command call fr n s =
     andthen (open_call call (sh_buffer fr + 4) s) (\<lambda>(fd, s1).
     if fd < 0 then andthen (end_line fr n s1) (print_string call fr (bytes_of ''Cannot read file: %s'') (sh_buffer fr + 4))
     else
       andthen (user_store (replicate 2048 0) (sh_data fr) s1) (\<lambda>s2.
       andthen (read_call call fd (sh_data fr) 2048 s2) (\<lambda>(bytes, s3).
       andthen (if bytes > 0 then print_string call fr (bytes_of ''%s'') (sh_data fr) s3
                else print_string call fr (bytes_of ''Cannot read file: %s'') (sh_buffer fr + 4) s3) (\<lambda>s4.
       andthen (close_call call fd s4) (\<lambda>(_, s5). ret s5)))))"

definition program_command :: "('d, 'z) calling \<Rightarrow> shell_frame \<Rightarrow> nat \<Rightarrow> ('d, 'z) io_kernel_scheme \<Rightarrow> ('d, 'z) io_kernel_scheme kres" where
  "program_command call fr n s =
     andthen (open_call call (sh_buffer fr) s) (\<lambda>(fd, s1).
     if fd < 0 then andthen (end_line fr n s1) (print_string call fr (kline (''Command '' @ [CHR 0x27] @ ''%s'' @ [CHR 0x27] @ '' not found.'')) (sh_buffer fr))
     else
       andthen (close_call call fd s1) (\<lambda>(_, s2).
       andthen (fork_call call s2) (\<lambda>(pid, s3).
       if pid = 0 then andthen (exec_call call (sh_buffer fr) s3) (\<lambda>(_, s4). ret s4)
       else andthen (wait_call call pid s3) (\<lambda>(_, s4). ret s4))))"

text \<open>One pass of the loop of \<open>main\<close>, and the loop.\<close>

definition shell_round :: "('d, 'z) calling \<Rightarrow> shell_frame \<Rightarrow> ('d, 'z) io_kernel_scheme \<Rightarrow> ('d, 'z) io_kernel_scheme kres" where
  "shell_round call fr s =
     andthen (print_text call fr (bytes_of ''shell# '') [] s) (\<lambda>s1.
     andthen (ReadCmd call fr s1) (\<lambda>(n, s2).
     if n = 0 then ret s2
     else
       andthen (ParseCmd (sh_buffer fr) n s2) (\<lambda>cmd.
       andthen (user_memcmp (bytes_of ''cat'') (sh_buffer fr) s2) (\<lambda>r.
       if r = 0 then cat_command call fr n s2
       else if cmd < 0 then program_command call fr n s2
       else ExecuteCmd call fr cmd s2))))"

partial_function (option) shell_loop :: "('d, 'z) calling \<Rightarrow> shell_frame \<Rightarrow> ('d, 'z) io_kernel_scheme \<Rightarrow> ('d, 'z) io_kernel_scheme kres" where
  "shell_loop call fr s = andthen (shell_round call fr s) (shell_loop call fr)"

definition shell_main :: "('d, 'z) calling \<Rightarrow> shell_frame \<Rightarrow> ('d, 'z) io_kernel_scheme \<Rightarrow> ('d, 'z) io_kernel_scheme kres" where
  "shell_main call fr s = andthen (user_store (replicate 80 0) (sh_buffer fr) s) (shell_loop call fr)"

section \<open>The line editor\<close>

text \<open>
  What \<open>ReadCmd\<close> does to its array and its counter with the keys typed: the array and the number of characters at
  the end, the echo, and the keys left. \<open>edited\<close> is the same on the line alone.
\<close>

definition echoed :: "u8 \<Rightarrow> ('r \<times> u8 list \<times> u8 list) option \<Rightarrow> ('r \<times> u8 list \<times> u8 list) option" where
  "echoed c = map_option (\<lambda>(r, echo, rest). (r, c # echo, rest))"

fun edit :: "u8 list \<Rightarrow> nat \<Rightarrow> u8 list \<Rightarrow> ((u8 list \<times> nat) \<times> u8 list \<times> u8 list) option" where
  "edit a n [] = None"
| "edit a n (c # cs) =
     (if c = 10 \<or> 80 \<le> n then Some ((a, n), [c], cs)
      else if c = 8 then
        (if n > 0 then echoed c (edit a (n - 1) cs) else edit a n cs)
      else echoed c (edit (a[n := c]) (n + 1) cs))"

fun edited :: "u8 list \<Rightarrow> u8 list \<Rightarrow> (u8 list \<times> u8 list \<times> u8 list) option" where
  "edited l [] = None"
| "edited l (c # cs) =
     (if c = 10 \<or> 80 \<le> length l then Some (l, [c], cs)
      else if c = 8 then
        (if l \<noteq> [] then echoed c (edited (butlast l) cs) else edited l cs)
      else echoed c (edited (l @ [c]) cs))"

text \<open>The line in the array.\<close>

definition line_of :: "((u8 list \<times> nat) \<times> u8 list \<times> u8 list) option \<Rightarrow> (u8 list \<times> u8 list \<times> u8 list) option" where
  "line_of = map_option (\<lambda>((a, n), echo, rest). (take n a, echo, rest))"

lemma edit_edited:
  "n \<le> length a \<Longrightarrow> length a = 80 \<Longrightarrow>
   line_of (edit a n cs) = edited (take n a) cs"
proof (induction a n cs rule: edit.induct)
  case (1 a n)
  then show ?case by (simp add: line_of_def)
next
  case (2 a n c cs)
  have t: "take n a = [] \<longleftrightarrow> n = 0" "length (take n a) = n" using "2.prems" by auto
  have b: "butlast (take n a) = take (n - 1) a" using "2.prems" by (simp add: butlast_take)
  have u: "take (n + 1) (a[n := c]) = take n a @ [c]" if "n < 80" using that "2.prems" by (simp add: take_Suc_conv_app_nth)
  have m: "line_of (echoed c x) = echoed c (line_of x)" for x
    by (cases x) (auto simp: echoed_def line_of_def)
  consider "c = 10 \<or> 80 \<le> n" | "\<not> (c = 10 \<or> 80 \<le> n)" "c = 8" "n > 0" | "\<not> (c = 10 \<or> 80 \<le> n)" "c = 8" "n = 0"
    | "\<not> (c = 10 \<or> 80 \<le> n)" "c \<noteq> 8" by blast
  then show ?case
  proof cases
    case 1
    then show ?thesis using "2.prems" by (auto simp: line_of_def)
  next
    case 2
    then show ?thesis using "2.IH"(1) "2.prems" t b m by simp
  next
    case 3
    then show ?thesis using "2.IH"(2) "2.prems" t by simp
  next
    case 4
    then show ?thesis using "2.IH"(3) "2.prems" t u m by simp
  qed
qed

lemma edit_length: "edit a n cs = Some ((a', n'), echo, rest) \<Longrightarrow> n \<le> 80 \<Longrightarrow> length a' = length a \<and> n' \<le> 80"
proof (induction a n cs arbitrary: echo rule: edit.induct)
  case (2 a n c cs)
  then show ?case by (auto simp: echoed_def split: if_splits)
qed simp

lemma edit_of_edited:
  assumes "edited [] inp = Some (line, echo, rest)" "length a = 80"
  obtains a' where "edit a 0 inp = Some ((a', length line), echo, rest)" "take (length line) a' = line" "length a' = 80"
proof -
  have e: "line_of (edit a 0 inp) = Some (line, echo, rest)" using edit_edited [of 0 a inp] assms by simp
  then obtain a' n where r: "edit a 0 inp = Some ((a', n), echo, rest)" "take n a' = line" by (auto simp: line_of_def)
  have "length a' = 80" "n \<le> 80" using edit_length [OF r(1)] assms(2) by simp_all
  then show thesis using that r by auto
qed

text \<open>A line typed without a correction: the array keeps what was behind it.\<close>

lemma edit_plain:
  "10 \<notin> set l \<Longrightarrow> 8 \<notin> set l \<Longrightarrow> n + length l < 80 \<Longrightarrow> length a = 80 \<Longrightarrow>
   edit a n (l @ 10 # rest) = Some ((take n a @ l @ drop (n + length l) a, n + length l), l @ [10], rest)"
proof (induction l arbitrary: a n)
  case Nil
  then show ?case by simp
next
  case (Cons c l)
  have "take (Suc n) (a[n := c]) = take n a @ [c]" using Cons.prems by (simp add: take_Suc_conv_app_nth)
  then show ?case using Cons.IH [of "Suc n" "a[n := c]"] Cons.prems by (simp add: echoed_def)
qed

section \<open>On a kernel that keeps the contract\<close>

text \<open>The arrays are in the user page above the stack pointer, apart from each other.\<close>

definition apart :: "nat \<Rightarrow> nat \<Rightarrow> nat \<Rightarrow> nat \<Rightarrow> bool" where
  "apart i n j m \<longleftrightarrow> i + n \<le> j \<or> j + m \<le> i"

definition frame_at :: "nat \<Rightarrow> shell_frame \<Rightarrow> nat \<Rightarrow> nat \<Rightarrow> nat \<Rightarrow> bool" where
  "frame_at sp fr b c p \<longleftrightarrow>
     sh_buffer fr = user_at b \<and> sh_c fr = user_at c \<and> sh_print fr = user_at p
     \<and> sp \<le> b \<and> b + 80 \<le> 2 ^ 21 \<and> sp \<le> c \<and> c + 2 \<le> 2 ^ 21 \<and> sp \<le> p \<and> p + 1024 \<le> 2 ^ 21
     \<and> apart b 80 c 2 \<and> apart b 80 p 1024 \<and> apart c 2 p 1024"

definition array_at :: "u64 \<Rightarrow> 'z kmem_scheme \<Rightarrow> nat \<Rightarrow> u8 list \<Rightarrow> bool" where
  "array_at u s b a \<longleftrightarrow> (\<forall>j<length a. user_byte u s (b + j) = a ! j)"

lemma array_at_wrote: "b + length a \<le> 2 ^ 21 \<Longrightarrow> array_at u (user_wrote u b a s) b a"
  by (simp add: array_at_def user_byte_wrote)

lemma format_string:
  "0 \<notin> set str \<Longrightarrow> length str \<le> 1024 \<Longrightarrow> format_loop (bytes_of ''%s'') [KStr str] [] = ret str"
  unfolding bytes_of_def list.map
  by (subst format_loop_directive [OF directives(4)]) (simp_all add: WriteStringToBuffer_cstring)

lemma format_char [simp]: "format_loop [c] [] [] = ret [c]"
  by (simp add: put_eq)

text \<open>The answer to \<open>mem\<close>.\<close>

definition memory_message :: "int \<Rightarrow> u8 list" where
  "memory_message n = bytes_of ''Total memory is '' @ WriteDecimalToBuffer (of_int n) @ kline ''MB''"

lemma decimal_bytes: "d \<in> set (WriteDecimalToBuffer n) \<Longrightarrow> d \<noteq> 0 \<and> d \<noteq> 37" "length (WriteDecimalToBuffer n) \<le> 21"
proof -
  have "x \<noteq> 0 \<and> x \<noteq> 37" if "x \<in> set (udec_digits m)" for x m using udec_digits_decimal [OF that] by auto
  then show "d \<in> set (WriteDecimalToBuffer n) \<Longrightarrow> d \<noteq> 0 \<and> d \<noteq> 37"
    by (auto simp: WriteDecimalToBuffer_def WriteUDecimalToBuffer_def bytes_of_def split: if_splits)
  show "length (WriteDecimalToBuffer n) \<le> 21"
    using digit_buffer_bounds [of n] digit_buffer_bounds [of "- n"]
    by (simp add: WriteDecimalToBuffer_def WriteUDecimalToBuffer_def bytes_of_def)
qed

lemma memory_message:
  "format_loop (kline ''Total memory is %dMB'') [KInt (of_int n)] [] = ret (memory_message n)"
  "plain (memory_message n)" "0 \<notin> set (memory_message n)" "length (memory_message n) < 1024"
proof -
  let ?a = "bytes_of ''Total memory is ''" let ?b = "kline ''MB''"
  have p: "plain ?a" "plain ?b" "length ?a = 16" "length ?b = 3" "0 \<notin> set ?a" "0 \<notin> set ?b"
    by (simp_all add: plain_def kline_def bytes_of_def)
  have "kline ''Total memory is %dMB'' = ?a @ [of_char CHR ''%'', of_char CHR ''d''] @ ?b" by (simp add: kline_def bytes_of_def)
  moreover have "format_loop (?a @ [of_char CHR ''%'', of_char CHR ''d''] @ ?b) [KInt (of_int n)] []
      = ret (?a @ WriteDecimalToBuffer (of_int n) @ ?b)"
    using decimal_bytes(2) [of "of_int n"] p by (intro format_one_directive [OF p(1,2) directives(3)]) simp
  ultimately show "format_loop (kline ''Total memory is %dMB'') [KInt (of_int n)] [] = ret (memory_message n)"
    by (simp only: memory_message_def)
  show "plain (memory_message n)" "0 \<notin> set (memory_message n)" "length (memory_message n) < 1024"
    using decimal_bytes(1) [of _ "of_int n"] decimal_bytes(2) [of "of_int n"] p by (auto simp: memory_message_def plain_def)
qed

context terminal_service
begin

lemma print_text_shows:
  assumes "serves s inp G" "frame_at sp fr b c p" "format_loop format args [] = ret msg" "length msg < 1024" "0 \<notin> set msg"
    "format_loop msg [] [] = ret shown"
  shows "\<exists>t. print_text call fr format args s = ret t \<and> serves t inp (fold tty_put shown G)
     \<and> (\<forall>j. sp \<le> j \<longrightarrow> j < 2 ^ 21 \<longrightarrow> apart j 1 p 1024 \<longrightarrow> user_byte u t j = user_byte u s j)"
proof -
  have f: "sh_print fr = user_at p" "sp \<le> p" "p + 1024 \<le> 2 ^ 21" using assms(2) by (simp_all add: frame_at_def)
  from printf_shows [OF assms(1) f(2,3) assms(3-6)] obtain t where
    t: "printf call (user_at p) format args s = ret (int (length msg), t)" "serves t inp (fold tty_put shown G)"
      "\<forall>j. sp \<le> j \<longrightarrow> j < 2 ^ 21 \<longrightarrow> j \<notin> {p..<p + 1024} \<longrightarrow> user_byte u t j = user_byte u s j" by blast
  have "j \<notin> {p..<p + 1024}" if "apart j 1 p 1024" for j using that by (auto simp: apart_def)
  then show ?thesis using t f(1) by (auto simp: print_text_def)
qed

text \<open>The echo of one key.\<close>

lemma echo_key:
  assumes s: "serves s inp G" and fr: "frame_at sp fr b c p" and k: "user_byte u s c = key" "user_byte u s (c + 1) = 0" "key \<noteq> 0"
  shows "\<exists>t. print_string call fr (bytes_of ''%s'') (sh_c fr) s = ret t \<and> serves t inp (tty_put key G)
     \<and> (\<forall>j<80. user_byte u t (b + j) = user_byte u s (b + j)) \<and> user_byte u t (c + 1) = 0"
proof -
  have f: "sh_c fr = user_at c" "sp \<le> c" "c + 2 \<le> 2 ^ 21" "sp \<le> b" "b + 80 \<le> 2 ^ 21" "apart b 80 p 1024" "apart c 2 p 1024"
    using fr by (simp_all add: frame_at_def)
  have "text_at u s c [key]" using k f(3) by (simp add: text_at_def)
  note str = user_text_ok [OF s this]
  have "format_loop (bytes_of ''%s'') [KStr [key]] [] = ret [key]" using k(3) by (intro format_string) simp_all
  note f1 = this
  have "length [key] < 1024" "0 \<notin> set [key]" using k(3) by simp_all
  from print_text_shows [OF s fr f1 this format_char] obtain t where
    t: "print_text call fr (bytes_of ''%s'') [KStr [key]] s = ret t" "serves t inp (tty_put key G)"
      "\<forall>j. sp \<le> j \<longrightarrow> j < 2 ^ 21 \<longrightarrow> apart j 1 p 1024 \<longrightarrow> user_byte u t j = user_byte u s j"
    unfolding fold.simps comp_def id_def by blast
  have "user_byte u t (b + j) = user_byte u s (b + j)" if "j < 80" for j
    using t(3) that f(4-6) by (intro t(3) [rule_format]) (auto simp: apart_def)
  moreover have "user_byte u t (c + 1) = user_byte u s (c + 1)"
    using f(2,3,7) by (intro t(3) [rule_format]) (auto simp: apart_def)
  ultimately show ?thesis using str t(1,2) f(1) k(2) by (auto simp: print_string_def)
qed

lemma read_cmd_loop_edits:
  "edit a n inp = Some ((a', n'), echo, rest) \<Longrightarrow> serves s inp G \<Longrightarrow> frame_at sp fr b c p \<Longrightarrow> length a = 80 \<Longrightarrow> n \<le> 80 \<Longrightarrow>
   array_at u s b a \<Longrightarrow> user_byte u s (c + 1) = 0 \<Longrightarrow> 0 \<notin> set inp \<Longrightarrow>
   \<exists>t. read_cmd_loop call fr n s = ret (n', t) \<and> serves t rest (fold tty_put echo G) \<and> array_at u t b a'"
proof (induction a n inp arbitrary: s G echo rule: edit.induct)
  case (1 a n)
  then show ?case by simp
next
  case (2 a n key inp)
  have f: "sh_c fr = user_at c" "sh_buffer fr = user_at b" "sp \<le> c" "c + 2 \<le> 2 ^ 21" "sp \<le> b" "b + 80 \<le> 2 ^ 21" "apart b 80 c 2"
    using "2.prems"(3) by (simp_all add: frame_at_def)
  have key: "key \<noteq> 0" "0 \<notin> set inp" using "2.prems"(8) by auto
  have ci: "c < 2 ^ 21" "c + 1 < 2 ^ 21" using f(4) by simp_all
  from reads_key [OF "2.prems"(2) f(3) ci(1)] obtain s1 where
    s1: "read_call call 0 (sh_c fr) 1 s = ret (1, s1)" "serves s1 inp G" "user_kept u sp (s\<lparr>mem := (mem s)(u + of_nat c := key)\<rparr>) s1"
    unfolding f(1) by blast
  have byte: "user_byte u s1 j = (if j = c then key else user_byte u s j)" if "sp \<le> j" "j < 2 ^ 21" for j
    using s1(3) that user_byte_store [OF ci(1) that(2), of u s key] by (simp add: user_kept_byte)
  have k1: "user_byte u s1 c = key" "user_byte u s1 (c + 1) = 0" using byte [OF f(3) ci(1)] byte [of "c + 1"] ci f(3) "2.prems"(7) by simp_all
  have a1: "array_at u s1 b a"
    using "2.prems"(4,6) f(5-7) byte by (auto simp: array_at_def apart_def)
  have load: "user_load (sh_c fr) s1 = ret key" unfolding f(1) load_ok [OF s1(2) ci(1)] k1(1) by (rule refl)
  note unfold = read_cmd_loop.simps [of call fr n s] s1(1) load
  from echo_key [OF s1(2) "2.prems"(3) k1 key(1)] obtain s2 where
    s2: "print_string call fr (bytes_of ''%s'') (sh_c fr) s1 = ret s2" "serves s2 inp (tty_put key G)"
      "\<forall>j<80. user_byte u s2 (b + j) = user_byte u s1 (b + j)" "user_byte u s2 (c + 1) = 0" by blast
  have a2: "array_at u s2 b a" using s2(3) a1 "2.prems"(4) by (simp add: array_at_def)
  consider "key = 10 \<or> 80 \<le> n" | "\<not> (key = 10 \<or> 80 \<le> n)" "key = 8" "n > 0" | "\<not> (key = 10 \<or> 80 \<le> n)" "key = 8" "n = 0"
    | "\<not> (key = 10 \<or> 80 \<le> n)" "key \<noteq> 8" by blast
  then show ?case
  proof cases
    case 1
    then have "read_cmd_loop call fr n s = ret (n, s2)" unfolding unfold andthen_simps prod.case using s2(1) by auto
    then show ?thesis using 1 "2.prems"(1) s2(2) a2 by auto
  next
    case 2
    then obtain e where e: "edit a (n - 1) inp = Some ((a', n'), e, rest)" "echo = key # e"
      using "2.prems"(1) by (auto simp: echoed_def)
    have "read_cmd_loop call fr n s = read_cmd_loop call fr (n - 1) s2" unfolding unfold andthen_simps prod.case using 2 s2(1) by auto
    then show ?thesis
      using "2.IH"(1) [OF 2 e(1) s2(2) "2.prems"(3,4) _ a2 s2(4) key(2)] "2.prems"(5) e(2) by simp
  next
    case 3
    have "read_cmd_loop call fr n s = read_cmd_loop call fr n s1" unfolding unfold andthen_simps prod.case using 3 by auto
    moreover have "edit a n inp = Some ((a', n'), echo, rest)" using "2.prems"(1) 3 by simp
    ultimately show ?thesis
      using "2.IH"(2) [OF 3(1,2) _ _ s1(2) "2.prems"(3,4) _ a1 k1(2) key(2)] 3(3) by simp
  next
    case 4
    then obtain e where e: "edit (a[n := key]) (n + 1) inp = Some ((a', n'), e, rest)" "echo = key # e"
      using "2.prems"(1) by (auto simp: echoed_def)
    have n: "n < 80" using 4(1) by simp
    let ?s2 = "user_wrote u (b + n) [key] s1"
    have st: "user_store [key] (sh_buffer fr + of_nat n) s1 = ret ?s2" "serves ?s2 inp G"
      using store_ok [OF s1(2), of "b + n" "[key]"] f(6) n unfolding f(2) by (simp_all add: add.assoc)
    have wb: "user_byte u ?s2 j = (if j = b + n then key else user_byte u s1 j)" if "j < 2 ^ 21" for j
      using user_byte_wrote [of "b + n" "[key]" j u s1] f(6) n that by auto
    have k2: "user_byte u ?s2 c = key" "user_byte u ?s2 (c + 1) = 0"
      using wb [OF ci(1)] wb [OF ci(2)] k1 f(7) n by (auto simp: apart_def)
    from echo_key [OF st(2) "2.prems"(3) k2 key(1)] obtain s3 where
      s3: "print_string call fr (bytes_of ''%s'') (sh_c fr) ?s2 = ret s3" "serves s3 inp (tty_put key G)"
        "\<forall>j<80. user_byte u s3 (b + j) = user_byte u ?s2 (b + j)" "user_byte u s3 (c + 1) = 0" by blast
    have a3: "array_at u s3 b (a[n := key])"
      using s3(3) a1 "2.prems"(4) wb f(6) n by (auto simp: array_at_def nth_list_update)
    have "read_cmd_loop call fr n s = read_cmd_loop call fr (n + 1) s3"
      unfolding unfold andthen_simps prod.case using 4 st(1) s3(1) by auto
    then show ?thesis
      using "2.IH"(3) [OF 4 e(1) s3(2) "2.prems"(3) _ _ a3 s3(4) key(2)] "2.prems"(4) n e(2) by simp
  qed
qed

lemma ReadCmd_edits:
  assumes "edit a 0 inp = Some ((a', n), echo, rest)" "serves s inp G" "frame_at sp fr b c p" "length a = 80" "array_at u s b a" "0 \<notin> set inp"
  shows "\<exists>t. ReadCmd call fr s = ret (n, t) \<and> serves t rest (fold tty_put echo G) \<and> array_at u t b a'"
proof -
  have f: "sh_c fr = user_at c" "c + 2 \<le> 2 ^ 21" "apart b 80 c 2" "b + 80 \<le> 2 ^ 21" using assms(3) by (simp_all add: frame_at_def)
  let ?s1 = "user_wrote u c [0, 0] s"
  have st: "user_store [0, 0] (sh_c fr) s = ret ?s1" "serves ?s1 inp G" using store_ok [OF assms(2), of c "[0, 0]"] f(1,2) by simp_all
  have byte: "user_byte u ?s1 j = (if c \<le> j \<and> j < c + 2 then [0, 0] ! (j - c) else user_byte u s j)" if "j < 2 ^ 21" for j
    using user_byte_wrote [of c "[0, 0]" j u s] f(2) that by simp
  have "array_at u ?s1 b a" using assms(4,5) f(3,4) byte by (auto simp: array_at_def apart_def)
  moreover have "user_byte u ?s1 (c + 1) = 0" using byte [of "c + 1"] f(2) by simp
  ultimately show ?thesis
    using read_cmd_loop_edits [OF assms(1) st(2) assms(3,4) _ _ _ assms(6)] st(1) by (simp add: ReadCmd_def)
qed

lemma user_memcmp_ok:
  "serves s inp G \<Longrightarrow> b + length lit \<le> 2 ^ 21 \<Longrightarrow>
   \<exists>r. user_memcmp lit (user_at b) s = ret r \<and> (r = 0 \<longleftrightarrow> (\<forall>j<length lit. user_byte u s (b + j) = lit ! j))"
proof (induction lit arbitrary: b)
  case Nil
  then show ?case by simp
next
  case (Cons x lit)
  then have b: "b < 2 ^ 21" by simp
  have next_at: "user_at b + 1 = user_at (Suc b)" by (rule Suc_offset)
  have eq: "x - user_byte u s b \<noteq> 0 \<longleftrightarrow> user_byte u s b \<noteq> x" by auto
  have all: "(\<forall>j<length (x # lit). user_byte u s (b + j) = (x # lit) ! j)
      \<longleftrightarrow> user_byte u s b = x \<and> (\<forall>j<length lit. user_byte u s (Suc b + j) = lit ! j)"
    unfolding length_Cons All_less_Suc2 by simp
  from Cons.IH [OF Cons.prems(1), of "Suc b"] Cons.prems(2) obtain r where
    r: "user_memcmp lit (user_at (Suc b)) s = ret r" "r = 0 \<longleftrightarrow> (\<forall>j<length lit. user_byte u s (Suc b + j) = lit ! j)" by auto
  show ?case
    unfolding user_memcmp.simps load_ok [OF Cons.prems(1) b] andthen_simps next_at all eq
    using r by (cases "user_byte u s b = x") auto
qed

text \<open>The prompt and the line: where a round is when it has read its line.\<close>

lemma shell_reads_line:
  assumes "edit a 0 inp = Some ((a', n), echo, rest)" "serves s inp G" "frame_at sp fr b c p" "length a = 80" "array_at u s b a" "0 \<notin> set inp"
  shows "\<exists>t. shell_round call fr s = (if n = 0 then ret t else
       andthen (ParseCmd (sh_buffer fr) n t) (\<lambda>cmd.
       andthen (user_memcmp (bytes_of ''cat'') (sh_buffer fr) t) (\<lambda>r.
       if r = 0 then cat_command call fr n t
       else if cmd < 0 then program_command call fr n t
       else ExecuteCmd call fr cmd t)))
     \<and> serves t rest (fold tty_put (bytes_of ''shell# '' @ echo) G) \<and> array_at u t b a'"
proof -
  let ?m = "bytes_of ''shell# ''"
  have m: "plain ?m" "length ?m = 7" "0 \<notin> set ?m" by (simp_all add: plain_def bytes_of_def)
  have fl: "format_loop ?m [] [] = ret ?m" using format_loop_plain [OF m(1), of "[]" "[]"] m(2) by simp
  have "length ?m < 1024" using m(2) by simp
  from print_text_shows [OF assms(2,3) fl this m(3) fl] obtain s1 where
    s1: "print_text call fr ?m [] s = ret s1" "serves s1 inp (fold tty_put ?m G)"
      "\<forall>j. sp \<le> j \<longrightarrow> j < 2 ^ 21 \<longrightarrow> apart j 1 p 1024 \<longrightarrow> user_byte u s1 j = user_byte u s j" by blast
  have f: "sp \<le> b" "b + 80 \<le> 2 ^ 21" "apart b 80 p 1024" using assms(3) by (simp_all add: frame_at_def)
  have "user_byte u s1 (b + j) = user_byte u s (b + j)" if "j < 80" for j
    using that f by (intro s1(3) [rule_format]) (auto simp: apart_def)
  then have "array_at u s1 b a" using assms(4,5) by (simp add: array_at_def)
  from ReadCmd_edits [OF assms(1) s1(2) assms(3,4) this assms(6)] obtain t where
    t: "ReadCmd call fr s1 = ret (n, t)" "serves t rest (fold tty_put echo (fold tty_put ?m G))" "array_at u t b a'" by blast
  then show ?thesis using s1(1) by (intro exI [of _ t]) (simp add: shell_round_def)
qed

lemma literal_at:
  assumes "serves s inp G" "b + length lit \<le> 2 ^ 21" "array_at u s b a" "length lit \<le> length a"
  shows "\<exists>r. user_memcmp lit (user_at b) s = ret r \<and> (r = 0 \<longleftrightarrow> take (length lit) a = lit)"
proof -
  have "(\<forall>j<length lit. user_byte u s (b + j) = lit ! j) \<longleftrightarrow> take (length lit) a = lit"
    using assms(3,4) by (auto simp: array_at_def list_eq_iff_nth_eq)
  then show ?thesis using user_memcmp_ok [OF assms(1,2)] by simp
qed

lemma TotalMemCmd_shows:
  assumes "serves s inp G" "frame_at sp fr b c p"
  shows "\<exists>t. TotalMemCmd call fr s = ret t \<and> serves t inp (fold tty_put (memory_message (int_div total_mem 1024)) G)"
proof -
  let ?n = "int_div total_mem 1024"
  from tells_memory [OF assms(1)] obtain s1 where s1: "mem_call call s = ret (total_mem, s1)" "serves s1 inp G" by blast
  have "format_loop (memory_message ?n) [] [] = ret (memory_message ?n)"
    using format_loop_plain [where a = "memory_message ?n" and buffer = "[]" and args = "[]"] memory_message(2,4) [of ?n] by simp
  from print_text_shows [OF s1(2) assms(2) memory_message(1,4,3) this] s1(1) show ?thesis by (auto simp: TotalMemCmd_def)
qed

lemma shell_mem_round:
  assumes "edited [] inp = Some (bytes_of ''mem'', echo, rest)" "serves s inp G" "frame_at sp fr b c p" "length a = 80" "array_at u s b a"
    "0 \<notin> set inp"
  shows "\<exists>t. shell_round call fr s = ret t
     \<and> serves t rest (fold tty_put (bytes_of ''shell# '' @ echo @ memory_message (int_div total_mem 1024)) G)"
proof -
  have m: "length (bytes_of ''mem'') = 3" "bytes_of ''mem'' \<noteq> bytes_of ''cat''" "length (bytes_of ''cat'') = 3" by (simp_all add: bytes_of_def)
  obtain a' where a: "edit a 0 inp = Some ((a', 3), echo, rest)" "take 3 a' = bytes_of ''mem''" "length a' = 80"
    using edit_of_edited [OF assms(1,4)] m(1) by auto
  from shell_reads_line [OF a(1) assms(2-6)] obtain t where t: "shell_round call fr s = andthen (ParseCmd (sh_buffer fr) 3 t) (\<lambda>cmd.
       andthen (user_memcmp (bytes_of ''cat'') (sh_buffer fr) t) (\<lambda>r.
       if r = 0 then cat_command call fr 3 t
       else if cmd < 0 then program_command call fr 3 t
       else ExecuteCmd call fr cmd t))" "serves t rest (fold tty_put (bytes_of ''shell# '' @ echo) G)" "array_at u t b a'" by auto
  have f: "sh_buffer fr = user_at b" "b + 3 \<le> 2 ^ 21" using assms(3) by (simp_all add: frame_at_def)
  have "\<exists>r. user_memcmp (bytes_of ''mem'') (sh_buffer fr) t = ret r \<and> r = 0"
    using literal_at [OF t(2) _ t(3), of "bytes_of ''mem''"] a(2,3) f m(1) by auto
  moreover have "\<exists>r. user_memcmp (bytes_of ''cat'') (sh_buffer fr) t = ret r \<and> r \<noteq> 0"
    using literal_at [OF t(2) _ t(3), of "bytes_of ''cat''"] a(2,3) f m(2,3) by auto
  moreover have "ExecuteCmd call fr 0 t = TotalMemCmd call fr t" by (simp add: ExecuteCmd_def s_cmd_list_def)
  ultimately have "shell_round call fr s = TotalMemCmd call fr t" using t(1) by (auto simp: ParseCmd_def)
  then show ?thesis using TotalMemCmd_shows [OF t(2) assms(3)] by simp
qed

text \<open>Where a round opens a program: the name is what the array holds up to a zero, not the line.\<close>

lemma shell_opens:
  assumes "edit a 0 inp = Some ((a', n), echo, rest)" "serves s inp G" "frame_at sp fr b c p" "length a = 80" "array_at u s b a" "0 \<notin> set inp"
    and l: "n \<noteq> 0" "take n a' \<noteq> bytes_of ''mem''" "take 3 a' \<noteq> bytes_of ''cat''" "0 \<in> set a'"
  shows "\<exists>t. shell_round call fr s = program_command call fr n t \<and> serves t rest (fold tty_put (bytes_of ''shell# '' @ echo) G)
     \<and> text_at u t b (takeWhile (\<lambda>x. x \<noteq> 0) a') \<and> array_at u t b a'"
proof -
  have m: "length (bytes_of ''mem'') = 3" "length (bytes_of ''cat'') = 3" by (simp_all add: bytes_of_def)
  from shell_reads_line [OF assms(1-6)] l(1) obtain t where t: "shell_round call fr s = andthen (ParseCmd (sh_buffer fr) n t) (\<lambda>cmd.
       andthen (user_memcmp (bytes_of ''cat'') (sh_buffer fr) t) (\<lambda>r.
       if r = 0 then cat_command call fr n t
       else if cmd < 0 then program_command call fr n t
       else ExecuteCmd call fr cmd t))" "serves t rest (fold tty_put (bytes_of ''shell# '' @ echo) G)" "array_at u t b a'" by auto
  have f: "sh_buffer fr = user_at b" "b + 80 \<le> 2 ^ 21" using assms(3) by (simp_all add: frame_at_def)
  have la: "length a' = 80" using edit_length [OF assms(1)] assms(4) by simp
  have "ParseCmd (sh_buffer fr) n t = ret (-1)"
  proof (cases "n = 3")
    case True
    then have "\<exists>r. user_memcmp (bytes_of ''mem'') (sh_buffer fr) t = ret r \<and> r \<noteq> 0"
      using literal_at [OF t(2) _ t(3), of "bytes_of ''mem''"] l(2) f la m(1) by auto
    then show ?thesis using True by (auto simp: ParseCmd_def)
  qed (simp add: ParseCmd_def)
  moreover have "\<exists>r. user_memcmp (bytes_of ''cat'') (sh_buffer fr) t = ret r \<and> r \<noteq> 0"
    using literal_at [OF t(2) _ t(3), of "bytes_of ''cat''"] l(3) f la m(2) by auto
  ultimately have "shell_round call fr s = program_command call fr n t" using t(1) by auto
  moreover have "text_at u t b (takeWhile (\<lambda>x. x \<noteq> 0) a')"
  proof -
    let ?w = "takeWhile (\<lambda>x. x \<noteq> 0) a'"
    have "?w \<noteq> a'" using l(4) by (metis (mono_tags, lifting) takeWhile_eq_all_conv)
    then have w: "length ?w < length a'"
      using takeWhile_eq_take [of "\<lambda>x. x \<noteq> 0" a'] length_takeWhile_le [of "\<lambda>x. x \<noteq> 0" a'] by (metis le_neq_implies_less order_refl take_all)
    have "a' ! length ?w = 0" using nth_length_takeWhile [of "\<lambda>x. x \<noteq> 0" a'] w by blast
    moreover have "?w ! j = a' ! j" if "j < length ?w" for j using that by (rule takeWhile_nth)
    ultimately show ?thesis
      using w t(3) f(2) la by (auto simp: text_at_def array_at_def dest: set_takeWhileD)
  qed
  ultimately show ?thesis using t(2,3) by blast
qed

end

text \<open>The answer to the name of no program.\<close>

definition not_found_message :: "u8 list \<Rightarrow> u8 list" where
  "not_found_message name = bytes_of (''Command '' @ [CHR 0x27]) @ name @ kline ([CHR 0x27] @ '' not found.'')"

lemma not_found_message:
  assumes "plain name" "0 \<notin> set name" "length name \<le> 80"
  shows "format_loop (kline (''Command '' @ [CHR 0x27] @ ''%s'' @ [CHR 0x27] @ '' not found.'')) [KStr name] [] = ret (not_found_message name)"
    "plain (not_found_message name)" "0 \<notin> set (not_found_message name)" "length (not_found_message name) < 1024"
proof -
  let ?a = "bytes_of (''Command '' @ [CHR 0x27])" let ?b = "kline ([CHR 0x27] @ '' not found.'')"
  have p: "plain ?a" "plain ?b" "length ?a = 9" "length ?b = 13" "0 \<notin> set ?a" "0 \<notin> set ?b"
    by (simp_all add: plain_def kline_def bytes_of_def)
  have "kline (''Command '' @ [CHR 0x27] @ ''%s'' @ [CHR 0x27] @ '' not found.'') = ?a @ [of_char CHR ''%'', of_char CHR ''s''] @ ?b"
    by (simp add: kline_def bytes_of_def)
  moreover have "format_loop (?a @ [of_char CHR ''%'', of_char CHR ''s''] @ ?b) [KStr name] [] = ret (?a @ WriteStringToBuffer name @ ?b)"
    using p assms by (intro format_one_directive [OF p(1,2) directives(4)]) (simp add: WriteStringToBuffer_cstring)
  ultimately show "format_loop (kline (''Command '' @ [CHR 0x27] @ ''%s'' @ [CHR 0x27] @ '' not found.'')) [KStr name] [] = ret (not_found_message name)"
    by (simp only: not_found_message_def WriteStringToBuffer_cstring [OF assms(2)])
  show "plain (not_found_message name)" "0 \<notin> set (not_found_message name)" "length (not_found_message name) < 1024"
    using assms p by (auto simp: not_found_message_def plain_def)
qed

context file_service
begin

lemma program_not_found:
  assumes s: "serves s inp G" and fr: "frame_at sp fr b c p" and t: "text_at u s b name" "missing name"
    and l: "array_at u s b a" "length a = 80" "n < 80" "plain (take n a)" "0 \<notin> set (take n a)"
  shows "\<exists>t. program_command call fr n s = ret t \<and> serves t inp (fold tty_put (not_found_message (take n a)) G)"
proof -
  have f: "sh_buffer fr = user_at b" "sp \<le> b" "b + 80 \<le> 2 ^ 21" using fr by (simp_all add: frame_at_def)
  from finds_nothing [OF s f(2) t] obtain err s1 where s1: "open_call call (user_at b) s = ret (err, s1)" "err < 0" "serves s1 inp G" "user_kept u sp s s1"
    by blast
  let ?s2 = "user_wrote u (b + n) [0] s1"
  have st: "user_store [0] (sh_buffer fr + of_nat n) s1 = ret ?s2" "serves ?s2 inp G"
    using store_ok [OF s1(3), of "b + n" "[0]"] f l(3) by (simp_all add: add.assoc)
  have wb: "user_byte u ?s2 j = (if j = b + n then 0 else user_byte u s1 j)" if "j < 2 ^ 21" for j
    using user_byte_wrote [of "b + n" "[0]" j u s1] f(3) l(3) that by auto
  have "text_at u ?s2 b (take n a)"
    using l wb f s1(4) by (auto simp: text_at_def array_at_def user_kept_byte)
  note str = user_text_ok [OF st(2) this]
  have m': "length (take n a) \<le> 80" using l(2) by simp
  note m = not_found_message [OF l(4,5) m']
  have "format_loop (not_found_message (take n a)) [] [] = ret (not_found_message (take n a))"
    using format_loop_plain [where a = "not_found_message (take n a)" and buffer = "[]" and args = "[]"] m(2,4) by simp
  from print_text_shows [OF st(2) fr m(1,4,3) this] obtain t where
    "print_text call fr (kline (''Command '' @ [CHR 0x27] @ ''%s'' @ [CHR 0x27] @ '' not found.'')) [KStr (take n a)] ?s2 = ret t"
    "serves t inp (fold tty_put (not_found_message (take n a)) G)" by blast
  then show ?thesis using s1(1,2) st(1) str l(3) by (simp add: program_command_def f(1) end_line_def print_string_def)
qed

lemma shell_unknown_round:
  assumes e: "edit a 0 inp = Some ((a', n), echo, rest)" and s: "serves s inp G" "frame_at sp fr b c p" "length a = 80" "array_at u s b a" "0 \<notin> set inp"
    and l: "n \<noteq> 0" "n < 80" "take n a' \<noteq> bytes_of ''mem''" "take 3 a' \<noteq> bytes_of ''cat''" "0 \<in> set a'" "plain (take n a')" "0 \<notin> set (take n a')"
    and none: "missing (takeWhile (\<lambda>x. x \<noteq> 0) a')"
  shows "\<exists>t. shell_round call fr s = ret t
     \<and> serves t rest (fold tty_put (bytes_of ''shell# '' @ echo @ not_found_message (take n a')) G)"
proof -
  from shell_opens [OF e s l(1,3-5)] obtain t where t: "shell_round call fr s = program_command call fr n t" "serves t rest (fold tty_put (bytes_of ''shell# '' @ echo) G)"
    "text_at u t b (takeWhile (\<lambda>x. x \<noteq> 0) a')" "array_at u t b a'" by blast
  have "length a' = 80" using edit_length [OF e] s(3) by simp
  from program_not_found [OF t(2) s(2) t(3) none t(4) this l(2,6,7)] t(1) show ?thesis by auto
qed

end

section \<open>The shell on the kernel\<close>

text \<open>
  Property C7. \<open>ReadCmd\<close> is a line editor: from the keys typed it returns the length of the edited line, which
  is at the start of the array; a backspace takes the last character away and does nothing on an empty line, the
  line ends at the end of line or at the key behind the 80th character, every key but a backspace on an empty line is echoed,
  and the keys behind the line stay in the keyboard buffer.
\<close>

theorem ReadCmd_edits_line:
  fixes s :: "('d, 'z) io_kernel_scheme"
  assumes "terminal_state D T u ps k sp total_mem s inp G" "frame_at sp fr b c p" "array_at u s b a" "length a = 80" "0 \<notin> set inp"
    and "edited [] inp = Some (line, echo, rest)"
  shows "\<exists>t a'. ReadCmd (kernel_call io) fr s = ret (length line, t) \<and> array_at u t b a' \<and> take (length line) a' = line
     \<and> terminal_state D T u ps k sp total_mem t rest (fold tty_put echo G)"
proof -
  obtain a' where a: "edit a 0 inp = Some ((a', length line), echo, rest)" "take (length line) a' = line"
    using edit_of_edited [OF assms(6,4)] by blast
  from os.ReadCmd_edits [OF a(1) assms(1,2,4,3,5)] a(2) show ?thesis by blast
qed

text \<open>
  Property C8. The command \<open>mem\<close>, however it is typed and corrected, makes the shell show its prompt, the echo and the size of the
  memory: the bytes the kernel has counted, cut to an \<open>int\<close> and divided by 1024, with the unit \<open>MB\<close>.
\<close>

theorem shell_answers_mem:
  fixes s :: "('d, 'z) io_kernel_scheme"
  assumes "terminal_state D T u ps k sp total_mem s inp G" "frame_at sp fr b c p" "array_at u s b a" "length a = 80" "0 \<notin> set inp"
    and "edited [] inp = Some (bytes_of ''mem'', echo, rest)"
  shows "\<exists>t. shell_round (kernel_call io) fr s = ret t
     \<and> terminal_state D T u ps k sp total_mem t rest (fold tty_put (bytes_of ''shell# '' @ echo @ memory_message (int_div total_mem 1024)) G)"
  using os.shell_mem_round [OF assms(6,1,2,4,3,5)] .

text \<open>
  Property C6. The shell looks for the wrong program: the name it opens is the line with what the array holds behind it, up to a zero,
  and \<open>main\<close> clears the array only once. If no file has that longer name, the shell says
  that the command is not found and names the line alone, whether or not there is a program of that name.
\<close>

theorem shell_opens_line_and_rest:
  fixes s :: "('d, 'z) io_kernel_scheme"
  assumes "terminal_state (drive_at io view sector cap bpb) T u (q # ps) k sp total_mem s (line @ 10 # rest) G" "frame_at sp fr b c p"
    and "array_at u s b a" "length a = 80" "0 \<notin> set (line @ 10 # rest)" "10 \<notin> set line" "8 \<notin> set line" "plain line"
    and "line \<noteq> []" "length line < 80" "line \<noteq> bytes_of ''mem''" "take 3 (line @ drop (length line) a) \<noteq> bytes_of ''cat''"
    and "0 \<in> set (drop (length line) a)" "lookup_from (line @ takeWhile (\<lambda>x. x \<noteq> 0) (drop (length line) a)) 0 (directory sector bpb) = None"
  shows "\<exists>t. shell_round (kernel_call io) fr s = ret t
     \<and> terminal_state (drive_at io view sector cap bpb) T u (q # ps) k sp total_mem t rest
         (fold tty_put (bytes_of ''shell# '' @ line @ [10] @ not_found_message line) G)"
proof -
  let ?a = "line @ drop (length line) a"
  have e: "edit a 0 (line @ 10 # rest) = Some ((?a, length line), line @ [10], rest)"
    using edit_plain [OF assms(6,7), of 0 a rest] assms(4,10) by simp
  have tw: "takeWhile (\<lambda>x. x \<noteq> 0) ?a = line @ takeWhile (\<lambda>x. x \<noteq> 0) (drop (length line) a)"
    using assms(5) by (intro takeWhile_append2) auto
  have t: "take (length line) ?a = line" "0 \<in> set ?a" "length line \<noteq> 0" "plain (take (length line) ?a)" "0 \<notin> set (take (length line) ?a)"
    using assms(5,8,9,13) by simp_all
  show ?thesis
    using files.shell_unknown_round [OF e assms(1,2,4,3,5) t(3) assms(10) _ assms(12) t(2,4,5)] assms(11,14) t(1) tw by simp
qed

end
