(* ===== verification/User_Commands.thy ===== *)
theory User_Commands
  imports User_Shell
begin

text \<open>
  The commands: \<open>ls\<close> (\<open>usr/cmd/ls.c\<close>), \<open>clr\<close> (\<open>usr/cmd/clr.c\<close>), and the small programs \<open>usr/process1.c\<close>,
  \<open>process3.c\<close> and \<open>process4.c\<close>.
\<close>

section \<open>ls\<close>

text \<open>The fields of \<open>stat\<close> the program reads, and a record of 32 bytes.\<close>

record stat =
  st_name :: "u8 list"
  st_ext :: "u8 list"
  st_attributes :: u8
  st_create_time :: u16
  st_create_date :: u16
  st_file_size :: u32

definition parse_stat :: "u8 list \<Rightarrow> stat" where
  "parse_stat bs = \<lparr>st_name = take 8 bs, st_ext = take 3 (drop 8 bs), st_attributes = bs ! 11,
     st_create_time = of_nat (le_nat (take 2 (drop 14 bs))), st_create_date = of_nat (le_nat (take 2 (drop 16 bs))),
     st_file_size = of_nat (le_nat (take 4 (drop 28 bs)))\<rparr>"

definition FILE_ATTR_DIRECTORY :: u8 where
  "FILE_ATTR_DIRECTORY = 0x10"

text \<open>One of the two loops of \<open>GetRelativeFileName\<close>, at index \<open>i\<close> of the field and \<open>pos\<close> of \<open>buf\<close>.\<close>

function copy_field :: "u8 list \<Rightarrow> nat \<Rightarrow> u8 list \<Rightarrow> nat \<Rightarrow> (u8 list \<times> nat) kres" where
  "copy_field field i buf pos =
     (if field ! i \<noteq> 0 \<and> field ! i \<noteq> 32 then
        andthen (put_at buf pos (field ! i)) (\<lambda>buf1.
        if i \<ge> length field - 1 then ret (buf1, pos + 1) else copy_field field (i + 1) buf1 (pos + 1))
      else ret (buf, pos))"
  by pat_completeness auto
termination
  by (relation "measure (\<lambda>(field, i, _, _). length field - i)") auto

declare copy_field.simps [simp del]

definition ls_GetRelativeFileName :: "stat \<Rightarrow> u8 list \<Rightarrow> u8 list kres" where
  "ls_GetRelativeFileName entry buf =
     andthen (copy_field (st_name entry) 0 buf 0) (\<lambda>(buf1, pos1).
     andthen (put_at buf1 pos1 46) (\<lambda>buf2.
     andthen (copy_field (st_ext entry) 0 buf2 (pos1 + 1)) (\<lambda>(buf3, pos3).
     put_at buf3 pos3 0)))"

function lowers_loop :: "u8 list \<Rightarrow> nat \<Rightarrow> u8 list kres" where
  "lowers_loop str i =
     (if i < length str then
        if str ! i \<noteq> 0 then lowers_loop (str[i := ucast (tolower (scast (str ! i)))]) (i + 1) else ret str
      else fails Out_of_bounds)"
  by pat_completeness auto
termination
  by (relation "measure (\<lambda>(str, i). length str - i)") auto

declare lowers_loop.simps [simp del]

definition toLowers :: "u8 list \<Rightarrow> u8 list kres" where
  "toLowers str = lowers_loop str 0"

text \<open>The time and the date, as \<open>int\<close>. The hours get a time zone of seven hours.\<close>

definition ls_seconds :: "stat \<Rightarrow> u32" where
  "ls_seconds st = ucast (st_create_time st) AND 0x001F"

definition ls_minutes :: "stat \<Rightarrow> u32" where
  "ls_minutes st = drop_bit 5 (ucast (st_create_time st) AND push_bit 5 0x003F)"

definition ls_hours :: "stat \<Rightarrow> u32" where
  "ls_hours st = drop_bit 11 (ucast (st_create_time st) AND push_bit 11 0x001F) + 7"

definition ls_day :: "stat \<Rightarrow> u32" where
  "ls_day st = ucast (st_create_date st) AND 0x001F"

definition ls_month :: "stat \<Rightarrow> u32" where
  "ls_month st = drop_bit 5 (ucast (st_create_date st) AND push_bit 5 0x000F)"

definition ls_year :: "stat \<Rightarrow> u32" where
  "ls_year st = drop_bit 9 (ucast (st_create_date st) AND push_bit 9 0x007F) + 1980"

text \<open>\<open>buffer[100]\<close> of \<open>main\<close>, the string \<open>"."\<close>, and the array of \<open>printf\<close>.\<close>

record ls_frame =
  ls_buffer :: u64
  ls_dot :: u64
  ls_print :: u64

primrec user_load_bytes :: "nat \<Rightarrow> u64 \<Rightarrow> 'z kmem_scheme \<Rightarrow> u8 list kres" where
  "user_load_bytes 0 v s = ret []"
| "user_load_bytes (Suc n) v s =
     andthen (user_load v s) (\<lambda>b. andthen (user_load_bytes n (v + 1) s) (\<lambda>bs. ret (b # bs)))"

definition ls_entry :: "('d, 'z) calling \<Rightarrow> ls_frame \<Rightarrow> stat \<Rightarrow> ('d, 'z) io_kernel_scheme \<Rightarrow> ('d, 'z) io_kernel_scheme kres" where
  "ls_entry call fr st s =
     andthen (ls_GetRelativeFileName st (replicate 20 0)) (\<lambda>tmp.
     andthen (toLowers tmp) (\<lambda>tmp1.
     andthen (printf call (ls_print fr) (kline ''%s %d %d:%d %d/%d/%d %s'')
       [KStr (if st_attributes st AND FILE_ATTR_DIRECTORY \<noteq> 0 then bytes_of ''d'' else bytes_of ''f''), KInt (ucast (st_file_size st)),
        KInt (ucast (ls_hours st)), KInt (ucast (ls_minutes st)), KInt (ucast (ls_day st)), KInt (ucast (ls_month st)),
        KInt (ucast (ls_year st)), KStr tmp1] s) (\<lambda>(_, s1). ret s1)))"

text \<open>The loop from entry \<open>i\<close> on, \<open>n\<close> rounds.\<close>

primrec ls_loop :: "('d, 'z) calling \<Rightarrow> ls_frame \<Rightarrow> nat \<Rightarrow> nat \<Rightarrow> ('d, 'z) io_kernel_scheme \<Rightarrow> ('d, 'z) io_kernel_scheme kres" where
  "ls_loop call fr i 0 s = ret s"
| "ls_loop call fr i (Suc n) s =
     andthen (demand (i < 100) Out_of_bounds) (\<lambda>_.
     andthen (user_load_bytes 32 (ls_buffer fr + of_nat (32 * i)) s) (\<lambda>bs.
     andthen (ls_entry call fr (parse_stat bs) s) (ls_loop call fr (i + 1) n)))"

definition ls_main :: "('d, 'z) calling \<Rightarrow> ls_frame \<Rightarrow> ('d, 'z) io_kernel_scheme \<Rightarrow> ('d, 'z) io_kernel_scheme kres" where
  "ls_main call fr s =
     andthen (lstat call (ls_dot fr) (ls_buffer fr) s) (\<lambda>(number_of_entries, s1).
     andthen (printf call (ls_print fr) (kline ''Total %d'') [KInt (of_int number_of_entries)] s1) (\<lambda>(_, s2).
     ls_loop call fr 0 (nat number_of_entries) s2))"

section \<open>The other programs\<close>

definition clr_main :: "('d, 'z) calling \<Rightarrow> ('d, 'z) io_kernel_scheme \<Rightarrow> ('d, 'z) io_kernel_scheme kres" where
  "clr_main call s = clrscr call s"

text \<open>\<open>name\<close> is the address of \<open>"process4.bin"\<close>, \<open>pb\<close> of the array of \<open>printf\<close>.\<close>

definition process1_main :: "('d, 'z) calling \<Rightarrow> u64 \<Rightarrow> u64 \<Rightarrow> ('d, 'z) io_kernel_scheme \<Rightarrow> ('d, 'z) io_kernel_scheme kres" where
  "process1_main call name pb s =
     andthen (fork_call call s) (\<lambda>(pid, s1).
     if pid = 0 then andthen (exec_call call name s1) (\<lambda>(_, s2). ret s2)
     else
       andthen (printf call pb (kline ''this is old process, we fork successfully new process: %d'') [KInt (of_int pid)] s1) (\<lambda>(_, s2).
       andthen (printf call pb (kline ''waiting for child exit. '') [] s2) (\<lambda>(_, s3).
       andthen (wait_call call pid s3) (\<lambda>(_, s4). ret s4))))"

definition process3_main :: "('d, 'z) io_kernel_scheme \<Rightarrow> ('d, 'z) io_kernel_scheme kres" where
  "process3_main s = diverges"

definition process4_main :: "('d, 'z) calling \<Rightarrow> u64 \<Rightarrow> ('d, 'z) io_kernel_scheme \<Rightarrow> ('d, 'z) io_kernel_scheme kres" where
  "process4_main call pb s = andthen (printf call pb (kline ''process4 is running.'') [] s) (\<lambda>(_, s1). ret s1)"

section \<open>Names\<close>

lemma copy_field_from:
  "i < length field \<Longrightarrow> length done + length (copy_name (drop i field)) \<le> n \<Longrightarrow>
   copy_field field i (filled n done) (length done)
     = ret (filled n (done @ copy_name (drop i field)), length done + length (copy_name (drop i field)))"
proof (induction "length field - i" arbitrary: i "done")
  case 0
  then show ?case by simp
next
  case (Suc k)
  have d: "drop i field = field ! i # drop (Suc i) field" using Suc.prems(1) by (simp add: Cons_nth_drop_Suc)
  show ?case
  proof (cases "field ! i \<noteq> 0 \<and> field ! i \<noteq> 32")
    case False
    then show ?thesis by (subst copy_field.simps) (auto simp: d)
  next
    case True
    have put: "put_at (filled n done) (length done) (field ! i) = ret (filled n (done @ [field ! i]))"
      using Suc.prems(2) True by (subst put_at_filled) (auto simp: d)
    show ?thesis
    proof (cases "i \<ge> length field - 1")
      case last: True
      then have "drop (Suc i) field = []" by simp
      then show ?thesis using True put last by (subst copy_field.simps) (simp add: d)
    next
      case False
      have "copy_field field (Suc i) (filled n (done @ [field ! i])) (length (done @ [field ! i]))
          = ret (filled n ((done @ [field ! i]) @ copy_name (drop (Suc i) field)), length (done @ [field ! i]) + length (copy_name (drop (Suc i) field)))"
        using Suc.prems(2) True False Suc.hyps(2) by (intro Suc.hyps(1)) (auto simp: d)
      then show ?thesis using True False put by (subst copy_field.simps) (simp add: d)
    qed
  qed
qed

lemma length_copy_name: "length (copy_name cs) \<le> length cs"
  by (induction cs) auto

text \<open>The name with a dot before the extension.\<close>

definition dotted :: "u8 list \<Rightarrow> u8 list \<Rightarrow> u8 list" where
  "dotted name ext = copy_name name @ [46] @ copy_name ext"

lemma ls_name:
  assumes "length (st_name st) = 8" "length (st_ext st) = 3"
  shows "ls_GetRelativeFileName st (replicate 20 0) = ret (filled 20 (dotted (st_name st) (st_ext st)))"
proof -
  let ?a = "copy_name (st_name st)" let ?b = "copy_name (st_ext st)"
  have l: "length ?a \<le> 8" "length ?b \<le> 3" using length_copy_name [of "st_name st"] length_copy_name [of "st_ext st"] assms by simp_all
  have 1: "copy_field (st_name st) 0 (filled 20 []) (length ([] :: u8 list)) = ret (filled 20 ?a, length ?a)"
    using copy_field_from [of 0 "st_name st" "[]" 20] assms l by simp
  have 2: "put_at (filled 20 ?a) (length ?a) 46 = ret (filled 20 (?a @ [46]))" using l by (subst put_at_filled) simp_all
  have 3: "copy_field (st_ext st) 0 (filled 20 (?a @ [46])) (length (?a @ [46])) = ret (filled 20 ((?a @ [46]) @ ?b), length (?a @ [46]) + length ?b)"
    using copy_field_from [of 0 "st_ext st" "?a @ [46]" 20] assms l by simp
  have "put_at (filled 20 (dotted (st_name st) (st_ext st))) (length (dotted (st_name st) (st_ext st))) 0
      = ret (filled 20 (dotted (st_name st) (st_ext st) @ [0]))"
    using l by (subst put_at_filled) (simp_all add: dotted_def)
  moreover have "filled 20 (dotted (st_name st) (st_ext st) @ [0]) = filled 20 (dotted (st_name st) (st_ext st))"
    using l by (simp add: filled_def dotted_def flip: replicate_Suc)
  ultimately show ?thesis using 1 2 3 by (simp add: ls_GetRelativeFileName_def filled_empty dotted_def)
qed

lemma byte_of_int: "(ucast (scast b :: u32) :: u8) = b"
proof -
  have "(ucast (of_int n :: u32) :: u8) = of_int n" for n by transfer simp
  from this [of "sint b"] show ?thesis by simp
qed

lemma lowers_from:
  "j \<le> length w \<Longrightarrow> 0 \<notin> set w \<Longrightarrow> length w < n \<Longrightarrow>
   lowers_loop (filled n (map lower_byte (take j w) @ drop j w)) j = ret (filled n (map lower_byte w))"
proof (induction "length w - j" arbitrary: j)
  case 0
  then have "j = length w" by simp
  then show ?case using "0.prems"(3) by (subst lowers_loop.simps) (simp add: filled_def nth_append)
next
  case (Suc k)
  then have j: "j < length w" by linarith
  let ?str = "filled n (map lower_byte (take j w) @ drop j w)"
  have at: "?str ! j = w ! j" "j < length ?str" using j Suc.prems(3) by (simp_all add: filled_def nth_append)
  have nz: "w ! j \<noteq> 0" using Suc.prems(2) j by (auto dest: nth_mem)
  have up: "ucast (tolower (scast (w ! j))) = lower_byte (w ! j)" unfolding tolower_scast by (rule byte_of_int)
  have "?str[j := lower_byte (w ! j)] = filled n (map lower_byte (take (Suc j) w) @ drop (Suc j) w)"
    using j by (simp add: filled_def list_update_append take_Suc_conv_app_nth Cons_nth_drop_Suc [symmetric] min_def)
  moreover have "lowers_loop (filled n (map lower_byte (take (Suc j) w) @ drop (Suc j) w)) (Suc j) = ret (filled n (map lower_byte w))"
    using Suc.hyps(2) Suc.prems j by (intro Suc.hyps(1)) simp_all
  ultimately show ?case using at nz up by (subst lowers_loop.simps) simp
qed

lemma lower_byte_idem: "lower_byte (lower_byte c) = lower_byte c"
proof (cases "65 \<le> sint c \<and> sint c \<le> 90")
  case True
  have "list_all (\<lambda>k. \<not> sint ((of_int k :: u8) OR 0x20) \<le> 90) [65..90]" by (simp add: upto_rec1)
  moreover have "sint c \<in> set [65..90]" using True by (simp only: set_upto atLeastAtMost_iff)
  ultimately have "\<not> sint ((of_int (sint c) :: u8) OR 0x20) \<le> 90" unfolding list_all_iff by blast
  then show ?thesis using True by (simp add: lower_byte_def)
next
  case False
  then show ?thesis by (auto simp: lower_byte_def)
qed

text \<open>
  Property C12. The name that \<open>ls\<close> shows opens the file: for a directory entry in use, the text it builds in its
  array of 20 bytes always fits, it is the name and the extension in small letters with a dot between them, and the search of
  the kernel matches it against the same entry.
\<close>

theorem ls_shows_name_that_opens:
  assumes "length bs = 32" "\<not> skipped (parse_entry bs)"
  shows "\<exists>tmp name. ls_GetRelativeFileName (parse_stat bs) (replicate 20 0) = ret tmp \<and> toLowers tmp = ret (filled 20 name)
     \<and> length name \<le> 12 \<and> name = map lower_byte (dotted (take 8 bs) (take 3 (drop 8 bs))) \<and> matches name (parse_entry bs)"
proof -
  let ?st = "parse_stat bs" let ?w = "dotted (take 8 bs) (take 3 (drop 8 bs))"
  have "length (st_name ?st) = 8" "length (st_ext ?st) = 3" using assms(1) by (simp_all add: parse_stat_def)
  from ls_name [OF this] have 1: "ls_GetRelativeFileName ?st (replicate 20 0) = ret (filled 20 ?w)" by (simp add: parse_stat_def)
  have l: "length ?w \<le> 12" using length_copy_name [of "take 8 bs"] length_copy_name [of "take 3 (drop 8 bs)"] by (simp add: dotted_def)
  have "0 \<notin> set ?w" using copy_name_nonzero by (auto simp: dotted_def)
  with lowers_from [of 0 ?w 20] l have 2: "toLowers (filled 20 ?w) = ret (filled 20 (map lower_byte ?w))" by (simp add: toLowers_def)
  have "map lower_byte (map lower_byte ?w) = map lower_byte (copy_name (e_name (parse_entry bs)) @ [46] @ copy_name (e_ext (parse_entry bs)))"
    by (simp add: lower_byte_idem dotted_def parse_entry_def)
  then have "matches (map lower_byte ?w) (parse_entry bs)" using assms(2) unfolding matches_def by blast
  then show ?thesis using 1 2 l by (intro exI [of _ "filled 20 ?w"] exI [of _ "map lower_byte ?w"]) simp
qed

section \<open>Dates\<close>

text \<open>How FAT packs a time and a date.\<close>

definition fat_time :: "nat \<Rightarrow> nat \<Rightarrow> nat \<Rightarrow> u16" where
  "fat_time h m s2 = of_nat (h * 2048 + m * 32 + s2)"

definition fat_date :: "nat \<Rightarrow> nat \<Rightarrow> nat \<Rightarrow> u16" where
  "fat_date y m d = of_nat ((y - 1980) * 512 + m * 32 + d)"

text \<open>A field of \<open>w\<close> bits from bit \<open>k\<close> on.\<close>

lemma field_value:
  assumes "k + w \<le> 16"
  shows "unat (drop_bit k (ucast (x :: u16) AND push_bit k (mask w)) :: u32) = unat x div 2 ^ k mod 2 ^ w"
proof -
  have "drop_bit k (ucast x AND push_bit k (mask w)) = (take_bit w (drop_bit k (ucast x)) :: u32)"
    using assms by (intro bit_word_eqI) (auto simp: bit_simps)
  moreover have "unat (take_bit w (drop_bit k (ucast x)) :: u32) = take_bit w (drop_bit k (unat x))"
    using unat_lt2p [of x] by (simp add: unsigned_take_bit_eq unsigned_drop_bit_eq unsigned_ucast_eq take_bit_nat_eq_self)
  ultimately show ?thesis by (simp add: take_bit_eq_mod drop_bit_eq_div)
qed

lemma fields_of_time:
  "unat (ls_minutes st) = unat (st_create_time st) div 32 mod 64" "unat (ls_hours st) = unat (st_create_time st) div 2048 mod 32 + 7"
  "unat (ls_day st) = unat (st_create_date st) mod 32" "unat (ls_month st) = unat (st_create_date st) div 32 mod 16"
  "unat (ls_year st) = unat (st_create_date st) div 512 mod 128 + 1980"
proof -
  have m: "(0x003F :: u32) = mask 6" "(0x001F :: u32) = mask 5" "(0x000F :: u32) = mask 4" "(0x007F :: u32) = mask 7"
    by (simp_all add: mask_eq_exp_minus_1)
  have f: "unat (drop_bit 0 (ucast (st_create_date st) AND push_bit 0 (mask 5)) :: u32) = unat (st_create_date st) div 2 ^ 0 mod 2 ^ 5"
    by (rule field_value) simp
  show "unat (ls_minutes st) = unat (st_create_time st) div 32 mod 64"
    using field_value [of 5 6 "st_create_time st"] unfolding ls_minutes_def m(1) by simp
  show "unat (ls_month st) = unat (st_create_date st) div 32 mod 16"
    using field_value [of 5 4 "st_create_date st"] unfolding ls_month_def m(3) by simp
  show "unat (ls_day st) = unat (st_create_date st) mod 32"
    using f unfolding ls_day_def m(2) by (simp only: drop_bit_0 push_bit_0_id drop_bit_0 id_apply power_0 div_by_1) simp
  have "unat (drop_bit 11 (ucast (st_create_time st) AND push_bit 11 (mask 5)) :: u32) = unat (st_create_time st) div 2048 mod 32"
    using field_value [of 11 5 "st_create_time st"] by simp
  then show "unat (ls_hours st) = unat (st_create_time st) div 2048 mod 32 + 7"
    unfolding ls_hours_def m(2) by (subst unat_plus_le) simp_all
  have "unat (drop_bit 9 (ucast (st_create_date st) AND push_bit 9 (mask 7)) :: u32) = unat (st_create_date st) div 512 mod 128"
    using field_value [of 9 7 "st_create_date st"] by simp
  then show "unat (ls_year st) = unat (st_create_date st) div 512 mod 128 + 1980"
    unfolding ls_year_def m(4) by (subst unat_plus_le) simp_all
qed

text \<open>
  Property C36. \<open>ls\<close> unpacks what FAT has packed: day, month and year of a date from 1980 to 2107, the minutes of the time, and
  for the hours seven more than the time has, so a file created from 17:00 on shows hours from 24 to 30.
\<close>

theorem ls_unpacks_dates:
  assumes "h < 24" "m < 60" "s2 < 30" "1980 \<le> y" "y \<le> 2107" "mo < 16" "d < 32"
    and "st_create_time st = fat_time h m s2" "st_create_date st = fat_date y mo d"
  shows "unat (ls_day st) = d \<and> unat (ls_month st) = mo \<and> unat (ls_year st) = y \<and> unat (ls_minutes st) = m \<and> unat (ls_hours st) = h + 7"
proof -
  have t: "unat (st_create_time st) = h * 2048 + m * 32 + s2"
    unfolding assms(8) fat_time_def using assms(1-3) by (intro unat_of_nat_less) simp
  define z where "z = y - 1980"
  have z: "z < 128" "y = z + 1980" using assms(4,5) by (simp_all add: z_def)
  have "unat (st_create_date st) = z * 512 + mo * 32 + d"
    unfolding assms(9) fat_date_def z_def [symmetric] using z(1) assms(6,7) by (intro unat_of_nat_less) simp
  then have e: "unat (st_create_date st) = (z * 16 + mo) * 32 + d" by (simp add: add_mult_distrib)
  have "unat (st_create_time st) div 32 = h * 64 + m" "unat (st_create_time st) div 2048 = h" unfolding t using assms(1-3) by simp_all
  then have "unat (ls_minutes st) = m" "unat (ls_hours st) = h + 7" unfolding fields_of_time using assms(1,2) by simp_all
  moreover have "unat (st_create_date st) mod 32 = d" "unat (st_create_date st) div 32 = z * 16 + mo" 
    using assms(7) div_mult_self3 [of "32 :: nat" "z * 16 + mo" d] unfolding e by (simp_all only: mod_mult_self3 mod_less div_less add_0_right)
  moreover from this(2) have "unat (st_create_date st) div 512 = z" using assms(6) div_mult2_eq [of "unat (st_create_date st)" 32 16] by simp
  ultimately show ?thesis unfolding fields_of_time using assms(6) z by simp
qed


theorem ls_shows_name_that_opens_witness:
  "\<exists>tmp. ls_GetRelativeFileName (parse_stat (bytes_of ''LS      BIN'' @ replicate 21 0)) (replicate 20 0) = ret tmp
     \<and> toLowers tmp = ret (filled 20 (bytes_of ''ls.bin'')) \<and> matches (bytes_of ''ls.bin'') (parse_entry (bytes_of ''LS      BIN'' @ replicate 21 0))"
proof -
  let ?bs = "bytes_of ''LS      BIN'' @ replicate 21 0"
  have "length ?bs = 32" "\<not> skipped (parse_entry ?bs)"
    by (simp_all add: bytes_of_def skipped_def parse_entry_def ENTRY_EMPTY_def ENTRY_DELETED_def)
  moreover have "map lower_byte (dotted (take 8 ?bs) (take 3 (drop 8 ?bs))) = bytes_of ''ls.bin''"
    by (simp add: bytes_of_def dotted_def lower_byte_def)
  ultimately show ?thesis using ls_shows_name_that_opens [of ?bs] by metis
qed

theorem ls_unpacks_dates_witness:
  "unat (ls_hours \<lparr>st_name = [], st_ext = [], st_attributes = 0, st_create_time = fat_time 18 5 0, st_create_date = fat_date 2022 8 31, st_file_size = 0\<rparr>) = 25"
  using ls_unpacks_dates [of 18 5 0 2022 8 31
    "\<lparr>st_name = [], st_ext = [], st_attributes = 0, st_create_time = fat_time 18 5 0, st_create_date = fat_date 2022 8 31, st_file_size = 0\<rparr>"] by simp

end
