(* ===== verification/User_Example.thy ===== *)
theory User_Example
  imports User_Commands File_Example
begin

text \<open>
  The shell on a concrete machine: the init process of the booted kernel with the small disk, keys typed ahead, and the
  shell's arrays in its page. The state meets the hypotheses of the properties of the user programs.
\<close>

section \<open>The state\<close>

definition typed_ahead :: "u8 list \<Rightarrow> KeyboardBuffer" where
  "typed_ahead inp = \<lparr>k_buffer = \<lambda>i. if i < length inp then inp ! i else 0, k_front = 0, k_end = length inp, k_size = 500\<rparr>"

lemma typed_ahead: "length inp < 500 \<Longrightarrow> holds (typed_ahead inp) inp"
  by (simp add: holds_def typed_ahead_def)

definition at_shell :: "u8 list \<Rightarrow> u8 list \<Rightarrow> kernel \<Rightarrow> ata io_kernel" where
  "at_shell a inp t = user_wrote (kernel_page 9) 0x1F8000 a ((at_disk t)
     \<lparr>tss_rsp0 := kernel_page 13 + STACK_SIZE, regs := start_regs(RSP := user_at 0x1F0000), s_syscall_table := registered,
      s_keyboard_controller := typed_ahead inp, s_total_mem := 0x3F9FC00, scr_column := 0, scr_row := 0\<rparr>)"

definition example_frame :: shell_frame where
  "example_frame = \<lparr>sh_buffer = user_at 0x1F8000, sh_data = user_at 0x1FB000, sh_c = user_at 0x1F9000, sh_print = user_at 0x1FA000\<rparr>"

lemma example_frame: "frame_at 0x1F0000 example_frame 0x1F8000 0x1F9000 0x1FA000"
  by (simp add: frame_at_def example_frame_def apart_def)

abbreviation blank_screen :: "('d, 'z) io_kernel_scheme \<Rightarrow> terminal" where
  "blank_screen s \<equiv> (grid_of (mem s), 0, 0)"

lemma booted_stack:
  "\<exists>t. InitProcess booted = ret t \<and> valid_page (l_kernel_end t) (kernel_page 13) \<and> kernel_page 13 \<noteq> kernel_page 9
     \<and> kernel_page 13 \<notin> set (kernel_page 6 # spare_pages) \<and> kernel_page 13 \<notin> tables (p_page_map (proc t 1)) init_tree
     \<and> l_kernel_end t = 0xFFFF800000200000"
proof -
  let ?P = kernel_page
  have "free_pages booted (?P 13 # ?P 12 # ?P 11 # ?P 10 # ?P 9 # ?P 8 # ?P 7 # map ?P [6, 5, 4, 3, 2, 1, 0])"
    using booted(3) by simp
  moreover have "\<forall>q\<in>{?P 13, ?P 12, ?P 11, ?P 10, ?P 9, ?P 8, ?P 7}.
      span (PHY_TO_VIR USER_INIT_PROCESS_ADDRESS_BASE) 10240 \<inter> page_span q = {}"
    using booted(4) by simp
  ultimately obtain t where t: "InitProcess booted = ret t" "p_stack (proc t 1) = ?P 13"
    "owns_memory t 1 init_tree (?P 9) (map ?P [6, 5, 4, 3, 2, 1, 0])" "l_kernel_end t = l_kernel_end booted"
    using InitProcess_ok [OF booted(1) _ booted(2), of "?P 13" "?P 12" "?P 11" "?P 10" "?P 9" "?P 8" "?P 7"] by blast
  have "l_kernel_end booted = 0xFFFF800000200000" by (simp add: booted_def free_kernel(3))
  then show ?thesis using t unfolding owns_memory_def t(2) by simp
qed

lemma at_shell:
  assumes "length a = 80" "length inp < 500"
  shows "\<exists>t. InitProcess booted = ret t
     \<and> terminal_state (drive_at (simple_drive (small_disk 2)) (\<lambda>d. d) (small_disk 2) 100 small_BPB) init_tree (kernel_page 9)
         (kernel_page 6 # spare_pages) (kernel_page 13) 0x1F0000 0x3F9FC00 (at_shell a inp t) inp (blank_screen (at_shell a inp t))
     \<and> array_at (kernel_page 9) (at_shell a inp t) 0x1F8000 a"
proof -
  let ?u = "kernel_page 9" let ?ps = "kernel_page 6 # spare_pages"
  obtain t where t: "InitProcess booted = ret t" "user_space (at_disk t) init_tree ?u ?ps" using at_disk by blast
  have k: "valid_page (l_kernel_end t) (kernel_page 13)" "kernel_page 13 \<noteq> ?u" "kernel_page 13 \<notin> set ?ps"
    "kernel_page 13 \<notin> tables (p_page_map (proc t 1)) init_tree" "l_kernel_end t = 0xFFFF800000200000"
    using booted_stack t(1) by auto
  let ?base = "(at_disk t)\<lparr>tss_rsp0 := kernel_page 13 + STACK_SIZE, regs := start_regs(RSP := user_at 0x1F0000), s_syscall_table := registered,
      s_keyboard_controller := typed_ahead inp, s_total_mem := 0x3F9FC00, scr_column := 0, scr_row := 0\<rparr>"
  let ?s = "at_shell a inp t"
  have us0: "user_space ?base init_tree ?u ?ps" by (rule user_space_cong [OF t(2)]) simp_all
  have sub: "span (?u + of_nat 0x1F8000) (length a) \<subseteq> page_span ?u"
    using span_subset [of "0x1F8000" "length a" "2 ^ 21" ?u] assms(1) by (simp add: page_span_def)
  have us: "user_space ?s init_tree ?u ?ps"
    unfolding at_shell_def user_wrote_def
    by (rule user_space_write [OF us0]) (use sub assms(1) in \<open>auto simp: write_bytes_apply\<close>)
  have c: "PHY_TO_VIR (cr3 ?s) = p_page_map (proc t 1)"
    by (simp add: at_shell_def user_wrote_def at_disk_def PHY_TO_VIR_def VIR_TO_PHY_def)
  have e: "l_kernel_end ?s = l_kernel_end t" "regs ?s RSP = user_at 0x1F0000" "tss_rsp0 ?s = kernel_page 13 + STACK_SIZE"
    "s_syscall_table ?s = registered" "scr_column ?s = 0" "scr_row ?s = 0" "s_keyboard_controller ?s = typed_ahead inp"
    "s_total_mem ?s = 0x3F9FC00" "s_BIOS_parameter_block ?s = small_BPB" "dev ?s = idle_drive"
    by (simp_all add: at_shell_def user_wrote_def at_disk_def)
  have "user_ready init_tree ?u ?ps (kernel_page 13) 0x1F0000 ?s"
    using us k unfolding user_ready_def c e(1-4) by (simp add: screen_ok_def cursor_ok_def e PHY_TO_VIR_def KERNEL_VIRTUAL_ADDRESS_BASE_def)
  moreover have "looks ?s (blank_screen ?s)" by (simp add: looks_def screen_rel_def cursor_ok_def e)
  moreover have "drive_at (simple_drive (small_disk 2)) (\<lambda>d. d) (small_disk 2) 100 small_BPB (dev ?s) (s_BIOS_parameter_block ?s)"
    using small_drive by (simp add: e drive_at_def idle_drive_def small_BPB_def GetRootDirectoryStartSector_def)
  moreover have "int32 (GetTotalMem ?s) = 0x3F9FC00" by (simp add: GetTotalMem_def e int32_def)
  moreover have "array_at ?u ?s 0x1F8000 a"
    unfolding at_shell_def by (rule array_at_wrote) (simp add: assms(1))
  ultimately show ?thesis using t(1) typed_ahead [OF assms(2), folded e(7)] unfolding terminal_state_def by (intro exI [of _ t] conjI)
qed


text \<open>The directory of the small disk has one entry; the others are unused.\<close>

lemma small_directory_rest: "lookup_from name 0 (directory (small_disk 2) small_BPB) = (if matches name (prog_entry 2) then Some (0, prog_entry 2) else None)"
proof -
  have start: "GetRootDirectoryStartSector small_BPB = 2" by (simp add: GetRootDirectoryStartSector_def small_BPB_def)
  obtain es where es: "directory (small_disk 2) small_BPB = prog_entry 2 # es" using small_directory by blast
  have "unat (root_dir_entries small_BPB) * 32 div 512 = Suc 0" by (simp add: small_BPB_def)
  then have d: "directory (small_disk 2) small_BPB = sector_entries (small_disk 2) 2"
    unfolding directory_def start by (simp flip: numeral_2_eq_2)
  let ?ws = "[0x5250, 0x474F, 0x2020, 0x2020, 0x4942, 0x4E, 0, 0, 0, 0, 0, 0, 0, 2, 1000, 0] :: u16 list"
  have z: "word_bytes (replicate n 0) = replicate (2 * n) 0" for n
    by (induction n) (simp_all add: le_bytes_2)
  have app: "word_bytes (xs @ ys) = word_bytes xs @ word_bytes ys" for xs ys by (simp add: word_bytes_def)
  have "disk_bytes (small_disk 2) 2 1 = word_bytes (?ws @ empty_entries)" by (simp add: disk_bytes_def small_disk_def)
  then have b: "disk_bytes (small_disk 2) 2 1 = word_bytes ?ws @ replicate 480 0" unfolding app empty_entries_def z by simp
  have l: "length (word_bytes ?ws) = 32" by (simp add: le_bytes_2)
  have skip: "skipped (parse_entry (take 32 (drop (32 * j) (disk_bytes (small_disk 2) 2 1))))" if "1 \<le> j" "j < 16" for j
  proof -
    have "drop (32 * j) (disk_bytes (small_disk 2) 2 1) = replicate (480 - (32 * j - 32)) 0" unfolding b using that l by simp
    then have "take 32 (drop (32 * j) (disk_bytes (small_disk 2) 2 1)) = replicate 32 0" using that by (simp add: min_def)
    then show ?thesis by (simp add: skipped_def parse_entry_def ENTRY_EMPTY_def)
  qed
  have "sector_entries (small_disk 2) 2 = parse_entry (take 32 (drop (32 * 0) (disk_bytes (small_disk 2) 2 1)))
      # map (\<lambda>j. parse_entry (take 32 (drop (32 * j) (disk_bytes (small_disk 2) 2 1)))) [1..<16]"
    unfolding sector_entries_def by (subst upt_conv_Cons) simp_all
  then have "es = map (\<lambda>j. parse_entry (take 32 (drop (32 * j) (disk_bytes (small_disk 2) 2 1)))) [1..<16]" using es d by simp
  then have "\<not> matches name e" if "e \<in> set es" for e using that skip by (auto simp: matches_def)
  then have "lookup_from name 1 es = None" by (simp add: lookup_from_None)
  then show ?thesis unfolding es by simp
qed

section \<open>Witnesses\<close>

theorem printf_reaches_terminal_witness:
  "\<exists>s t. printf (kernel_call (simple_drive (small_disk 2))) (user_at 0x1FA000) (kline ''Total %d'') [KInt 7] s = ret (8, t)
     \<and> looks (t :: ata io_kernel) (fold tty_put (kline ''Total 7'') (blank_screen s))"
proof -
  from at_shell [of "replicate 80 0" "[]"] obtain t0 where s: "terminal_state (drive_at (simple_drive (small_disk 2)) (\<lambda>d. d) (small_disk 2) 100 small_BPB)
     init_tree (kernel_page 9) (kernel_page 6 # spare_pages) (kernel_page 13) 0x1F0000 0x3F9FC00 (at_shell (replicate 80 0) [] t0) []
     (blank_screen (at_shell (replicate 80 0) [] t0))" by auto
  have d: "WriteDecimalToBuffer 7 = bytes_of ''7''"
    by (simp add: WriteDecimalToBuffer_def WriteUDecimalToBuffer_def bytes_of_def udec_digits.simps [of 7])
  have "kline ''Total %d'' = bytes_of ''Total '' @ [of_char CHR ''%'', of_char CHR ''d''] @ [10]" by (simp add: kline_def bytes_of_def)
  moreover have "format_loop (bytes_of ''Total '' @ [of_char CHR ''%'', of_char CHR ''d''] @ [10]) [KInt 7] [] = ret (bytes_of ''Total '' @ bytes_of ''7'' @ [10])"
    unfolding d [symmetric]
    by (rule format_one_directive [OF _ _ directives(3)]) (simp_all add: plain_def d, simp_all add: bytes_of_def)
  ultimately have f: "format_loop (kline ''Total %d'') [KInt 7] [] = ret (kline ''Total 7'')" by (simp add: kline_def bytes_of_def)
  have m: "length (kline ''Total 7'') = 8" "0 \<notin> set (kline ''Total 7'')" "plain (kline ''Total 7'')" by (simp_all add: kline_def bytes_of_def plain_def)
  have g: "format_loop (kline ''Total 7'') [] [] = ret (kline ''Total 7'')" using format_loop_plain [OF m(3), of "[]" "[]"] m(1) by simp
  have b: "(0x1F0000 :: nat) \<le> 0x1FA000" "(0x1FA000 :: nat) + 1024 \<le> 2 ^ 21" "length (kline ''Total 7'') < 1024" using m(1) by simp_all
  have n: "int (length (kline ''Total 7'')) = 8" using m(1) by simp
  from printf_reaches_terminal [OF s b(1,2) f b(3) m(2) g, of "simple_drive (small_disk 2)"] show ?thesis
    unfolding n terminal_state_def by blast
qed

theorem ReadCmd_edits_line_witness:
  "\<exists>s t. ReadCmd (kernel_call (simple_drive (small_disk 2))) example_frame s = ret (3, t)
     \<and> looks (t :: ata io_kernel) (fold tty_put [109, 120, 8, 101, 109, 10] (blank_screen s))"
proof -
  let ?inp = "[109, 120, 8, 101, 109, 10] :: u8 list"
  from at_shell [of "replicate 80 0" ?inp] obtain t0 where s: "terminal_state (drive_at (simple_drive (small_disk 2)) (\<lambda>d. d) (small_disk 2) 100 small_BPB)
     init_tree (kernel_page 9) (kernel_page 6 # spare_pages) (kernel_page 13) 0x1F0000 0x3F9FC00 (at_shell (replicate 80 0) ?inp t0) ?inp
     (blank_screen (at_shell (replicate 80 0) ?inp t0))" "array_at (kernel_page 9) (at_shell (replicate 80 0) ?inp t0) 0x1F8000 (replicate 80 0)" by auto
  have l: "length (replicate 80 (0 :: u8)) = 80" "0 \<notin> set ?inp" by simp_all
  have "edited [] ?inp = Some ([109, 101, 109], ?inp, [])" by (simp add: echoed_def)
  moreover have n: "length [109, 101, 109 :: u8] = 3" by simp
  ultimately show ?thesis
    using ReadCmd_edits_line [OF s(1) example_frame s(2) l, of "[109, 101, 109]" ?inp "[]" "simple_drive (small_disk 2)"]
    unfolding n terminal_state_def by blast
qed

theorem shell_answers_mem_witness:
  "\<exists>s t. shell_round (kernel_call (simple_drive (small_disk 2))) example_frame s = ret t
     \<and> looks (t :: ata io_kernel) (fold tty_put (bytes_of ''shell# mem'' @ [10] @ memory_message 65151) (blank_screen s))"
proof -
  let ?inp = "bytes_of ''mem'' @ [10]"
  have i: "length ?inp < 500" "0 \<notin> set ?inp" "edited [] ?inp = Some (bytes_of ''mem'', ?inp, [])" by (simp_all add: bytes_of_def echoed_def)
  from at_shell [OF _ i(1), of "replicate 80 0"] obtain t0 where s: "terminal_state (drive_at (simple_drive (small_disk 2)) (\<lambda>d. d) (small_disk 2) 100 small_BPB)
     init_tree (kernel_page 9) (kernel_page 6 # spare_pages) (kernel_page 13) 0x1F0000 0x3F9FC00 (at_shell (replicate 80 0) ?inp t0) ?inp
     (blank_screen (at_shell (replicate 80 0) ?inp t0))" "array_at (kernel_page 9) (at_shell (replicate 80 0) ?inp t0) 0x1F8000 (replicate 80 0)"
    by (metis length_replicate)
  have l: "length (replicate 80 (0 :: u8)) = 80" by simp
  have e: "bytes_of ''shell# '' @ ?inp @ m = bytes_of ''shell# mem'' @ [10] @ m" "int_div 0x3F9FC00 1024 = 65151" for m
    by (simp_all add: bytes_of_def int_div_def)
  from shell_answers_mem [OF s(1) example_frame s(2) l i(2,3)] show ?thesis unfolding e terminal_state_def by blast
qed

text \<open>The longer name of an earlier command is still in the array; \<open>prog.bin\<close> is on the disk.\<close>

theorem shell_opens_line_and_rest_witness:
  "\<exists>s t. shell_round (kernel_call (simple_drive (small_disk 2))) example_frame s = ret t
     \<and> looks (t :: ata io_kernel) (fold tty_put (bytes_of ''shell# prog.bin'' @ [10] @ not_found_message (bytes_of ''prog.bin'')) (blank_screen s))
     \<and> lookup_from (bytes_of ''prog.bin'') 0 (directory (small_disk 2) small_BPB) \<noteq> None"
proof -
  let ?line = "bytes_of ''prog.bin''" let ?a = "bytes_of ''process4.bin'' @ replicate 68 0"
  have i: "length (?line @ 10 # []) < 500" "0 \<notin> set (?line @ 10 # [])" "10 \<notin> set ?line" "8 \<notin> set ?line" "plain ?line" "?line \<noteq> []" "length ?line < 80"
    "?line \<noteq> bytes_of ''mem''" by (simp_all add: bytes_of_def plain_def)
  have rest: "drop (length ?line) ?a = bytes_of ''.bin'' @ replicate 68 0" by (simp add: bytes_of_def)
  have l: "length ?a = 80" "take 3 (?line @ drop (length ?line) ?a) \<noteq> bytes_of ''cat''" "0 \<in> set (drop (length ?line) ?a)"
    unfolding rest by (simp_all add: bytes_of_def)
  have "takeWhile (\<lambda>x. x \<noteq> 0) (bytes_of ''.bin'' @ replicate 68 0) = bytes_of ''.bin''" by (simp add: bytes_of_def)
  then have w: "?line @ takeWhile (\<lambda>x. x \<noteq> 0) (drop (length ?line) ?a) = bytes_of ''prog.bin.bin''" unfolding rest by (simp add: bytes_of_def)
  have "\<not> matches (bytes_of ''prog.bin.bin'') (prog_entry 2)" by (simp add: matches_def prog_entry_def bytes_of_def)
  then have none: "lookup_from (?line @ takeWhile (\<lambda>x. x \<noteq> 0) (drop (length ?line) ?a)) 0 (directory (small_disk 2) small_BPB) = None"
    unfolding w small_directory_rest by simp
  from at_shell [OF l(1) i(1)] obtain t0 where s: "terminal_state (drive_at (simple_drive (small_disk 2)) (\<lambda>d. d) (small_disk 2) 100 small_BPB)
     init_tree (kernel_page 9) (kernel_page 6 # spare_pages) (kernel_page 13) 0x1F0000 0x3F9FC00 (at_shell ?a (?line @ 10 # []) t0) (?line @ 10 # [])
     (blank_screen (at_shell ?a (?line @ 10 # []) t0))" "array_at (kernel_page 9) (at_shell ?a (?line @ 10 # []) t0) 0x1F8000 ?a" by blast
  have e: "bytes_of ''shell# '' @ ?line @ [10] @ m = bytes_of ''shell# prog.bin'' @ [10] @ m" for m by (simp add: bytes_of_def)
  have "lookup_from ?line 0 (directory (small_disk 2) small_BPB) \<noteq> None" using small_lookup [of 2] by (simp add: prog_name_def)
  then show ?thesis
    using shell_opens_line_and_rest [OF s(1) example_frame s(2) l(1) i(2-7) i(8) l(2,3) none] unfolding e terminal_state_def by blast
qed

theorem system_call_round_trip_witness:
  "\<exists>s t R. kernel_call (simple_drive (small_disk 2)) 5 [] s = ret (0x3F9FC00, t)
     \<and> user_ready init_tree (kernel_page 9) (kernel_page 6 # spare_pages) (kernel_page 13) 0x1F0000 (t :: ata io_kernel)
     \<and> regs t RBX = regs s RBX"
proof -
  from at_shell [of "replicate 80 0" "[]"] obtain t0 where s: "terminal_state (drive_at (simple_drive (small_disk 2)) (\<lambda>d. d) (small_disk 2) 100 small_BPB)
     init_tree (kernel_page 9) (kernel_page 6 # spare_pages) (kernel_page 13) 0x1F0000 0x3F9FC00 (at_shell (replicate 80 0) [] t0) []
     (blank_screen (at_shell (replicate 80 0) [] t0))" by auto
  let ?s = "at_shell (replicate 80 0) [] t0"
  have r: "user_ready init_tree (kernel_page 9) (kernel_page 6 # spare_pages) (kernel_page 13) 0x1F0000 ?s" "looks ?s (blank_screen ?s)"
    "int32 (s_total_mem ?s) = 0x3F9FC00" using s by (simp_all add: terminal_state_def GetTotalMem_def)
  have "length ([] :: u64 list) \<le> 5" "(5 :: nat) < 12" by simp_all
  from system_call_round_trip [OF r(1) this, of "simple_drive (small_disk 2)"] obtain M Q arg where
    c: "user_space (?s\<lparr>mem := M, regs := Q\<rparr>) init_tree (kernel_page 9) (kernel_page 6 # spare_pages)"
      "\<forall>v t ps'. call_function (simple_drive (small_disk 2)) (snd (system_calls ! 5)) arg (?s\<lparr>mem := M, regs := Q\<rparr>) = ret (Done v, t) \<longrightarrow>
          user_space t init_tree (kernel_page 9) ps' \<longrightarrow> kernel_page 13 \<notin> set ps' \<longrightarrow> kernel_kept (kernel_page 13) (?s\<lparr>mem := M, regs := Q\<rparr>) t \<longrightarrow>
          (\<exists>m' R. kernel_call (simple_drive (small_disk 2)) (of_nat 5) [] ?s = ret (int32 (of_int v), t\<lparr>mem := m', regs := R\<rparr>)
             \<and> user_ready init_tree (kernel_page 9) ps' (kernel_page 13) 0x1F0000 (t\<lparr>mem := m', regs := R\<rparr>) \<and> (\<forall>x. x \<notin> page_span (kernel_page 13) \<longrightarrow> m' x = mem t x)
             \<and> (\<forall>r. r \<notin> set (RAX # RDI # arg_regs) \<longrightarrow> R r = regs ?s r))"
    unfolding Let_def by blast
  let ?s1 = "?s\<lparr>mem := M, regs := Q\<rparr>"
  have "call_function (simple_drive (small_disk 2)) (snd (system_calls ! 5)) arg ?s1 = ret (Done 0x3F9FC00, ?s1)"
    using r(3) by (simp add: system_call_table call_function_def SysMemInfo_def GetTotalMem_def)
  moreover have "kernel_page 13 \<notin> set (kernel_page 6 # spare_pages)" using r(1) by (simp add: user_ready_def)
  moreover have "kernel_kept (kernel_page 13) ?s1 ?s1" using looks_screen_ok [OF r(2)] by (intro kernel_kept_refl) (simp add: screen_ok_def)
  ultimately obtain m' R where "kernel_call (simple_drive (small_disk 2)) (of_nat 5) [] ?s = ret (int32 (of_int 0x3F9FC00), ?s1\<lparr>mem := m', regs := R\<rparr>)"
    "user_ready init_tree (kernel_page 9) (kernel_page 6 # spare_pages) (kernel_page 13) 0x1F0000 (?s1\<lparr>mem := m', regs := R\<rparr>)"
    "\<forall>r. r \<notin> set (RAX # RDI # arg_regs) \<longrightarrow> R r = regs ?s r" using c by blast
  moreover have "int32 (of_int 0x3F9FC00) = 0x3F9FC00" by (simp add: int32_def)
  moreover have "RBX \<notin> set (RAX # RDI # arg_regs)" by (simp add: arg_regs_def)
  ultimately show ?thesis by (intro exI [of _ ?s] exI [of _ "?s1\<lparr>mem := m', regs := R\<rparr>"]) simp
qed

end
