(* ===== verification/Spec2Isabelle.thy ===== *)
theory Spec2Isabelle
  imports C_String Linked_List Console Directory Kernel_Boot User_Example
begin

text \<open>
  A model of the x86-64 kernel of this repository, of its C library and of its user programs: the C code under
  \<open>src/kernel\<close>, \<open>src/libc\<close> and \<open>src/usr\<close>, with the assembly it calls. Definitions have the names of the C functions
  and follow them statement by statement; where a name is taken already a prefix or suffix is added
  (\<open>write_call\<close>, \<open>ls_GetRelativeFileName\<close>).

  \<^bold>\<open>The program.\<close> The boot loader leaves a memory map, the kernel and the image of the first program in memory and calls
  \<open>KMain\<close>. It fills the free list with 2 MB pages, makes a page map of the kernel half, mounts the FAT16 file system of the
  first disk, registers the system calls and makes two processes: the idle process, which is the boot code itself, and the init
  process, which is the shell. From then on the kernel runs in interrupts only. The timer wakes the sleepers and yields, the
  keyboard puts a character in a ring and wakes its readers, \<open>int 0x80\<close> is a system call, and an exception of a program ends the
  program. There is one processor; in the kernel interrupts are off except in the idle loop.

  \<^bold>\<open>Theories and code.\<close> Each theory imports those it calls; the root imports all.
  \<^item> \<open>Kernel_Prelude\<close>: machine integers, errors, the result type \<open>kres\<close> and its sequencing \<open>andthen\<close>, \<open>ASSERT\<close>.
    \<open>Byte_Memory\<close>: one byte for each 64-bit address, little-endian loads and stores, spans of addresses.
  \<^item> \<open>C_String\<close>: \<open>libc/ctype.c\<close>, \<open>string.c\<close>, \<open>strings.c\<close>. \<open>Linked_List\<close>: \<open>libc/list.c\<close> and the removal loop of
    \<open>RemoveProcessWithPID\<close>.
  \<^item> \<open>Console\<close>: \<open>kernel/printk.c\<close> and \<open>assert.c\<close>. \<open>Kernel_Messages\<close>: what a message of the kernel leaves alone.
  \<^item> \<open>Phys_Memory\<close>, \<open>Paging\<close>, \<open>Address_Space\<close>, \<open>Virtual_Memory\<close>: \<open>kernel/memory.c\<close>, from the free list, which is stored in the free
    pages, to whole address spaces. \<open>Boot_Memory\<close>: \<open>RetrieveMemoryInfo\<close> on a memory map of the BIOS.
  \<^item> \<open>Kernel_State\<close>: the statics of the other files on top of the memory. \<open>Context_Switch\<close>, \<open>Scheduler\<close>, \<open>Process\<close>, \<open>Process_Life\<close>,
    \<open>Process_Init\<close>, \<open>Process_Wait\<close>: \<open>kernel/process.c\<close> with \<open>ContextSwitch\<close> and \<open>TrapReturn\<close> of \<open>trap.asm\<close>.
  \<^item> \<open>Ports\<close>: \<open>kernel/io.h\<close>. \<open>Keyboard\<close>: \<open>kernel/keyboard.c\<close>. \<open>Disk\<close>: \<open>kernel/disk.c\<close>.
  \<^item> \<open>File_Table\<close>, \<open>File_System\<close>, \<open>Directory\<close>, \<open>File_Read\<close>, \<open>Exec\<close>: \<open>kernel/file.c\<close> and \<open>Exec\<close> of \<open>process.c\<close>;
    \<open>User_Memory\<close>: the accesses of the kernel through pointers of a program.
  \<^item> \<open>System_Calls\<close>: \<open>kernel/syscall.c\<close>. \<open>Trap\<close>: \<open>kernel/trap.c\<close> and \<open>main.c\<close>. \<open>System_Interface\<close>: the gates, the table and the numbers.
  \<^item> \<open>Kernel_Frames\<close>, \<open>System_Invariant\<close>, \<open>System_Run\<close>, \<open>Kernel_Boot\<close>: the kernel as a whole, running and starting.
  \<^item> \<open>User_Calls\<close>: \<open>usr/runtime/syscall.asm\<close>, \<open>unistd.c\<close>, \<open>stat.c\<close>, \<open>start.asm\<close> and the entry of \<open>kernel/trap.asm\<close>. \<open>User_Printf\<close>,
    \<open>User_Services\<close>: \<open>usr/runtime/stdio.c\<close>. \<open>User_Shell\<close>: \<open>usr/shell.c\<close>. \<open>User_Commands\<close>: \<open>usr/cmd\<close> and the test programs.
  \<^item> \<open>Simulation\<close>: the contract of a component with its specification. \<open>File_Example\<close>, \<open>User_Example\<close>: concrete machines that meet
    the hypotheses of the properties.

  \<^bold>\<open>State.\<close> The state is one record that grows with the components: \<open>machine\<close> is the memory, \<open>console\<close> adds the cursor, \<open>kmem\<close> the statics of
  \<open>memory.c\<close> and CR3, \<open>kernel\<close> the statics of the other files, the registers and the stack in the task state segment,
  \<open>io_kernel\<close> the state \<open>dev\<close> of the devices. Page tables, kernel stacks, trap frames, sector buffers, user pages and the screen
  are bytes in the memory at their addresses. Statics of the kernel are fields of the record and not in that memory; a user pointer into them is
  not modelled as an alias. A \<open>Process *\<close>, \<open>FCB *\<close> or \<open>FD *\<close> is the index in its table, and the null pointer is \<open>None\<close>. The memory is
  addressed as the kernel half maps it; the map of the BIOS, which the code reads at a low physical address, is read through that half too.

  \<^bold>\<open>Addresses of the kernel half.\<close> A pointer of a program is translated by \<open>resolve\<close> through the loaded page map. A load or store of the kernel to
  its own half is not: the model takes it for granted that the map in force has the page. What the code must do for this is proved
  in \<open>KMain_boots\<close>: the map that is loaded translates the kernel, all pages of the allocator and every byte the start has changed, and
  \<open>process_address_space\<close> shows that the map of a process has the same kernel half, up to the same noted end of memory. All pages
  that are in use later come from the allocator.

  \<^bold>\<open>Outcomes.\<close> An operation returns \<open>ret x\<close>, stops with \<open>fails e\<close>, or \<open>diverges\<close>. An error is a failed assertion, which makes the
  kernel panic, or something C leaves undefined: a null pointer, an index out of bounds, a wrong variable argument, a division by
  zero, a signed overflow, a page fault in the kernel. A loop whose end the code does not guarantee is a \<open>partial_function\<close>, so that not
  returning is the value \<open>diverges\<close>; the others are recursions on their counters or have a termination proof. There is no fuel. A function that
  switches processes ends in the state in which the other process goes on. A system call that sleeps leaves its local variables as a
  \<open>continuation\<close>, and \<open>resume\<close> is the rest of it.

  \<^bold>\<open>Parameters.\<close> The devices are a value of type \<open>ports\<close>: any function that answers reads and takes writes. What the disk driver needs of the drive,
  the PIO protocol and its sectors, is the hypothesis \<open>ata_drive\<close>, which \<open>simple_drive\<close> meets. The addresses of the entry points in the assembly, of
  \<open>TrapReturn\<close> and of the end of the kernel are constants of the run. A user program gets the way into the kernel as the parameter
  \<open>call\<close>, and the places where its compiler puts its arrays in the user page.

  \<^bold>\<open>What is shown.\<close>
  \<^item> \<^emph>\<open>The running kernel.\<close> \<open>sys_step\<close> is one step of the machine: a program whose code is not known computes and changes its memory and registers, or
    an interrupt that the descriptor table lets it raise is handled to its end or to a sleep. In every \<open>reachable\<close> state the process lists, the states
    and the open counts agree, a sleeping call waits for the event noted in its process, its event makes it ready, and the
    timer and keyboard interrupts return. \<open>KMain\<close> returns on every boot memory, memory map and FAT16 boot sector that meet its
    hypotheses, and from the state it leaves the reachable states start. One hypothesis is that the BIOS lists the usable regions in
    increasing order: on other maps the code notes a wrong end of memory and leaves pages of the allocator without a map.
  \<^item> \<^emph>\<open>Scheduler and processes.\<close> The operations on the lists in memory implement queues (\<open>simulation\<close>, \<open>scheduler\<close>); a ready process runs
    in turn and a killed one never; a switch away and back restores the registers; a new process starts in ring 3 at its
    first byte, a child of \<open>Fork\<close> goes on where its parent did, with 0; \<open>Wait\<close> and a failing \<open>CreateNewProcess\<close> give everything back.
  \<^item> \<^emph>\<open>Memory.\<close> The allocator keeps a list of distinct pages (\<open>page_allocator\<close>, \<open>pages\<close>); \<open>mmu\<close>, the translation of the processor, of a new map gives
    the kernel half and one user page; no page is lost or given back twice.
  \<^item> \<^emph>\<open>Devices and files.\<close> The keyboard interrupt and its readers, from the test of the ring over the sleep to the return, implement a bounded
    queue with the modifier state (\<open>keyboard_driver\<close>) as long as only one process reads at a time; the disk driver
    reads what the drive holds; search, \<open>Open\<close>, \<open>Read\<close>, \<open>Exec\<close> do on the disk what they do on the list of its directory
    entries and the bytes of its clusters.
  \<^item> \<^emph>\<open>User programs.\<close> A system call delivers its arguments and restores the registers; \<open>terminal_service\<close> and \<open>file_service\<close> are what programs rely on, and the
    interpretations \<open>os\<close> and \<open>files\<close> show that the kernel keeps these contracts, from the stub to the screen and the ring. Under them \<open>printf\<close> shows its text, the line
    editor of the shell edits, and the shell answers. Well-typed formats never read a wrong argument.
  \<^item> \<^emph>\<open>Where the code fails.\<close> Some properties state what the code does and should not: two readers break the ring, a read across a cluster
    leaks a page, \<open>sprintk\<close> misplaces its terminator, the shell opens the rest of an older command.

  \<^bold>\<open>Bounds.\<close> Addresses and registers are 64-bit words and wrap; C ints that can leave their range are cut or checked where they can
  (\<open>int32\<close>, \<open>int16\<close>, \<open>int_product\<close>); the negation of the least 64-bit integer in the \<open>%d\<close> directives wraps; process numbers and open counts are integers. Buffers have the sizes of the code: 1024 bytes of
  \<open>printk\<close> and \<open>printf\<close>, 70 of an exception message, 500 keys, 80 characters of a command.

  \<^bold>\<open>Not modelled.\<close>
  \<^item> The boot sectors, \<open>kernel/kernel.asm\<close>, the first instructions of the interrupt entries and the loads of GDT, IDT and TSS: code that runs before
    \<open>KMain\<close> or between the C functions. What the C code relies on is modelled (\<open>TrapEntry\<close>, \<open>TrapReturn\<close>, \<open>ContextSwitch\<close>, CR3, the ports).
  \<^item> \<open>OutWord\<close>, which nothing calls; the FAT itself, which the code never reads; time stamps beyond what \<open>ls\<close> prints.
  \<^item> The C++ runtime \<open>iostream.cc\<close>, \<open>symbols.cc\<close> and \<open>process2.cpp\<close>.
  \<^item> The return addresses of the calls inside a user program and the registers its compiler uses: the programs are modelled by what they do to memory and
    to the kernel. The child of \<open>fork\<close> goes on as another process; a call in which it gets 0 is a \<open>call\<close> that answers 0.
  \<^item> Caches and the translation look-aside buffer: a changed table entry takes effect at once.
\<close>

end
